(* ===== verification/Talk_Prelude.thy ===== *)
theory Talk_Prelude
  imports Main "HOL-Library.Word"
begin

text \<open>
  Shared ground of the development: the outcome type of a C++ call (a value, or the fault that
  ends the normal flow), the fragment of \<open>std::vector\<close> and of \<open>size_t\<close> arithmetic the network
  code uses, decimal printing as \<open>printf\<close> does it, and generic lemmas on lists and maps.

  The collections \<open>buffer_simps\<close>, \<open>channel_simps\<close>, \<open>conn_simps\<close>, \<open>cfg_simps\<close> and
  \<open>pool_simps\<close> gather the unfolding facts of the components, so that their proofs name one
  collection.
\<close>

named_theorems buffer_simps
named_theorems channel_simps
named_theorems conn_simps
named_theorems cfg_simps
named_theorems pool_simps

section \<open>Outcomes of a call\<close>

type_synonym bytes = "char list"

text \<open>
  What ends a call without a value: \<open>LOG_FATAL\<close> (which calls \<open>exit(-1)\<close>), the exception of a
  vector that is resized beyond its maximal size, the exception of an empty \<open>std::function\<close> that
  is called, another exception that nothing catches, and behaviour the C++ standard leaves undefined (an access outside an object, a null
  or dangling pointer).
\<close>

datatype fault = Fatal_Exit | Length_Error | Bad_Function_Call | Uncaught_Exception | Undefined_Behaviour

type_synonym 'a res = "fault + 'a"

definition res_bind :: "'a res \<Rightarrow> ('a \<Rightarrow> 'b res) \<Rightarrow> 'b res" where
  "res_bind m f = (case m of Inl e \<Rightarrow> Inl e | Inr x \<Rightarrow> f x)"

fun fold_res :: "('a \<Rightarrow> 's \<Rightarrow> 's res) \<Rightarrow> 'a list \<Rightarrow> 's \<Rightarrow> 's res" where
  "fold_res f [] s = Inr s"
| "fold_res f (x # xs) s = res_bind (f x s) (fold_res f xs)"

lemma res_bind_Inl [simp]: "res_bind (Inl e) f = Inl e"
  by (simp add: res_bind_def)

lemma res_bind_Inr [simp]: "res_bind (Inr x) f = f x"
  by (simp add: res_bind_def)

lemma res_bind_eq_Inr: "res_bind m f = Inr y \<longleftrightarrow> (\<exists>x. m = Inr x \<and> f x = Inr y)"
  by (auto simp: res_bind_def split: sum.splits)

lemma res_bind_eq_Inl: "res_bind m f = Inl e \<longleftrightarrow> m = Inl e \<or> (\<exists>x. m = Inr x \<and> f x = Inl e)"
  by (auto simp: res_bind_def split: sum.splits)

lemma res_bind_cong:
  assumes "m = m'" and "\<And>x. m' = Inr x \<Longrightarrow> f x = g x"
  shows "res_bind m f = res_bind m' g"
  using assms by (auto simp: res_bind_def split: sum.splits)

lemma res_bind_return [simp]: "res_bind m Inr = m"
  by (simp add: res_bind_def split: sum.splits)

lemma res_bind_assoc: "res_bind (res_bind m f) g = res_bind m (\<lambda>x. res_bind (f x) g)"
  by (auto simp: res_bind_def split: sum.splits)

lemma res_bindE:
  assumes "res_bind m f = Inr y"
  obtains x where "m = Inr x" and "f x = Inr y"
  using assms by (auto simp: res_bind_eq_Inr)

text \<open>A call that can fail only the ways the program announces: it ends the process on purpose, or a vector
  or string would exceed its maximal size. \<open>Net_Run\<close> shows this of the whole server.\<close>

definition res_ok :: "('a \<Rightarrow> bool) \<Rightarrow> 'a res \<Rightarrow> bool" where
  "res_ok P r \<longleftrightarrow> (case r of Inl e \<Rightarrow> e = Fatal_Exit \<or> e = Length_Error | Inr x \<Rightarrow> P x)"

lemma res_ok_simps [simp]:
  "res_ok P (Inr x) \<longleftrightarrow> P x" "res_ok P (Inl e) \<longleftrightarrow> e = Fatal_Exit \<or> e = Length_Error"
  by (simp_all add: res_ok_def)

lemma res_ok_bind:
  assumes "res_ok P m" and "\<And>x. m = Inr x \<Longrightarrow> P x \<Longrightarrow> res_ok Q (f x)"
  shows "res_ok Q (res_bind m f)"
  using assms by (auto simp: res_ok_def res_bind_def split: sum.splits)

lemma res_ok_mono: "res_ok P m \<Longrightarrow> (\<And>x. m = Inr x \<Longrightarrow> P x \<Longrightarrow> Q x) \<Longrightarrow> res_ok Q m"
  by (auto simp: res_ok_def split: sum.splits)

lemma res_ok_Inl: "res_ok P m \<Longrightarrow> m = Inl e \<Longrightarrow> e = Fatal_Exit \<or> e = Length_Error"
  by simp

lemma res_ok_Inr: "res_ok P m \<Longrightarrow> m = Inr x \<Longrightarrow> P x"
  by simp

lemma res_ok_iff: "res_ok P m \<longleftrightarrow> (\<forall>e. m = Inl e \<longrightarrow> e = Fatal_Exit \<or> e = Length_Error) \<and> (\<forall>x. m = Inr x \<longrightarrow> P x)"
  by (cases m) auto

text \<open>An invariant that every element keeps is kept by the whole loop.\<close>

lemma fold_res_inv:
  assumes "fold_res f xs s = Inr s'" and "P s"
    and "\<And>x s s'. x \<in> set xs \<Longrightarrow> P s \<Longrightarrow> f x s = Inr s' \<Longrightarrow> P s'"
  shows "P s'"
  using assms
proof (induction xs arbitrary: s)
  case Nil
  then show ?case by simp
next
  case (Cons x xs)
  from Cons.prems(1) obtain t where t: "f x s = Inr t" "fold_res f xs t = Inr s'"
    by (auto elim: res_bindE)
  have "P t" by (rule Cons.prems(3) [OF _ Cons.prems(2) t(1)]) simp
  then show ?case using t(2) Cons.prems(3) by (intro Cons.IH) auto
qed

lemma fold_res_append:
  "fold_res f (xs @ ys) s = res_bind (fold_res f xs s) (fold_res f ys)"
  by (induction xs arbitrary: s) (auto simp: res_bind_def split: sum.splits)

section \<open>\<open>size_t\<close> arithmetic\<close>

text \<open>A \<open>size_t\<close> is a natural number below \<open>2 ^ 64\<close>; its sum and difference wrap around.\<close>

definition size_add :: "nat \<Rightarrow> nat \<Rightarrow> nat" where
  "size_add a b = (a + b) mod 2 ^ 64"

definition size_sub :: "nat \<Rightarrow> nat \<Rightarrow> nat" where
  "size_sub a b = (a + (2 ^ 64 - b)) mod 2 ^ 64"

lemma size_add_small: "a + b < 2 ^ 64 \<Longrightarrow> size_add a b = a + b"
  by (simp add: size_add_def)

lemma size_sub_le:
  assumes "b \<le> a" and "a < 2 ^ 64"
  shows "size_sub a b = a - b"
proof -
  have eq: "a + (2 ^ 64 - b) = (a - b) + 2 ^ 64"
    using assms by simp
  have "a - b < 2 ^ 64"
    using assms by simp
  then show ?thesis
    unfolding size_sub_def eq by simp
qed

section \<open>Vectors\<close>

text \<open>
  \<open>std::vector<char>\<close>: the largest size, \<open>resize\<close> (which value-initialises new elements and
  throws \<open>std::length_error\<close> beyond the largest size) and \<open>std::copy\<close> into the storage at an
  index, undefined when the range leaves the storage.
\<close>

definition vector_max :: nat where
  "vector_max = 2 ^ 63 - 1"

definition vec_resize :: "bytes \<Rightarrow> nat \<Rightarrow> bytes res" where
  "vec_resize v n =
     (if vector_max < n then Inl Length_Error
      else Inr (take n v @ replicate (n - length v) (CHR 0x00)))"

definition vec_write :: "bytes \<Rightarrow> nat \<Rightarrow> bytes \<Rightarrow> bytes res" where
  "vec_write v i ds =
     (if i + length ds \<le> length v then Inr (take i v @ ds @ drop (i + length ds) v)
      else Inl Undefined_Behaviour)"

definition vec_read :: "bytes \<Rightarrow> nat \<Rightarrow> nat \<Rightarrow> bytes res" where
  "vec_read v i n =
     (if i + n \<le> length v then Inr (take n (drop i v)) else Inl Undefined_Behaviour)"

lemma vec_write_Inr:
  "i + length ds \<le> length v \<Longrightarrow> vec_write v i ds = Inr (take i v @ ds @ drop (i + length ds) v)"
  by (simp add: vec_write_def)

lemma vec_read_Inr: "i + n \<le> length v \<Longrightarrow> vec_read v i n = Inr (take n (drop i v))"
  by (simp add: vec_read_def)

text \<open>Reading a window of a list that was written at an index.\<close>

lemma drop_take_append_window:
  assumes "r \<le> w" and "w \<le> length v"
  shows "take (w + length ds - r) (drop r (take w v @ ds @ xs)) = take (w - r) (drop r v) @ ds"
proof -
  have "drop r (take w v @ ds @ xs) = take (w - r) (drop r v) @ ds @ xs"
    using assms by (simp add: drop_take)
  moreover have "length (take (w - r) (drop r v)) = w - r"
    using assms by simp
  moreover have "w + length ds - r = (w - r) + length ds"
    using assms by simp
  ultimately show ?thesis by simp
qed

section \<open>Decimal numbers\<close>

text \<open>\<open>printf\<close>'s \<open>%u\<close> on a natural number and \<open>%d\<close> on an integer.\<close>

definition digit_char :: "nat \<Rightarrow> char" where
  "digit_char d = char_of (48 + d)"

fun show_nat :: "nat \<Rightarrow> string" where
  "show_nat n = (if n < 10 then [digit_char n] else show_nat (n div 10) @ [digit_char (n mod 10)])"

declare show_nat.simps [simp del]

definition show_int :: "int \<Rightarrow> string" where
  "show_int i = (if i < 0 then CHR ''-'' # show_nat (nat (- i)) else show_nat (nat i))"

definition is_digit :: "char \<Rightarrow> bool" where
  "is_digit c \<longleftrightarrow> 48 \<le> (of_char c :: nat) \<and> (of_char c :: nat) < 58"

definition digit_val :: "char \<Rightarrow> nat" where
  "digit_val c = of_char c - 48"

text \<open>The value of a run of digits, as \<open>strtol\<close> accumulates it.\<close>

definition digits_val :: "string \<Rightarrow> nat" where
  "digits_val ds = foldl (\<lambda>n c. 10 * n + digit_val c) 0 ds"

lemma of_char_digit [simp]: "d < 10 \<Longrightarrow> of_char (digit_char d) = (48 + d :: nat)"
  by (simp add: digit_char_def of_char_of)

lemma is_digit_digit_char [simp]: "d < 10 \<Longrightarrow> is_digit (digit_char d)"
  by (simp add: is_digit_def)

lemma digit_val_digit_char [simp]: "d < 10 \<Longrightarrow> digit_val (digit_char d) = d"
  by (simp add: digit_val_def)

lemma show_nat_digits: "c \<in> set (show_nat n) \<Longrightarrow> is_digit c"
proof (induction n rule: show_nat.induct)
  case (1 n)
  show ?case
  proof (cases "n < 10")
    case True
    with "1.prems" show ?thesis by (simp add: show_nat.simps [of n])
  next
    case False
    with "1.prems" have "c \<in> set (show_nat (n div 10)) \<or> c = digit_char (n mod 10)"
      by (auto simp: show_nat.simps [of n])
    with False "1.IH" show ?thesis by auto
  qed
qed

lemma digits_val_snoc [simp]: "digits_val (ds @ [c]) = 10 * digits_val ds + digit_val c"
  by (simp add: digits_val_def)

lemma digits_val_show_nat [simp]: "digits_val (show_nat n) = n"
proof (induction n rule: show_nat.induct)
  case (1 n)
  show ?case
  proof (cases "n < 10")
    case True
    then show ?thesis by (simp add: show_nat.simps [of n] digits_val_def)
  next
    case False
    with "1.IH" have "digits_val (show_nat (n div 10)) = n div 10" by simp
    with False show ?thesis by (simp add: show_nat.simps [of n])
  qed
qed

lemma show_nat_inject [simp]: "show_nat m = show_nat n \<longleftrightarrow> m = n"
  by (metis digits_val_show_nat)

lemma show_nat_not_Nil [simp]: "show_nat n \<noteq> []"
  by (subst show_nat.simps) simp

lemma length_show_nat_le: "n < 10 ^ k \<Longrightarrow> 0 < k \<Longrightarrow> length (show_nat n) \<le> k"
proof (induction k arbitrary: n)
  case 0
  then show ?case by simp
next
  case (Suc k)
  show ?case
  proof (cases "n < 10")
    case True
    then show ?thesis by (simp add: show_nat.simps [of n])
  next
    case False
    with Suc.prems have k: "0 < k" by (cases k) auto
    have "n div 10 < 10 ^ k" using Suc.prems(1) by (simp add: less_mult_imp_div_less mult.commute)
    then have "length (show_nat (n div 10)) \<le> k" using k by (rule Suc.IH)
    with False show ?thesis by (simp add: show_nat.simps [of n])
  qed
qed

lemma show_int_nonneg: "0 \<le> i \<Longrightarrow> show_int i = show_nat (nat i)"
  by (simp add: show_int_def)

text \<open>A separator that is no digit splits a printed number from what precedes it.\<close>

lemma sep_append_inject:
  assumes "ds @ sep # a = es @ sep # b" and "sep \<notin> set ds" and "sep \<notin> set es"
  shows "ds = es \<and> a = b"
  using assms
proof (induction ds arbitrary: es)
  case Nil
  then show ?case by (cases es) auto
next
  case (Cons d ds)
  then obtain es' where "es = d # es'" by (cases es) auto
  with Cons show ?case by auto
qed

text \<open>Cutting a text at its first separator.\<close>

lemma takeWhile_sep [simp]: "sep \<notin> set ds \<Longrightarrow> takeWhile (\<lambda>c. c \<noteq> sep) (ds @ sep # a) = ds"
  by (induction ds) auto

lemma takeWhile_no_sep [simp]: "sep \<notin> set ds \<Longrightarrow> takeWhile (\<lambda>c. c \<noteq> sep) ds = ds"
  by (induction ds) auto

lemma dropWhile_sep [simp]: "sep \<notin> set ds \<Longrightarrow> dropWhile (\<lambda>c. c \<noteq> sep) (ds @ sep # a) = sep # a"
  by (induction ds) auto

lemma dropWhile_no_sep [simp]: "sep \<notin> set ds \<Longrightarrow> dropWhile (\<lambda>c. c \<noteq> sep) ds = []"
  by (induction ds) auto

lemma append_sep_inject:
  assumes "a @ sep # ds = b @ sep # es" and "sep \<notin> set ds" and "sep \<notin> set es"
  shows "a = b \<and> ds = es"
proof -
  have "rev ds @ sep # rev a = rev es @ sep # rev b"
    using arg_cong [OF assms(1), of rev] by simp
  then show ?thesis
    using sep_append_inject [of "rev ds" sep "rev a" "rev es" "rev b"] assms(2,3) by simp
qed

section \<open>Reading numbers\<close>

text \<open>\<open>atoi\<close>: leading white space, a sign, digits; the value is clamped to \<open>long\<close> as \<open>strtol\<close> does and
  then converted to \<open>int\<close>.\<close>

definition is_space :: "char \<Rightarrow> bool" where
  "is_space c \<longleftrightarrow> c = CHR '' '' \<or> (9 \<le> (of_char c :: nat) \<and> (of_char c :: nat) \<le> 13)"

definition to_int32 :: "int \<Rightarrow> int" where
  "to_int32 i = (i + 2 ^ 31) mod 2 ^ 32 - 2 ^ 31"

definition strtol_val :: "string \<Rightarrow> int" where
  "strtol_val s =
     (let t = dropWhile is_space s;
          neg = (t \<noteq> [] \<and> hd t = CHR ''-'');
          u = (if t \<noteq> [] \<and> (hd t = CHR ''-'' \<or> hd t = CHR ''+'') then tl t else t);
          n = int (digits_val (takeWhile is_digit u));
          i = (if neg then - n else n)
      in max (- (2 ^ 63)) (min (2 ^ 63 - 1) i))"

definition atoi :: "string \<Rightarrow> int" where
  "atoi s = to_int32 (strtol_val s)"

lemma to_int32_id: "- (2 ^ 31) \<le> i \<Longrightarrow> i < 2 ^ 31 \<Longrightarrow> to_int32 i = i"
  by (simp add: to_int32_def)

lemma is_digit_not_space: "is_digit c \<Longrightarrow> \<not> is_space c"
  by (auto simp: is_digit_def is_space_def)

lemma takeWhile_show_nat [simp]: "takeWhile is_digit (show_nat n) = show_nat n"
  using show_nat_digits by (simp add: takeWhile_eq_all_conv)

lemma atoi_show_nat: "n < 2 ^ 31 \<Longrightarrow> atoi (show_nat n) = int n"
proof -
  assume n: "n < 2 ^ 31"
  obtain c cs where s: "show_nat n = c # cs" by (cases "show_nat n") auto
  have d: "is_digit c" using show_nat_digits [of c n] s by simp
  have "\<not> is_space c" using d by (rule is_digit_not_space)
  moreover have "c \<noteq> CHR ''-''" "c \<noteq> CHR ''+''" using d by (auto simp: is_digit_def)
  ultimately have "strtol_val (show_nat n) = max (- (2 ^ 63)) (min (2 ^ 63 - 1) (int n))"
    using takeWhile_show_nat [of n] digits_val_show_nat [of n] by (simp add: strtol_val_def s Let_def)
  with n show ?thesis by (simp add: atoi_def to_int32_id)
qed

section \<open>C texts\<close>

text \<open>\<open>snprintf\<close> into an array of a given size keeps what fits before the terminating zero.\<close>

definition snprintf :: "nat \<Rightarrow> string \<Rightarrow> string" where
  "snprintf n out = take (n - 1) out"

text \<open>The text a \<open>c_str()\<close> is printed as ends at its first zero.\<close>

definition c_str :: "string \<Rightarrow> string" where
  "c_str s = takeWhile (\<lambda>c. c \<noteq> CHR 0x00) s"

end
