(* ===== verification/Net_Buffer.thy ===== *)
theory Net_Buffer
  imports Talk_Prelude
begin

text \<open>
  The byte buffer of the network library (\<open>common/net/Buffer.h\<close>, \<open>Buffer.cc\<close>): a vector with a
  reader and a writer index. The record keeps the three members; the operations compute with
  \<open>size_t\<close> arithmetic and report an index outside the vector as undefined behaviour.
  \<open>contents\<close> is what the class promises to hold, the bytes between the two indices, and the
  locale \<open>byte_queue\<close> is the contract its clients rely on.
\<close>

section \<open>The model\<close>

definition kCheapPrepend :: nat where
  "kCheapPrepend = 8"

definition kInitialSize :: nat where
  "kInitialSize = 1024"

definition extrabuf_size :: nat where
  "extrabuf_size = 65536"

record buffer =
  buffer_vec :: bytes
  readerIndex :: nat
  writerIndex :: nat

definition Buffer :: "nat \<Rightarrow> buffer res" where
  "Buffer initialSize =
     res_bind (vec_resize [] (size_add kCheapPrepend initialSize)) (\<lambda>v.
       Inr \<lparr>buffer_vec = v, readerIndex = kCheapPrepend, writerIndex = kCheapPrepend\<rparr>)"

definition readableBytes :: "buffer \<Rightarrow> nat" where
  "readableBytes b = size_sub (writerIndex b) (readerIndex b)"

definition writableBytes :: "buffer \<Rightarrow> nat" where
  "writableBytes b = size_sub (length (buffer_vec b)) (writerIndex b)"

definition prependableBytes :: "buffer \<Rightarrow> nat" where
  "prependableBytes b = readerIndex b"

text \<open>The pointers \<open>peek()\<close> and \<open>beginWrite()\<close> as offsets from the start of the storage.\<close>

definition peek :: "buffer \<Rightarrow> nat" where
  "peek b = readerIndex b"

definition beginWrite :: "buffer \<Rightarrow> nat" where
  "beginWrite b = writerIndex b"

definition retrieveAll :: "buffer \<Rightarrow> buffer" where
  "retrieveAll b = b\<lparr>readerIndex := kCheapPrepend, writerIndex := kCheapPrepend\<rparr>"

definition retrieve :: "buffer \<Rightarrow> nat \<Rightarrow> buffer" where
  "retrieve b len =
     (if len < readableBytes b then b\<lparr>readerIndex := size_add (readerIndex b) len\<rparr>
      else retrieveAll b)"

definition retrieveAsString :: "buffer \<Rightarrow> nat \<Rightarrow> (bytes \<times> buffer) res" where
  "retrieveAsString b len =
     res_bind (vec_read (buffer_vec b) (peek b) len) (\<lambda>result.
       Inr (result, retrieve b len))"

definition retrieveAllAsString :: "buffer \<Rightarrow> (bytes \<times> buffer) res" where
  "retrieveAllAsString b = retrieveAsString b (readableBytes b)"

text \<open>
  \<open>makeSpace\<close> grows the vector, or moves the readable bytes back to offset \<open>kCheapPrepend\<close> when
  the free space before and after them is enough.
\<close>

definition makeSpace :: "buffer \<Rightarrow> nat \<Rightarrow> buffer res" where
  "makeSpace b len =
     (if size_add (writableBytes b) (prependableBytes b) < size_add len kCheapPrepend then
        res_bind (vec_resize (buffer_vec b) (size_add (writerIndex b) len)) (\<lambda>v.
          Inr (b\<lparr>buffer_vec := v\<rparr>))
      else
        let readalbe = readableBytes b in
        res_bind (vec_read (buffer_vec b) (readerIndex b) readalbe) (\<lambda>ds.
        res_bind (vec_write (buffer_vec b) kCheapPrepend ds) (\<lambda>v.
          Inr (b\<lparr>buffer_vec := v, readerIndex := kCheapPrepend,
                 writerIndex := size_add kCheapPrepend readalbe\<rparr>))))"

definition ensureWriteableBytes :: "buffer \<Rightarrow> nat \<Rightarrow> buffer res" where
  "ensureWriteableBytes b len = (if writableBytes b < len then makeSpace b len else Inr b)"

definition append_buf :: "buffer \<Rightarrow> bytes \<Rightarrow> buffer res" where
  "append_buf b data =
     res_bind (ensureWriteableBytes b (length data)) (\<lambda>b1.
     res_bind (vec_write (buffer_vec b1) (beginWrite b1) data) (\<lambda>v.
       Inr (b1\<lparr>buffer_vec := v, writerIndex := size_add (writerIndex b1) (length data)\<rparr>)))"

text \<open>
  \<open>readFd\<close> scatters one \<open>readv\<close> over the writable bytes and a 64 KiB array on the stack. The
  system call is the argument \<open>readv\<close>: given the lengths of the blocks it answers with
  \<open>Inl errno\<close> or with the bytes it stored. The result is the return value \<open>n\<close>, the saved
  \<open>errno\<close> and the buffer.
\<close>

definition readFd_blocks :: "buffer \<Rightarrow> nat list" where
  "readFd_blocks b =
     (if writableBytes b < extrabuf_size then [writableBytes b, extrabuf_size]
      else [writableBytes b])"

definition readFd :: "(nat list \<Rightarrow> int + bytes) \<Rightarrow> buffer \<Rightarrow> (int \<times> int option \<times> buffer) res" where
  "readFd readv b =
     (let writable = writableBytes b in
      case readv (readFd_blocks b) of
        Inl errno \<Rightarrow> Inr (-1, Some errno, b)
      | Inr ds \<Rightarrow>
          res_bind (vec_write (buffer_vec b) (writerIndex b) (take writable ds)) (\<lambda>v.
            if length ds \<le> writable then
              Inr (int (length ds), None,
                   b\<lparr>buffer_vec := v, writerIndex := size_add (writerIndex b) (length ds)\<rparr>)
            else
              res_bind (append_buf (b\<lparr>buffer_vec := v, writerIndex := length v\<rparr>)
                               (drop writable ds)) (\<lambda>b'.
                Inr (int (length ds), None, b'))))"

text \<open>
  \<open>writeFd\<close> passes the readable bytes to \<open>write\<close>, which answers with \<open>Inl errno\<close> or with the
  number of bytes it took, and with the state of the kernel. The buffer itself is not changed: the
  caller retrieves.
\<close>

definition writeFd :: "(bytes \<Rightarrow> (int + nat) \<times> 'k) \<Rightarrow> buffer \<Rightarrow> (int \<times> int option \<times> 'k) res" where
  "writeFd write b =
     res_bind (vec_read (buffer_vec b) (peek b) (readableBytes b)) (\<lambda>ds.
       case write ds of
         (Inl errno, k') \<Rightarrow> Inr (-1, Some errno, k')
       | (Inr n, k') \<Rightarrow> Inr (int n, None, k'))"

section \<open>Well-formed buffers and their contents\<close>

definition wf_buffer :: "buffer \<Rightarrow> bool" where
  "wf_buffer b \<longleftrightarrow>
     kCheapPrepend \<le> readerIndex b \<and> readerIndex b \<le> writerIndex b \<and>
     writerIndex b \<le> length (buffer_vec b) \<and> length (buffer_vec b) \<le> vector_max"

definition contents :: "buffer \<Rightarrow> bytes" where
  "contents b = take (writerIndex b - readerIndex b) (drop (readerIndex b) (buffer_vec b))"

text \<open>What \<open>readv\<close> documents: it never stores more bytes than the blocks hold.\<close>

definition readv_ok :: "(nat list \<Rightarrow> int + bytes) \<Rightarrow> bool" where
  "readv_ok readv \<longleftrightarrow> (\<forall>iov ds. readv iov = Inr ds \<longrightarrow> length ds \<le> sum_list iov)"

section \<open>Sequences of operations\<close>

text \<open>
  A session with a buffer, for statements about the order of bytes: appends, reads from a
  descriptor, and strings retrieved from the front (never more than is readable, as the callers
  do). One step reports the bytes that entered and the bytes that left.
\<close>

datatype buf_op = Op_append bytes | Op_readFd "nat list \<Rightarrow> int + bytes" | Op_retrieve nat

fun buf_step :: "buf_op \<Rightarrow> buffer \<Rightarrow> (bytes \<times> bytes \<times> buffer) res" where
  "buf_step (Op_append ds) b = res_bind (append_buf b ds) (\<lambda>b'. Inr (ds, [], b'))"
| "buf_step (Op_readFd readv) b =
     res_bind (readFd readv b) (\<lambda>(n, e, b').
       Inr (case readv (readFd_blocks b) of Inl _ \<Rightarrow> [] | Inr ds \<Rightarrow> ds, [], b'))"
| "buf_step (Op_retrieve n) b =
     res_bind (retrieveAsString b (min n (readableBytes b))) (\<lambda>(out, b'). Inr ([], out, b'))"

fun buf_run :: "buf_op list \<Rightarrow> buffer \<Rightarrow> (bytes \<times> bytes \<times> buffer) res" where
  "buf_run [] b = Inr ([], [], b)"
| "buf_run (x # xs) b =
     res_bind (buf_step x b) (\<lambda>(i, out, b1).
     res_bind (buf_run xs b1) (\<lambda>(i', out', b2). Inr (i @ i', out @ out', b2)))"

text \<open>Operations within their documented bounds.\<close>

fun buf_op_ok :: "buf_op \<Rightarrow> bool" where
  "buf_op_ok (Op_append ds) \<longleftrightarrow> length ds \<le> vector_max"
| "buf_op_ok (Op_readFd readv) \<longleftrightarrow> readv_ok readv"
| "buf_op_ok (Op_retrieve n) \<longleftrightarrow> True"

text \<open>How much an operation may add to the vector: what it stores, and for a read the overflow block.\<close>

fun op_room :: "buf_op \<Rightarrow> nat" where
  "op_room (Op_append ds) = length ds"
| "op_room (Op_readFd readv) = extrabuf_size"
| "op_room (Op_retrieve n) = 0"

lemmas buffer_consts = kCheapPrepend_def kInitialSize_def extrabuf_size_def vector_max_def

lemma wf_bufferD:
  assumes "wf_buffer b"
  shows "8 \<le> readerIndex b" "readerIndex b \<le> writerIndex b"
    "writerIndex b \<le> length (buffer_vec b)" "length (buffer_vec b) \<le> 2 ^ 63 - 1"
    "length (buffer_vec b) < 2 ^ 64" "writerIndex b < 2 ^ 64" "readerIndex b < 2 ^ 64"
  using assms by (auto simp: wf_buffer_def buffer_consts)

lemma length_contents [simp]:
  "wf_buffer b \<Longrightarrow> length (contents b) = writerIndex b - readerIndex b"
  using wf_bufferD [of b] by (simp add: contents_def)

lemma readableBytes_wf: "wf_buffer b \<Longrightarrow> readableBytes b = length (contents b)"
  using wf_bufferD [of b] by (simp add: readableBytes_def size_sub_le)

lemma readableBytes_diff: "wf_buffer b \<Longrightarrow> readableBytes b = writerIndex b - readerIndex b"
  using wf_bufferD [of b] by (simp add: readableBytes_def size_sub_le)

lemma writableBytes_wf:
  "wf_buffer b \<Longrightarrow> writableBytes b = length (buffer_vec b) - writerIndex b"
  using wf_bufferD [of b] by (simp add: writableBytes_def size_sub_le)

lemma contents_eq_Nil: "wf_buffer b \<Longrightarrow> contents b = [] \<longleftrightarrow> readableBytes b = 0"
  using readableBytes_wf [of b] by (metis length_0_conv)

lemma contents_take_drop:
  assumes "wf_buffer b"
  shows "contents b = take (readableBytes b) (drop (peek b) (buffer_vec b))"
  using assms by (simp add: contents_def readableBytes_diff peek_def)

section \<open>Reading from the buffer\<close>

lemma wf_retrieveAll: "wf_buffer b \<Longrightarrow> wf_buffer (retrieveAll b)"
  by (auto simp: wf_buffer_def retrieveAll_def)

lemma contents_retrieveAll [simp]: "contents (retrieveAll b) = []"
  by (simp add: contents_def retrieveAll_def)

lemma wf_retrieve:
  assumes "wf_buffer b"
  shows "wf_buffer (retrieve b n)"
proof (cases "n < readableBytes b")
  case True
  then have "size_add (readerIndex b) n = readerIndex b + n" and "readerIndex b + n < writerIndex b"
    using assms wf_bufferD [OF assms] by (auto simp: readableBytes_diff size_add_small)
  with True assms show ?thesis by (auto simp: retrieve_def wf_buffer_def)
next
  case False
  with assms show ?thesis by (simp add: retrieve_def wf_retrieveAll)
qed

lemma contents_retrieve:
  assumes "wf_buffer b"
  shows "contents (retrieve b n) = drop n (contents b)"
proof (cases "n < readableBytes b")
  case True
  then have add: "size_add (readerIndex b) n = readerIndex b + n"
    and lt: "readerIndex b + n < writerIndex b"
    using assms wf_bufferD [OF assms] by (auto simp: readableBytes_diff size_add_small)
  with True show ?thesis
    by (simp add: retrieve_def contents_def add.commute drop_take)
next
  case False
  with assms have "length (contents b) \<le> n" by (simp add: readableBytes_wf)
  with False show ?thesis by (simp add: retrieve_def)
qed

lemma retrieveAsString_prefix:
  assumes "wf_buffer b" and "n \<le> readableBytes b"
  shows "retrieveAsString b n = Inr (take n (contents b), retrieve b n)"
proof -
  have le: "peek b + n \<le> length (buffer_vec b)"
    using assms wf_bufferD [OF assms(1)] by (simp add: readableBytes_diff peek_def)
  have "take n (contents b) = take n (drop (peek b) (buffer_vec b))"
    using assms by (simp add: contents_take_drop min_absorb1)
  then show ?thesis
    using le by (simp add: retrieveAsString_def vec_read_Inr)
qed

lemma retrieveAllAsString_wf:
  "wf_buffer b \<Longrightarrow> retrieveAllAsString b = Inr (contents b, retrieveAll b)"
  by (simp add: retrieveAllAsString_def retrieveAsString_prefix retrieve_def readableBytes_wf)

section \<open>Making room\<close>

lemma makeSpace_grow:
  assumes "wf_buffer b" and "len \<le> vector_max"
    and "writableBytes b + prependableBytes b < len + kCheapPrepend"
  shows "makeSpace b len =
    (if vector_max < writerIndex b + len then Inl Length_Error
     else Inr (b\<lparr>buffer_vec := take (writerIndex b + len) (buffer_vec b) @
                  replicate (writerIndex b + len - length (buffer_vec b)) (CHR 0x00)\<rparr>))"
proof -
  have sums: "size_add (writableBytes b) (prependableBytes b) = writableBytes b + prependableBytes b"
    "size_add len kCheapPrepend = len + kCheapPrepend"
    "size_add (writerIndex b) len = writerIndex b + len"
    using assms wf_bufferD [OF assms(1)]
    by (auto simp: size_add_small writableBytes_wf prependableBytes_def buffer_consts)
  show ?thesis
    using assms(3) by (simp add: makeSpace_def sums vec_resize_def)
qed

lemma makeSpace_move:
  assumes "wf_buffer b" and "len \<le> vector_max"
    and "len + kCheapPrepend \<le> writableBytes b + prependableBytes b"
  shows "makeSpace b len =
    Inr (b\<lparr>buffer_vec := take kCheapPrepend (buffer_vec b) @ contents b @
              drop (kCheapPrepend + length (contents b)) (buffer_vec b),
           readerIndex := kCheapPrepend,
           writerIndex := kCheapPrepend + length (contents b)\<rparr>)"
proof -
  note wf = wf_bufferD [OF assms(1)]
  have sums: "size_add (writableBytes b) (prependableBytes b) = writableBytes b + prependableBytes b"
    "size_add len kCheapPrepend = len + kCheapPrepend"
    "size_add kCheapPrepend (length (contents b)) = kCheapPrepend + length (contents b)"
    using assms wf
    by (auto simp: size_add_small writableBytes_wf prependableBytes_def buffer_consts)
  have rd: "vec_read (buffer_vec b) (readerIndex b) (length (contents b)) = Inr (contents b)"
    using assms(1) wf by (subst vec_read_Inr) (auto simp: contents_def)
  have wr: "kCheapPrepend + length (contents b) \<le> length (buffer_vec b)"
    using assms(1) wf by (simp add: buffer_consts)
  show ?thesis
    using assms(1,3)
    by (simp add: makeSpace_def sums readableBytes_wf [OF assms(1)] Let_def rd vec_write_Inr [OF wr]
        del: length_contents)
qed

text \<open>Making room never loses a readable byte, and leaves at least the space asked for.\<close>

lemma ensureWriteableBytes_cases:
  assumes "wf_buffer b" and "len \<le> vector_max"
  shows "(ensureWriteableBytes b len = Inl Length_Error \<and> vector_max < writerIndex b + len) \<or>
    (\<exists>b'. ensureWriteableBytes b len = Inr b' \<and> wf_buffer b' \<and> contents b' = contents b \<and>
          writerIndex b' + len \<le> length (buffer_vec b'))"
proof -
  note wf = wf_bufferD [OF assms(1)]
  consider (room) "len \<le> writableBytes b"
    | (grow) "writableBytes b < len" "writableBytes b + prependableBytes b < len + kCheapPrepend"
    | (move) "writableBytes b < len" "len + kCheapPrepend \<le> writableBytes b + prependableBytes b"
    by linarith
  then show ?thesis
  proof cases
    case room
    then show ?thesis
      using assms wf by (auto simp: ensureWriteableBytes_def writableBytes_wf)
  next
    case grow
    show ?thesis
    proof (cases "vector_max < writerIndex b + len")
      case True
      with grow assms show ?thesis by (simp add: ensureWriteableBytes_def makeSpace_grow)
    next
      case False
      with grow assms wf show ?thesis
        by (auto simp: ensureWriteableBytes_def makeSpace_grow wf_buffer_def contents_def
            writableBytes_wf drop_take)
    qed
  next
    case move
    with assms wf show ?thesis
      by (auto simp: ensureWriteableBytes_def makeSpace_move wf_buffer_def contents_def
          writableBytes_wf prependableBytes_def kCheapPrepend_def)
  qed
qed

section \<open>Writing into the buffer\<close>

lemma vec_write_at_writer:
  assumes "wf_buffer b" and "writerIndex b + length ds \<le> length (buffer_vec b)"
  shows "\<exists>v. vec_write (buffer_vec b) (writerIndex b) ds = Inr v \<and> length v = length (buffer_vec b) \<and>
    wf_buffer (b\<lparr>buffer_vec := v, writerIndex := writerIndex b + length ds\<rparr>) \<and>
    contents (b\<lparr>buffer_vec := v, writerIndex := writerIndex b + length ds\<rparr>) = contents b @ ds"
proof -
  note wf = wf_bufferD [OF assms(1)]
  let ?v = "take (writerIndex b) (buffer_vec b) @ ds @ drop (writerIndex b + length ds) (buffer_vec b)"
  have len: "length ?v = length (buffer_vec b)"
    using assms by simp
  have "contents (b\<lparr>buffer_vec := ?v, writerIndex := writerIndex b + length ds\<rparr>) =
      take (writerIndex b + length ds - readerIndex b) (drop (readerIndex b) ?v)"
    by (simp add: contents_def)
  also have "\<dots> = contents b @ ds"
    unfolding contents_def by (rule drop_take_append_window [OF wf(2,3)])
  finally have "contents (b\<lparr>buffer_vec := ?v, writerIndex := writerIndex b + length ds\<rparr>) = contents b @ ds" .
  moreover have "wf_buffer (b\<lparr>buffer_vec := ?v, writerIndex := writerIndex b + length ds\<rparr>)"
    using assms(1,2) len by (auto simp: wf_buffer_def)
  ultimately show ?thesis
    using assms(2) len by (simp add: vec_write_Inr)
qed

lemma append_buf_cases:
  assumes "wf_buffer b" and "length ds \<le> vector_max"
  shows "(append_buf b ds = Inl Length_Error \<and> vector_max < writerIndex b + length ds) \<or>
    (\<exists>b'. append_buf b ds = Inr b' \<and> wf_buffer b' \<and> contents b' = contents b @ ds)"
  using ensureWriteableBytes_cases [OF assms]
proof (elim disjE exE conjE)
  assume "ensureWriteableBytes b (length ds) = Inl Length_Error"
    and "vector_max < writerIndex b + length ds"
  then show ?thesis by (simp add: append_buf_def)
next
  fix b'
  assume e: "ensureWriteableBytes b (length ds) = Inr b'" and wf: "wf_buffer b'"
    and c: "contents b' = contents b" and room: "writerIndex b' + length ds \<le> length (buffer_vec b')"
  have "size_add (writerIndex b') (length ds) = writerIndex b' + length ds"
    using room wf_bufferD [OF wf] by (simp add: size_add_small)
  then show ?thesis
    using vec_write_at_writer [OF wf room] e c by (auto simp: append_buf_def beginWrite_def)
qed

lemma append_buf_Inr:
  assumes "wf_buffer b" and "append_buf b ds = Inr b'" and "length ds \<le> vector_max"
  shows "wf_buffer b'" and "contents b' = contents b @ ds"
  using append_buf_cases [OF assms(1,3)] assms(2) by auto

text \<open>The vector grows by no more than the bytes appended.\<close>

lemma ensureWriteableBytes_length:
  assumes "wf_buffer b" and "len \<le> vector_max" and "ensureWriteableBytes b len = Inr b'"
  shows "length (buffer_vec b') \<le> length (buffer_vec b) + len"
proof (cases "len \<le> writableBytes b")
  case True
  then show ?thesis using assms(3) by (simp add: ensureWriteableBytes_def)
next
  case False
  then have m: "makeSpace b len = Inr b'" using assms(3) by (simp add: ensureWriteableBytes_def)
  note wf = wf_bufferD [OF assms(1)]
  show ?thesis
  proof (cases "writableBytes b + prependableBytes b < len + kCheapPrepend")
    case True
    with m wf(3) show ?thesis unfolding makeSpace_grow [OF assms(1,2) True] by (auto split: if_splits)
  next
    case False
    then have "len + kCheapPrepend \<le> writableBytes b + prependableBytes b" by simp
    with m wf show ?thesis unfolding makeSpace_move [OF assms(1,2) \<open>len + kCheapPrepend \<le> _\<close>] using assms(1)
      by (auto simp: buffer_consts contents_def)
  qed
qed

lemma vec_write_length: "vec_write v i ds = Inr v' \<Longrightarrow> length v' = length v"
  by (auto simp: vec_write_def split: if_splits)

lemma append_buf_length:
  assumes "wf_buffer b" and "append_buf b ds = Inr b'" and "length ds \<le> vector_max"
  shows "length (buffer_vec b') \<le> length (buffer_vec b) + length ds"
proof -
  obtain b1 v where e: "ensureWriteableBytes b (length ds) = Inr b1" "vec_write (buffer_vec b1) (beginWrite b1) ds = Inr v"
    "buffer_vec b' = v"
    using assms(2) by (auto simp: append_buf_def elim!: res_bindE)
  show ?thesis using ensureWriteableBytes_length [OF assms(1,3) e(1)] vec_write_length [OF e(2)] e(3) by simp
qed

lemma append_buf_succeeds:
  assumes "wf_buffer b" and "writerIndex b + length ds \<le> vector_max"
  shows "\<exists>b'. append_buf b ds = Inr b' \<and> wf_buffer b' \<and> contents b' = contents b @ ds"
  using append_buf_cases [OF assms(1), of ds] assms(2) by auto

text \<open>An exhausted writer: the state \<open>readFd\<close> hands to \<open>append\<close> when the vector is full.\<close>

lemma readFd_full:
  assumes "wf_buffer b" and "writableBytes b < length ds"
  shows "\<exists>v. vec_write (buffer_vec b) (writerIndex b) (take (writableBytes b) ds) = Inr v \<and>
    wf_buffer (b\<lparr>buffer_vec := v, writerIndex := length v\<rparr>) \<and> length v = length (buffer_vec b) \<and>
    contents (b\<lparr>buffer_vec := v, writerIndex := length v\<rparr>) = contents b @ take (writableBytes b) ds"
proof -
  note wf = wf_bufferD [OF assms(1)]
  have len: "writerIndex b + length (take (writableBytes b) ds) = length (buffer_vec b)"
    using assms wf by (simp add: writableBytes_wf)
  then show ?thesis
    using vec_write_at_writer [OF assms(1), of "take (writableBytes b) ds"]
    by (auto simp: writableBytes_wf [OF assms(1)] wf(3))
qed

lemma readFd_cases:
  assumes wf: "wf_buffer b" and ok: "readv_ok readv"
    and read: "readv (readFd_blocks b) = Inr ds"
  shows "(readFd readv b = Inl Length_Error \<and> vector_max < length (buffer_vec b) + extrabuf_size) \<or>
    (\<exists>b'. readFd readv b = Inr (int (length ds), None, b') \<and> wf_buffer b' \<and>
          contents b' = contents b @ ds)"
proof (cases "length ds \<le> writableBytes b")
  case True
  note D = wf_bufferD [OF wf]
  have room: "writerIndex b + length ds \<le> length (buffer_vec b)"
    using True D by (simp add: writableBytes_wf [OF wf])
  have "size_add (writerIndex b) (length ds) = writerIndex b + length ds"
    using room D by (simp add: size_add_small)
  then show ?thesis
    using vec_write_at_writer [OF wf room] True read by (auto simp: readFd_def)
next
  case False
  then have lt: "writableBytes b < length ds" by simp
  obtain v where v: "vec_write (buffer_vec b) (writerIndex b) (take (writableBytes b) ds) = Inr v"
    and wf': "wf_buffer (b\<lparr>buffer_vec := v, writerIndex := length v\<rparr>)"
    and lv: "length v = length (buffer_vec b)"
    and c: "contents (b\<lparr>buffer_vec := v, writerIndex := length v\<rparr>) = contents b @ take (writableBytes b) ds"
    using readFd_full [OF wf lt] by blast
  have "length ds \<le> sum_list (readFd_blocks b)"
    using ok read unfolding readv_ok_def by blast
  then have extra: "length (drop (writableBytes b) ds) \<le> extrabuf_size"
    using lt by (auto simp: readFd_blocks_def split: if_splits)
  then have small: "length (drop (writableBytes b) ds) \<le> vector_max"
    by (simp add: buffer_consts)
  have eq: "readFd readv b =
      res_bind (append_buf (b\<lparr>buffer_vec := v, writerIndex := length v\<rparr>) (drop (writableBytes b) ds))
        (\<lambda>b'. Inr (int (length ds), None, b'))"
    using lt read v by (simp add: readFd_def)
  show ?thesis
    using append_buf_cases [OF wf' small] extra
    by (auto simp: eq c append.assoc lv [symmetric] simp del: length_drop)
qed

lemma writeFd_wf:
  assumes "wf_buffer b"
  shows "writeFd write b =
    (case write (contents b) of
       (Inl errno, k') \<Rightarrow> Inr (-1, Some errno, k') | (Inr n, k') \<Rightarrow> Inr (int n, None, k'))"
  using assms wf_bufferD [OF assms]
  by (simp add: writeFd_def vec_read_def contents_take_drop readableBytes_diff peek_def)

lemma readFd_length:
  assumes "wf_buffer b" and "readv_ok readv" and "readv (readFd_blocks b) = Inr ds" and "readFd readv b = Inr (n, e, b')"
  shows "length (buffer_vec b') \<le> length (buffer_vec b) + extrabuf_size"
proof -
  let ?w = "writableBytes b"
  obtain v where v: "vec_write (buffer_vec b) (writerIndex b) (take ?w ds) = Inr v"
    and rest: "if length ds \<le> ?w then buffer_vec b' = v
      else append_buf (b\<lparr>buffer_vec := v, writerIndex := length v\<rparr>) (drop ?w ds) = Inr b'"
    using assms(3,4) by (auto simp: readFd_def Let_def elim!: res_bindE split: if_splits)
  note lv = vec_write_length [OF v]
  show ?thesis
  proof (cases "length ds \<le> ?w")
    case True
    then show ?thesis using rest lv by simp
  next
    case False
    have "length ds \<le> sum_list (readFd_blocks b)" using assms(2,3) unfolding readv_ok_def by blast
    then have d: "length (drop ?w ds) \<le> extrabuf_size" using False by (auto simp: readFd_blocks_def split: if_splits)
    have wf: "wf_buffer (b\<lparr>buffer_vec := v, writerIndex := length v\<rparr>)" using assms(1) lv by (auto simp: wf_buffer_def)
    have "length (buffer_vec b') \<le> length v + length (drop ?w ds)"
      using append_buf_length [OF wf, of "drop ?w ds" b'] False rest d by (simp add: buffer_consts)
    then show ?thesis using lv d by simp
  qed
qed

lemma Buffer_wf:
  assumes "kCheapPrepend + n \<le> vector_max"
  shows "\<exists>b. Buffer n = Inr b \<and> wf_buffer b \<and> contents b = []"
proof -
  have "size_add kCheapPrepend n = kCheapPrepend + n"
    using assms by (simp add: size_add_small buffer_consts)
  then show ?thesis
    using assms by (auto simp: Buffer_def vec_resize_def wf_buffer_def contents_def)
qed

section \<open>The contract: a queue of bytes\<close>

text \<open>
  What a client of the buffer relies on: the readable count is the number of queued bytes,
  appending puts bytes at the end, retrieving takes them from the front.
\<close>

locale byte_queue =
  fixes invar :: "'b \<Rightarrow> bool"
    and queued :: "'b \<Rightarrow> bytes"
    and put :: "'b \<Rightarrow> bytes \<Rightarrow> 'b res"
    and get :: "'b \<Rightarrow> nat \<Rightarrow> 'b"
    and readable :: "'b \<Rightarrow> nat"
  assumes readable_queued: "invar b \<Longrightarrow> readable b = length (queued b)"
    and put_invar: "invar b \<Longrightarrow> length ds \<le> vector_max \<Longrightarrow> put b ds = Inr b' \<Longrightarrow> invar b'"
    and put_queued: "invar b \<Longrightarrow> length ds \<le> vector_max \<Longrightarrow> put b ds = Inr b' \<Longrightarrow> queued b' = queued b @ ds"
    and get_invar: "invar b \<Longrightarrow> invar (get b n)"
    and get_queued: "invar b \<Longrightarrow> queued (get b n) = drop n (queued b)"
begin

text \<open>A put followed by a get of what was there before leaves exactly the new bytes.\<close>

lemma put_then_get_old:
  assumes "invar b" and "length ds \<le> vector_max" and "put b ds = Inr b'"
  shows "queued (get b' (readable b)) = ds"
  using assms put_invar [OF assms] put_queued [OF assms]
  by (simp add: get_queued readable_queued)

text \<open>Bytes leave in the order they came: consumed bytes, then queued ones, are the bytes put in.\<close>

lemma get_split:
  assumes "invar b"
  shows "take n (queued b) @ queued (get b n) = queued b"
  using assms by (simp add: get_queued)

lemma drained:
  assumes "invar b" and "readable b \<le> n"
  shows "queued (get b n) = []"
  using assms by (simp add: get_queued readable_queued)

lemma readable_get:
  assumes "invar b"
  shows "readable (get b n) = readable b - n"
  using assms by (simp add: get_queued readable_queued get_invar)

end

interpretation bq: byte_queue wf_buffer contents append_buf retrieve readableBytes
  by unfold_locales
    (auto simp: readableBytes_wf append_buf_Inr wf_retrieve contents_retrieve)

section \<open>Sessions with a buffer\<close>

lemma buf_step_stream:
  assumes "wf_buffer b" and "buf_op_ok x" and "buf_step x b = Inr (i, out, b')"
  shows "wf_buffer b' \<and> out @ contents b' = contents b @ i"
proof (cases x)
  case (Op_append ds)
  with assms show ?thesis
    using append_buf_Inr [of b ds] by (auto elim!: res_bindE)
next
  case (Op_readFd readv)
  show ?thesis
  proof (cases "readv (readFd_blocks b)")
    case (Inl e)
    with Op_readFd assms show ?thesis by (auto simp: readFd_def)
  next
    case (Inr ds)
    with Op_readFd assms show ?thesis
      using readFd_cases [of b readv ds] by (auto elim!: res_bindE)
  qed
next
  case (Op_retrieve n)
  let ?m = "min n (readableBytes b)"
  have "retrieveAsString b ?m = Inr (take ?m (contents b), retrieve b ?m)"
    using assms(1) by (simp add: retrieveAsString_prefix)
  with Op_retrieve assms show ?thesis
    using bq.get_split [of b ?m] bq.get_invar [of b ?m] by auto
qed

lemma buf_run_stream:
  assumes "wf_buffer b" and "list_all buf_op_ok xs" and "buf_run xs b = Inr (i, out, b')"
  shows "wf_buffer b' \<and> out @ contents b' = contents b @ i"
  using assms
proof (induction xs arbitrary: b i out)
  case Nil
  then show ?case by simp
next
  case (Cons x xs)
  from Cons.prems obtain i1 o1 b1 i2 o2 where
    step: "buf_step x b = Inr (i1, o1, b1)" and run: "buf_run xs b1 = Inr (i2, o2, b')"
    and eqs: "i = i1 @ i2" "out = o1 @ o2"
    by (auto elim!: res_bindE)
  have "wf_buffer b1" and s: "o1 @ contents b1 = contents b @ i1"
    using buf_step_stream [OF Cons.prems(1) _ step] Cons.prems(2) by auto
  moreover from this have "wf_buffer b'" and "o2 @ contents b' = contents b1 @ i2"
    using Cons.IH [OF _ _ run] Cons.prems(2) by auto
  ultimately show ?case
    using eqs s by (metis append.assoc)
qed

text \<open>A step is total: it fails only for want of room, and says how much room is enough.\<close>

lemma buf_step_total:
  assumes "wf_buffer b" and "buf_op_ok x"
  shows "case buf_step x b of
      Inl e \<Rightarrow> e = Length_Error \<and> vector_max < length (buffer_vec b) + op_room x
    | Inr (i, out, b') \<Rightarrow> length (buffer_vec b') \<le> length (buffer_vec b) + op_room x"
proof (cases x)
  case (Op_append ds)
  then have len: "length ds \<le> vector_max" using assms(2) by simp
  show ?thesis
    using append_buf_cases [OF assms(1) len] append_buf_length [OF assms(1) _ len] wf_bufferD(3) [OF assms(1)] Op_append
    by auto
next
  case (Op_readFd readv)
  show ?thesis
  proof (cases "readv (readFd_blocks b)")
    case (Inl e)
    then show ?thesis using Op_readFd by (simp add: readFd_def)
  next
    case (Inr ds)
    have ok: "readv_ok readv" using Op_readFd assms(2) by simp
    show ?thesis using readFd_cases [OF assms(1) ok Inr] readFd_length [OF assms(1) ok Inr] Op_readFd Inr by auto
  qed
next
  case (Op_retrieve n)
  let ?m = "min n (readableBytes b)"
  have "retrieveAsString b ?m = Inr (take ?m (contents b), retrieve b ?m)"
    using assms(1) by (simp add: retrieveAsString_prefix)
  moreover have "buffer_vec (retrieve b ?m) = buffer_vec b" by (simp add: retrieve_def retrieveAll_def)
  ultimately show ?thesis using Op_retrieve by simp
qed

lemma buf_run_total:
  assumes "wf_buffer b" and "list_all buf_op_ok xs" and "buf_run xs b = Inl e"
  shows "e = Length_Error \<and> vector_max < length (buffer_vec b) + sum_list (map op_room xs)"
  using assms
proof (induction xs arbitrary: b)
  case Nil
  then show ?case by simp
next
  case (Cons x xs)
  have ok: "buf_op_ok x" using Cons.prems(2) by simp
  show ?case
  proof (cases "buf_step x b")
    case (Inl f)
    then show ?thesis using buf_step_total [OF Cons.prems(1) ok] Cons.prems(3) by auto
  next
    case (Inr y)
    obtain i out b1 where y: "y = (i, out, b1)" by (metis prod_cases3)
    have "wf_buffer b1" using buf_step_stream [OF Cons.prems(1) ok Inr [unfolded y]] by blast
    moreover have "buf_run xs b1 = Inl e" using Cons.prems(3) Inr y by (auto simp: res_bind_eq_Inl)
    ultimately show ?thesis
      using Cons.IH [of b1] Cons.prems(2) buf_step_total [OF Cons.prems(1) ok] Inr y by auto
  qed
qed

section \<open>Properties\<close>

text \<open>C8: In any sequence of appends, descriptor reads and retrievals, the bytes that left the
  buffer followed by those still readable are the bytes that were readable at the start followed
  by the bytes that entered: nothing is lost, duplicated or reordered by compaction or growth. The
  sequence never runs over the end of the vector or into any other undefined behaviour; it ends early
  only by the exception for a vector beyond its maximal size, and only when the vector, the bytes
  appended and 64 KiB per read together exceed that size.\<close>

theorem buffer_is_a_byte_stream:
  assumes "wf_buffer b" and "list_all buf_op_ok xs"
  shows "case buf_run xs b of
      Inl e \<Rightarrow> e = Length_Error \<and> vector_max < length (buffer_vec b) + sum_list (map op_room xs)
    | Inr (i, out, b') \<Rightarrow> wf_buffer b' \<and> out @ contents b' = contents b @ i"
  using buf_run_stream [OF assms] buf_run_total [OF assms] by (auto split: sum.splits)

theorem buffer_is_a_byte_stream_witness:
  defines "b \<equiv> \<lparr>buffer_vec = replicate 12 (CHR 0x00), readerIndex = 8, writerIndex = 8\<rparr>"
  defines "xs \<equiv> [Op_append ''abcd'', Op_retrieve 3, Op_append ''efg'', Op_retrieve 2, Op_append ''hijklmn'']"
  shows "\<exists>i out b'. buf_run xs b = Inr (i, out, b') \<and> wf_buffer b' \<and> out @ contents b' = i"
proof -
  have h: "wf_buffer b" "list_all buf_op_ok xs"
    by (simp_all add: b_def xs_def wf_buffer_def buffer_consts)
  have "\<not> vector_max < length (buffer_vec b) + sum_list (map op_room xs)" "contents b = []"
    by (simp_all add: b_def xs_def buffer_consts contents_def)
  with buffer_is_a_byte_stream [OF h] show ?thesis by (auto split: sum.splits)
qed

end
