(* ===== verification/Net_Channel.thy ===== *)
theory Net_Channel
  imports Talk_Prelude
begin

unbundle bit_operations_syntax

text \<open>
  \<open>common/net/Channel.h\<close> and \<open>Channel.cc\<close>: a channel is a descriptor with the events it wants
  (\<open>events_\<close>), the events the poller reported (\<open>revents_\<close>), its registration index and four
  callbacks. The callbacks are the closures the library binds, named by the member function they
  call; \<open>None\<close> is an empty \<open>std::function\<close>. The operations that register with the poller
  (\<open>update\<close>, \<open>remove\<close>, \<open>enableReading\<close> and its kin) are in \<open>Net_EventLoop\<close>, since they call the
  loop.
\<close>

section \<open>The model\<close>

type_synonym events = "32 word"

definition EPOLLIN :: events where "EPOLLIN = 1"
definition EPOLLPRI :: events where "EPOLLPRI = 2"
definition EPOLLOUT :: events where "EPOLLOUT = 4"
definition EPOLLERR :: events where "EPOLLERR = 8"
definition EPOLLHUP :: events where "EPOLLHUP = 16"

definition kNoneEvent :: events where
  "kNoneEvent = 0"

definition kReadEvent :: events where
  "kReadEvent = EPOLLIN OR EPOLLPRI"

definition kWriteEvent :: events where
  "kWriteEvent = EPOLLOUT"

datatype callback =
    Loop_handleRead | Acceptor_handleRead
  | Conn_handleRead | Conn_handleWrite | Conn_handleClose | Conn_handleError

text \<open>\<open>chan_ptr\<close> is the address of the object (what \<open>epoll_event.data.ptr\<close> holds), \<open>chan_tie\<close> the
  weak pointer \<open>tie_\<close> to the object that owns the channel.\<close>

record channel =
  chan_ptr :: nat
  chan_fd :: int
  chan_events :: events
  chan_revents :: events
  chan_index :: int
  chan_tie :: "nat option"
  chan_tied :: bool
  readCallback :: "callback option"
  writeCallback :: "callback option"
  closeCallback :: "callback option"
  errorCallback :: "callback option"

definition Channel :: "nat \<Rightarrow> int \<Rightarrow> channel" where
  "Channel ptr fd =
     \<lparr>chan_ptr = ptr, chan_fd = fd, chan_events = 0, chan_revents = 0, chan_index = -1,
      chan_tie = None, chan_tied = False, readCallback = None, writeCallback = None,
      closeCallback = None, errorCallback = None\<rparr>"

definition tie :: "nat \<Rightarrow> channel \<Rightarrow> channel" where
  "tie obj ch = ch\<lparr>chan_tie := Some obj, chan_tied := True\<rparr>"

definition set_revents :: "events \<Rightarrow> channel \<Rightarrow> channel" where
  "set_revents revt ch = ch\<lparr>chan_revents := revt\<rparr>"

definition set_index :: "int \<Rightarrow> channel \<Rightarrow> channel" where
  "set_index idx ch = ch\<lparr>chan_index := idx\<rparr>"

definition isNoneEvent :: "channel \<Rightarrow> bool" where
  "isNoneEvent ch \<longleftrightarrow> chan_events ch = kNoneEvent"

definition isWriting :: "channel \<Rightarrow> bool" where
  "isWriting ch \<longleftrightarrow> chan_events ch AND kWriteEvent \<noteq> 0"

definition isReading :: "channel \<Rightarrow> bool" where
  "isReading ch \<longleftrightarrow> chan_events ch AND kReadEvent \<noteq> 0"

text \<open>The assignments to \<open>events_\<close> in \<open>enableReading\<close>, \<open>disableReading\<close> and their kin.\<close>

definition set_reading :: "channel \<Rightarrow> channel" where
  "set_reading ch = ch\<lparr>chan_events := chan_events ch OR kReadEvent\<rparr>"

definition clear_reading :: "channel \<Rightarrow> channel" where
  "clear_reading ch = ch\<lparr>chan_events := chan_events ch AND NOT kReadEvent\<rparr>"

definition set_writing :: "channel \<Rightarrow> channel" where
  "set_writing ch = ch\<lparr>chan_events := chan_events ch OR kWriteEvent\<rparr>"

definition clear_writing :: "channel \<Rightarrow> channel" where
  "clear_writing ch = ch\<lparr>chan_events := chan_events ch AND NOT kWriteEvent\<rparr>"

definition clear_all :: "channel \<Rightarrow> channel" where
  "clear_all ch = ch\<lparr>chan_events := kNoneEvent\<rparr>"

text \<open>
  Dispatch. A callback is run on a state from which the channel is read again before each test
  (a callback may change the channel's \<open>events_\<close>); \<open>call_if\<close> is the pattern
  \<open>if (cond) { if (callback) callback(); }\<close>. \<open>lock\<close> tells whether the owner the weak pointer
  refers to is still alive.
\<close>

definition call_if :: "(callback \<Rightarrow> 's \<Rightarrow> 's res) \<Rightarrow> bool \<Rightarrow> callback option \<Rightarrow> 's \<Rightarrow> 's res" where
  "call_if run c cb s =
     (if c then (case cb of None \<Rightarrow> Inr s | Some f \<Rightarrow> run f s) else Inr s)"

definition handleEventWithGuard ::
    "(callback \<Rightarrow> 's \<Rightarrow> 's res) \<Rightarrow> ('s \<Rightarrow> channel) \<Rightarrow> 's \<Rightarrow> 's res" where
  "handleEventWithGuard run chan s0 =
     res_bind (call_if run
        (chan_revents (chan s0) AND EPOLLHUP \<noteq> 0 \<and> chan_revents (chan s0) AND EPOLLIN = 0)
        (closeCallback (chan s0)) s0) (\<lambda>s1.
     res_bind (call_if run (chan_revents (chan s1) AND EPOLLERR \<noteq> 0)
        (errorCallback (chan s1)) s1) (\<lambda>s2.
     res_bind (call_if run (chan_revents (chan s2) AND (EPOLLIN OR EPOLLPRI) \<noteq> 0)
        (readCallback (chan s2)) s2) (\<lambda>s3.
     call_if run (chan_revents (chan s3) AND EPOLLOUT \<noteq> 0)
        (writeCallback (chan s3)) s3)))"

definition handleEvent ::
    "(nat \<Rightarrow> bool) \<Rightarrow> (callback \<Rightarrow> 's \<Rightarrow> 's res) \<Rightarrow> ('s \<Rightarrow> channel) \<Rightarrow> 's \<Rightarrow> 's res" where
  "handleEvent lock run chan s =
     (if chan_tied (chan s) then
        (case chan_tie (chan s) of
           None \<Rightarrow> Inr s
         | Some obj \<Rightarrow> if lock obj then handleEventWithGuard run chan s else Inr s)
      else handleEventWithGuard run chan s)"

text \<open>The callbacks a channel with given \<open>revents_\<close> owes, in the order of the source.\<close>

definition due :: "channel \<Rightarrow> callback list" where
  "due ch =
     (if chan_revents ch AND EPOLLHUP \<noteq> 0 \<and> chan_revents ch AND EPOLLIN = 0
      then (case closeCallback ch of None \<Rightarrow> [] | Some f \<Rightarrow> [f]) else []) @
     (if chan_revents ch AND EPOLLERR \<noteq> 0
      then (case errorCallback ch of None \<Rightarrow> [] | Some f \<Rightarrow> [f]) else []) @
     (if chan_revents ch AND (EPOLLIN OR EPOLLPRI) \<noteq> 0
      then (case readCallback ch of None \<Rightarrow> [] | Some f \<Rightarrow> [f]) else []) @
     (if chan_revents ch AND EPOLLOUT \<noteq> 0
      then (case writeCallback ch of None \<Rightarrow> [] | Some f \<Rightarrow> [f]) else [])"

text \<open>What a callback must leave alone for the dispatch to be determined at its start.\<close>

definition same_dispatch :: "channel \<Rightarrow> channel \<Rightarrow> bool" where
  "same_dispatch a b \<longleftrightarrow>
     chan_revents a = chan_revents b \<and> readCallback a = readCallback b \<and>
     writeCallback a = writeCallback b \<and> closeCallback a = closeCallback b \<and>
     errorCallback a = errorCallback b"

section \<open>Event masks\<close>

lemmas epoll_bits = EPOLLIN_def EPOLLPRI_def EPOLLOUT_def EPOLLERR_def EPOLLHUP_def
  kNoneEvent_def kReadEvent_def kWriteEvent_def

declare set_reading_def [channel_simps] clear_reading_def [channel_simps]
  set_writing_def [channel_simps] clear_writing_def [channel_simps] clear_all_def [channel_simps]
  set_index_def [channel_simps] set_revents_def [channel_simps] tie_def [channel_simps]

lemma isWriting_bit: "isWriting ch \<longleftrightarrow> bit (chan_events ch) 2"
  using and_exp_eq_0_iff_not_bit [of "chan_events ch" 2] by (simp add: isWriting_def epoll_bits)

lemma bit_numerals [simp]:
  "bit (1 :: events) n \<longleftrightarrow> n = 0" "bit (2 :: events) n \<longleftrightarrow> n = 1" "bit (4 :: events) n \<longleftrightarrow> n = 2"
  "bit (3 :: events) n \<longleftrightarrow> n = 0 \<or> n = 1"
proof -
  show b1: "bit (1 :: events) n \<longleftrightarrow> n = 0" by (simp add: bit_1_iff)
  show b2: "bit (2 :: events) n \<longleftrightarrow> n = 1"
    using bit_exp_iff [of 1 n, where 'a = events] by auto
  show "bit (4 :: events) n \<longleftrightarrow> n = 2"
    using bit_exp_iff [of 2 n, where 'a = events] by auto
  have "(3 :: events) = 1 OR 2" by simp
  then show "bit (3 :: events) n \<longleftrightarrow> n = 0 \<or> n = 1"
    by (simp only: bit_or_iff b1 b2)
qed

lemma isReading_bit: "isReading ch \<longleftrightarrow> bit (chan_events ch) 0 \<or> bit (chan_events ch) 1"
proof -
  let ?x = "chan_events ch"
  have three: "(3 :: events) = 1 OR 2" by simp
  have "?x AND 3 = (?x AND 1) OR (?x AND 2)"
    unfolding three by (rule bit.conj_disj_distrib)
  then have "?x AND 3 = 0 \<longleftrightarrow> \<not> (bit ?x 0 \<or> bit ?x 1)"
    using and_exp_eq_0_iff_not_bit [of ?x 0] and_exp_eq_0_iff_not_bit [of ?x 1] by (simp add: or_eq_0_iff)
  then show ?thesis by (simp add: isReading_def epoll_bits)
qed

lemma isWriting_updates [simp]:
  "isWriting (set_writing ch)" "\<not> isWriting (clear_writing ch)" "\<not> isWriting (clear_all ch)"
  "isWriting (set_reading ch) \<longleftrightarrow> isWriting ch" "isWriting (clear_reading ch) \<longleftrightarrow> isWriting ch"
  "isWriting (set_index i ch) \<longleftrightarrow> isWriting ch" "isWriting (tie obj ch) \<longleftrightarrow> isWriting ch"
  "isWriting (set_revents r ch) \<longleftrightarrow> isWriting ch"
  by (auto simp: isWriting_bit channel_simps epoll_bits bit_or_iff bit_and_iff bit_not_iff)

lemma isReading_updates [simp]:
  "isReading (set_reading ch)" "\<not> isReading (clear_reading ch)" "\<not> isReading (clear_all ch)"
  "isReading (set_writing ch) \<longleftrightarrow> isReading ch" "isReading (clear_writing ch) \<longleftrightarrow> isReading ch"
  "isReading (set_index i ch) \<longleftrightarrow> isReading ch"
  by (auto simp: isReading_bit channel_simps epoll_bits bit_or_iff bit_and_iff bit_not_iff)

lemma isNoneEvent_updates [simp]:
  "isNoneEvent (clear_all ch)" "\<not> isNoneEvent (set_writing ch)" "\<not> isNoneEvent (set_reading ch)"
proof -
  show "isNoneEvent (clear_all ch)" by (simp add: isNoneEvent_def channel_simps)
  have "isWriting (set_writing ch)" and "isReading (set_reading ch)" by simp_all
  then show "\<not> isNoneEvent (set_writing ch)" and "\<not> isNoneEvent (set_reading ch)"
    by (auto simp: isNoneEvent_def isWriting_def isReading_def kNoneEvent_def)
qed

lemma not_isNoneEvent_reading: "isReading ch \<Longrightarrow> \<not> isNoneEvent ch"
  by (auto simp: isNoneEvent_def isReading_def kNoneEvent_def)

section \<open>Dispatch\<close>

lemma call_if_due:
  "call_if run c cb s = fold_res run (if c then (case cb of None \<Rightarrow> [] | Some f \<Rightarrow> [f]) else []) s"
  by (auto simp: call_if_def res_bind_def split: option.splits sum.splits)

lemma same_dispatch_refl [simp]: "same_dispatch ch ch"
  by (simp add: same_dispatch_def)

lemma same_dispatch_trans: "same_dispatch a b \<Longrightarrow> same_dispatch b c \<Longrightarrow> same_dispatch a c"
  by (simp add: same_dispatch_def)

lemma same_dispatch_updates [simp]:
  "same_dispatch ch (set_reading ch')= same_dispatch ch ch'"
  "same_dispatch ch (set_writing ch') = same_dispatch ch ch'"
  "same_dispatch ch (clear_writing ch') = same_dispatch ch ch'"
  "same_dispatch ch (clear_all ch') = same_dispatch ch ch'"
  "same_dispatch ch (set_index i ch') = same_dispatch ch ch'"
  by (simp_all add: same_dispatch_def channel_simps)

lemma call_if_same_dispatch:
  assumes "\<And>f s s'. run f s = Inr s' \<Longrightarrow> same_dispatch (chan s) (chan s')"
    and "call_if run c cb s = Inr s'"
  shows "same_dispatch (chan s) (chan s')"
  using assms by (auto simp: call_if_def split: if_splits option.splits)

lemma same_dispatch_due: "same_dispatch a b \<Longrightarrow> due b = due a"
  by (simp add: same_dispatch_def due_def)

text \<open>The callbacks run are those due at the start, when no callback rewrites the dispatch fields.\<close>

lemma handleEventWithGuard_due:
  assumes keep: "\<And>f s s'. run f s = Inr s' \<Longrightarrow> same_dispatch (chan s) (chan s')"
  shows "handleEventWithGuard run chan s = fold_res run (due (chan s)) s"
proof -
  let ?hup = "\<lambda>c. chan_revents c AND EPOLLHUP \<noteq> 0 \<and> chan_revents c AND EPOLLIN = 0"
  let ?err = "\<lambda>c. chan_revents c AND EPOLLERR \<noteq> 0"
  let ?in = "\<lambda>c. chan_revents c AND (EPOLLIN OR EPOLLPRI) \<noteq> 0"
  let ?out = "\<lambda>c. chan_revents c AND EPOLLOUT \<noteq> 0"
  let ?c = "chan s"
  have step: "same_dispatch (chan a) (chan b)" if "call_if run c cb a = Inr b" for a b c cb
    using call_if_same_dispatch [of run chan, OF _ that] keep by blast
  have "handleEventWithGuard run chan s =
     res_bind (call_if run (?hup ?c) (closeCallback ?c) s) (\<lambda>s1.
     res_bind (call_if run (?err ?c) (errorCallback ?c) s1) (\<lambda>s2.
     res_bind (call_if run (?in ?c) (readCallback ?c) s2) (\<lambda>s3.
     call_if run (?out ?c) (writeCallback ?c) s3)))"
    unfolding handleEventWithGuard_def
  proof (rule res_bind_cong [OF refl], rule res_bind_cong)
    fix s1 assume "call_if run (?hup ?c) (closeCallback ?c) s = Inr s1"
    then have 1: "same_dispatch ?c (chan s1)" by (rule step)
    then show "call_if run (?err (chan s1)) (errorCallback (chan s1)) s1 =
        call_if run (?err ?c) (errorCallback ?c) s1" by (simp add: same_dispatch_def)
    fix s2 assume "call_if run (?err ?c) (errorCallback ?c) s1 = Inr s2"
    then have 2: "same_dispatch ?c (chan s2)" using 1 step same_dispatch_trans by blast
    show "res_bind (call_if run (?in (chan s2)) (readCallback (chan s2)) s2)
        (\<lambda>s3. call_if run (?out (chan s3)) (writeCallback (chan s3)) s3) =
      res_bind (call_if run (?in ?c) (readCallback ?c) s2)
        (\<lambda>s3. call_if run (?out ?c) (writeCallback ?c) s3)"
    proof (rule res_bind_cong)
      show "call_if run (?in (chan s2)) (readCallback (chan s2)) s2 =
          call_if run (?in ?c) (readCallback ?c) s2" using 2 by (simp add: same_dispatch_def)
      fix s3 assume "call_if run (?in ?c) (readCallback ?c) s2 = Inr s3"
      then have "same_dispatch ?c (chan s3)" using 2 step same_dispatch_trans by blast
      then show "call_if run (?out (chan s3)) (writeCallback (chan s3)) s3 =
          call_if run (?out ?c) (writeCallback ?c) s3" by (simp add: same_dispatch_def)
    qed
  qed
  also have "\<dots> = fold_res run (due ?c) s"
    unfolding due_def fold_res_append call_if_due by (simp add: res_bind_assoc)
  finally show ?thesis .
qed

section \<open>Properties\<close>

text \<open>C17: For every set of reported events, dispatch runs the installed callbacks in the order close,
  error, read, write: close only for a hang-up without readable data, read for readable or urgent
  data, and none for an event that was not reported. A channel tied to an owner that is gone runs
  none.\<close>

theorem handleEvent_runs_due_callbacks:
  assumes "\<And>f s s'. run f s = Inr s' \<Longrightarrow> same_dispatch (chan s) (chan s')"
  shows "handleEvent lock run chan s =
    (if chan_tied (chan s) \<and> (case chan_tie (chan s) of None \<Rightarrow> True | Some obj \<Rightarrow> \<not> lock obj)
     then Inr s else fold_res run (due (chan s)) s)"
  using handleEventWithGuard_due [of run chan s, OF assms]
  by (auto simp: handleEvent_def split: option.splits)

theorem handleEvent_runs_due_callbacks_witness:
  defines "c \<equiv> (Channel 1 7)\<lparr>chan_revents := 21, readCallback := Some Conn_handleRead,
     writeCallback := Some Conn_handleWrite, closeCallback := Some Conn_handleClose\<rparr>"
  defines "run \<equiv> (\<lambda>f (xs, ch). Inr (xs @ [f], ch)) ::
     callback \<Rightarrow> callback list \<times> channel \<Rightarrow> (callback list \<times> channel) res"
  shows "handleEvent (\<lambda>_. True) run snd ([], c) = Inr ([Conn_handleRead, Conn_handleWrite], c)"
proof -
  have keep: "same_dispatch (snd s) (snd s')" if "run f s = Inr s'" for f s s'
    using that by (auto simp: run_def split: prod.splits)
  have "due c = [Conn_handleRead, Conn_handleWrite]"
    by (simp add: due_def c_def Channel_def epoll_bits)
  then show ?thesis
    using handleEvent_runs_due_callbacks [of run snd "\<lambda>_. True" "([], c)", OF keep]
    by (simp add: c_def Channel_def run_def)
qed

end
