(* ===== verification/Net_Address.thy ===== *)
theory Net_Address
  imports Talk_Prelude
begin

unbundle bit_operations_syntax

text \<open>
  \<open>common/net/InetAddress.h\<close> and \<open>InetAddress.cc\<close>: an IPv4 socket address. The port is kept in
  network byte order as the source keeps it, the host address as its four bytes in memory order.
  \<open>inet_addr\<close> (which accepts several notations) is an argument of the constructor; its documented
  behaviour on dotted decimal notation is the hypothesis \<open>inet_addr_ok\<close>.
\<close>

section \<open>The model\<close>

type_synonym in_addr = "8 word \<times> 8 word \<times> 8 word \<times> 8 word"

record sockaddr_in =
  sin_family :: nat
  sin_port :: "16 word"
  sin_addr :: in_addr

definition AF_INET :: nat where
  "AF_INET = 2"

text \<open>Byte swap of a little-endian host.\<close>

definition htons :: "16 word \<Rightarrow> 16 word" where
  "htons x = push_bit 8 x OR drop_bit 8 x"

definition ntohs :: "16 word \<Rightarrow> 16 word" where
  "ntohs x = push_bit 8 x OR drop_bit 8 x"

text \<open>\<open>inet_ntop\<close> for \<open>AF_INET\<close>: dotted decimal notation.\<close>

fun inet_ntop :: "in_addr \<Rightarrow> string" where
  "inet_ntop (a, b, c, d) =
     show_nat (unat a) @ ''.'' @ show_nat (unat b) @ ''.'' @ show_nat (unat c) @ ''.'' @ show_nat (unat d)"

definition InetAddress :: "(string \<Rightarrow> in_addr) \<Rightarrow> 16 word \<Rightarrow> string \<Rightarrow> sockaddr_in" where
  "InetAddress inet_addr port ip =
     \<lparr>sin_family = AF_INET, sin_port = htons port, sin_addr = inet_addr ip\<rparr>"

definition toIp :: "sockaddr_in \<Rightarrow> string" where
  "toIp addr = inet_ntop (sin_addr addr)"

text \<open>\<open>toIpPort\<close> prints into a 64 byte array without a bound: a longer text would overrun it.\<close>

definition toIpPort :: "sockaddr_in \<Rightarrow> string res" where
  "toIpPort addr =
     (let buf = inet_ntop (sin_addr addr);
          port = ntohs (sin_port addr);
          out = buf @ '':'' @ show_nat (unat port)
      in if length out < 64 then Inr out else Inl Undefined_Behaviour)"

definition toPort :: "sockaddr_in \<Rightarrow> 16 word" where
  "toPort addr = ntohs (sin_port addr)"

definition inet_addr_ok :: "(string \<Rightarrow> in_addr) \<Rightarrow> bool" where
  "inet_addr_ok inet_addr \<longleftrightarrow> (\<forall>a. inet_addr (inet_ntop a) = a)"

text \<open>A reader of dotted decimal notation, an instance of \<open>inet_addr\<close>.\<close>

definition dot_head :: "string \<Rightarrow> 8 word" where
  "dot_head s = of_nat (digits_val (takeWhile (\<lambda>c. c \<noteq> CHR ''.'') s))"

definition dot_tail :: "string \<Rightarrow> string" where
  "dot_tail s = drop 1 (dropWhile (\<lambda>c. c \<noteq> CHR ''.'') s)"

definition dotted_addr :: "string \<Rightarrow> in_addr" where
  "dotted_addr s =
     (dot_head s, dot_head (dot_tail s), dot_head (dot_tail (dot_tail s)),
      dot_head (dot_tail (dot_tail (dot_tail s))))"

section \<open>Byte order\<close>

lemma bit_htons: "bit (htons x) n \<longleftrightarrow> n < 16 \<and> (if n < 8 then bit x (n + 8) else bit x (n - 8))"
  by (auto simp: htons_def bit_or_iff bit_push_bit_iff bit_drop_bit_eq add.commute
      dest: bit_imp_le_length)

lemma ntohs_htons [simp]: "ntohs (htons x) = x"
proof (rule bit_word_eqI)
  fix n assume "n < LENGTH(16)"
  then have n: "n < 16" by simp
  have "bit (ntohs (htons x)) n = bit (htons (htons x)) n" by (simp add: ntohs_def htons_def)
  also have "\<dots> = bit x n" using n by (auto simp: bit_htons)
  finally show "bit (ntohs (htons x)) n = bit x n" .
qed

section \<open>Printed addresses\<close>

lemma length_show_byte: "length (show_nat (unat (x :: 8 word))) \<le> 3"
proof -
  have "unat x < 2 ^ 8" using unsigned_less [of x, where 'a = nat] by simp
  then have "unat x < 10 ^ 3" by simp
  then show ?thesis by (rule length_show_nat_le) simp
qed

lemma length_show_port: "length (show_nat (unat (x :: 16 word))) \<le> 5"
proof -
  have "unat x < 2 ^ 16" using unsigned_less [of x, where 'a = nat] by simp
  then have "unat x < 10 ^ 5" by simp
  then show ?thesis by (rule length_show_nat_le) simp
qed

lemma length_inet_ntop: "length (inet_ntop a) \<le> 15"
proof (cases a)
  case (fields x y z w)
  then show ?thesis
    using length_show_byte [of x] length_show_byte [of y] length_show_byte [of z] length_show_byte [of w]
    by simp
qed

lemma toIpPort_Inr:
  "\<exists>s. toIpPort addr = Inr s \<and> s = toIp addr @ '':'' @ show_nat (unat (toPort addr)) \<and> length s \<le> 21"
  using length_inet_ntop [of "sin_addr addr"] length_show_port [of "ntohs (sin_port addr)"]
  by (simp add: toIpPort_def Let_def toIp_def toPort_def)

lemma dot_notin_show_nat [simp]: "CHR ''.'' \<notin> set (show_nat n)"
  using show_nat_digits [of "CHR ''.''" n] by (auto simp: is_digit_def)

lemma dot_split [simp]:
  "dot_head (show_nat (unat a) @ CHR ''.'' # s) = a" "dot_head (show_nat (unat a)) = a"
  "dot_tail (show_nat (unat a) @ CHR ''.'' # s) = s"
  by (simp_all add: dot_head_def dot_tail_def)

lemma dotted_addr_ok: "inet_addr_ok dotted_addr"
  by (simp add: inet_addr_ok_def dotted_addr_def)

section \<open>Properties\<close>

text \<open>C19: An address built from a port and a dotted decimal host prints back as exactly that host
  and port, in at most 21 characters, so \<open>toIpPort\<close> never overruns its 64 byte array.\<close>

theorem InetAddress_prints_back:
  assumes "inet_addr_ok inet_addr"
  shows "toIp (InetAddress inet_addr port (inet_ntop a)) = inet_ntop a \<and>
    toPort (InetAddress inet_addr port (inet_ntop a)) = port \<and>
    (\<exists>s. toIpPort (InetAddress inet_addr port (inet_ntop a)) = Inr s \<and> length s \<le> 21 \<and>
         s = inet_ntop a @ '':'' @ show_nat (unat port))"
proof -
  let ?addr = "InetAddress inet_addr port (inet_ntop a)"
  have ip: "toIp ?addr = inet_ntop a"
    using assms unfolding inet_addr_ok_def by (simp only: toIp_def InetAddress_def sockaddr_in.simps)
  have port: "toPort ?addr = port"
    by (simp add: toPort_def InetAddress_def)
  show ?thesis using toIpPort_Inr [of ?addr] unfolding ip port by blast
qed

theorem InetAddress_prints_back_witness:
  "inet_addr_ok dotted_addr \<and>
    toPort (InetAddress dotted_addr 10600 (inet_ntop (127, 0, 0, 1))) = 10600 \<and>
    (\<exists>s. toIpPort (InetAddress dotted_addr 10600 (inet_ntop (127, 0, 0, 1))) = Inr s \<and> length s \<le> 21)"
  using dotted_addr_ok InetAddress_prints_back [OF dotted_addr_ok, of 10600 "(127, 0, 0, 1)"] by blast

end
