(* ===== verification/Net_Os.thy ===== *)
theory Net_Os
  imports Net_Channel Net_Address
begin

text \<open>
  The system calls the network library makes, as parameters: a record of functions on a kernel
  state \<open>'k\<close> that no definition of the development inspects. What the library relies on is stated
  over four views of the kernel (the interest list of an epoll instance, the bytes a descriptor has
  accepted, the counter of an event descriptor, whether the writing side of a socket is shut down)
  as the predicate \<open>os_ok\<close>, which says what the manual pages of the calls say. \<open>sim_os\<close> is one
  small kernel that satisfies it, so the statements that assume it are not empty.
\<close>

datatype ctl_op = EPOLL_CTL_ADD | EPOLL_CTL_MOD | EPOLL_CTL_DEL

record epoll_event =
  ev_events :: events
  ev_ptr :: nat

text \<open>
  \<open>Inl errno\<close> stands for a return value below 0 with that \<open>errno\<close>. \<open>os_read\<close> is the read of an
  event descriptor, of which only the byte count is used; \<open>os_getsockopt\<close> reads \<open>SO_ERROR\<close>, which takes
  the pending error off the socket.
\<close>

record 'k os =
  os_epoll_create1 :: "'k \<Rightarrow> int \<times> 'k"
  os_epoll_ctl :: "int \<Rightarrow> ctl_op \<Rightarrow> int \<Rightarrow> epoll_event \<Rightarrow> 'k \<Rightarrow> int \<times> 'k"
  os_epoll_wait :: "int \<Rightarrow> int \<Rightarrow> int \<Rightarrow> 'k \<Rightarrow> (int + epoll_event list) \<times> 'k"
  os_eventfd :: "'k \<Rightarrow> int \<times> 'k"
  os_read :: "int \<Rightarrow> nat \<Rightarrow> 'k \<Rightarrow> (int + nat) \<times> 'k"
  os_readv :: "int \<Rightarrow> nat list \<Rightarrow> 'k \<Rightarrow> (int + bytes) \<times> 'k"
  os_write :: "int \<Rightarrow> bytes \<Rightarrow> 'k \<Rightarrow> (int + nat) \<times> 'k"
  os_shutdown :: "int \<Rightarrow> 'k \<Rightarrow> int \<times> 'k"
  os_close :: "int \<Rightarrow> 'k \<Rightarrow> 'k"
  os_socket :: "'k \<Rightarrow> int \<times> 'k"
  os_bind :: "int \<Rightarrow> sockaddr_in \<Rightarrow> 'k \<Rightarrow> int \<times> 'k"
  os_listen :: "int \<Rightarrow> nat \<Rightarrow> 'k \<Rightarrow> int \<times> 'k"
  os_accept4 :: "int \<Rightarrow> 'k \<Rightarrow> (int + int \<times> sockaddr_in) \<times> 'k"
  os_getsockname :: "int \<Rightarrow> 'k \<Rightarrow> (int + sockaddr_in) \<times> 'k"
  os_setsockopt :: "int \<Rightarrow> string \<Rightarrow> bool \<Rightarrow> 'k \<Rightarrow> 'k"
  os_getsockopt :: "int \<Rightarrow> 'k \<Rightarrow> (int + int) \<times> 'k"

record 'k view =
  interest :: "'k \<Rightarrow> int \<Rightarrow> int \<Rightarrow> epoll_event option"
  accepted :: "'k \<Rightarrow> int \<Rightarrow> bytes"
  evcount :: "'k \<Rightarrow> int \<Rightarrow> nat"
  wr_shut :: "'k \<Rightarrow> int \<Rightarrow> bool"

definition set_interest ::
    "(int \<Rightarrow> int \<Rightarrow> epoll_event option) \<Rightarrow> int \<Rightarrow> int \<Rightarrow> epoll_event option \<Rightarrow> int \<Rightarrow> int \<Rightarrow> epoll_event option" where
  "set_interest I ep fd e = I(ep := (I ep)(fd := e))"

text \<open>\<open>epoll_ctl(2)\<close>: \<open>ADD\<close> of a present descriptor, \<open>MOD\<close> and \<open>DEL\<close> of an absent one fail; \<open>ADD\<close>
  and \<open>MOD\<close> may also fail for want of memory; a failing call changes nothing.\<close>

definition epoll_ctl_ok :: "'k os \<Rightarrow> 'k view \<Rightarrow> bool" where
  "epoll_ctl_ok os v \<longleftrightarrow> (\<forall>ep op fd ev k r k'. os_epoll_ctl os ep op fd ev k = (r, k') \<longrightarrow>
     accepted v k' = accepted v k \<and> evcount v k' = evcount v k \<and> wr_shut v k' = wr_shut v k \<and>
     (r < 0 \<longrightarrow> interest v k' = interest v k) \<and>
     (case op of
        EPOLL_CTL_ADD \<Rightarrow>
          (interest v k ep fd \<noteq> None \<longrightarrow> r < 0) \<and>
          (0 \<le> r \<longrightarrow> interest v k' = set_interest (interest v k) ep fd (Some ev))
      | EPOLL_CTL_MOD \<Rightarrow>
          (interest v k ep fd = None \<longrightarrow> r < 0) \<and>
          (0 \<le> r \<longrightarrow> interest v k' = set_interest (interest v k) ep fd (Some ev))
      | EPOLL_CTL_DEL \<Rightarrow>
          (interest v k ep fd \<noteq> None \<longleftrightarrow> 0 \<le> r) \<and>
          (0 \<le> r \<longrightarrow> interest v k' = set_interest (interest v k) ep fd None)))"

text \<open>\<open>epoll_wait(2)\<close>: at most \<open>maxevents\<close> events, each carrying the data of a registration;
  \<open>maxevents\<close> is an \<open>int\<close>, and a value that is not positive is refused (\<open>EINVAL\<close>).\<close>

definition epoll_wait_ok :: "'k os \<Rightarrow> 'k view \<Rightarrow> bool" where
  "epoll_wait_ok os v \<longleftrightarrow> (\<forall>ep maxevents timeout k r k'.
     os_epoll_wait os ep maxevents timeout k = (r, k') \<longrightarrow>
     interest v k' = interest v k \<and> accepted v k' = accepted v k \<and>
     evcount v k' = evcount v k \<and> wr_shut v k' = wr_shut v k \<and>
     (\<forall>evs. r = Inr evs \<longrightarrow> 0 < maxevents \<and> length evs \<le> nat maxevents \<and>
        (\<forall>e \<in> set evs. \<exists>fd ev. interest v k ep fd = Some ev \<and> ev_ptr ev = ev_ptr e)))"

text \<open>\<open>write(2)\<close> takes a prefix of the bytes; on an event descriptor the counter is positive after
  the write of a positive number, whether it was added or the counter was full already.\<close>

definition write_ok :: "'k os \<Rightarrow> 'k view \<Rightarrow> bool" where
  "write_ok os v \<longleftrightarrow> (\<forall>fd ds k r k'. os_write os fd ds k = (r, k') \<longrightarrow>
     interest v k' = interest v k \<and> wr_shut v k' = wr_shut v k \<and>
     (\<forall>fd'. fd' \<noteq> fd \<longrightarrow> evcount v k' fd' = evcount v k fd') \<and>
     evcount v k fd \<le> evcount v k' fd \<and>
     (case r of
        Inl e \<Rightarrow> accepted v k' = accepted v k
      | Inr n \<Rightarrow> n \<le> length ds \<and>
          accepted v k' = (accepted v k)(fd := accepted v k fd @ take n ds)))"

definition one_bytes :: bytes where
  "one_bytes = CHR 0x01 # replicate 7 (CHR 0x00)"

definition eventfd_ok :: "'k os \<Rightarrow> 'k view \<Rightarrow> bool" where
  "eventfd_ok os v \<longleftrightarrow>
     (\<forall>fd k r k'. os_write os fd one_bytes k = (r, k') \<longrightarrow> 0 < evcount v k' fd)"

text \<open>\<open>read(2)\<close> of an event descriptor returns the counter and sets it to zero, or fails because it is
  zero already.\<close>

definition read_ok :: "'k os \<Rightarrow> 'k view \<Rightarrow> bool" where
  "read_ok os v \<longleftrightarrow>
     (\<forall>fd iov k r k'. os_readv os fd iov k = (r, k') \<longrightarrow>
        interest v k' = interest v k \<and> accepted v k' = accepted v k \<and>
        evcount v k' = evcount v k \<and> wr_shut v k' = wr_shut v k \<and>
        (\<forall>ds. r = Inr ds \<longrightarrow> length ds \<le> sum_list iov)) \<and>
     (\<forall>fd n k r k'. os_read os fd n k = (r, k') \<longrightarrow>
        interest v k' = interest v k \<and> accepted v k' = accepted v k \<and> wr_shut v k' = wr_shut v k \<and>
        evcount v k' = (evcount v k)(fd := 0))"

definition shutdown_ok :: "'k os \<Rightarrow> 'k view \<Rightarrow> bool" where
  "shutdown_ok os v \<longleftrightarrow> (\<forall>fd k r k'. os_shutdown os fd k = (r, k') \<longrightarrow>
     interest v k' = interest v k \<and> accepted v k' = accepted v k \<and> evcount v k' = evcount v k \<and>
     wr_shut v k' = (if 0 \<le> r then (wr_shut v k)(fd := True) else wr_shut v k))"

text \<open>A new epoll instance watches nothing.\<close>

definition create_ok :: "'k os \<Rightarrow> 'k view \<Rightarrow> bool" where
  "create_ok os v \<longleftrightarrow>
     (\<forall>k fd k'. os_epoll_create1 os k = (fd, k') \<longrightarrow> 0 \<le> fd \<longrightarrow> interest v k' fd = Map.empty) \<and>
     (\<forall>k fd k'. os_eventfd os k = (fd, k') \<longrightarrow> interest v k' = interest v k)"

text \<open>\<open>getsockopt(2)\<close> reads and clears the pending error of a socket, which none of the views shows.\<close>

definition getsockopt_ok :: "'k os \<Rightarrow> 'k view \<Rightarrow> bool" where
  "getsockopt_ok os v \<longleftrightarrow> (\<forall>fd k r k'. os_getsockopt os fd k = (r, k') \<longrightarrow>
     interest v k' = interest v k \<and> accepted v k' = accepted v k \<and> evcount v k' = evcount v k \<and>
     wr_shut v k' = wr_shut v k)"

definition os_ok :: "'k os \<Rightarrow> 'k view \<Rightarrow> bool" where
  "os_ok os v \<longleftrightarrow> create_ok os v \<and> epoll_ctl_ok os v \<and> epoll_wait_ok os v \<and> write_ok os v \<and> eventfd_ok os v \<and>
     read_ok os v \<and> shutdown_ok os v \<and> getsockopt_ok os v"

section \<open>A small kernel\<close>

text \<open>
  A kernel that always has memory, whose sockets accept up to \<open>k_room\<close> bytes per write (none means
  \<open>EAGAIN\<close>) and deliver \<open>k_input\<close>, and which reports the events \<open>k_ready\<close>. It remembers what was written
  to a descriptor and what was read from it, the address it was bound to, whether it listens, and its
  pending error.
\<close>

record kernel =
  k_interest :: "int \<Rightarrow> int \<Rightarrow> epoll_event option"
  k_accepted :: "int \<Rightarrow> bytes"
  k_delivered :: "int \<Rightarrow> bytes"
  k_count :: "int \<Rightarrow> nat"
  k_shut :: "int \<Rightarrow> bool"
  k_room :: nat
  k_input :: bytes
  k_ready :: "epoll_event list"
  k_next :: int
  k_bound :: "int \<Rightarrow> sockaddr_in option"
  k_listens :: "int \<Rightarrow> bool"
  k_error :: "int \<Rightarrow> int"

definition sim_ctl :: "int \<Rightarrow> ctl_op \<Rightarrow> int \<Rightarrow> epoll_event \<Rightarrow> kernel \<Rightarrow> int \<times> kernel" where
  "sim_ctl ep op fd ev k =
     (case op of
        EPOLL_CTL_ADD \<Rightarrow>
          (if k_interest k ep fd = None
           then (0, k\<lparr>k_interest := set_interest (k_interest k) ep fd (Some ev)\<rparr>) else (-1, k))
      | EPOLL_CTL_MOD \<Rightarrow>
          (if k_interest k ep fd \<noteq> None
           then (0, k\<lparr>k_interest := set_interest (k_interest k) ep fd (Some ev)\<rparr>) else (-1, k))
      | EPOLL_CTL_DEL \<Rightarrow>
          (if k_interest k ep fd \<noteq> None
           then (0, k\<lparr>k_interest := set_interest (k_interest k) ep fd None\<rparr>) else (-1, k)))"

definition sim_write :: "int \<Rightarrow> bytes \<Rightarrow> kernel \<Rightarrow> (int + nat) \<times> kernel" where
  "sim_write fd ds k =
     (if k_room k = 0 then (Inl 11, k\<lparr>k_count := (k_count k)(fd := Suc (k_count k fd))\<rparr>)
      else (Inr (min (k_room k) (length ds)),
            k\<lparr>k_accepted := (k_accepted k)(fd := k_accepted k fd @ take (k_room k) ds),
              k_count := (k_count k)(fd := Suc (k_count k fd))\<rparr>))"

definition sim_os :: "kernel os" where
  "sim_os =
     \<lparr>os_epoll_create1 = (\<lambda>k. (k_next k, k\<lparr>k_next := k_next k + 1,
        k_interest := (k_interest k)(k_next k := Map.empty)\<rparr>)),
      os_epoll_ctl = sim_ctl,
      os_epoll_wait = (\<lambda>ep n timeout k.
        (if n \<le> 0 then Inl 22
         else Inr (take (nat n) (filter (\<lambda>e. \<exists>fd \<in> set [0..10]. map_option ev_ptr (k_interest k ep fd) = Some (ev_ptr e))
                             (k_ready k))), k)),
      os_eventfd = (\<lambda>k. (k_next k, k\<lparr>k_next := k_next k + 1\<rparr>)),
      os_read = (\<lambda>fd n k. (Inr n, k\<lparr>k_count := (k_count k)(fd := 0)\<rparr>)),
      os_readv = (\<lambda>fd iov k. (Inr (take (sum_list iov) (k_input k)),
        k\<lparr>k_delivered := (k_delivered k)(fd := k_delivered k fd @ take (sum_list iov) (k_input k))\<rparr>)),
      os_write = sim_write,
      os_shutdown = (\<lambda>fd k. (0, k\<lparr>k_shut := (k_shut k)(fd := True)\<rparr>)),
      os_close = (\<lambda>fd k. k),
      os_socket = (\<lambda>k. (k_next k, k\<lparr>k_next := k_next k + 1\<rparr>)),
      os_bind = (\<lambda>fd a k. (0, k\<lparr>k_bound := (k_bound k)(fd \<mapsto> a)\<rparr>)),
      os_listen = (\<lambda>fd n k. (0, k\<lparr>k_listens := (k_listens k)(fd := True)\<rparr>)),
      os_accept4 = (\<lambda>fd k. (Inr (k_next k, \<lparr>sin_family = 2, sin_port = 0, sin_addr = (127, 0, 0, 1)\<rparr>),
                             k\<lparr>k_next := k_next k + 1, k_accepted := (k_accepted k)(k_next k := []),
                               k_delivered := (k_delivered k)(k_next k := [])\<rparr>)),
      os_getsockname = (\<lambda>fd k. (Inr \<lparr>sin_family = 2, sin_port = 0, sin_addr = (127, 0, 0, 1)\<rparr>, k)),
      os_setsockopt = (\<lambda>fd opt on k. k),
      os_getsockopt = (\<lambda>fd k. (Inr (k_error k fd), k\<lparr>k_error := (k_error k)(fd := 0)\<rparr>))\<rparr>"

definition sim_view :: "kernel view" where
  "sim_view = \<lparr>interest = k_interest, accepted = k_accepted, evcount = k_count, wr_shut = k_shut\<rparr>"

definition kernel0 :: kernel where
  "kernel0 = \<lparr>k_interest = (\<lambda>_ _. None), k_accepted = (\<lambda>_. []), k_delivered = (\<lambda>_. []), k_count = (\<lambda>_. 0), k_shut = (\<lambda>_. False),
     k_room = 0, k_input = [], k_ready = [], k_next = 3,
     k_bound = Map.empty, k_listens = (\<lambda>_. False), k_error = (\<lambda>_. 0)\<rparr>"

section \<open>Facts about the calls\<close>

lemma set_interest_apply [simp]:
  "set_interest I ep fd e ep' fd' = (if ep' = ep \<and> fd' = fd then e else I ep' fd')"
  by (simp add: set_interest_def)

lemma sim_os_ok: "os_ok sim_os sim_view"
proof -
  have "epoll_ctl_ok sim_os sim_view"
    by (auto simp: epoll_ctl_ok_def sim_os_def sim_view_def sim_ctl_def split: ctl_op.splits if_splits)
  moreover have "epoll_wait_ok sim_os sim_view"
    by (auto simp: epoll_wait_ok_def sim_os_def sim_view_def map_option_case split: option.splits
        dest!: in_set_takeD) blast
  moreover have "write_ok sim_os sim_view"
    by (auto simp: write_ok_def sim_os_def sim_view_def sim_write_def fun_eq_iff min_def split: if_splits)
  moreover have "eventfd_ok sim_os sim_view"
    by (auto simp: eventfd_ok_def sim_os_def sim_view_def sim_write_def split: if_splits)
  moreover have "read_ok sim_os sim_view"
    by (auto simp: read_ok_def sim_os_def sim_view_def)
  moreover have "shutdown_ok sim_os sim_view"
    by (auto simp: shutdown_ok_def sim_os_def sim_view_def)
  moreover have "create_ok sim_os sim_view"
    by (auto simp: create_ok_def sim_os_def sim_view_def)
  moreover have "getsockopt_ok sim_os sim_view"
    by (simp add: getsockopt_ok_def sim_os_def sim_view_def)
  ultimately show ?thesis by (simp add: os_ok_def)
qed

lemma os_okD:
  assumes "os_ok os v"
  shows "epoll_ctl_ok os v" "epoll_wait_ok os v" "write_ok os v" "eventfd_ok os v" "read_ok os v"
    "shutdown_ok os v" "create_ok os v" "getsockopt_ok os v"
  using assms by (auto simp: os_ok_def)

lemma epoll_ctl_views:
  assumes "os_ok os v" and "os_epoll_ctl os ep op fd ev k = (r, k')"
  shows "accepted v k' = accepted v k" "evcount v k' = evcount v k" "wr_shut v k' = wr_shut v k"
    "r < 0 \<Longrightarrow> interest v k' = interest v k"
    "0 \<le> r \<Longrightarrow> interest v k' =
       set_interest (interest v k) ep fd (if op = EPOLL_CTL_DEL then None else Some ev)"
  using os_okD(1) [OF assms(1)] assms(2) unfolding epoll_ctl_ok_def
  by (cases op; fastforce)+

lemma epoll_ctl_del:
  assumes "os_ok os v" and "os_epoll_ctl os ep EPOLL_CTL_DEL fd ev k = (r, k')"
  shows "interest v k' = set_interest (interest v k) ep fd None"
proof (cases "0 \<le> r")
  case True
  then show ?thesis using epoll_ctl_views(5) [OF assms] by simp
next
  case False
  with os_okD(1) [OF assms(1)] assms(2) have "interest v k ep fd = None"
    unfolding epoll_ctl_ok_def by fastforce
  with False epoll_ctl_views(4) [OF assms] show ?thesis by (simp add: fun_eq_iff set_interest_def)
qed

lemma write_views:
  assumes "os_ok os v" and "os_write os fd ds k = (r, k')"
  shows "interest v k' = interest v k" "wr_shut v k' = wr_shut v k"
    "fd' \<noteq> fd \<Longrightarrow> evcount v k' fd' = evcount v k fd'" "evcount v k fd \<le> evcount v k' fd"
    "r = Inl e \<Longrightarrow> accepted v k' = accepted v k"
    "r = Inr n \<Longrightarrow> n \<le> length ds \<and> accepted v k' = (accepted v k)(fd := accepted v k fd @ take n ds)"
  using os_okD(3) [OF assms(1)] assms(2) unfolding write_ok_def by fastforce+

lemma readv_views:
  assumes "os_ok os v" and "os_readv os fd iov k = (r, k')"
  shows "interest v k' = interest v k" "accepted v k' = accepted v k" "evcount v k' = evcount v k"
    "wr_shut v k' = wr_shut v k" "r = Inr ds \<Longrightarrow> length ds \<le> sum_list iov"
  using os_okD(5) [OF assms(1)] assms(2) unfolding read_ok_def by blast+

lemma shutdown_views:
  assumes "os_ok os v" and "os_shutdown os fd k = (r, k')"
  shows "interest v k' = interest v k" "accepted v k' = accepted v k" "evcount v k' = evcount v k"
    "wr_shut v k' = (if 0 \<le> r then (wr_shut v k)(fd := True) else wr_shut v k)"
  using os_okD(6) [OF assms(1)] assms(2) unfolding shutdown_ok_def by blast+

lemma epoll_wait_views:
  assumes "os_ok os v" and "os_epoll_wait os ep n t k = (r, k')"
  shows "interest v k' = interest v k" "accepted v k' = accepted v k" "evcount v k' = evcount v k"
    "wr_shut v k' = wr_shut v k" "r = Inr evs \<Longrightarrow> 0 < n \<and> length evs \<le> nat n"
    "r = Inr evs \<Longrightarrow> e \<in> set evs \<Longrightarrow> \<exists>fd ev. interest v k ep fd = Some ev \<and> ev_ptr ev = ev_ptr e"
  using os_okD(2) [OF assms(1)] assms(2) unfolding epoll_wait_ok_def by blast+

lemma getsockopt_views:
  assumes "os_ok os v"
  shows "interest v (snd (os_getsockopt os fd k)) = interest v k" "accepted v (snd (os_getsockopt os fd k)) = accepted v k"
    "evcount v (snd (os_getsockopt os fd k)) = evcount v k" "wr_shut v (snd (os_getsockopt os fd k)) = wr_shut v k"
  using os_okD(8) [OF assms] unfolding getsockopt_ok_def by (metis prod.collapse)+

lemma read_counter:
  assumes "os_ok os v"
  shows "evcount v (snd (os_read os fd n k)) = (evcount v k)(fd := 0)"
  using os_okD(5) [OF assms] unfolding read_ok_def by (metis prod.collapse)

end
