(* ===== verification/Net_Poller.thy ===== *)
theory Net_Poller
  imports Net_Os
begin

text \<open>
  \<open>common/net/Poller.h\<close>, \<open>Poller.cc\<close>, \<open>EPollPoller.h\<close>, \<open>EPollPoller.cc\<close> and \<open>DefaultPoller.cc\<close>:
  the poller keeps a map from descriptors to channels and drives one epoll instance. A channel is
  passed in and returned updated (the source changes its \<open>index_\<close> through the pointer); \<open>poll\<close>
  works on a store from addresses to channels, and following an address that holds no channel is
  undefined behaviour. The locale \<open>registrar\<close> is the contract the event loop relies on.
\<close>

section \<open>The model\<close>

definition kNew :: int where "kNew = -1"
definition kAdded :: int where "kAdded = 1"
definition kDeleted :: int where "kDeleted = 2"

definition kInitEventListSize :: nat where
  "kInitEventListSize = 16"

record epoll_poller =
  pl_channels :: "int \<Rightarrow> nat option"
  pl_epollfd :: int
  pl_events_size :: nat

type_synonym chan_store = "nat \<Rightarrow> channel option"

definition EPollPoller :: "'k os \<Rightarrow> 'k \<Rightarrow> (epoll_poller \<times> 'k) res" where
  "EPollPoller os k =
     (case os_epoll_create1 os k of (epfd, k') \<Rightarrow>
        if epfd < 0 then Inl Fatal_Exit
        else Inr (\<lparr>pl_channels = Map.empty, pl_epollfd = epfd, pl_events_size = kInitEventListSize\<rparr>, k'))"

text \<open>\<open>newDefaultPoller\<close> returns a null pointer when \<open>MUDUO_USE_POLL\<close> is set.\<close>

definition newDefaultPoller :: "bool \<Rightarrow> 'k os \<Rightarrow> 'k \<Rightarrow> (epoll_poller option \<times> 'k) res" where
  "newDefaultPoller use_poll os k =
     (if use_poll then Inr (None, k)
      else res_bind (EPollPoller os k) (\<lambda>(p, k'). Inr (Some p, k')))"

definition hasChannel :: "epoll_poller \<Rightarrow> channel \<Rightarrow> bool" where
  "hasChannel p ch \<longleftrightarrow> pl_channels p (chan_fd ch) = Some (chan_ptr ch)"

definition update :: "'k os \<Rightarrow> ctl_op \<Rightarrow> channel \<Rightarrow> epoll_poller \<Rightarrow> 'k \<Rightarrow> 'k res" where
  "update os operation ch p k =
     (let event = \<lparr>ev_events = chan_events ch, ev_ptr = chan_ptr ch\<rparr> in
      case os_epoll_ctl os (pl_epollfd p) operation (chan_fd ch) event k of (r, k') \<Rightarrow>
        if r < 0 then (if operation = EPOLL_CTL_DEL then Inr k' else Inl Fatal_Exit)
        else Inr k')"

definition updateChannel ::
    "'k os \<Rightarrow> channel \<Rightarrow> epoll_poller \<Rightarrow> 'k \<Rightarrow> (channel \<times> epoll_poller \<times> 'k) res" where
  "updateChannel os ch p k =
     (let index = chan_index ch in
      if index = kNew \<or> index = kDeleted then
        let p' = (if index = kNew
                  then p\<lparr>pl_channels := (pl_channels p)(chan_fd ch \<mapsto> chan_ptr ch)\<rparr> else p);
            ch' = set_index kAdded ch
        in res_bind (update os EPOLL_CTL_ADD ch' p' k) (\<lambda>k'. Inr (ch', p', k'))
      else if isNoneEvent ch then
        res_bind (update os EPOLL_CTL_DEL ch p k) (\<lambda>k'. Inr (set_index kDeleted ch, p, k'))
      else
        res_bind (update os EPOLL_CTL_MOD ch p k) (\<lambda>k'. Inr (ch, p, k')))"

definition removeChannel ::
    "'k os \<Rightarrow> channel \<Rightarrow> epoll_poller \<Rightarrow> 'k \<Rightarrow> (channel \<times> epoll_poller \<times> 'k) res" where
  "removeChannel os ch p k =
     (let p' = p\<lparr>pl_channels := (pl_channels p)(chan_fd ch := None)\<rparr> in
      res_bind (if chan_index ch = kAdded then update os EPOLL_CTL_DEL ch p' k else Inr k) (\<lambda>k'.
        Inr (set_index kNew ch, p', k')))"

fun fillActiveChannels :: "epoll_event list \<Rightarrow> chan_store \<Rightarrow> nat list \<Rightarrow> (chan_store \<times> nat list) res" where
  "fillActiveChannels [] store active = Inr (store, active)"
| "fillActiveChannels (e # es) store active =
     (case store (ev_ptr e) of
        None \<Rightarrow> Inl Undefined_Behaviour
      | Some ch \<Rightarrow>
          fillActiveChannels es (store(ev_ptr e \<mapsto> set_revents (ev_events e) ch)) (active @ [ev_ptr e]))"

text \<open>
  \<open>poll\<close>: an error (including \<open>EINTR\<close>) and a time-out leave everything as it is; when every slot of
  the event array was used the array is doubled. The size of the array goes to the kernel as an \<open>int\<close>;
  \<open>events_max\<close> is the \<open>max_size()\<close> of a vector of the 12-byte \<open>epoll_event\<close>.
\<close>

definition events_max :: nat where
  "events_max = (2 ^ 63 - 1) div 12"

definition resize_events :: "nat \<Rightarrow> epoll_poller \<Rightarrow> epoll_poller res" where
  "resize_events n p = (if events_max < n then Inl Length_Error else Inr (p\<lparr>pl_events_size := n\<rparr>))"

definition poll ::
    "'k os \<Rightarrow> int \<Rightarrow> epoll_poller \<Rightarrow> chan_store \<Rightarrow> 'k \<Rightarrow> (nat list \<times> chan_store \<times> epoll_poller \<times> 'k) res" where
  "poll os timeoutMs p store k =
     (case os_epoll_wait os (pl_epollfd p) (to_int32 (int (pl_events_size p))) timeoutMs k of
        (Inl errno, k') \<Rightarrow> Inr ([], store, p, k')
      | (Inr evs, k') \<Rightarrow>
          if evs = [] then Inr ([], store, p, k')
          else
            res_bind (fillActiveChannels evs store []) (\<lambda>(store', active).
            res_bind (if length evs = pl_events_size p then resize_events (pl_events_size p * 2) p else Inr p) (\<lambda>p'.
              Inr (active, store', p', k'))))"

section \<open>Registration\<close>

text \<open>
  What the index of a channel says about the poller and the kernel: a new channel is in neither,
  an added one is in both (the kernel watching exactly its \<open>events_\<close>), a deleted one only in the
  poller's map.
\<close>

definition registered :: "'k view \<Rightarrow> epoll_poller \<times> 'k \<Rightarrow> channel \<Rightarrow> bool" where
  "registered v pk ch \<longleftrightarrow>
     (case pk of (p, k) \<Rightarrow>
        (chan_index ch = kNew \<and> pl_channels p (chan_fd ch) = None \<and>
           interest v k (pl_epollfd p) (chan_fd ch) = None) \<or>
        (chan_index ch = kAdded \<and> pl_channels p (chan_fd ch) = Some (chan_ptr ch) \<and>
           interest v k (pl_epollfd p) (chan_fd ch) =
             Some \<lparr>ev_events = chan_events ch, ev_ptr = chan_ptr ch\<rparr>) \<or>
        (chan_index ch = kDeleted \<and> pl_channels p (chan_fd ch) = Some (chan_ptr ch) \<and>
           interest v k (pl_epollfd p) (chan_fd ch) = None))"

text \<open>Every registration of the epoll instance belongs to the channel the poller's map has for it.\<close>

definition poller_agrees :: "'k view \<Rightarrow> epoll_poller \<times> 'k \<Rightarrow> bool" where
  "poller_agrees v pk \<longleftrightarrow>
     (\<forall>fd ev. interest v (snd pk) (pl_epollfd (fst pk)) fd = Some ev \<longrightarrow>
        pl_channels (fst pk) fd = Some (ev_ptr ev))"

definition upd_pk :: "'k os \<Rightarrow> channel \<Rightarrow> epoll_poller \<times> 'k \<Rightarrow> (channel \<times> epoll_poller \<times> 'k) res" where
  "upd_pk os ch pk = updateChannel os ch (fst pk) (snd pk)"

definition rem_pk :: "'k os \<Rightarrow> channel \<Rightarrow> epoll_poller \<times> 'k \<Rightarrow> (channel \<times> epoll_poller \<times> 'k) res" where
  "rem_pk os ch pk = removeChannel os ch (fst pk) (snd pk)"

text \<open>The map refers to channels that still exist.\<close>

definition all_live :: "epoll_poller \<Rightarrow> chan_store \<Rightarrow> bool" where
  "all_live p store \<longleftrightarrow> (\<forall>ptr \<in> ran (pl_channels p). store ptr \<noteq> None)"

text \<open>The other channels of a poller: those with another descriptor.\<close>

definition others_kept :: "'k view \<Rightarrow> epoll_poller \<times> 'k \<Rightarrow> epoll_poller \<times> 'k \<Rightarrow> int \<Rightarrow> bool" where
  "others_kept v pk pk' fd \<longleftrightarrow>
     pl_epollfd (fst pk') = pl_epollfd (fst pk) \<and>
     (\<forall>fd'. fd' \<noteq> fd \<longrightarrow> pl_channels (fst pk') fd' = pl_channels (fst pk) fd' \<and>
        interest v (snd pk') (pl_epollfd (fst pk)) fd' = interest v (snd pk) (pl_epollfd (fst pk)) fd') \<and>
     (\<forall>ep. ep \<noteq> pl_epollfd (fst pk) \<longrightarrow> interest v (snd pk') ep = interest v (snd pk) ep) \<and>
     accepted v (snd pk') = accepted v (snd pk) \<and> evcount v (snd pk') = evcount v (snd pk) \<and>
     wr_shut v (snd pk') = wr_shut v (snd pk)"

lemmas index_consts = kNew_def kAdded_def kDeleted_def

lemma update_del:
  assumes "os_ok os v"
  obtains k' where "update os EPOLL_CTL_DEL ch p k = Inr k'"
    and "interest v k' = set_interest (interest v k) (pl_epollfd p) (chan_fd ch) None"
    and "accepted v k' = accepted v k" "evcount v k' = evcount v k" "wr_shut v k' = wr_shut v k"
proof -
  obtain r k' where c: "os_epoll_ctl os (pl_epollfd p) EPOLL_CTL_DEL (chan_fd ch)
      \<lparr>ev_events = chan_events ch, ev_ptr = chan_ptr ch\<rparr> k = (r, k')" by fastforce
  then have "update os EPOLL_CTL_DEL ch p k = Inr k'" by (simp add: update_def)
  then show ?thesis
    using that epoll_ctl_del [OF assms c] epoll_ctl_views(1,2,3) [OF assms c] by blast
qed

lemma update_set:
  assumes "os_ok os v" and "op \<noteq> EPOLL_CTL_DEL" and "update os op ch p k = Inr k'"
  shows "interest v k' = set_interest (interest v k) (pl_epollfd p) (chan_fd ch)
      (Some \<lparr>ev_events = chan_events ch, ev_ptr = chan_ptr ch\<rparr>)"
    "accepted v k' = accepted v k" "evcount v k' = evcount v k" "wr_shut v k' = wr_shut v k"
proof -
  obtain r where c: "os_epoll_ctl os (pl_epollfd p) op (chan_fd ch)
      \<lparr>ev_events = chan_events ch, ev_ptr = chan_ptr ch\<rparr> k = (r, k')" and r: "0 \<le> r"
    using assms(2,3) by (auto simp: update_def Let_def split: prod.splits if_splits)
  show "interest v k' = set_interest (interest v k) (pl_epollfd p) (chan_fd ch)
      (Some \<lparr>ev_events = chan_events ch, ev_ptr = chan_ptr ch\<rparr>)"
    using epoll_ctl_views(5) [OF assms(1) c r] assms(2) by simp
qed (use assms in \<open>auto simp: update_def Let_def split: prod.splits if_splits dest: epoll_ctl_views\<close>)

lemma update_MOD_never_absent:
  assumes "os_ok os v" and "update os op ch p k = Inl e"
  shows "e = Fatal_Exit \<and> op \<noteq> EPOLL_CTL_DEL"
  using assms by (auto simp: update_def Let_def split: prod.splits if_splits)

text \<open>Registering again after a change of \<open>events_\<close> alone.\<close>

lemma updateChannel_registered:
  assumes ok: "os_ok os v" and reg: "registered v pk ch"
    and upd: "upd_pk os (ch\<lparr>chan_events := e\<rparr>) pk = Inr (ch', pk')"
  shows "registered v pk' ch' \<and> others_kept v pk pk' (chan_fd ch) \<and>
    (\<exists>i. ch' = ch\<lparr>chan_events := e, chan_index := i\<rparr> \<and>
       i = (if chan_index ch = kAdded \<and> e = kNoneEvent then kDeleted else kAdded))"
proof -
  obtain p k p' k' where pk: "pk = (p, k)" "pk' = (p', k')" by fastforce
  let ?ch = "ch\<lparr>chan_events := e\<rparr>"
  consider (new) "chan_index ch = kNew" | (deleted) "chan_index ch = kDeleted"
    | (del) "chan_index ch = kAdded" "e = kNoneEvent" | (mod) "chan_index ch = kAdded" "e \<noteq> kNoneEvent"
    using reg by (auto simp: registered_def)
  then show ?thesis
  proof cases
    case new
    with upd pk obtain k1 where u: "update os EPOLL_CTL_ADD (set_index kAdded ?ch)
        (p\<lparr>pl_channels := (pl_channels p)(chan_fd ch \<mapsto> chan_ptr ch)\<rparr>) k = Inr k1"
      and eqs: "ch' = set_index kAdded ?ch" "p' = p\<lparr>pl_channels := (pl_channels p)(chan_fd ch \<mapsto> chan_ptr ch)\<rparr>" "k' = k1"
      by (auto simp: upd_pk_def updateChannel_def Let_def elim!: res_bindE)
    show ?thesis
      using update_set [OF ok _ u] new pk eqs
      by (auto simp: registered_def others_kept_def channel_simps index_consts fun_eq_iff)
  next
    case deleted
    with upd pk obtain k1 where u: "update os EPOLL_CTL_ADD (set_index kAdded ?ch) p k = Inr k1"
      and eqs: "ch' = set_index kAdded ?ch" "p' = p" "k' = k1"
      by (auto simp: upd_pk_def updateChannel_def Let_def index_consts elim!: res_bindE)
    show ?thesis
      using update_set [OF ok _ u] deleted reg pk eqs
      by (auto simp: registered_def others_kept_def channel_simps index_consts fun_eq_iff)
  next
    case del
    obtain k1 where u: "update os EPOLL_CTL_DEL ?ch p k = Inr k1"
      and v: "interest v k1 = set_interest (interest v k) (pl_epollfd p) (chan_fd ?ch) None"
        "accepted v k1 = accepted v k" "evcount v k1 = evcount v k" "wr_shut v k1 = wr_shut v k"
      by (rule update_del [OF ok])
    have eqs: "ch' = set_index kDeleted ?ch" "p' = p" "k' = k1"
      using del upd pk u by (auto simp: upd_pk_def updateChannel_def Let_def index_consts isNoneEvent_def)
    show ?thesis
      using v del reg pk eqs
      by (auto simp: registered_def others_kept_def channel_simps index_consts fun_eq_iff)
  next
    case mod
    with upd pk obtain k1 where u: "update os EPOLL_CTL_MOD ?ch p k = Inr k1"
      and eqs: "ch' = ?ch" "p' = p" "k' = k1"
      by (auto simp: upd_pk_def updateChannel_def Let_def index_consts isNoneEvent_def elim!: res_bindE)
    show ?thesis
      using update_set [OF ok _ u] mod reg pk eqs
      by (auto simp: registered_def others_kept_def channel_simps index_consts fun_eq_iff)
  qed
qed

lemma removeChannel_unregisters:
  assumes ok: "os_ok os v" and reg: "registered v pk ch"
  shows "\<exists>pk'. rem_pk os ch pk = Inr (set_index kNew ch, pk') \<and>
    registered v pk' (set_index kNew ch) \<and> others_kept v pk pk' (chan_fd ch)"
proof -
  obtain p k where pk: "pk = (p, k)" by fastforce
  let ?p = "p\<lparr>pl_channels := (pl_channels p)(chan_fd ch := None)\<rparr>"
  show ?thesis
  proof (cases "chan_index ch = kAdded")
    case True
    obtain k1 where u: "update os EPOLL_CTL_DEL ch ?p k = Inr k1"
      and v: "interest v k1 = set_interest (interest v k) (pl_epollfd ?p) (chan_fd ch) None"
        "accepted v k1 = accepted v k" "evcount v k1 = evcount v k" "wr_shut v k1 = wr_shut v k"
      by (rule update_del [OF ok])
    then show ?thesis
      using True pk
      by (auto simp: rem_pk_def removeChannel_def Let_def registered_def others_kept_def channel_simps
          index_consts)
  next
    case False
    then show ?thesis
      using reg pk
      by (auto simp: rem_pk_def removeChannel_def Let_def registered_def others_kept_def channel_simps
          index_consts)
  qed
qed

text \<open>Registration looks at the interest list only.\<close>

lemma registered_interest:
  "interest v k' = interest v k \<Longrightarrow> registered v (p, k') ch = registered v (p, k) ch"
  by (simp add: registered_def)

text \<open>A channel with another descriptor keeps its registration.\<close>

lemma others_kept_registered:
  "others_kept v pk pk' fd \<Longrightarrow> registered v pk ch \<Longrightarrow> chan_fd ch \<noteq> fd \<Longrightarrow> registered v pk' ch"
  by (auto simp: others_kept_def registered_def split: prod.splits)

lemma others_kept_agrees:
  assumes "others_kept v pk pk' (chan_fd ch)" and "registered v pk' ch" and "poller_agrees v pk"
  shows "poller_agrees v pk'"
  unfolding poller_agrees_def
proof (intro allI impI)
  fix fd ev
  assume ev: "interest v (snd pk') (pl_epollfd (fst pk')) fd = Some ev"
  show "pl_channels (fst pk') fd = Some (ev_ptr ev)"
  proof (cases "fd = chan_fd ch")
    case True
    with ev assms(2) show ?thesis by (auto simp: registered_def split: prod.splits)
  next
    case False
    with ev assms(1,3) show ?thesis by (simp add: others_kept_def poller_agrees_def)
  qed
qed

section \<open>The contract of a poller\<close>

text \<open>
  What the event loop and the channels rely on, over an abstract poller state: a registration is
  kept in step by every update and withdrawn by a removal, and neither touches another descriptor.
\<close>

locale registrar =
  fixes os_fine :: "'o \<Rightarrow> 'v \<Rightarrow> bool"
    and reg :: "'v \<Rightarrow> 'p \<Rightarrow> channel \<Rightarrow> bool"
    and kept :: "'v \<Rightarrow> 'p \<Rightarrow> 'p \<Rightarrow> int \<Rightarrow> bool"
    and upd :: "'o \<Rightarrow> channel \<Rightarrow> 'p \<Rightarrow> (channel \<times> 'p) res"
    and rem :: "'o \<Rightarrow> channel \<Rightarrow> 'p \<Rightarrow> (channel \<times> 'p) res"
  assumes upd_reg: "os_fine os v \<Longrightarrow> reg v p ch \<Longrightarrow> upd os (ch\<lparr>chan_events := e\<rparr>) p = Inr (ch', p') \<Longrightarrow>
      reg v p' ch' \<and> kept v p p' (chan_fd ch) \<and>
      (\<exists>i. ch' = ch\<lparr>chan_events := e, chan_index := i\<rparr> \<and>
         i = (if chan_index ch = kAdded \<and> e = kNoneEvent then kDeleted else kAdded))"
    and rem_reg: "os_fine os v \<Longrightarrow> reg v p ch \<Longrightarrow>
      \<exists>p'. rem os ch p = Inr (set_index kNew ch, p') \<and> reg v p' (set_index kNew ch) \<and> kept v p p' (chan_fd ch)"
    and kept_reg: "kept v p p' fd \<Longrightarrow> reg v p ch \<Longrightarrow> chan_fd ch \<noteq> fd \<Longrightarrow> reg v p' ch"
begin

text \<open>Two updates in a row: the kernel follows the last mask.\<close>

lemma upd_twice:
  assumes "os_fine os v" and "reg v p ch"
    and "upd os (ch\<lparr>chan_events := e1\<rparr>) p = Inr (ch1, p1)"
    and "upd os (ch1\<lparr>chan_events := e2\<rparr>) p1 = Inr (ch2, p2)"
  shows "reg v p2 ch2 \<and> chan_events ch2 = e2 \<and> chan_fd ch2 = chan_fd ch"
proof -
  have "reg v p1 ch1" and fd: "chan_fd ch1 = chan_fd ch"
    using upd_reg [OF assms(1-3)] by auto
  from upd_reg [OF assms(1) this(1) assms(4)] fd show ?thesis by auto
qed

text \<open>Registering one channel and removing it again leaves every other channel registered.\<close>

lemma upd_rem_others:
  assumes "os_fine os v" and "reg v p ch" and "reg v p c" and "chan_fd c \<noteq> chan_fd ch"
    and "upd os (ch\<lparr>chan_events := e\<rparr>) p = Inr (ch1, p1)"
    and "rem os ch1 p1 = Inr (ch2, p2)"
  shows "reg v p2 c \<and> chan_index ch2 = kNew"
proof -
  from upd_reg [OF assms(1,2,5)] have r1: "reg v p1 ch1" and k1: "kept v p p1 (chan_fd ch)"
    and fd: "chan_fd ch1 = chan_fd ch" by auto
  from rem_reg [OF assms(1) r1] assms(6) have k2: "kept v p1 p2 (chan_fd ch)"
    and ch2: "ch2 = set_index kNew ch1" using fd by auto
  have "reg v p1 c" using kept_reg [OF k1 assms(3,4)] .
  then have "reg v p2 c" using kept_reg [OF k2] assms(4) by blast
  then show ?thesis by (simp add: ch2 channel_simps)
qed

end

interpretation epoll: registrar os_ok registered others_kept upd_pk rem_pk
proof
  fix os :: "'k os" and v :: "'k view" and p ch
  show "os_ok os v \<Longrightarrow> registered v p ch \<Longrightarrow>
      \<exists>p'. rem_pk os ch p = Inr (set_index kNew ch, p') \<and> registered v p' (set_index kNew ch) \<and>
        others_kept v p p' (chan_fd ch)"
    by (rule removeChannel_unregisters)
qed (use updateChannel_registered others_kept_registered in blast)+

section \<open>Polling\<close>

lemma fillActiveChannels_order:
  assumes "fillActiveChannels evs store active = Inr (store', active')"
  shows "active' = active @ map ev_ptr evs \<and>
    (\<forall>ptr. (store' ptr = None) = (store ptr = None)) \<and>
    (\<forall>ptr. ptr \<notin> ev_ptr ` set evs \<longrightarrow> store' ptr = store ptr)"
  using assms
proof (induction evs arbitrary: store active)
  case Nil
  then show ?case by simp
next
  case (Cons e es)
  then obtain ch where ch: "store (ev_ptr e) = Some ch" by (auto split: option.splits)
  with Cons.prems have "fillActiveChannels es (store(ev_ptr e \<mapsto> set_revents (ev_events e) ch))
      (active @ [ev_ptr e]) = Inr (store', active')" by simp
  from Cons.IH [OF this] ch show ?case by auto
qed

lemma fillActiveChannels_revents:
  assumes "fillActiveChannels evs store active = Inr (store', active')"
    and "e \<in> set evs" and "distinct (map ev_ptr evs)" and "store (ev_ptr e) = Some ch"
  shows "store' (ev_ptr e) = Some (set_revents (ev_events e) ch)"
  using assms
proof (induction evs arbitrary: store active)
  case Nil
  then show ?case by simp
next
  case (Cons x es)
  from Cons.prems(1) obtain c where c: "store (ev_ptr x) = Some c"
    by (auto split: option.splits)
  with Cons.prems(1) have fill: "fillActiveChannels es (store(ev_ptr x \<mapsto> set_revents (ev_events x) c))
      (active @ [ev_ptr x]) = Inr (store', active')" by simp
  show ?case
  proof (cases "e = x")
    case True
    then have "ev_ptr e \<notin> ev_ptr ` set es" using Cons.prems(3) by auto
    with fillActiveChannels_order [OF fill] True c Cons.prems(4) show ?thesis by auto
  next
    case False
    with Cons.prems(2) have e: "e \<in> set es" by simp
    then have ne: "ev_ptr e \<noteq> ev_ptr x" using Cons.prems(3) by (auto simp: image_iff)
    show ?thesis by (rule Cons.IH [OF fill e]) (use Cons.prems ne in auto)
  qed
qed

lemma fillActiveChannels_total:
  assumes "\<And>e. e \<in> set evs \<Longrightarrow> store (ev_ptr e) \<noteq> None"
  shows "\<exists>store' active'. fillActiveChannels evs store active = Inr (store', active')"
  using assms
proof (induction evs arbitrary: store active)
  case Nil
  then show ?case by simp
next
  case (Cons e es)
  then obtain ch where "store (ev_ptr e) = Some ch" by force
  moreover have "\<exists>s a. fillActiveChannels es (store(ev_ptr e \<mapsto> set_revents (ev_events e) ch))
      (active @ [ev_ptr e]) = Inr (s, a)"
    by (rule Cons.IH) (use Cons.prems in auto)
  ultimately show ?case by simp
qed

text \<open>A full array has fewer than \<open>2 ^ 31\<close> slots, so doubling it is always possible.\<close>

lemma poll_slots:
  assumes "os_ok os v" and "os_epoll_wait os ep (to_int32 (int n)) t k = (Inr evs, k')"
  shows "length evs \<le> n"
    "(if length evs = n then resize_events (n * 2) p else Inr p) =
       Inr (if length evs = n then p\<lparr>pl_events_size := n * 2\<rparr> else p)"
proof -
  have l: "0 < to_int32 (int n)" "length evs \<le> nat (to_int32 (int n))" using epoll_wait_views(5) [OF assms] by auto
  have "(int n + 2 ^ 31) mod 2 ^ 32 \<le> int n + 2 ^ 31" by (rule zmod_le_nonneg_dividend) simp
  with l show "length evs \<le> n"
    "(if length evs = n then resize_events (n * 2) p else Inr p) =
       Inr (if length evs = n then p\<lparr>pl_events_size := n * 2\<rparr> else p)"
    by (auto simp: to_int32_def resize_events_def events_max_def)
qed

lemma poll_safe:
  assumes ok: "os_ok os v" and agrees: "poller_agrees v (p, k)"
    and live: "all_live p store"
  shows "\<exists>active store' p' k'. poll os t p store k = Inr (active, store', p', k') \<and>
    set active \<subseteq> ran (pl_channels p) \<and> length active \<le> pl_events_size p \<and>
    pl_channels p' = pl_channels p \<and> pl_epollfd p' = pl_epollfd p \<and>
    pl_events_size p' = (if active \<noteq> [] \<and> length active = pl_events_size p
                         then 2 * pl_events_size p else pl_events_size p) \<and>
    interest v k' = interest v k"
proof -
  obtain r k' where w: "os_epoll_wait os (pl_epollfd p) (to_int32 (int (pl_events_size p))) t k = (r, k')" by fastforce
  note views = epoll_wait_views [OF ok w]
  show ?thesis
  proof (cases r)
    case (Inl e)
    with w views show ?thesis by (simp add: poll_def)
  next
    case (Inr evs)
    have ptr: "ev_ptr e \<in> ran (pl_channels p)" if "e \<in> set evs" for e
    proof -
      from views(6) [OF Inr that] obtain fd ev
        where "interest v k (pl_epollfd p) fd = Some ev" "ev_ptr ev = ev_ptr e" by blast
      with agrees have "pl_channels p fd = Some (ev_ptr e)" by (simp add: poller_agrees_def)
      then show ?thesis by (rule ranI)
    qed
    then have "store (ev_ptr e) \<noteq> None" if "e \<in> set evs" for e
      using live that unfolding all_live_def by blast
    then obtain store' active where f: "fillActiveChannels evs store [] = Inr (store', active)"
      using fillActiveChannels_total by blast
    then have act: "active = map ev_ptr evs" using fillActiveChannels_order by fastforce
    show ?thesis
    proof (cases "evs = []")
      case True
      with w Inr views show ?thesis by (simp add: poll_def)
    next
      case False
      then have "poll os t p store k = Inr (active, store',
          (if length evs = pl_events_size p then p\<lparr>pl_events_size := pl_events_size p * 2\<rparr> else p), k')"
        using w Inr f poll_slots(2) [OF ok w [unfolded Inr]] by (simp add: poll_def)
      with False act ptr views(1) poll_slots(1) [OF ok w [unfolded Inr]] show ?thesis by auto
    qed
  qed
qed

lemma fillActiveChannels_single:
  "store (ev_ptr e) = Some ch \<Longrightarrow>
   fillActiveChannels [e] store [] = Inr (store(ev_ptr e \<mapsto> set_revents (ev_events e) ch), [ev_ptr e])"
  by simp

text \<open>
  A channel that is already disabled and is disabled again goes back into the epoll instance, with
  an empty mask, for which the kernel still reports errors and hang-ups.
\<close>

lemma disabled_twice_is_watched_again:
  assumes "os_ok os v" and "registered v (p, k) ch" and "chan_index ch = kDeleted"
    and "updateChannel os (clear_all ch) p k = Inr (ch', p', k')"
  shows "chan_index ch' = kAdded \<and>
    interest v k' (pl_epollfd p') (chan_fd ch) = Some \<lparr>ev_events = 0, ev_ptr = chan_ptr ch\<rparr>"
proof -
  have "upd_pk os (ch\<lparr>chan_events := kNoneEvent\<rparr>) (p, k) = Inr (ch', (p', k'))"
    using assms(4) by (simp add: upd_pk_def clear_all_def)
  from epoll.upd_reg [OF assms(1,2) this] assms(3) show ?thesis
    by (auto simp: registered_def index_consts kNoneEvent_def)
qed

section \<open>Properties\<close>

text \<open>C7: The registration index of a channel always tells the truth about the poller's map and the
  kernel's interest list. Whatever mask a registered channel is updated to, either the process
  exits because the kernel refused the registration, or the channel is registered again with
  exactly that mask; a removal always succeeds, changes nothing of the channel but its index, which
  becomes \<open>kNew\<close>, and leaves the channel in neither. Channels on other descriptors keep their
  registration.\<close>

theorem channel_registration_in_step:
  assumes "os_ok os v" and "registered v (p, k) ch"
  shows "(case updateChannel os (ch\<lparr>chan_events := e\<rparr>) p k of
      Inl f \<Rightarrow> f = Fatal_Exit
    | Inr (ch', p', k') \<Rightarrow> registered v (p', k') ch' \<and> chan_events ch' = e \<and>
        (\<forall>c. chan_fd c \<noteq> chan_fd ch \<longrightarrow> registered v (p, k) c \<longrightarrow> registered v (p', k') c)) \<and>
    (\<exists>p' k'. removeChannel os ch p k = Inr (ch\<lparr>chan_index := kNew\<rparr>, p', k') \<and>
        registered v (p', k') (ch\<lparr>chan_index := kNew\<rparr>) \<and>
        pl_channels p' (chan_fd ch) = None \<and> interest v k' (pl_epollfd p') (chan_fd ch) = None \<and>
        (\<forall>c. chan_fd c \<noteq> chan_fd ch \<longrightarrow> registered v (p, k) c \<longrightarrow> registered v (p', k') c))"
proof (intro conjI)
  show "case updateChannel os (ch\<lparr>chan_events := e\<rparr>) p k of
      Inl f \<Rightarrow> f = Fatal_Exit
    | Inr (ch', p', k') \<Rightarrow> registered v (p', k') ch' \<and> chan_events ch' = e \<and>
        (\<forall>c. chan_fd c \<noteq> chan_fd ch \<longrightarrow> registered v (p, k) c \<longrightarrow> registered v (p', k') c)"
  proof (cases "updateChannel os (ch\<lparr>chan_events := e\<rparr>) p k")
    case (Inl f)
    then have "f = Fatal_Exit"
      by (auto simp: updateChannel_def Let_def res_bind_eq_Inl split: if_splits
          dest: update_MOD_never_absent [OF assms(1)])
    with Inl show ?thesis by simp
  next
    case (Inr x)
    obtain ch' p' k' where x: "x = (ch', p', k')" by (metis prod_cases3)
    have "upd_pk os (ch\<lparr>chan_events := e\<rparr>) (p, k) = Inr (ch', (p', k'))"
      using Inr x by (simp add: upd_pk_def)
    from epoll.upd_reg [OF assms this] show ?thesis
      using Inr x epoll.kept_reg by fastforce
  qed
  obtain pk' where r: "rem_pk os ch (p, k) = Inr (set_index kNew ch, pk')"
    "registered v pk' (set_index kNew ch)" "others_kept v (p, k) pk' (chan_fd ch)"
    using epoll.rem_reg [OF assms] by blast
  obtain p' k' where pk': "pk' = (p', k')" by fastforce
  have "removeChannel os ch p k = Inr (set_index kNew ch, p', k')"
    using r(1) pk' by (simp add: rem_pk_def)
  moreover have "pl_channels p' (chan_fd ch) = None \<and> interest v k' (pl_epollfd p') (chan_fd ch) = None"
    using r(2) pk' by (simp add: registered_def channel_simps index_consts)
  moreover have "set_index kNew ch = ch\<lparr>chan_index := kNew\<rparr>" by (simp add: set_index_def)
  ultimately show "\<exists>p' k'. removeChannel os ch p k = Inr (ch\<lparr>chan_index := kNew\<rparr>, p', k') \<and>
        registered v (p', k') (ch\<lparr>chan_index := kNew\<rparr>) \<and>
        pl_channels p' (chan_fd ch) = None \<and> interest v k' (pl_epollfd p') (chan_fd ch) = None \<and>
        (\<forall>c. chan_fd c \<noteq> chan_fd ch \<longrightarrow> registered v (p, k) c \<longrightarrow> registered v (p', k') c)"
    using r(2,3) pk' epoll.kept_reg by auto
qed

theorem channel_registration_in_step_witness:
  defines "p \<equiv> \<lparr>pl_channels = Map.empty, pl_epollfd = 3, pl_events_size = 16\<rparr>"
  shows "os_ok sim_os sim_view \<and> registered sim_view (p, kernel0) (Channel 1 7) \<and>
    (case updateChannel sim_os ((Channel 1 7)\<lparr>chan_events := 3\<rparr>) p kernel0 of
      Inl f \<Rightarrow> f = Fatal_Exit
    | Inr (ch', p', k') \<Rightarrow> registered sim_view (p', k') ch' \<and> chan_events ch' = 3) \<and>
    (\<exists>p' k'. removeChannel sim_os (Channel 1 7) p kernel0 = Inr (Channel 1 7, p', k'))"
proof -
  have h: "registered sim_view (p, kernel0) (Channel 1 7)"
    by (simp add: p_def registered_def Channel_def index_consts sim_view_def kernel0_def)
  have "(Channel 1 7)\<lparr>chan_index := kNew\<rparr> = Channel 1 7" by (simp add: Channel_def index_consts)
  then show ?thesis
    using sim_os_ok h channel_registration_in_step [OF sim_os_ok h, of 3]
    by (auto split: sum.splits)
qed

text \<open>C15: When the interest list agrees with the poller's map and the map refers to live channels,
  polling never follows a dangling pointer: it returns only channels of the map, at most as many as
  the event array holds, and doubles the array exactly when it was full.\<close>

theorem poll_returns_registered_channels:
  assumes "os_ok os v" and "poller_agrees v (p, k)"
    and "all_live p store"
  shows "\<exists>active store' p' k'. poll os t p store k = Inr (active, store', p', k') \<and>
    set active \<subseteq> ran (pl_channels p) \<and> length active \<le> pl_events_size p \<and>
    pl_channels p' = pl_channels p \<and>
    pl_events_size p' = (if active \<noteq> [] \<and> length active = pl_events_size p
                         then 2 * pl_events_size p else pl_events_size p)"
  using poll_safe [OF assms] by blast

theorem poll_returns_registered_channels_witness:
  defines "p \<equiv> \<lparr>pl_channels = [7 \<mapsto> 1], pl_epollfd = 3, pl_events_size = 1\<rparr>"
  defines "k \<equiv> kernel0\<lparr>k_interest := set_interest (\<lambda>_ _. None) 3 7 (Some \<lparr>ev_events = 3, ev_ptr = 1\<rparr>),
      k_ready := [\<lparr>ev_events = 1, ev_ptr = 1\<rparr>]\<rparr>"
  defines "store \<equiv> [1 \<mapsto> Channel 1 7] :: chan_store"
  shows "poller_agrees sim_view (p, k) \<and> all_live p store \<and>
    (\<exists>active store' p' k'. poll sim_os 1000 p store k = Inr (active, store', p', k') \<and>
      set active \<subseteq> {1} \<and> length active \<le> 1)"
proof -
  have a: "poller_agrees sim_view (p, k)"
    by (auto simp: poller_agrees_def p_def k_def sim_view_def split: if_splits)
  have l: "all_live p store"
    by (simp add: all_live_def p_def store_def)
  have r: "ran (pl_channels p) = {1}" "pl_events_size p = 1" by (simp_all add: p_def)
  show ?thesis
    using a l poll_returns_registered_channels [OF sim_os_ok a l, where t = 1000] unfolding r by blast
qed

end
