(* ===== verification/Net_EventLoop.thy ===== *)
theory Net_EventLoop
  imports Net_Poller
begin

text \<open>
  \<open>common/net/EventLoop.h\<close>, \<open>EventLoop.cc\<close> and the members of \<open>Channel.cc\<close> that register with the
  loop. The state \<open>reactor\<close> is one loop together with the kernel; components that own more (a
  connection, a server) extend the record, so the operations here work on any extension. The
  closures the library queues are the datatype \<open>closure\<close>; what running one does is the argument
  \<open>exec\<close>. The current thread is the argument \<open>tid\<close>. The last part is a small-step model of one loop
  thread and any number of other threads, whose steps are the definitions of the first part.
\<close>

section \<open>The model\<close>

text \<open>The closures passed to \<open>runInLoop\<close> and \<open>queueInLoop\<close>: the bound member function and its
  arguments (a connection by its number; \<open>sendInLoop\<close> carries the address and length of the text).\<close>

datatype closure =
    Fn_connectEstablished nat | Fn_connectDestroyed nat
  | Fn_sendInLoop nat nat nat | Fn_shutdownInLoop nat
  | Fn_writeComplete nat | Fn_highWaterMark nat nat
  | Fn_removeConnectionInLoop nat | Fn_listen | Fn_user nat

record event_loop =
  lp_looping :: bool
  lp_quit :: bool
  lp_callingPendingFunctors :: bool
  lp_threadId :: int
  lp_poller :: epoll_poller
  lp_wakeupFd :: int
  lp_wakeupChannel :: channel
  lp_activeChannels :: "nat list"
  lp_pendingFunctors :: "closure list"

record 'k reactor =
  rx_loop :: event_loop
  rx_kern :: 'k

definition kPollTimeMs :: int where
  "kPollTimeMs = 1000"

definition isInLoopThread :: "int \<Rightarrow> event_loop \<Rightarrow> bool" where
  "isInLoopThread tid lp \<longleftrightarrow> lp_threadId lp = tid"

definition createEventfd :: "'k os \<Rightarrow> 'k \<Rightarrow> (int \<times> 'k) res" where
  "createEventfd os k =
     (case os_eventfd os k of (evtfd, k') \<Rightarrow> if evtfd < 0 then Inl Fatal_Exit else Inr (evtfd, k'))"

definition loop_updateChannel ::
    "'k os \<Rightarrow> channel \<Rightarrow> ('k, 'a) reactor_scheme \<Rightarrow> (channel \<times> ('k, 'a) reactor_scheme) res" where
  "loop_updateChannel os ch r =
     res_bind (updateChannel os ch (lp_poller (rx_loop r)) (rx_kern r)) (\<lambda>(ch', p', k').
       Inr (ch', r\<lparr>rx_loop := (rx_loop r)\<lparr>lp_poller := p'\<rparr>, rx_kern := k'\<rparr>))"

definition loop_removeChannel ::
    "'k os \<Rightarrow> channel \<Rightarrow> ('k, 'a) reactor_scheme \<Rightarrow> (channel \<times> ('k, 'a) reactor_scheme) res" where
  "loop_removeChannel os ch r =
     res_bind (removeChannel os ch (lp_poller (rx_loop r)) (rx_kern r)) (\<lambda>(ch', p', k').
       Inr (ch', r\<lparr>rx_loop := (rx_loop r)\<lparr>lp_poller := p'\<rparr>, rx_kern := k'\<rparr>))"

definition loop_hasChannel :: "channel \<Rightarrow> ('k, 'a) reactor_scheme \<Rightarrow> bool" where
  "loop_hasChannel ch r \<longleftrightarrow> hasChannel (lp_poller (rx_loop r)) ch"

text \<open>\<open>Channel::enableReading\<close> and its kin: assign \<open>events_\<close>, then \<open>update()\<close>.\<close>

definition enableReading :: "'k os \<Rightarrow> channel \<Rightarrow> ('k, 'a) reactor_scheme \<Rightarrow> (channel \<times> ('k, 'a) reactor_scheme) res" where
  "enableReading os ch r = loop_updateChannel os (set_reading ch) r"

definition disableReading :: "'k os \<Rightarrow> channel \<Rightarrow> ('k, 'a) reactor_scheme \<Rightarrow> (channel \<times> ('k, 'a) reactor_scheme) res" where
  "disableReading os ch r = loop_updateChannel os (clear_reading ch) r"

definition enableWriting :: "'k os \<Rightarrow> channel \<Rightarrow> ('k, 'a) reactor_scheme \<Rightarrow> (channel \<times> ('k, 'a) reactor_scheme) res" where
  "enableWriting os ch r = loop_updateChannel os (set_writing ch) r"

definition disableWriting :: "'k os \<Rightarrow> channel \<Rightarrow> ('k, 'a) reactor_scheme \<Rightarrow> (channel \<times> ('k, 'a) reactor_scheme) res" where
  "disableWriting os ch r = loop_updateChannel os (clear_writing ch) r"

definition disableAll :: "'k os \<Rightarrow> channel \<Rightarrow> ('k, 'a) reactor_scheme \<Rightarrow> (channel \<times> ('k, 'a) reactor_scheme) res" where
  "disableAll os ch r = loop_updateChannel os (clear_all ch) r"

definition chan_remove :: "'k os \<Rightarrow> channel \<Rightarrow> ('k, 'a) reactor_scheme \<Rightarrow> (channel \<times> ('k, 'a) reactor_scheme) res" where
  "chan_remove os ch r = loop_removeChannel os ch r"

text \<open>
  The constructor. \<open>has_loop\<close> says that this thread already has a loop (the thread-local
  \<open>t_loopInThisThread\<close>), \<open>use_poll\<close> that \<open>MUDUO_USE_POLL\<close> is set: then the poller is a null pointer
  and \<open>enableReading\<close> follows it.
\<close>

definition EventLoop :: "'k os \<Rightarrow> bool \<Rightarrow> bool \<Rightarrow> int \<Rightarrow> nat \<Rightarrow> 'k \<Rightarrow> 'k reactor res" where
  "EventLoop os use_poll has_loop tid wptr k =
     res_bind (newDefaultPoller use_poll os k) (\<lambda>(p, k1).
     res_bind (createEventfd os k1) (\<lambda>(wfd, k2).
       if has_loop then Inl Fatal_Exit
       else
         let ch = (Channel wptr wfd)\<lparr>readCallback := Some Loop_handleRead\<rparr> in
         case p of
           None \<Rightarrow> Inl Undefined_Behaviour
         | Some pl \<Rightarrow>
             let lp = \<lparr>lp_looping = False, lp_quit = False, lp_callingPendingFunctors = False,
                       lp_threadId = tid, lp_poller = pl, lp_wakeupFd = wfd, lp_wakeupChannel = ch,
                       lp_activeChannels = [], lp_pendingFunctors = []\<rparr>
             in res_bind (enableReading os ch \<lparr>rx_loop = lp, rx_kern = k2\<rparr>) (\<lambda>(ch', r).
                  Inr (r\<lparr>rx_loop := (rx_loop r)\<lparr>lp_wakeupChannel := ch'\<rparr>\<rparr>))))"

definition EventLoop_dtor :: "'k os \<Rightarrow> ('k, 'a) reactor_scheme \<Rightarrow> ('k, 'a) reactor_scheme res" where
  "EventLoop_dtor os r =
     res_bind (disableAll os (lp_wakeupChannel (rx_loop r)) r) (\<lambda>(ch1, r1).
     res_bind (chan_remove os ch1 r1) (\<lambda>(ch2, r2).
       Inr (r2\<lparr>rx_loop := (rx_loop r2)\<lparr>lp_wakeupChannel := ch2\<rparr>,
               rx_kern := os_close os (lp_wakeupFd (rx_loop r2)) (rx_kern r2)\<rparr>)))"

text \<open>\<open>wakeup\<close> writes one to the event descriptor; \<open>handleRead\<close> reads it. A short count is only
  logged.\<close>

definition wakeup :: "'k os \<Rightarrow> ('k, 'a) reactor_scheme \<Rightarrow> ('k, 'a) reactor_scheme" where
  "wakeup os r =
     (case os_write os (lp_wakeupFd (rx_loop r)) one_bytes (rx_kern r) of (n, k') \<Rightarrow> r\<lparr>rx_kern := k'\<rparr>)"

definition loop_handleRead :: "'k os \<Rightarrow> ('k, 'a) reactor_scheme \<Rightarrow> ('k, 'a) reactor_scheme" where
  "loop_handleRead os r =
     (case os_read os (lp_wakeupFd (rx_loop r)) 8 (rx_kern r) of (n, k') \<Rightarrow> r\<lparr>rx_kern := k'\<rparr>)"

definition set_quit :: "('k, 'a) reactor_scheme \<Rightarrow> ('k, 'a) reactor_scheme" where
  "set_quit r = r\<lparr>rx_loop := (rx_loop r)\<lparr>lp_quit := True\<rparr>\<rparr>"

definition quit :: "'k os \<Rightarrow> int \<Rightarrow> ('k, 'a) reactor_scheme \<Rightarrow> ('k, 'a) reactor_scheme" where
  "quit os tid r =
     (let r1 = set_quit r in if \<not> isInLoopThread tid (rx_loop r1) then wakeup os r1 else r1)"

text \<open>\<open>queueInLoop\<close>: the push is under the mutex, the wake-up after it has been released.\<close>

definition push_pending :: "closure \<Rightarrow> ('k, 'a) reactor_scheme \<Rightarrow> ('k, 'a) reactor_scheme" where
  "push_pending cb r = r\<lparr>rx_loop := (rx_loop r)\<lparr>lp_pendingFunctors := lp_pendingFunctors (rx_loop r) @ [cb]\<rparr>\<rparr>"

definition wake_due :: "int \<Rightarrow> event_loop \<Rightarrow> bool" where
  "wake_due tid lp \<longleftrightarrow> \<not> isInLoopThread tid lp \<or> lp_callingPendingFunctors lp"

definition queueInLoop :: "'k os \<Rightarrow> int \<Rightarrow> closure \<Rightarrow> ('k, 'a) reactor_scheme \<Rightarrow> ('k, 'a) reactor_scheme" where
  "queueInLoop os tid cb r =
     (let r1 = push_pending cb r in if wake_due tid (rx_loop r1) then wakeup os r1 else r1)"

declare set_quit_def [simp] push_pending_def [simp] wake_due_def [simp]

definition runInLoop ::
    "'k os \<Rightarrow> (closure \<Rightarrow> ('k, 'a) reactor_scheme \<Rightarrow> ('k, 'a) reactor_scheme res) \<Rightarrow> int \<Rightarrow> closure \<Rightarrow>
     ('k, 'a) reactor_scheme \<Rightarrow> ('k, 'a) reactor_scheme res" where
  "runInLoop os exec tid cb r =
     (if isInLoopThread tid (rx_loop r) then exec cb r else Inr (queueInLoop os tid cb r))"

text \<open>\<open>doPendingFunctors\<close> swaps the queue out under the lock and runs the batch without it.\<close>

definition swap_pending :: "('k, 'a) reactor_scheme \<Rightarrow> closure list \<times> ('k, 'a) reactor_scheme" where
  "swap_pending r =
     (lp_pendingFunctors (rx_loop r),
      r\<lparr>rx_loop := (rx_loop r)\<lparr>lp_callingPendingFunctors := True, lp_pendingFunctors := []\<rparr>\<rparr>)"

definition end_pending :: "('k, 'a) reactor_scheme \<Rightarrow> ('k, 'a) reactor_scheme" where
  "end_pending r = r\<lparr>rx_loop := (rx_loop r)\<lparr>lp_callingPendingFunctors := False\<rparr>\<rparr>"

definition doPendingFunctors ::
    "(closure \<Rightarrow> ('k, 'a) reactor_scheme \<Rightarrow> ('k, 'a) reactor_scheme res) \<Rightarrow> ('k, 'a) reactor_scheme \<Rightarrow>
     ('k, 'a) reactor_scheme res" where
  "doPendingFunctors exec r =
     (case swap_pending r of (functors, r1) \<Rightarrow>
        res_bind (fold_res exec functors r1) (\<lambda>r2. Inr (end_pending r2)))"

text \<open>
  One turn of \<open>loop\<close>: poll, let every active channel handle its events, run the queued closures.
  \<open>chans\<close> and \<open>put_chans\<close> read and write the channels the state owns; \<open>handle\<close> is
  \<open>channel->handleEvent\<close> for the channel at an address.
\<close>

definition loop_turn ::
    "'k os \<Rightarrow> (('k, 'a) reactor_scheme \<Rightarrow> chan_store) \<Rightarrow>
     (chan_store \<Rightarrow> ('k, 'a) reactor_scheme \<Rightarrow> ('k, 'a) reactor_scheme) \<Rightarrow>
     (nat \<Rightarrow> ('k, 'a) reactor_scheme \<Rightarrow> ('k, 'a) reactor_scheme res) \<Rightarrow>
     (closure \<Rightarrow> ('k, 'a) reactor_scheme \<Rightarrow> ('k, 'a) reactor_scheme res) \<Rightarrow>
     ('k, 'a) reactor_scheme \<Rightarrow> ('k, 'a) reactor_scheme res" where
  "loop_turn os chans put_chans handle exec r =
     res_bind (poll os kPollTimeMs (lp_poller (rx_loop r)) (chans r) (rx_kern r)) (\<lambda>(active, store, p, k).
     res_bind (fold_res handle active
        (put_chans store (r\<lparr>rx_loop := (rx_loop r)\<lparr>lp_poller := p, lp_activeChannels := active\<rparr>,
                            rx_kern := k\<rparr>))) (\<lambda>r2.
       doPendingFunctors exec r2))"

definition loop_enter :: "('k, 'a) reactor_scheme \<Rightarrow> ('k, 'a) reactor_scheme" where
  "loop_enter r = r\<lparr>rx_loop := (rx_loop r)\<lparr>lp_looping := True, lp_quit := False\<rparr>\<rparr>"

definition loop_leave :: "('k, 'a) reactor_scheme \<Rightarrow> ('k, 'a) reactor_scheme" where
  "loop_leave r = r\<lparr>rx_loop := (rx_loop r)\<lparr>lp_looping := False\<rparr>\<rparr>"

text \<open>The loop itself may run forever: \<open>None\<close> stands for that.\<close>

partial_function (option) loop_while ::
    "(('k, 'a) reactor_scheme \<Rightarrow> ('k, 'a) reactor_scheme res) \<Rightarrow> ('k, 'a) reactor_scheme \<Rightarrow>
     ('k, 'a) reactor_scheme res option" where
  "loop_while turn r =
     (if lp_quit (rx_loop r) then Some (Inr (loop_leave r))
      else case turn r of Inl e \<Rightarrow> Some (Inl e) | Inr r' \<Rightarrow> loop_while turn r')"

definition loop ::
    "(('k, 'a) reactor_scheme \<Rightarrow> ('k, 'a) reactor_scheme res) \<Rightarrow> ('k, 'a) reactor_scheme \<Rightarrow>
     ('k, 'a) reactor_scheme res option" where
  "loop turn r = loop_while turn (loop_enter r)"

section \<open>The loop and its threads\<close>

text \<open>
  Interleavings of one loop thread with any number of other threads. The loop thread is outside
  \<open>loop()\<close>, at the test of \<open>quit_\<close>, blocked in the poller, handling events, running a batch of closures, or
  has left. A thread that has pushed a closure or set \<open>quit_\<close> and has not yet come to the wake-up is in
  \<open>lt_waking\<close>: between the two the other threads go on. \<open>lt_woken\<close> says that the last poll reported the wake-up
  channel, whose handler has not run yet. \<open>lt_queued\<close> and \<open>lt_done\<close> record, for the statements only, every
  closure ever queued and every closure run.
\<close>

datatype phase = Outside | Testing | Polling | Handling | Running | Left

record 'k loop_threads = "'k reactor" +
  lt_phase :: phase
  lt_woken :: bool
  lt_batch :: "closure list"
  lt_waking :: "int list"
  lt_queued :: "closure list"
  lt_done :: "closure list"

definition lt_free :: "'k loop_threads \<Rightarrow> bool" where
  "lt_free s \<longleftrightarrow> lp_threadId (rx_loop s) \<notin> set (lt_waking s)"

definition lt_readable :: "'k view \<Rightarrow> ('k, 'a) reactor_scheme \<Rightarrow> bool" where
  "lt_readable v s \<longleftrightarrow> 0 < evcount v (rx_kern s) (lp_wakeupFd (rx_loop s))"

definition lt_push :: "int \<Rightarrow> closure \<Rightarrow> 'k loop_threads \<Rightarrow> 'k loop_threads" where
  "lt_push tid f s = (push_pending f s)\<lparr>lt_queued := lt_queued s @ [f], lt_waking := tid # lt_waking s\<rparr>"

definition lt_wake :: "'k os \<Rightarrow> int \<Rightarrow> 'k loop_threads \<Rightarrow> 'k loop_threads" where
  "lt_wake os tid s = (if wake_due tid (rx_loop s) then wakeup os s else s)\<lparr>lt_waking := remove1 tid (lt_waking s)\<rparr>"

text \<open>What the threads do of themselves once something has been asked for: they complete the wake-ups they
  owe, and the loop thread goes through \<open>loop()\<close>. A blocked poll returns when the wake-up descriptor is
  readable; no step here relies on its time-out.\<close>

inductive lt_work :: "'k os \<Rightarrow> 'k view \<Rightarrow> 'k loop_threads \<Rightarrow> 'k loop_threads \<Rightarrow> bool" for os v where
  wakes: "tid \<in> set (lt_waking s) \<Longrightarrow> lt_work os v s (lt_wake os tid s)"
| leaves: "lt_free s \<Longrightarrow> lt_phase s = Testing \<Longrightarrow> lp_quit (rx_loop s) \<Longrightarrow>
    lt_work os v s ((loop_leave s)\<lparr>lt_phase := Left\<rparr>)"
| goes_on: "lt_free s \<Longrightarrow> lt_phase s = Testing \<Longrightarrow> \<not> lp_quit (rx_loop s) \<Longrightarrow> lt_work os v s (s\<lparr>lt_phase := Polling\<rparr>)"
| poll_woken: "lt_free s \<Longrightarrow> lt_phase s = Polling \<Longrightarrow> lt_readable v s \<Longrightarrow>
    lt_work os v s (s\<lparr>lt_phase := Handling, lt_woken := True\<rparr>)"
| wakeup_read: "lt_free s \<Longrightarrow> lt_phase s = Handling \<Longrightarrow> lt_woken s \<Longrightarrow>
    lt_work os v s ((loop_handleRead os s)\<lparr>lt_woken := False\<rparr>)"
| swap: "lt_free s \<Longrightarrow> lt_phase s = Handling \<Longrightarrow> \<not> lt_woken s \<Longrightarrow> swap_pending s = (fs, s1) \<Longrightarrow>
    lt_work os v s (s1\<lparr>lt_phase := Running, lt_batch := fs\<rparr>)"
| run_one: "lt_free s \<Longrightarrow> lt_phase s = Running \<Longrightarrow> lt_batch s = f # fs \<Longrightarrow>
    lt_work os v s (s\<lparr>lt_batch := fs, lt_done := lt_done s @ [f]\<rparr>)"
| batch_done: "lt_free s \<Longrightarrow> lt_phase s = Running \<Longrightarrow> lt_batch s = [] \<Longrightarrow>
    lt_work os v s ((end_pending s)\<lparr>lt_phase := Testing\<rparr>)"

text \<open>Everything that can happen. Other threads queue closures and ask the loop to quit at any moment; the
  loop thread does so from its handlers and closures, the only places where the library does. A poll may also
  return for another channel or because its time is up. Handlers and other threads change the poller and the
  kernel in ways that leave the counter of the wake-up descriptor alone.\<close>

inductive lt_step :: "'k os \<Rightarrow> 'k view \<Rightarrow> 'k loop_threads \<Rightarrow> 'k loop_threads \<Rightarrow> bool" for os v where
  works: "lt_work os v s t \<Longrightarrow> lt_step os v s t"
| other_pushes: "tid \<noteq> lp_threadId (rx_loop s) \<Longrightarrow> tid \<notin> set (lt_waking s) \<Longrightarrow> lt_step os v s (lt_push tid f s)"
| loop_pushes: "lt_free s \<Longrightarrow> lt_phase s = Handling \<or> lt_phase s = Running \<Longrightarrow>
    lt_step os v s (lt_push (lp_threadId (rx_loop s)) f s)"
| other_quits: "tid \<noteq> lp_threadId (rx_loop s) \<Longrightarrow> tid \<notin> set (lt_waking s) \<Longrightarrow>
    lt_step os v s ((set_quit s)\<lparr>lt_waking := tid # lt_waking s\<rparr>)"
| loop_quits: "lt_free s \<Longrightarrow> lt_phase s = Handling \<or> lt_phase s = Running \<Longrightarrow> lt_step os v s (set_quit s)"
| enters: "lt_phase s = Outside \<Longrightarrow> lt_step os v s ((loop_enter s)\<lparr>lt_phase := Testing\<rparr>)"
| poll_other: "lt_free s \<Longrightarrow> lt_phase s = Polling \<Longrightarrow> (w \<Longrightarrow> lt_readable v s) \<Longrightarrow>
    lt_step os v s (s\<lparr>lt_phase := Handling, lt_woken := w\<rparr>)"
| elsewhere: "evcount v k (lp_wakeupFd (rx_loop s)) = evcount v (rx_kern s) (lp_wakeupFd (rx_loop s)) \<Longrightarrow>
    lt_step os v s (s\<lparr>rx_loop := (rx_loop s)\<lparr>lp_poller := p, lp_activeChannels := a\<rparr>, rx_kern := k\<rparr>)"

inductive lt_reach :: "'k os \<Rightarrow> 'k view \<Rightarrow> 'k loop_threads \<Rightarrow> 'k loop_threads \<Rightarrow> bool" for os v s0 where
  start: "lt_reach os v s0 s0"
| step: "lt_reach os v s0 s \<Longrightarrow> lt_step os v s t \<Longrightarrow> lt_reach os v s0 t"

text \<open>A loop that has just been constructed.\<close>

definition lt_init :: "'k reactor \<Rightarrow> 'k loop_threads" where
  "lt_init r = \<lparr>rx_loop = rx_loop r, rx_kern = rx_kern r, lt_phase = Outside, lt_woken = False, lt_batch = [],
     lt_waking = [], lt_queued = lp_pendingFunctors (rx_loop r), lt_done = []\<rparr>"

text \<open>
  Two measures. \<open>lt_order\<close> falls with every step of \<open>lt_work\<close>: the wake-ups still owed, then how far the loop
  thread is from blocking with nothing to read (a readable counter costs one more turn), then the batch.
  \<open>quit_order\<close> counts only the way of the loop thread to the next test of \<open>quit_\<close>.
\<close>

definition lt_stage :: "'k view \<Rightarrow> 'k loop_threads \<Rightarrow> nat" where
  "lt_stage v s =
     (if lt_phase s = Left then 0
      else if lt_woken s then 6
      else (if lt_readable v s then 6 else 0) +
        (case lt_phase s of Handling \<Rightarrow> 5 | Running \<Rightarrow> 4 | Testing \<Rightarrow> 3 | Polling \<Rightarrow> 2 | _ \<Rightarrow> 1))"

definition lt_order :: "'k view \<Rightarrow> ('k loop_threads \<times> 'k loop_threads) set" where
  "lt_order v = measures [\<lambda>s. length (lt_waking s), lt_stage v, \<lambda>s. length (lt_batch s)]"

definition quit_stage :: "'k loop_threads \<Rightarrow> nat" where
  "quit_stage s = (case lt_phase s of Polling \<Rightarrow> 5 | Handling \<Rightarrow> if lt_woken s then 4 else 3 | Running \<Rightarrow> 2 | Testing \<Rightarrow> 1 | _ \<Rightarrow> 0)"

definition quit_order :: "('k loop_threads \<times> 'k loop_threads) set" where
  "quit_order = measures [quit_stage, \<lambda>s. length (lt_batch s)]"

text \<open>A loop of thread 1 on the small kernel, for concrete instances.\<close>

definition sim_loop :: event_loop where
  "sim_loop = \<lparr>lp_looping = False, lp_quit = False, lp_callingPendingFunctors = False, lp_threadId = 1,
     lp_poller = \<lparr>pl_channels = Map.empty, pl_epollfd = 3, pl_events_size = 16\<rparr>, lp_wakeupFd = 4,
     lp_wakeupChannel = Channel 0 4, lp_activeChannels = [], lp_pendingFunctors = []\<rparr>"

definition sim_reactor :: "kernel reactor" where
  "sim_reactor = \<lparr>rx_loop = sim_loop, rx_kern = kernel0\<lparr>k_room := 100\<rparr>\<rparr>"

definition rx_pk :: "('k, 'a) reactor_scheme \<Rightarrow> epoll_poller \<times> 'k" where
  "rx_pk r = (lp_poller (rx_loop r), rx_kern r)"

text \<open>Nothing is waiting in the queue without a wake-up on its way.\<close>

definition no_lost_wakeup :: "'k view \<Rightarrow> ('k, 'a) reactor_scheme \<Rightarrow> bool" where
  "no_lost_wakeup v r \<longleftrightarrow>
     (lp_pendingFunctors (rx_loop r) \<noteq> [] \<longrightarrow> 0 < evcount v (rx_kern r) (lp_wakeupFd (rx_loop r)))"

text \<open>The loop cannot fall asleep on work: where it may go to block, a wake-up is readable or owed.\<close>

definition alert :: "'k view \<Rightarrow> 'k loop_threads \<Rightarrow> bool" where
  "alert v s \<longleftrightarrow> lt_readable v s \<or> lt_waking s \<noteq> []"

definition lt_inv :: "'k view \<Rightarrow> 'k loop_threads \<Rightarrow> bool" where
  "lt_inv v s \<longleftrightarrow>
     lt_done s @ lt_batch s @ lp_pendingFunctors (rx_loop s) = lt_queued s \<and>
     (lp_callingPendingFunctors (rx_loop s) \<longleftrightarrow> lt_phase s = Running) \<and>
     (lt_phase s \<noteq> Running \<longrightarrow> lt_batch s = []) \<and>
     (lp_pendingFunctors (rx_loop s) \<noteq> [] \<longrightarrow> lt_phase s \<noteq> Handling \<longrightarrow> alert v s) \<and>
     (lp_quit (rx_loop s) \<longrightarrow> lt_phase s = Polling \<longrightarrow> alert v s) \<and>
     (\<not> lt_free s \<longrightarrow> lt_phase s = Handling \<or> lt_phase s = Running) \<and>
     (lt_woken s \<longrightarrow> lt_phase s = Handling \<and> lt_readable v s) \<and>
     (lp_looping (rx_loop s) \<longleftrightarrow> lt_phase s \<noteq> Outside \<and> lt_phase s \<noteq> Left)"

section \<open>Waking the loop\<close>

lemma wakeup_loop [simp]: "rx_loop (wakeup os r) = rx_loop r"
  by (simp add: wakeup_def split: prod.splits)

lemma wakeup_more [simp]: "reactor.more (wakeup os r) = reactor.more r"
  by (simp add: wakeup_def split: prod.splits)

lemma wakeup_views:
  assumes "os_ok os v"
  shows "0 < evcount v (rx_kern (wakeup os r)) (lp_wakeupFd (rx_loop r))"
    "interest v (rx_kern (wakeup os r)) = interest v (rx_kern r)"
    "wr_shut v (rx_kern (wakeup os r)) = wr_shut v (rx_kern r)"
    "fd \<noteq> lp_wakeupFd (rx_loop r) \<Longrightarrow> accepted v (rx_kern (wakeup os r)) fd = accepted v (rx_kern r) fd"
proof -
  obtain n k' where w: "os_write os (lp_wakeupFd (rx_loop r)) one_bytes (rx_kern r) = (n, k')" by fastforce
  then have k: "rx_kern (wakeup os r) = k'" by (simp add: wakeup_def)
  show "0 < evcount v (rx_kern (wakeup os r)) (lp_wakeupFd (rx_loop r))"
    using os_okD(4) [OF assms] w unfolding k eventfd_ok_def by blast
  show "interest v (rx_kern (wakeup os r)) = interest v (rx_kern r)"
    and "wr_shut v (rx_kern (wakeup os r)) = wr_shut v (rx_kern r)"
    using write_views(1,2) [OF assms w] by (simp_all add: k)
  assume "fd \<noteq> lp_wakeupFd (rx_loop r)"
  then show "accepted v (rx_kern (wakeup os r)) fd = accepted v (rx_kern r) fd"
    using write_views(5,6) [OF assms w] unfolding k by (cases n) auto
qed

lemma queueInLoop_pending [simp]:
  "rx_loop (queueInLoop os tid f r) =
   (rx_loop r)\<lparr>lp_pendingFunctors := lp_pendingFunctors (rx_loop r) @ [f]\<rparr>"
  by (simp add: queueInLoop_def Let_def)

lemma queueInLoop_more [simp]: "reactor.more (queueInLoop os tid f r) = reactor.more r"
  by (simp add: queueInLoop_def Let_def)

lemma queueInLoop_views:
  assumes "os_ok os v"
  shows "interest v (rx_kern (queueInLoop os tid f r)) = interest v (rx_kern r)"
    "wr_shut v (rx_kern (queueInLoop os tid f r)) = wr_shut v (rx_kern r)"
    "fd \<noteq> lp_wakeupFd (rx_loop r) \<Longrightarrow>
       accepted v (rx_kern (queueInLoop os tid f r)) fd = accepted v (rx_kern r) fd"
  by (simp_all add: queueInLoop_def Let_def wakeup_views(2-4) [OF assms])

text \<open>Queueing wakes the loop unless the loop thread itself queues while it is not running closures,
  and it never loses a wake-up that was on its way.\<close>

lemma queueInLoop_wakes:
  assumes "os_ok os v" and "tid \<noteq> lp_threadId (rx_loop r) \<or> lp_callingPendingFunctors (rx_loop r)"
  shows "no_lost_wakeup v (queueInLoop os tid f r)"
  using wakeup_views(1) [OF assms(1), of "r\<lparr>rx_loop := (rx_loop r)
      \<lparr>lp_pendingFunctors := lp_pendingFunctors (rx_loop r) @ [f]\<rparr>\<rparr>"] assms(2)
  by (auto simp: no_lost_wakeup_def queueInLoop_def Let_def isInLoopThread_def)

lemma wakeup_threads [simp]:
  fixes s :: "'k loop_threads"
  shows "lt_phase (wakeup os s) = lt_phase s" "lt_batch (wakeup os s) = lt_batch s" "lt_woken (wakeup os s) = lt_woken s"
    "lt_waking (wakeup os s) = lt_waking s" "lt_queued (wakeup os s) = lt_queued s" "lt_done (wakeup os s) = lt_done s"
  by (simp_all add: wakeup_def split: prod.splits)

lemma loop_handleRead_threads [simp]:
  fixes s :: "'k loop_threads"
  shows "rx_loop (loop_handleRead os s) = rx_loop s" "lt_phase (loop_handleRead os s) = lt_phase s"
    "lt_batch (loop_handleRead os s) = lt_batch s" "lt_waking (loop_handleRead os s) = lt_waking s"
    "lt_queued (loop_handleRead os s) = lt_queued s" "lt_done (loop_handleRead os s) = lt_done s"
  by (simp_all add: loop_handleRead_def split: prod.splits)

section \<open>The invariant of the interleavings\<close>

lemma wakeup_readable: "os_ok os v \<Longrightarrow> lt_readable v (wakeup os r)"
  using wakeup_views(1) by (simp add: lt_readable_def)

lemma read_not_readable:
  assumes "os_ok os v"
  shows "\<not> lt_readable v (loop_handleRead os r)"
  using read_counter [OF assms, of "lp_wakeupFd (rx_loop r)" 8 "rx_kern r"]
  by (auto simp: lt_readable_def loop_handleRead_def split: prod.splits)

lemma lt_readable_cong [simp]:
  "lt_readable v (s\<lparr>lt_phase := ph\<rparr>) = lt_readable v s" "lt_readable v (s\<lparr>lt_woken := w\<rparr>) = lt_readable v s"
  "lt_readable v (s\<lparr>lt_batch := fs\<rparr>) = lt_readable v s" "lt_readable v (s\<lparr>lt_waking := ws\<rparr>) = lt_readable v s"
  "lt_readable v (s\<lparr>lt_queued := fs\<rparr>) = lt_readable v s" "lt_readable v (s\<lparr>lt_done := fs\<rparr>) = lt_readable v s"
  by (simp_all add: lt_readable_def)

lemma lt_readable_loop [simp]:
  "lp_wakeupFd l = lp_wakeupFd (rx_loop s) \<Longrightarrow> lt_readable v (s\<lparr>rx_loop := l\<rparr>) = lt_readable v s"
  by (simp add: lt_readable_def)

lemmas lt_simps = lt_inv_def alert_def lt_free_def lt_push_def swap_pending_def end_pending_def loop_enter_def loop_leave_def

lemma lt_wake_inv:
  assumes "os_ok os v" and "lt_inv v s" and "tid \<in> set (lt_waking s)"
  shows "lt_inv v (lt_wake os tid s)"
proof (cases "wake_due tid (rx_loop s)")
  case True
  then have w: "lt_wake os tid s = (wakeup os s)\<lparr>lt_waking := remove1 tid (lt_waking s)\<rparr>" by (simp add: lt_wake_def)
  show ?thesis unfolding w using assms(2) wakeup_readable [OF assms(1), of s]
    by (auto simp: lt_inv_def alert_def lt_free_def dest: notin_set_remove1)
next
  case False
  then have w: "lt_wake os tid s = s\<lparr>lt_waking := remove1 tid (lt_waking s)\<rparr>" by (simp add: lt_wake_def)
  have "lt_phase s = Handling" using False assms(2,3) by (auto simp: lt_inv_def lt_free_def isInLoopThread_def)
  then show ?thesis unfolding w using assms(2) by (auto simp: lt_inv_def lt_free_def)
qed

lemma lt_work_inv:
  assumes "os_ok os v" and "lt_work os v s t" and "lt_inv v s"
  shows "lt_inv v t"
  using assms(2)
proof cases
  case (wakes tid)
  then show ?thesis using lt_wake_inv [OF assms(1,3)] by simp
next
  case wakeup_read
  then show ?thesis using assms(3) by (auto simp: lt_simps)
qed (use assms(3) in \<open>auto simp: lt_simps\<close>)

lemma lt_step_inv:
  assumes "os_ok os v" and "lt_step os v s t" and "lt_inv v s"
  shows "lt_inv v t"
  using assms(2)
proof cases
  case works
  then show ?thesis using lt_work_inv [OF assms(1) _ assms(3)] by blast
next
  case (elsewhere k p a)
  then show ?thesis using assms(3) by (auto simp: lt_inv_def alert_def lt_free_def lt_readable_def)
qed (use assms(3) in \<open>auto simp: lt_simps\<close>)

lemma lt_reach_inv:
  assumes "os_ok os v" and "lt_reach os v s0 s" and "lt_inv v s0"
  shows "lt_inv v s"
  using assms(2,3) by (induction rule: lt_reach.induct) (auto intro: lt_step_inv [OF assms(1)])

text \<open>The constructor leaves an idle loop.\<close>

lemma EventLoop_idle:
  assumes "EventLoop os use_poll has_loop tid wptr k = Inr r"
  shows "lp_pendingFunctors (rx_loop r) = []" "\<not> lp_callingPendingFunctors (rx_loop r)" "\<not> lp_looping (rx_loop r)"
    "lp_threadId (rx_loop r) = tid"
  using assms
  by (auto simp: EventLoop_def enableReading_def loop_updateChannel_def Let_def elim!: res_bindE split: if_splits option.splits)

lemma lt_reachable_inv:
  assumes "os_ok os v" and "EventLoop os use_poll has_loop tid wptr k = Inr r" and "lt_reach os v (lt_init r) s"
  shows "lt_inv v s"
  by (rule lt_reach_inv [OF assms(1,3)])
    (use EventLoop_idle [OF assms(2)] in \<open>simp add: lt_inv_def lt_init_def lt_free_def\<close>)

section \<open>Progress\<close>

lemma lt_wake_order: "tid \<in> set (lt_waking s) \<Longrightarrow> (lt_wake os tid s, s) \<in> lt_order v"
  using length_pos_if_in_set [of tid "lt_waking s"] by (auto simp: lt_order_def lt_wake_def length_remove1)

lemma lt_work_order:
  assumes "os_ok os v" and "lt_inv v s" and "lt_work os v s t"
  shows "(t, s) \<in> lt_order v"
  using assms(3)
proof cases
  case (wakes tid)
  then show ?thesis using lt_wake_order by blast
next
  case wakeup_read
  then show ?thesis using assms(2) read_not_readable [OF assms(1), of s] by (auto simp: lt_order_def lt_stage_def lt_inv_def)
qed (use assms(2) in \<open>auto simp: lt_order_def lt_stage_def lt_simps\<close>)

lemma lt_work_stuck:
  assumes "\<nexists>t. lt_work os v s t"
  shows "lt_waking s = []" "lt_phase s = Outside \<or> lt_phase s = Left \<or> lt_phase s = Polling \<and> \<not> lt_readable v s"
proof -
  show w: "lt_waking s = []" using assms lt_work.wakes [of "hd (lt_waking s)" s os v] by (cases "lt_waking s") auto
  then have "lt_free s" by (simp add: lt_free_def)
  with assms show "lt_phase s = Outside \<or> lt_phase s = Left \<or> lt_phase s = Polling \<and> \<not> lt_readable v s"
    by (cases "lt_phase s"; cases "lt_batch s") (meson lt_work.intros surj_pair)+
qed

lemma lt_work_kept:
  assumes "lt_work os v s t"
  shows "lt_queued t = lt_queued s" "lp_quit (rx_loop t) = lp_quit (rx_loop s)"
  using assms by (induction rule: lt_work.induct) (auto simp: lt_simps lt_wake_def)

lemma lt_work_quit:
  assumes "lt_work os v s t" and "lp_quit (rx_loop s)"
  shows "(lt_phase t, lt_woken t, lt_batch t) = (lt_phase s, lt_woken s, lt_batch s) \<or> (t, s) \<in> quit_order"
  using assms
  by (induction rule: lt_work.induct) (auto simp: lt_simps lt_wake_def quit_order_def quit_stage_def)

lemma lt_step_quit:
  assumes "lt_step os v s t" and "lp_quit (rx_loop s)" and "lt_phase s \<noteq> Outside"
  shows "lp_quit (rx_loop t)"
    "(lt_phase t, lt_woken t, lt_batch t) = (lt_phase s, lt_woken s, lt_batch s) \<or> (t, s) \<in> quit_order"
  using assms
  by (induction rule: lt_step.induct)
    (auto simp: lt_work_kept dest: lt_work_quit, auto simp: lt_simps quit_order_def quit_stage_def)

lemma lt_enter_forgets:
  assumes "lt_inv v s" and "lt_phase s = Outside" and "lt_step os v s t" and "lt_phase t \<noteq> Outside"
  shows "\<not> lp_quit (rx_loop t)"
  using assms(3)
proof cases
  case works
  then show ?thesis using assms(2,4) by cases (auto simp: lt_wake_def split: if_splits)
qed (use assms(2,4) in \<open>auto simp: lt_push_def loop_enter_def\<close>)

text \<open>The loop of the small kernel, as its constructor makes it.\<close>

lemma sim_EventLoop_made:
  obtains r where "EventLoop sim_os False False 1 0 kernel0 = Inr r" "k_count (rx_kern r) = (\<lambda>_. 0)"
proof -
  have "\<exists>r. EventLoop sim_os False False 1 0 kernel0 = Inr r \<and> k_count (rx_kern r) = (\<lambda>_. 0)"
    by (simp add: EventLoop_def newDefaultPoller_def EPollPoller_def createEventfd_def enableReading_def
        loop_updateChannel_def updateChannel_def update_def sim_os_def sim_ctl_def Channel_def set_reading_def
        set_index_def kernel0_def index_consts isNoneEvent_def Let_def)
  then show ?thesis using that by blast
qed

section \<open>Registering channels through the loop\<close>

lemma loop_update_registered:
  assumes "os_ok os v" and "registered v (rx_pk r) ch"
    and "loop_updateChannel os (ch\<lparr>chan_events := e\<rparr>) r = Inr (ch', r')"
  shows "registered v (rx_pk r') ch' \<and> others_kept v (rx_pk r) (rx_pk r') (chan_fd ch) \<and>
    (\<exists>i. ch' = ch\<lparr>chan_events := e, chan_index := i\<rparr> \<and>
       i = (if chan_index ch = kAdded \<and> e = kNoneEvent then kDeleted else kAdded)) \<and>
    (\<exists>p k. r' = r\<lparr>rx_loop := (rx_loop r)\<lparr>lp_poller := p\<rparr>, rx_kern := k\<rparr>)"
proof -
  obtain p k where u: "upd_pk os (ch\<lparr>chan_events := e\<rparr>) (rx_pk r) = Inr (ch', (p, k))"
    and r': "r' = r\<lparr>rx_loop := (rx_loop r)\<lparr>lp_poller := p\<rparr>, rx_kern := k\<rparr>"
    using assms(3) by (auto simp: loop_updateChannel_def upd_pk_def rx_pk_def elim!: res_bindE)
  have "rx_pk r' = (p, k)" by (simp add: r' rx_pk_def)
  with epoll.upd_reg [OF assms(1,2) u] show ?thesis using r' by auto
qed

lemma loop_remove_registered:
  assumes "os_ok os v" and "registered v (rx_pk r) ch"
  shows "\<exists>p k. loop_removeChannel os ch r =
      Inr (set_index kNew ch, r\<lparr>rx_loop := (rx_loop r)\<lparr>lp_poller := p\<rparr>, rx_kern := k\<rparr>) \<and>
    registered v (p, k) (set_index kNew ch) \<and> others_kept v (rx_pk r) (p, k) (chan_fd ch)"
  using epoll.rem_reg [OF assms] by (force simp: loop_removeChannel_def rem_pk_def rx_pk_def)

text \<open>The five mask changes are updates of \<open>events_\<close> alone.\<close>

lemma mask_updates:
  "enableReading os ch = loop_updateChannel os (ch\<lparr>chan_events := chan_events (set_reading ch)\<rparr>)"
  "disableReading os ch = loop_updateChannel os (ch\<lparr>chan_events := chan_events (clear_reading ch)\<rparr>)"
  "enableWriting os ch = loop_updateChannel os (ch\<lparr>chan_events := chan_events (set_writing ch)\<rparr>)"
  "disableWriting os ch = loop_updateChannel os (ch\<lparr>chan_events := chan_events (clear_writing ch)\<rparr>)"
  "disableAll os ch = loop_updateChannel os (ch\<lparr>chan_events := chan_events (clear_all ch)\<rparr>)"
  by (auto simp: fun_eq_iff enableReading_def disableReading_def enableWriting_def disableWriting_def
      disableAll_def channel_simps)

section \<open>The contract of the closures\<close>

text \<open>
  What the loop relies on when it runs closures, and what it then guarantees at the end of a turn:
  the client's own invariant holds, and no closure is left waiting without a wake-up. \<open>keeps\<close> is
  the client's invariant; \<open>allowed\<close> says which closures may still come in which state, and a closure
  that has run leaves a state in which those behind it may. Neither depends on the queue and its flag.
\<close>

locale loop_work =
  fixes fine :: "'k os \<Rightarrow> 'k view \<Rightarrow> bool"
    and allowed :: "closure list \<Rightarrow> ('k, 'a) reactor_scheme \<Rightarrow> bool"
    and exec :: "'c \<Rightarrow> 'k os \<Rightarrow> closure \<Rightarrow> ('k, 'a) reactor_scheme \<Rightarrow> ('k, 'a) reactor_scheme res"
    and keeps :: "'c \<Rightarrow> 'k view \<Rightarrow> ('k, 'a) reactor_scheme \<Rightarrow> bool"
  assumes exec_keeps: "fine os v \<Longrightarrow> keeps c v r \<Longrightarrow> lp_callingPendingFunctors (rx_loop r) \<Longrightarrow>
      no_lost_wakeup v r \<Longrightarrow> allowed (f # fs) r \<Longrightarrow> exec c os f r = Inr r' \<Longrightarrow>
      keeps c v r' \<and> lp_callingPendingFunctors (rx_loop r') \<and> no_lost_wakeup v r' \<and> allowed fs r'"
    and keeps_flags: "keeps c v (r\<lparr>rx_loop := (rx_loop r)\<lparr>lp_callingPendingFunctors := b,
        lp_pendingFunctors := fs\<rparr>\<rparr>) = keeps c v r"
    and allowed_flags: "allowed gs (r\<lparr>rx_loop := (rx_loop r)\<lparr>lp_callingPendingFunctors := b,
        lp_pendingFunctors := fs\<rparr>\<rparr>) = allowed gs r"
begin

lemma batch_keeps:
  assumes "fine os v"
  shows "fold_res (exec c os) fs s = Inr s' \<Longrightarrow> keeps c v s \<Longrightarrow> lp_callingPendingFunctors (rx_loop s) \<Longrightarrow>
    no_lost_wakeup v s \<Longrightarrow> allowed fs s \<Longrightarrow>
    keeps c v s' \<and> lp_callingPendingFunctors (rx_loop s') \<and> no_lost_wakeup v s'"
proof (induction fs arbitrary: s)
  case (Cons f fs)
  obtain t where "exec c os f s = Inr t" "fold_res (exec c os) fs t = Inr s'" using Cons.prems(1) by (auto elim: res_bindE)
  then show ?case using Cons.IH exec_keeps [OF assms Cons.prems(2-5)] by blast
qed simp

lemma doPendingFunctors_keeps:
  assumes "fine os v" and "keeps c v r" and "allowed (lp_pendingFunctors (rx_loop r)) r"
    and "doPendingFunctors (exec c os) r = Inr r'"
  shows "keeps c v r' \<and> no_lost_wakeup v r' \<and> \<not> lp_callingPendingFunctors (rx_loop r')"
proof -
  let ?s = "r\<lparr>rx_loop := (rx_loop r)\<lparr>lp_callingPendingFunctors := True, lp_pendingFunctors := []\<rparr>\<rparr>"
  obtain s' where f: "fold_res (exec c os) (lp_pendingFunctors (rx_loop r)) ?s = Inr s'"
    and r': "r' = end_pending s'"
    using assms(4) by (auto simp: doPendingFunctors_def swap_pending_def elim!: res_bindE)
  have "keeps c v s' \<and> lp_callingPendingFunctors (rx_loop s') \<and> no_lost_wakeup v s'"
    by (rule batch_keeps [OF assms(1) f]) (use assms(2,3) in \<open>simp_all add: keeps_flags allowed_flags no_lost_wakeup_def\<close>)
  moreover have "keeps c v (end_pending s') = keeps c v s'"
    using keeps_flags [where r = s' and b = False and fs = "lp_pendingFunctors (rx_loop s')" and c = c and v = v] by (simp add: end_pending_def)
  ultimately show ?thesis
    unfolding r' by (simp add: end_pending_def no_lost_wakeup_def)
qed

end

section \<open>Properties\<close>

text \<open>C2: For every interleaving of a loop thread with other threads that queue closures, ask the loop to quit
  and owe it wake-ups: the closures run so far, the rest of the current batch and the queue are together
  exactly the closures queued, in the order they were queued (each runs once, none is lost or
  overtaken); and whenever the loop is blocked in the poller or about to go there with a closure in its
  queue, its wake-up descriptor is readable or a thread is on its way to write to it, and likewise when it is
  blocked with \<open>quit_\<close> set.\<close>

theorem closures_run_once_in_order:
  assumes "os_ok os v" and "EventLoop os use_poll has_loop tid wptr k = Inr r" and "lt_reach os v (lt_init r) s"
  shows "lt_done s @ lt_batch s @ lp_pendingFunctors (rx_loop s) = lt_queued s \<and>
    (lt_phase s = Testing \<or> lt_phase s = Polling \<longrightarrow> lp_pendingFunctors (rx_loop s) \<noteq> [] \<longrightarrow>
       0 < evcount v (rx_kern s) (lp_wakeupFd (rx_loop s)) \<or> lt_waking s \<noteq> []) \<and>
    (lt_phase s = Polling \<longrightarrow> lp_quit (rx_loop s) \<longrightarrow>
       0 < evcount v (rx_kern s) (lp_wakeupFd (rx_loop s)) \<or> lt_waking s \<noteq> [])"
  using lt_reachable_inv [OF assms] by (auto simp: lt_inv_def alert_def lt_readable_def)

text \<open>The wake-up that a push owes is not optional: a state in which the loop is blocked, the closure is in the
  queue, the counter is still zero and the pushing thread has yet to write.\<close>

theorem closures_run_once_in_order_witness:
  "\<exists>r s. EventLoop sim_os False False 1 0 kernel0 = Inr r \<and> lt_reach sim_os sim_view (lt_init r) s \<and>
    lt_phase s = Polling \<and> lp_pendingFunctors (rx_loop s) = [Fn_user 1] \<and> lt_waking s = [2] \<and>
    evcount sim_view (rx_kern s) (lp_wakeupFd (rx_loop s)) = 0 \<and>
    lt_done s @ lt_batch s @ lp_pendingFunctors (rx_loop s) = lt_queued s"
proof -
  obtain r where r: "EventLoop sim_os False False 1 0 kernel0 = Inr r" "k_count (rx_kern r) = (\<lambda>_. 0)" by (rule sim_EventLoop_made)
  note I = EventLoop_idle [OF r(1)]
  let ?s1 = "(loop_enter (lt_init r))\<lparr>lt_phase := Testing\<rparr>" and ?s2 = "((loop_enter (lt_init r))\<lparr>lt_phase := Testing\<rparr>)\<lparr>lt_phase := Polling\<rparr>"
  let ?s = "lt_push 2 (Fn_user 1) ?s2"
  have 1: "lt_reach sim_os sim_view (lt_init r) ?s1"
    by (rule lt_reach.step [OF lt_reach.start], rule lt_step.enters) (simp add: lt_init_def)
  have 2: "lt_reach sim_os sim_view (lt_init r) ?s2"
    by (rule lt_reach.step [OF 1], rule lt_step.works, rule lt_work.goes_on)
      (simp_all add: lt_free_def loop_enter_def lt_init_def)
  have s: "lt_reach sim_os sim_view (lt_init r) ?s"
    by (rule lt_reach.step [OF 2], rule lt_step.other_pushes) (simp_all add: loop_enter_def lt_init_def I)
  have "lt_phase ?s = Polling" "lp_pendingFunctors (rx_loop ?s) = [Fn_user 1]" "lt_waking ?s = [2]"
    "evcount sim_view (rx_kern ?s) (lp_wakeupFd (rx_loop ?s)) = 0"
    by (simp_all add: lt_push_def loop_enter_def lt_init_def I r(2) sim_view_def)
  with r(1) s closures_run_once_in_order [OF sim_os_ok r(1) s] show ?thesis by blast
qed

text \<open>C10: No closure is stranded, and the loop never needs the time-out of its poll for one. In every reachable
  state, what the threads do of themselves (wake-ups they owe, the turns of the loop) cannot go on
  forever, since every such step goes down in a well-founded order and queues nothing new; and when nothing of it
  is left to do while the loop is inside \<open>loop()\<close>, the loop is blocked in its poller and every closure ever
  queued has run.\<close>

theorem queued_closures_can_run:
  assumes "os_ok os v" and "EventLoop os use_poll has_loop tid wptr k = Inr r" and "lt_reach os v (lt_init r) s"
  shows "wf (lt_order v) \<and>
    (\<forall>t. lt_work os v s t \<longrightarrow> (t, s) \<in> lt_order v \<and> lt_queued t = lt_queued s) \<and>
    (lt_phase s \<noteq> Outside \<longrightarrow> lt_phase s \<noteq> Left \<longrightarrow> (\<nexists>t. lt_work os v s t) \<longrightarrow>
       lt_phase s = Polling \<and> lt_done s = lt_queued s)"
proof (intro conjI allI impI)
  have inv: "lt_inv v s" by (rule lt_reachable_inv [OF assms])
  show "wf (lt_order v)" by (simp add: lt_order_def)
  show "(t, s) \<in> lt_order v" "lt_queued t = lt_queued s" if "lt_work os v s t" for t
    using lt_work_order [OF assms(1) inv that] lt_work_kept(1) [OF that] by simp_all
  assume "lt_phase s \<noteq> Outside" "lt_phase s \<noteq> Left" "\<nexists>t. lt_work os v s t"
  then show p: "lt_phase s = Polling" and "lt_done s = lt_queued s"
    using lt_work_stuck [of os v s] inv by (auto simp: lt_inv_def alert_def)
qed

theorem queued_closures_can_run_witness:
  "\<exists>r s. EventLoop sim_os False False 1 0 kernel0 = Inr r \<and> lt_reach sim_os sim_view (lt_init r) s \<and>
    lt_phase s = Testing \<and> lp_pendingFunctors (rx_loop s) = [Fn_listen] \<and> lt_queued s = [Fn_listen] \<and>
    (\<exists>t. lt_work sim_os sim_view s t \<and> (t, s) \<in> lt_order sim_view)"
proof -
  obtain r where r: "EventLoop sim_os False False 1 0 kernel0 = Inr r" by (rule sim_EventLoop_made)
  note I = EventLoop_idle [OF r]
  let ?s1 = "lt_push 2 Fn_listen (lt_init r)" and ?s = "(loop_enter (lt_push 2 Fn_listen (lt_init r)))\<lparr>lt_phase := Testing\<rparr>"
  have 1: "lt_reach sim_os sim_view (lt_init r) ?s1"
    by (rule lt_reach.step [OF lt_reach.start], rule lt_step.other_pushes) (simp_all add: lt_init_def I)
  have s: "lt_reach sim_os sim_view (lt_init r) ?s"
    by (rule lt_reach.step [OF 1], rule lt_step.enters) (simp add: lt_init_def lt_push_def)
  have w: "lt_work sim_os sim_view ?s (lt_wake sim_os 2 ?s)"
    by (rule lt_work.wakes) (simp add: lt_push_def loop_enter_def)
  have "lt_phase ?s = Testing" "lp_pendingFunctors (rx_loop ?s) = [Fn_listen]" "lt_queued ?s = [Fn_listen]"
    by (simp_all add: lt_push_def loop_enter_def lt_init_def I)
  then show ?thesis using r s w queued_closures_can_run [OF sim_os_ok r s] by blast
qed

text \<open>C16: A loop that is asked to quit ends. Once \<open>quit_\<close> is set while the loop is inside \<open>loop()\<close>, it stays set,
  every step of any thread leaves the loop thread where it is or brings it nearer to the test of \<open>quit_\<close>, there is
  always a step to take (a blocked loop has a wake-up to read or about to come), no sequence of
  such steps is infinite, and when no step is left \<open>loop()\<close> has returned with \<open>looping_\<close> cleared. A request
  made before \<open>loop()\<close> is entered is forgotten.\<close>

theorem loop_returns_after_quit:
  assumes "os_ok os v" and "EventLoop os use_poll has_loop tid wptr k = Inr r" and "lt_reach os v (lt_init r) s"
  shows "(lp_quit (rx_loop s) \<longrightarrow> lt_phase s \<noteq> Outside \<longrightarrow>
      (\<forall>t. lt_step os v s t \<longrightarrow> lp_quit (rx_loop t) \<and>
         ((lt_phase t, lt_woken t, lt_batch t) = (lt_phase s, lt_woken s, lt_batch s) \<or> (t, s) \<in> quit_order)) \<and>
      (\<forall>t. lt_work os v s t \<longrightarrow> (t, s) \<in> lt_order v) \<and>
      (lt_phase s = Left \<and> \<not> lp_looping (rx_loop s) \<or> (\<exists>t. lt_work os v s t))) \<and>
    (\<forall>t. lt_phase s = Outside \<longrightarrow> lt_step os v s t \<longrightarrow> lt_phase t \<noteq> Outside \<longrightarrow> \<not> lp_quit (rx_loop t)) \<and>
    wf (lt_order v) \<and> wf quit_order"
proof (intro conjI impI allI)
  have inv: "lt_inv v s" by (rule lt_reachable_inv [OF assms])
  show "wf (lt_order v)" "wf quit_order" by (simp_all add: lt_order_def quit_order_def)
  show "\<not> lp_quit (rx_loop t)" if "lt_phase s = Outside" "lt_step os v s t" "lt_phase t \<noteq> Outside" for t
    by (rule lt_enter_forgets [OF inv that])
  assume q: "lp_quit (rx_loop s)" "lt_phase s \<noteq> Outside"
  show "lp_quit (rx_loop t)" if "lt_step os v s t" for t by (rule lt_step_quit(1) [OF that q])
  show "(lt_phase t, lt_woken t, lt_batch t) = (lt_phase s, lt_woken s, lt_batch s) \<or> (t, s) \<in> quit_order"
    if "lt_step os v s t" for t by (rule lt_step_quit(2) [OF that q])
  show "(t, s) \<in> lt_order v" if "lt_work os v s t" for t by (rule lt_work_order [OF assms(1) inv that])
  show "lt_phase s = Left \<and> \<not> lp_looping (rx_loop s) \<or> (\<exists>t. lt_work os v s t)"
    using lt_work_stuck [of os v s] inv q by (auto simp: lt_inv_def alert_def)
qed

theorem loop_returns_after_quit_witness:
  "\<exists>r s. EventLoop sim_os False False 1 0 kernel0 = Inr r \<and> lt_reach sim_os sim_view (lt_init r) s \<and>
    lt_phase s = Polling \<and> lp_quit (rx_loop s) \<and> evcount sim_view (rx_kern s) (lp_wakeupFd (rx_loop s)) = 0 \<and>
    (\<exists>t. lt_work sim_os sim_view s t)"
proof -
  obtain r where r: "EventLoop sim_os False False 1 0 kernel0 = Inr r" "k_count (rx_kern r) = (\<lambda>_. 0)" by (rule sim_EventLoop_made)
  note I = EventLoop_idle [OF r(1)]
  let ?s1 = "(loop_enter (lt_init r))\<lparr>lt_phase := Testing\<rparr>" and ?s2 = "((loop_enter (lt_init r))\<lparr>lt_phase := Testing\<rparr>)\<lparr>lt_phase := Polling\<rparr>"
  let ?s = "(set_quit ?s2)\<lparr>lt_waking := 2 # lt_waking ?s2\<rparr>"
  have 1: "lt_reach sim_os sim_view (lt_init r) ?s1"
    by (rule lt_reach.step [OF lt_reach.start], rule lt_step.enters) (simp add: lt_init_def)
  have 2: "lt_reach sim_os sim_view (lt_init r) ?s2"
    by (rule lt_reach.step [OF 1], rule lt_step.works, rule lt_work.goes_on)
      (simp_all add: lt_free_def loop_enter_def lt_init_def)
  have s: "lt_reach sim_os sim_view (lt_init r) ?s"
    by (rule lt_reach.step [OF 2], rule lt_step.other_quits) (simp_all add: loop_enter_def lt_init_def I)
  have f: "lt_phase ?s = Polling" "lp_quit (rx_loop ?s)" "evcount sim_view (rx_kern ?s) (lp_wakeupFd (rx_loop ?s)) = 0"
    by (simp_all add: loop_enter_def lt_init_def I r(2) sim_view_def)
  have "lt_phase ?s \<noteq> Outside" "lt_phase ?s \<noteq> Left" using f(1) by simp_all
  with loop_returns_after_quit [OF sim_os_ok r(1) s] f(2) have "\<exists>t. lt_work sim_os sim_view ?s t" by blast
  with r(1) s f show ?thesis by blast
qed

end
