(* ===== verification/Net_Connection.thy ===== *)
theory Net_Connection
  imports Net_EventLoop Net_Buffer
begin

text \<open>
  \<open>common/net/TcpConnection.h\<close>, \<open>TcpConnection.cc\<close> and the socket calls it makes (\<open>Socket.cc\<close>): one
  connection with its channel and its two buffers, on its loop. The state \<open>conn_state\<close> extends the
  reactor by the connection object. The callbacks the application installs are an argument
  \<open>cbs\<close> (an empty \<open>std::function\<close> is \<open>None\<close>, and calling it is the fault \<open>Bad_Function_Call\<close>);
  everything else a member function does, in every branch, is in its definition. Logging is left
  out.
\<close>

section \<open>The model\<close>

datatype StateE = kDisconnected | kConnecting | kConnected | kDisconnecting

text \<open>The states in the order of a connection's life, which is not the order of the declaration.\<close>

definition stage :: "StateE \<Rightarrow> nat" where
  "stage st = (case st of kConnecting \<Rightarrow> 0 | kConnected \<Rightarrow> 1 | kDisconnecting \<Rightarrow> 2 | kDisconnected \<Rightarrow> 3)"

instantiation StateE :: linorder
begin

definition less_eq_StateE :: "StateE \<Rightarrow> StateE \<Rightarrow> bool" where
  "less_eq_StateE a b \<longleftrightarrow> stage a \<le> stage b"

definition less_StateE :: "StateE \<Rightarrow> StateE \<Rightarrow> bool" where
  "less_StateE a b \<longleftrightarrow> stage a < stage b"

instance
  by standard (auto simp: less_eq_StateE_def less_StateE_def stage_def split: StateE.splits)

end

lemma StateE_le [simp]:
  "kConnecting \<le> st" "st \<le> kDisconnected" "kConnected \<le> kDisconnecting"
  by (auto simp: less_eq_StateE_def stage_def split: StateE.splits)

record tcp_connection =
  cn_id :: nat
  cn_name :: string
  cn_state :: StateE
  cn_reading :: bool
  cn_sockfd :: int
  cn_channel :: channel
  cn_localAddr :: sockaddr_in
  cn_peerAddr :: sockaddr_in
  cn_highWaterMark :: nat
  cn_inputBuffer :: buffer
  cn_outputBuffer :: buffer

record 'k conn_state = "'k reactor" +
  cs_conn :: tcp_connection

record 's conn_callbacks =
  connectionCallback :: "('s \<Rightarrow> 's res) option"
  messageCallback :: "('s \<Rightarrow> 's res) option"
  writeCompleteCallback :: "('s \<Rightarrow> 's res) option"
  highWaterMarkCallback :: "(nat \<Rightarrow> 's \<Rightarrow> 's res) option"
  closeCallback_conn :: "('s \<Rightarrow> 's res) option"

definition EWOULDBLOCK :: int where "EWOULDBLOCK = 11"
definition EPIPE :: int where "EPIPE = 32"
definition ECONNRESET :: int where "ECONNRESET = 104"

text \<open>Calling a \<open>std::function\<close>.\<close>

definition call :: "('s \<Rightarrow> 's res) option \<Rightarrow> 's \<Rightarrow> 's res" where
  "call f s = (case f of None \<Rightarrow> Inl Bad_Function_Call | Some g \<Rightarrow> g s)"

text \<open>A member of \<open>channel_\<close> that goes through the loop.\<close>

definition on_channel ::
    "(channel \<Rightarrow> ('k, 'a) conn_state_scheme \<Rightarrow> (channel \<times> ('k, 'a) conn_state_scheme) res) \<Rightarrow>
     ('k, 'a) conn_state_scheme \<Rightarrow> ('k, 'a) conn_state_scheme res" where
  "on_channel f s =
     res_bind (f (cn_channel (cs_conn s)) s) (\<lambda>(ch, s').
       Inr (s'\<lparr>cs_conn := (cs_conn s')\<lparr>cn_channel := ch\<rparr>\<rparr>))"

definition setState :: "StateE \<Rightarrow> ('k, 'a) conn_state_scheme \<Rightarrow> ('k, 'a) conn_state_scheme" where
  "setState st s = s\<lparr>cs_conn := (cs_conn s)\<lparr>cn_state := st\<rparr>\<rparr>"

definition connected :: "tcp_connection \<Rightarrow> bool" where
  "connected c \<longleftrightarrow> cn_state c = kConnected"

text \<open>The constructor: the four channel callbacks are bound to the new object, and keep-alive is
  switched on. \<open>loop_null\<close> is the null check of \<open>CheckLoopNotNull\<close>.\<close>

definition TcpConnection ::
    "'k os \<Rightarrow> bool \<Rightarrow> nat \<Rightarrow> string \<Rightarrow> int \<Rightarrow> sockaddr_in \<Rightarrow> sockaddr_in \<Rightarrow> nat \<Rightarrow> 'k \<Rightarrow> (tcp_connection \<times> 'k) res" where
  "TcpConnection os loop_null obj nameArg sockfd localAddr peerAddr cptr k =
     (if loop_null then Inl Fatal_Exit
      else
        res_bind (Buffer kInitialSize) (\<lambda>inb.
        res_bind (Buffer kInitialSize) (\<lambda>outb.
          Inr (\<lparr>cn_id = obj, cn_name = nameArg, cn_state = kConnecting, cn_reading = True,
                cn_sockfd = sockfd,
                cn_channel = (Channel cptr sockfd)\<lparr>readCallback := Some Conn_handleRead,
                  writeCallback := Some Conn_handleWrite, closeCallback := Some Conn_handleClose,
                  errorCallback := Some Conn_handleError\<rparr>,
                cn_localAddr = localAddr, cn_peerAddr = peerAddr,
                cn_highWaterMark = 64 * 1024 * 1024, cn_inputBuffer = inb, cn_outputBuffer = outb\<rparr>,
               os_setsockopt os sockfd ''SO_KEEPALIVE'' True k))))"

text \<open>The second half of \<open>sendInLoop\<close>: what \<open>write\<close> did not take goes to the output buffer, and the
  channel asks for writability.\<close>

definition send_rest ::
    "'k os \<Rightarrow> ('k, 'a) conn_state_scheme conn_callbacks \<Rightarrow> int \<Rightarrow> bytes \<Rightarrow> nat \<Rightarrow> nat \<Rightarrow> bool \<Rightarrow>
     ('k, 'a) conn_state_scheme \<Rightarrow> ('k, 'a) conn_state_scheme res" where
  "send_rest os cbs tid data nwrote remaining faultError s =
     (if \<not> faultError \<and> 0 < remaining then
        let c = cs_conn s;
            oldLen = readableBytes (cn_outputBuffer c);
            s1 = (if cn_highWaterMark c \<le> size_add oldLen remaining \<and> oldLen < cn_highWaterMark c \<and>
                     highWaterMarkCallback cbs \<noteq> None
                  then queueInLoop os tid (Fn_highWaterMark (cn_id c) (size_add oldLen remaining)) s
                  else s)
        in res_bind (append_buf (cn_outputBuffer (cs_conn s1)) (drop nwrote data)) (\<lambda>b.
             let s2 = s1\<lparr>cs_conn := (cs_conn s1)\<lparr>cn_outputBuffer := b\<rparr>\<rparr>
             in if \<not> isWriting (cn_channel (cs_conn s2)) then on_channel (enableWriting os) s2
                else Inr s2)
      else Inr s)"

definition sendInLoop ::
    "'k os \<Rightarrow> ('k, 'a) conn_state_scheme conn_callbacks \<Rightarrow> int \<Rightarrow> bytes \<Rightarrow>
     ('k, 'a) conn_state_scheme \<Rightarrow> ('k, 'a) conn_state_scheme res" where
  "sendInLoop os cbs tid data s =
     (let c = cs_conn s; len = length data in
      if cn_state c = kDisconnected then Inr s
      else if \<not> isWriting (cn_channel c) \<and> readableBytes (cn_outputBuffer c) = 0 then
        (case os_write os (chan_fd (cn_channel c)) data (rx_kern s) of
           (Inr nwrote, k') \<Rightarrow>
             let s1 = s\<lparr>rx_kern := k'\<rparr>;
                 remaining = size_sub len nwrote;
                 s2 = (if remaining = 0 \<and> writeCompleteCallback cbs \<noteq> None
                       then queueInLoop os tid (Fn_writeComplete (cn_id c)) s1 else s1)
             in send_rest os cbs tid data nwrote remaining False s2
         | (Inl errno, k') \<Rightarrow>
             send_rest os cbs tid data 0 len
               (errno \<noteq> EWOULDBLOCK \<and> (errno = EPIPE \<or> errno = ECONNRESET)) (s\<lparr>rx_kern := k'\<rparr>))
      else send_rest os cbs tid data 0 len False s)"

text \<open>\<open>send\<close>: in the loop thread the bytes are sent at once; from another thread a closure with the
  address \<open>sptr\<close> of the caller's text is queued.\<close>

definition send ::
    "'k os \<Rightarrow> ('k, 'a) conn_state_scheme conn_callbacks \<Rightarrow> int \<Rightarrow> nat \<Rightarrow> bytes \<Rightarrow>
     ('k, 'a) conn_state_scheme \<Rightarrow> ('k, 'a) conn_state_scheme res" where
  "send os cbs tid sptr buf s =
     (if cn_state (cs_conn s) = kConnected then
        if isInLoopThread tid (rx_loop s) then sendInLoop os cbs tid buf s
        else Inr (queueInLoop os tid (Fn_sendInLoop (cn_id (cs_conn s)) sptr (length buf)) s)
      else Inr s)"

definition shutdownWrite :: "'k os \<Rightarrow> ('k, 'a) conn_state_scheme \<Rightarrow> ('k, 'a) conn_state_scheme" where
  "shutdownWrite os s =
     (case os_shutdown os (cn_sockfd (cs_conn s)) (rx_kern s) of (r, k') \<Rightarrow> s\<lparr>rx_kern := k'\<rparr>)"

definition shutdownInLoop :: "'k os \<Rightarrow> ('k, 'a) conn_state_scheme \<Rightarrow> ('k, 'a) conn_state_scheme" where
  "shutdownInLoop os s = (if \<not> isWriting (cn_channel (cs_conn s)) then shutdownWrite os s else s)"

definition shutdown :: "'k os \<Rightarrow> int \<Rightarrow> ('k, 'a) conn_state_scheme \<Rightarrow> ('k, 'a) conn_state_scheme" where
  "shutdown os tid s =
     (if cn_state (cs_conn s) = kConnected then
        let s1 = setState kDisconnecting s in
        if isInLoopThread tid (rx_loop s1) then shutdownInLoop os s1
        else queueInLoop os tid (Fn_shutdownInLoop (cn_id (cs_conn s1))) s1
      else s)"

definition connectEstablished ::
    "'k os \<Rightarrow> ('k, 'a) conn_state_scheme conn_callbacks \<Rightarrow>
     ('k, 'a) conn_state_scheme \<Rightarrow> ('k, 'a) conn_state_scheme res" where
  "connectEstablished os cbs s =
     (let s1 = setState kConnected s;
          s2 = s1\<lparr>cs_conn := (cs_conn s1)\<lparr>cn_channel := tie (cn_id (cs_conn s1)) (cn_channel (cs_conn s1))\<rparr>\<rparr>
      in res_bind (on_channel (enableReading os) s2) (call (connectionCallback cbs)))"

definition connectDestroyed ::
    "'k os \<Rightarrow> ('k, 'a) conn_state_scheme conn_callbacks \<Rightarrow>
     ('k, 'a) conn_state_scheme \<Rightarrow> ('k, 'a) conn_state_scheme res" where
  "connectDestroyed os cbs s =
     res_bind
       (if cn_state (cs_conn s) = kConnected then
          res_bind (on_channel (disableAll os) (setState kDisconnected s)) (call (connectionCallback cbs))
        else Inr s)
       (on_channel (chan_remove os))"

definition handleClose ::
    "'k os \<Rightarrow> ('k, 'a) conn_state_scheme conn_callbacks \<Rightarrow>
     ('k, 'a) conn_state_scheme \<Rightarrow> ('k, 'a) conn_state_scheme res" where
  "handleClose os cbs s =
     res_bind (on_channel (disableAll os) (setState kDisconnected s)) (\<lambda>s1.
     res_bind (call (connectionCallback cbs) s1) (call (closeCallback_conn cbs)))"

text \<open>\<open>handleError\<close> takes the pending error off the socket and logs it.\<close>

definition handleError :: "'k os \<Rightarrow> ('k, 'a) conn_state_scheme \<Rightarrow> ('k, 'a) conn_state_scheme res" where
  "handleError os s =
     (case os_getsockopt os (chan_fd (cn_channel (cs_conn s))) (rx_kern s) of (err, k') \<Rightarrow> Inr (s\<lparr>rx_kern := k'\<rparr>))"

definition handleRead ::
    "'k os \<Rightarrow> ('k, 'a) conn_state_scheme conn_callbacks \<Rightarrow>
     ('k, 'a) conn_state_scheme \<Rightarrow> ('k, 'a) conn_state_scheme res" where
  "handleRead os cbs s =
     (let c = cs_conn s in
      case os_readv os (chan_fd (cn_channel c)) (readFd_blocks (cn_inputBuffer c)) (rx_kern s) of (r, k') \<Rightarrow>
        res_bind (readFd (\<lambda>_. r) (cn_inputBuffer c)) (\<lambda>(n, savedErrno, b).
          let s1 = s\<lparr>rx_kern := k', cs_conn := c\<lparr>cn_inputBuffer := b\<rparr>\<rparr> in
          if 0 < n then call (messageCallback cbs) s1
          else if n = 0 then handleClose os cbs s1
          else handleError os s1))"

definition handleWrite ::
    "'k os \<Rightarrow> ('k, 'a) conn_state_scheme conn_callbacks \<Rightarrow> int \<Rightarrow>
     ('k, 'a) conn_state_scheme \<Rightarrow> ('k, 'a) conn_state_scheme res" where
  "handleWrite os cbs tid s =
     (let c = cs_conn s in
      if isWriting (cn_channel c) then
        res_bind (writeFd (\<lambda>ds. os_write os (chan_fd (cn_channel c)) ds (rx_kern s)) (cn_outputBuffer c))
          (\<lambda>(n, savedErrno, k').
             let s0 = s\<lparr>rx_kern := k'\<rparr> in
             if 0 < n then
               let b = retrieve (cn_outputBuffer c) (nat n);
                   s1 = s0\<lparr>cs_conn := (cs_conn s0)\<lparr>cn_outputBuffer := b\<rparr>\<rparr>
               in if readableBytes b = 0 then
                    res_bind (on_channel (disableWriting os) s1) (\<lambda>s2.
                      let s3 = (if writeCompleteCallback cbs \<noteq> None
                                then queueInLoop os tid (Fn_writeComplete (cn_id (cs_conn s2))) s2 else s2)
                      in Inr (if cn_state (cs_conn s3) = kDisconnecting then shutdownInLoop os s3 else s3))
                  else Inr s1
             else Inr s0)
      else Inr s)"

text \<open>What the channel of a connection calls, and what the closures bound to it do. \<open>mem\<close> gives the
  bytes that are at an address when the closure runs, if the object there still exists.\<close>

definition run_callback ::
    "'k os \<Rightarrow> ('k, 'a) conn_state_scheme conn_callbacks \<Rightarrow> int \<Rightarrow> callback \<Rightarrow>
     ('k, 'a) conn_state_scheme \<Rightarrow> ('k, 'a) conn_state_scheme res" where
  "run_callback os cbs tid f s =
     (case f of
        Conn_handleRead \<Rightarrow> handleRead os cbs s
      | Conn_handleWrite \<Rightarrow> handleWrite os cbs tid s
      | Conn_handleClose \<Rightarrow> handleClose os cbs s
      | Conn_handleError \<Rightarrow> handleError os s
      | _ \<Rightarrow> Inr s)"

definition conn_exec ::
    "'k os \<Rightarrow> ('k, 'a) conn_state_scheme conn_callbacks \<Rightarrow> int \<Rightarrow> (nat \<Rightarrow> nat \<Rightarrow> bytes option) \<Rightarrow> closure \<Rightarrow>
     ('k, 'a) conn_state_scheme \<Rightarrow> ('k, 'a) conn_state_scheme res" where
  "conn_exec os cbs tid mem f s =
     (case f of
        Fn_connectEstablished i \<Rightarrow> connectEstablished os cbs s
      | Fn_connectDestroyed i \<Rightarrow> connectDestroyed os cbs s
      | Fn_sendInLoop i sptr len \<Rightarrow>
          (case mem sptr len of
             None \<Rightarrow> Inl Undefined_Behaviour
           | Some data \<Rightarrow> sendInLoop os cbs tid data s)
      | Fn_shutdownInLoop i \<Rightarrow> Inr (shutdownInLoop os s)
      | Fn_writeComplete i \<Rightarrow> call (writeCompleteCallback cbs) s
      | Fn_highWaterMark i n \<Rightarrow>
          (case highWaterMarkCallback cbs of None \<Rightarrow> Inl Bad_Function_Call | Some g \<Rightarrow> g n s)
      | _ \<Rightarrow> Inr s)"

section \<open>The invariant of a connection\<close>

text \<open>
  The buffers are well-formed, the channel is registered as its index says, the socket is not the
  wake-up descriptor, as long as the connection is not closed the channel waits for writability
  exactly when bytes are waiting in the output buffer, and when it is closed it waits for nothing.
\<close>

definition conn_inv :: "'k view \<Rightarrow> ('k, 'a) conn_state_scheme \<Rightarrow> bool" where
  "conn_inv v s \<longleftrightarrow>
     wf_buffer (cn_inputBuffer (cs_conn s)) \<and> wf_buffer (cn_outputBuffer (cs_conn s)) \<and>
     registered v (rx_pk s) (cn_channel (cs_conn s)) \<and>
     chan_fd (cn_channel (cs_conn s)) = cn_sockfd (cs_conn s) \<and>
     cn_sockfd (cs_conn s) \<noteq> lp_wakeupFd (rx_loop s) \<and>
     (cn_state (cs_conn s) \<noteq> kDisconnected \<longrightarrow>
        (isWriting (cn_channel (cs_conn s)) \<longleftrightarrow> contents (cn_outputBuffer (cs_conn s)) \<noteq> [])) \<and>
     (cn_state (cs_conn s) = kDisconnected \<longrightarrow> chan_events (cn_channel (cs_conn s)) = kNoneEvent)"

text \<open>The outgoing stream: what the kernel took followed by what waits in the output buffer.\<close>

definition outgoing :: "'k view \<Rightarrow> ('k, 'a) conn_state_scheme \<Rightarrow> bytes" where
  "outgoing v s = accepted v (rx_kern s) (cn_sockfd (cs_conn s)) @ contents (cn_outputBuffer (cs_conn s))"

text \<open>Everything of a connection but the channel and the output buffer; and the loop, which does not
  lose the wake-up for a closure that is queued while closures run.\<close>

definition same_conn :: "'k view \<Rightarrow> ('k, 'a) conn_state_scheme \<Rightarrow> ('k, 'a) conn_state_scheme \<Rightarrow> bool" where
  "same_conn v s s' \<longleftrightarrow>
     cn_id (cs_conn s') = cn_id (cs_conn s) \<and> cn_state (cs_conn s') = cn_state (cs_conn s) \<and>
     cn_sockfd (cs_conn s') = cn_sockfd (cs_conn s) \<and>
     cn_inputBuffer (cs_conn s') = cn_inputBuffer (cs_conn s) \<and>
     same_dispatch (cn_channel (cs_conn s)) (cn_channel (cs_conn s')) \<and>
     lp_wakeupFd (rx_loop s') = lp_wakeupFd (rx_loop s) \<and>
     lp_threadId (rx_loop s') = lp_threadId (rx_loop s) \<and>
     lp_callingPendingFunctors (rx_loop s') = lp_callingPendingFunctors (rx_loop s) \<and>
     (lp_callingPendingFunctors (rx_loop s) \<longrightarrow> no_lost_wakeup v s \<longrightarrow> no_lost_wakeup v s')"

lemma conn_invD:
  assumes "conn_inv v s"
  shows "wf_buffer (cn_inputBuffer (cs_conn s))" "wf_buffer (cn_outputBuffer (cs_conn s))"
    "registered v (rx_pk s) (cn_channel (cs_conn s))"
    "chan_fd (cn_channel (cs_conn s)) = cn_sockfd (cs_conn s)"
    "cn_sockfd (cs_conn s) \<noteq> lp_wakeupFd (rx_loop s)"
    "cn_state (cs_conn s) \<noteq> kDisconnected \<Longrightarrow>
       isWriting (cn_channel (cs_conn s)) \<longleftrightarrow> contents (cn_outputBuffer (cs_conn s)) \<noteq> []"
    "cn_state (cs_conn s) = kDisconnected \<Longrightarrow> chan_events (cn_channel (cs_conn s)) = kNoneEvent"
  using assms by (auto simp: conn_inv_def)

lemma same_conn_refl [simp]: "same_conn v s s"
  by (simp add: same_conn_def)

lemma same_conn_trans: "same_conn v a b \<Longrightarrow> same_conn v b c \<Longrightarrow> same_conn v a c"
  by (auto simp: same_conn_def intro: same_dispatch_trans)

lemma same_dispatch_fields [simp]: "same_dispatch ch (ch\<lparr>chan_events := e, chan_index := i\<rparr>)"
  by (simp add: same_dispatch_def)

text \<open>Changing the mask of the connection's channel.\<close>

lemma on_channel_mask:
  assumes "os_ok os v" and "registered v (rx_pk s) (cn_channel (cs_conn s))"
    and "f (cn_channel (cs_conn s)) s = loop_updateChannel os ((cn_channel (cs_conn s))\<lparr>chan_events := e\<rparr>) s"
    and "on_channel f s = Inr s'"
  obtains i p k where
    "s' = s\<lparr>rx_loop := (rx_loop s)\<lparr>lp_poller := p\<rparr>, rx_kern := k,
            cs_conn := (cs_conn s)\<lparr>cn_channel := (cn_channel (cs_conn s))\<lparr>chan_events := e, chan_index := i\<rparr>\<rparr>\<rparr>"
    and "registered v (p, k) ((cn_channel (cs_conn s))\<lparr>chan_events := e, chan_index := i\<rparr>)"
    and "others_kept v (rx_pk s) (p, k) (chan_fd (cn_channel (cs_conn s)))"
    and "i = (if chan_index (cn_channel (cs_conn s)) = kAdded \<and> e = kNoneEvent then kDeleted else kAdded)"
proof -
  obtain ch r where u: "loop_updateChannel os ((cn_channel (cs_conn s))\<lparr>chan_events := e\<rparr>) s = Inr (ch, r)"
    and s': "s' = r\<lparr>cs_conn := (cs_conn r)\<lparr>cn_channel := ch\<rparr>\<rparr>"
    using assms(3,4) by (auto simp: on_channel_def elim!: res_bindE)
  from loop_update_registered [OF assms(1,2) u] obtain i p k where
    reg: "registered v (rx_pk r) ch" and kept: "others_kept v (rx_pk s) (rx_pk r) (chan_fd (cn_channel (cs_conn s)))"
    and ch: "ch = (cn_channel (cs_conn s))\<lparr>chan_events := e, chan_index := i\<rparr>"
    and i: "i = (if chan_index (cn_channel (cs_conn s)) = kAdded \<and> e = kNoneEvent then kDeleted else kAdded)"
    and r: "r = s\<lparr>rx_loop := (rx_loop s)\<lparr>lp_poller := p\<rparr>, rx_kern := k\<rparr>" by auto
  have "rx_pk r = (p, k)" by (simp add: r rx_pk_def)
  with reg kept show ?thesis using that [of i k p] s' ch i r by simp
qed

lemma others_kept_views:
  "others_kept v (rx_pk s) (p, k) fd \<Longrightarrow> accepted v k = accepted v (rx_kern s)"
  "others_kept v (rx_pk s) (p, k) fd \<Longrightarrow> evcount v k = evcount v (rx_kern s)"
  "others_kept v (rx_pk s) (p, k) fd \<Longrightarrow> wr_shut v k = wr_shut v (rx_kern s)"
  by (simp_all add: others_kept_def rx_pk_def)

text \<open>Queueing a closure and storing a kernel state with the same interest list keep the invariant.\<close>

lemma queueInLoop_conn [simp]:
  fixes s :: "('k, 'a) conn_state_scheme"
  shows "cs_conn (queueInLoop os tid f s) = cs_conn s"
  by (simp add: queueInLoop_def wakeup_def Let_def split: prod.splits)

lemma conn_inv_kern:
  assumes "conn_inv v s" and "interest v k = interest v (rx_kern s)"
  shows "conn_inv v (s\<lparr>rx_kern := k\<rparr>)"
  using assms registered_interest [OF assms(2)] by (simp add: conn_inv_def rx_pk_def)

lemma same_conn_kern:
  assumes "evcount v k (lp_wakeupFd (rx_loop s)) = evcount v (rx_kern s) (lp_wakeupFd (rx_loop s))"
  shows "same_conn v s (s\<lparr>rx_kern := k\<rparr>)"
  using assms by (simp add: same_conn_def no_lost_wakeup_def)

lemma conn_inv_queueInLoop:
  assumes "os_ok os v" and "conn_inv v s"
  shows "conn_inv v (queueInLoop os tid f s)" and "same_conn v s (queueInLoop os tid f s)"
    and "outgoing v (queueInLoop os tid f s) = outgoing v s"
proof -
  show "conn_inv v (queueInLoop os tid f s)"
    using assms(2) registered_interest [OF queueInLoop_views(1) [OF assms(1), of tid f s]]
    by (simp add: conn_inv_def rx_pk_def)
  show "same_conn v s (queueInLoop os tid f s)"
    using queueInLoop_wakes [OF assms(1), of tid s f] by (simp add: same_conn_def)
  show "outgoing v (queueInLoop os tid f s) = outgoing v s"
    using conn_invD(5) [OF assms(2)] queueInLoop_views(3) [OF assms(1)] by (simp add: outgoing_def)
qed

section \<open>Sending\<close>

lemma mask_conn:
  assumes ok: "os_ok os v" and reg: "registered v (rx_pk s) (cn_channel (cs_conn s))"
    and f: "f (cn_channel (cs_conn s)) s = loop_updateChannel os ((cn_channel (cs_conn s))\<lparr>chan_events := e\<rparr>) s"
    and run: "on_channel f s = Inr s'"
  shows "same_conn v s s'" "outgoing v s' = outgoing v s" "wr_shut v (rx_kern s') = wr_shut v (rx_kern s)"
    "registered v (rx_pk s') (cn_channel (cs_conn s'))" "chan_events (cn_channel (cs_conn s')) = e"
    "cn_outputBuffer (cs_conn s') = cn_outputBuffer (cs_conn s)"
    "chan_index (cn_channel (cs_conn s')) =
       (if chan_index (cn_channel (cs_conn s)) = kAdded \<and> e = kNoneEvent then kDeleted else kAdded)"
    "chan_fd (cn_channel (cs_conn s')) = chan_fd (cn_channel (cs_conn s))"
    "lp_pendingFunctors (rx_loop s') = lp_pendingFunctors (rx_loop s)"
    "others_kept v (rx_pk s) (rx_pk s') (chan_fd (cn_channel (cs_conn s)))"
    "chan_tie (cn_channel (cs_conn s')) = chan_tie (cn_channel (cs_conn s)) \<and>
     chan_tied (cn_channel (cs_conn s')) = chan_tied (cn_channel (cs_conn s))"
proof -
  let ?ch = "cn_channel (cs_conn s)"
  obtain i p k where
    s': "s' = s\<lparr>rx_loop := (rx_loop s)\<lparr>lp_poller := p\<rparr>, rx_kern := k,
        cs_conn := (cs_conn s)\<lparr>cn_channel := ?ch\<lparr>chan_events := e, chan_index := i\<rparr>\<rparr>\<rparr>"
    and r: "registered v (p, k) (?ch\<lparr>chan_events := e, chan_index := i\<rparr>)"
    and kept: "others_kept v (rx_pk s) (p, k) (chan_fd ?ch)"
    and i: "i = (if chan_index ?ch = kAdded \<and> e = kNoneEvent then kDeleted else kAdded)"
    by (rule on_channel_mask [OF ok reg f run])
  have pk: "rx_pk s' = (p, k)" by (simp add: s' rx_pk_def)
  note views = others_kept_views [OF kept]
  show "same_conn v s s'" "outgoing v s' = outgoing v s" "wr_shut v (rx_kern s') = wr_shut v (rx_kern s)"
    using views by (simp_all add: s' same_conn_def outgoing_def no_lost_wakeup_def)
  show "registered v (rx_pk s') (cn_channel (cs_conn s'))" "others_kept v (rx_pk s) (rx_pk s') (chan_fd ?ch)"
    using r kept unfolding pk by (simp_all add: s')
  show "chan_events (cn_channel (cs_conn s')) = e"
    "cn_outputBuffer (cs_conn s') = cn_outputBuffer (cs_conn s)"
    "chan_index (cn_channel (cs_conn s')) = (if chan_index ?ch = kAdded \<and> e = kNoneEvent then kDeleted else kAdded)"
    "chan_fd (cn_channel (cs_conn s')) = chan_fd ?ch"
    "lp_pendingFunctors (rx_loop s') = lp_pendingFunctors (rx_loop s)"
    "chan_tie (cn_channel (cs_conn s')) = chan_tie ?ch \<and> chan_tied (cn_channel (cs_conn s')) = chan_tied ?ch"
    by (simp_all add: s' i)
qed

text \<open>A mask that agrees with the output buffer restores the invariant.\<close>

lemma conn_inv_mask:
  assumes ok: "os_ok os v" and wf: "wf_buffer (cn_inputBuffer (cs_conn s))" "wf_buffer (cn_outputBuffer (cs_conn s))"
    and reg: "registered v (rx_pk s) (cn_channel (cs_conn s))"
    and fd: "chan_fd (cn_channel (cs_conn s)) = cn_sockfd (cs_conn s)"
      "cn_sockfd (cs_conn s) \<noteq> lp_wakeupFd (rx_loop s)"
    and f: "f (cn_channel (cs_conn s)) s = loop_updateChannel os ((cn_channel (cs_conn s))\<lparr>chan_events := e\<rparr>) s"
    and agree: "cn_state (cs_conn s) \<noteq> kDisconnected \<Longrightarrow>
      bit e 2 \<longleftrightarrow> contents (cn_outputBuffer (cs_conn s)) \<noteq> []"
    and closed: "cn_state (cs_conn s) = kDisconnected \<Longrightarrow> e = kNoneEvent"
    and run: "on_channel f s = Inr s'"
  shows "conn_inv v s'"
proof -
  note m = mask_conn [OF ok reg f run]
  have "cn_state (cs_conn s') = cn_state (cs_conn s)" "cn_inputBuffer (cs_conn s') = cn_inputBuffer (cs_conn s)"
    "cn_sockfd (cs_conn s') = cn_sockfd (cs_conn s)" "lp_wakeupFd (rx_loop s') = lp_wakeupFd (rx_loop s)"
    using m(1) by (simp_all add: same_conn_def)
  then show ?thesis
    using m(4-6,8) wf fd agree closed by (simp add: conn_inv_def isWriting_bit)
qed

lemma mask_bits [simp]:
  "bit (chan_events (set_writing ch)) 2" "\<not> bit (chan_events (clear_writing ch)) 2"
  "\<not> bit (chan_events (clear_all ch)) 2"
  "bit (chan_events (set_reading ch)) 2 \<longleftrightarrow> bit (chan_events ch) 2"
  using isWriting_updates [where ch = ch] by (simp_all add: isWriting_bit)

text \<open>The second half of a send, taken apart: the notice of a crossed high-water mark, the output buffer, the
  channel.\<close>

definition crosses_mark :: "'s conn_callbacks \<Rightarrow> nat \<Rightarrow> tcp_connection \<Rightarrow> bool" where
  "crosses_mark cbs remaining c \<longleftrightarrow>
     cn_highWaterMark c \<le> size_add (readableBytes (cn_outputBuffer c)) remaining \<and>
     readableBytes (cn_outputBuffer c) < cn_highWaterMark c \<and> highWaterMarkCallback cbs \<noteq> None"

definition mark_notice :: "'k os \<Rightarrow> 's conn_callbacks \<Rightarrow> int \<Rightarrow> nat \<Rightarrow> ('k, 'a) conn_state_scheme \<Rightarrow> ('k, 'a) conn_state_scheme" where
  "mark_notice os cbs tid remaining s =
     (if crosses_mark cbs remaining (cs_conn s)
      then queueInLoop os tid (Fn_highWaterMark (cn_id (cs_conn s)) (size_add (readableBytes (cn_outputBuffer (cs_conn s))) remaining)) s
      else s)"

lemma mark_notice_conn [simp]: "cs_conn (mark_notice os cbs tid remaining s) = cs_conn s"
  by (simp add: mark_notice_def)

lemma send_rest_shape:
  assumes "send_rest os cbs tid data nwrote remaining False s = Inr s'" and "0 < remaining"
  obtains b where "append_buf (cn_outputBuffer (cs_conn s)) (drop nwrote data) = Inr b"
    and "if isWriting (cn_channel (cs_conn s))
      then s' = (mark_notice os cbs tid remaining s)\<lparr>cs_conn := (cs_conn s)\<lparr>cn_outputBuffer := b\<rparr>\<rparr>
      else on_channel (enableWriting os) ((mark_notice os cbs tid remaining s)\<lparr>cs_conn := (cs_conn s)\<lparr>cn_outputBuffer := b\<rparr>\<rparr>) = Inr s'"
proof -
  let ?m = "mark_notice os cbs tid remaining s"
  have c: "\<not> False \<and> 0 < remaining" using assms(2) by simp
  have "send_rest os cbs tid data nwrote remaining False s = res_bind (append_buf (cn_outputBuffer (cs_conn ?m)) (drop nwrote data)) (\<lambda>b.
      let s2 = ?m\<lparr>cs_conn := (cs_conn ?m)\<lparr>cn_outputBuffer := b\<rparr>\<rparr>
      in if \<not> isWriting (cn_channel (cs_conn s2)) then on_channel (enableWriting os) s2 else Inr s2)"
    unfolding send_rest_def mark_notice_def crosses_mark_def Let_def if_P [OF c] by (rule refl)
  with assms(1) obtain b where b: "append_buf (cn_outputBuffer (cs_conn ?m)) (drop nwrote data) = Inr b"
    and "(let s2 = ?m\<lparr>cs_conn := (cs_conn ?m)\<lparr>cn_outputBuffer := b\<rparr>\<rparr>
      in if \<not> isWriting (cn_channel (cs_conn s2)) then on_channel (enableWriting os) s2 else Inr s2) = Inr s'"
    by (auto elim: res_bindE)
  then show ?thesis by (intro that [OF b [unfolded mark_notice_conn]]) (auto simp: Let_def split: if_splits)
qed

lemma send_rest_keeps:
  assumes ok: "os_ok os v" and inv: "conn_inv v s" and st: "cn_state (cs_conn s) \<noteq> kDisconnected"
    and len: "length data \<le> vector_max" and n: "nwrote \<le> length data" "remaining = length data - nwrote"
    and snd: "send_rest os cbs tid data nwrote remaining False s = Inr s'"
  shows "conn_inv v s' \<and> same_conn v s s' \<and> outgoing v s' = outgoing v s @ drop nwrote data"
proof (cases "0 < remaining")
  case False
  with snd n inv show ?thesis by (simp add: send_rest_def)
next
  case True
  let ?s1 = "mark_notice os cbs tid remaining s"
  have s1: "conn_inv v ?s1" "same_conn v s ?s1" "outgoing v ?s1 = outgoing v s"
    using conn_inv_queueInLoop [OF ok inv] inv by (auto simp: mark_notice_def)
  obtain b where b: "append_buf (cn_outputBuffer (cs_conn s)) (drop nwrote data) = Inr b"
    and rest: "if isWriting (cn_channel (cs_conn s)) then s' = ?s1\<lparr>cs_conn := (cs_conn s)\<lparr>cn_outputBuffer := b\<rparr>\<rparr>
      else on_channel (enableWriting os) (?s1\<lparr>cs_conn := (cs_conn s)\<lparr>cn_outputBuffer := b\<rparr>\<rparr>) = Inr s'"
    by (rule send_rest_shape [OF snd True])
  define s2 where "s2 = ?s1\<lparr>cs_conn := (cs_conn s)\<lparr>cn_outputBuffer := b\<rparr>\<rparr>"
  have wf: "wf_buffer b" and c: "contents b = contents (cn_outputBuffer (cs_conn s)) @ drop nwrote data"
    using bq.put_invar [OF _ _ b] bq.put_queued [OF _ _ b] conn_invD(2) [OF inv] len by auto
  have ne: "contents b \<noteq> []" using True n c by auto
  have same: "same_conn v s s2" "outgoing v s2 = outgoing v s @ drop nwrote data"
    using s1 c by (auto simp: s2_def same_conn_def outgoing_def no_lost_wakeup_def)
  show ?thesis
  proof (cases "isWriting (cn_channel (cs_conn s))")
    case True
    then have "s' = s2" using rest by (simp add: s2_def)
    moreover have "conn_inv v s2" using True s1(1) wf ne by (auto simp: s2_def conn_inv_def rx_pk_def)
    ultimately show ?thesis using same by simp
  next
    case False
    then have en: "on_channel (enableWriting os) s2 = Inr s'" using rest by (simp add: s2_def)
    have reg2: "registered v (rx_pk s2) (cn_channel (cs_conn s2))"
      using s1(1) by (simp add: s2_def conn_inv_def rx_pk_def)
    note upd = mask_updates(3) [THEN fun_cong]
    have "conn_inv v s'"
      using s1(1) wf ne by (intro conn_inv_mask [OF ok _ _ reg2 _ _ upd _ _ en]) (use st in \<open>auto simp: s2_def conn_inv_def\<close>)
    then show ?thesis using same same_conn_trans [OF _ mask_conn(1) [OF ok reg2 upd en]]
        mask_conn(2) [OF ok reg2 upd en] by simp
  qed
qed

text \<open>The first half of a send, taken apart: bytes are waiting already; the peer is gone; the kernel has no room;
  or it took \<open>n\<close> bytes.\<close>

lemma sendInLoop_shape:
  assumes ok: "os_ok os v" and inv: "conn_inv v s" and st: "cn_state (cs_conn s) \<noteq> kDisconnected"
    and len: "length data \<le> vector_max" and snd: "sendInLoop os cbs tid data s = Inr s'"
  obtains (backlog) "contents (cn_outputBuffer (cs_conn s)) \<noteq> []" "send_rest os cbs tid data 0 (length data) False s = Inr s'"
  | (gone) e k where "contents (cn_outputBuffer (cs_conn s)) = []"
      "os_write os (cn_sockfd (cs_conn s)) data (rx_kern s) = (Inl e, k)" "e = EPIPE \<or> e = ECONNRESET" "s' = s\<lparr>rx_kern := k\<rparr>"
  | (full) e k where "contents (cn_outputBuffer (cs_conn s)) = []"
      "os_write os (cn_sockfd (cs_conn s)) data (rx_kern s) = (Inl e, k)" "\<not> (e = EPIPE \<or> e = ECONNRESET)"
      "send_rest os cbs tid data 0 (length data) False (s\<lparr>rx_kern := k\<rparr>) = Inr s'"
  | (taken) n k where "contents (cn_outputBuffer (cs_conn s)) = []"
      "os_write os (cn_sockfd (cs_conn s)) data (rx_kern s) = (Inr n, k)" "n \<le> length data"
      "send_rest os cbs tid data n (length data - n) False
        (if length data - n = 0 \<and> writeCompleteCallback cbs \<noteq> None
         then queueInLoop os tid (Fn_writeComplete (cn_id (cs_conn s))) (s\<lparr>rx_kern := k\<rparr>) else s\<lparr>rx_kern := k\<rparr>) = Inr s'"
proof (cases "contents (cn_outputBuffer (cs_conn s)) = []")
  case False
  then have "isWriting (cn_channel (cs_conn s))" using conn_invD(6) [OF inv st] by simp
  then show ?thesis using backlog [OF False] snd st by (simp add: sendInLoop_def)
next
  case True
  obtain r k where w: "os_write os (cn_sockfd (cs_conn s)) data (rx_kern s) = (r, k)" by fastforce
  have D: "\<not> isWriting (cn_channel (cs_conn s))" "readableBytes (cn_outputBuffer (cs_conn s)) = 0"
    "chan_fd (cn_channel (cs_conn s)) = cn_sockfd (cs_conn s)"
    using conn_invD(4) [OF inv] conn_invD(6) [OF inv st] contents_eq_Nil [OF conn_invD(2) [OF inv]] True by auto
  show ?thesis
  proof (cases r)
    case (Inl e)
    then have rest: "send_rest os cbs tid data 0 (length data)
        (e \<noteq> EWOULDBLOCK \<and> (e = EPIPE \<or> e = ECONNRESET)) (s\<lparr>rx_kern := k\<rparr>) = Inr s'"
      using snd st D w by (simp add: sendInLoop_def)
    show ?thesis
    proof (cases "e = EPIPE \<or> e = ECONNRESET")
      case e: True
      then have "s' = s\<lparr>rx_kern := k\<rparr>"
        using rest by (auto simp: send_rest_def EPIPE_def ECONNRESET_def EWOULDBLOCK_def)
      then show ?thesis using gone [OF True _ e] w Inl by blast
    next
      case e: False
      then show ?thesis using full [OF True _ e] w Inl rest by simp
    qed
  next
    case (Inr n)
    have n: "n \<le> length data" using write_views(6) [OF ok w] Inr by simp
    then have "size_sub (length data) n = length data - n" using len by (simp add: size_sub_le vector_max_def)
    then show ?thesis using taken [OF True _ n] snd st D w Inr by (simp add: sendInLoop_def Let_def)
  qed
qed

lemma write_keeps:
  assumes ok: "os_ok os v" and inv: "conn_inv v s" and w: "os_write os (cn_sockfd (cs_conn s)) data (rx_kern s) = (r, k)"
  shows "conn_inv v (s\<lparr>rx_kern := k\<rparr>)" "same_conn v s (s\<lparr>rx_kern := k\<rparr>)"
    "contents (cn_outputBuffer (cs_conn s)) = [] \<Longrightarrow>
      outgoing v (s\<lparr>rx_kern := k\<rparr>) = outgoing v s @ (case r of Inl e \<Rightarrow> [] | Inr n \<Rightarrow> take n data)"
proof -
  note views = write_views [OF ok w]
  show "conn_inv v (s\<lparr>rx_kern := k\<rparr>)" by (rule conn_inv_kern [OF inv views(1)])
  show "same_conn v s (s\<lparr>rx_kern := k\<rparr>)"
    using views(3) [of "lp_wakeupFd (rx_loop s)"] conn_invD(5) [OF inv] by (intro same_conn_kern) auto
  show "outgoing v (s\<lparr>rx_kern := k\<rparr>) = outgoing v s @ (case r of Inl e \<Rightarrow> [] | Inr n \<Rightarrow> take n data)"
    if "contents (cn_outputBuffer (cs_conn s)) = []"
    using that views(5,6) by (auto simp: outgoing_def split: sum.splits)
qed

text \<open>
  A send adds its bytes to the outgoing stream, unless it wrote directly and the peer was gone
  (\<open>EPIPE\<close> or \<open>ECONNRESET\<close>): then they are dropped and nothing else changes.
\<close>

lemma sendInLoop_keeps:
  assumes ok: "os_ok os v" and inv: "conn_inv v s" and len: "length data \<le> vector_max"
    and snd: "sendInLoop os cbs tid data s = Inr s'"
  shows "conn_inv v s' \<and> same_conn v s s' \<and>
    outgoing v s' = (if cn_state (cs_conn s) = kDisconnected \<or>
        (contents (cn_outputBuffer (cs_conn s)) = [] \<and>
         fst (os_write os (cn_sockfd (cs_conn s)) data (rx_kern s)) \<in> {Inl EPIPE, Inl ECONNRESET})
      then outgoing v s else outgoing v s @ data)"
proof (cases "cn_state (cs_conn s) = kDisconnected")
  case True
  with snd inv show ?thesis by (simp add: sendInLoop_def)
next
  case st: False
  have rest: "conn_inv v s' \<and> same_conn v s s' \<and> outgoing v s' = outgoing v s @ data"
    if "conn_inv v t" "same_conn v s t" "outgoing v t = outgoing v s @ take n data" "n \<le> length data"
      "send_rest os cbs tid data n (length data - n) False t = Inr s'" for t n
  proof -
    have "cn_state (cs_conn t) \<noteq> kDisconnected" using that(2) st by (simp add: same_conn_def)
    from send_rest_keeps [OF ok that(1) this len that(4) refl that(5)] that(2,3)
    show ?thesis using same_conn_trans [of v s t s'] by simp
  qed
  from ok inv st len snd show ?thesis
  proof (cases rule: sendInLoop_shape)
    case backlog
    then show ?thesis using rest [of s 0] inv st by simp
  next
    case (gone e k)
    then show ?thesis using write_keeps [OF ok inv gone(2)] by auto
  next
    case (full e k)
    then show ?thesis using write_keeps [OF ok inv full(2)] rest [of "s\<lparr>rx_kern := k\<rparr>" 0] st by simp
  next
    case (taken n k)
    note W = write_keeps [OF ok inv taken(2)]
    let ?t = "if length data - n = 0 \<and> writeCompleteCallback cbs \<noteq> None
      then queueInLoop os tid (Fn_writeComplete (cn_id (cs_conn s))) (s\<lparr>rx_kern := k\<rparr>) else s\<lparr>rx_kern := k\<rparr>"
    have "conn_inv v ?t" "same_conn v (s\<lparr>rx_kern := k\<rparr>) ?t" "outgoing v ?t = outgoing v s @ take n data"
      using conn_inv_queueInLoop [OF ok W(1)] W taken(1) by auto
    with rest [of ?t n] same_conn_trans [OF W(2)] taken(3,4) show ?thesis using st taken(2) by simp
  qed
qed

section \<open>Faults\<close>

text \<open>A mask change can only fail by ending the process, an output buffer only by its size.\<close>

lemma loop_updateChannel_fault: "loop_updateChannel os ch r = Inl e \<Longrightarrow> e = Fatal_Exit"
  by (auto simp: loop_updateChannel_def updateChannel_def update_def res_bind_eq_Inl Let_def
      split: if_splits prod.splits)

lemma on_channel_fault:
  "on_channel (enableReading os) s = Inl e \<Longrightarrow> e = Fatal_Exit"
  "on_channel (enableWriting os) s = Inl e \<Longrightarrow> e = Fatal_Exit"
  "on_channel (disableWriting os) s = Inl e \<Longrightarrow> e = Fatal_Exit"
  "on_channel (disableAll os) s = Inl e \<Longrightarrow> e = Fatal_Exit"
  by (auto simp: on_channel_def res_bind_eq_Inl enableReading_def enableWriting_def disableWriting_def
      disableAll_def dest: loop_updateChannel_fault)

lemma send_rest_fault:
  assumes "conn_inv v s" and "length data \<le> vector_max"
    and "send_rest os cbs tid data nwrote remaining faultError s = Inl e"
  shows "e = Fatal_Exit \<or> e = Length_Error"
proof -
  have wf: "wf_buffer (cn_outputBuffer (cs_conn s))" by (rule conn_invD(2) [OF assms(1)])
  have len: "length (drop nwrote data) \<le> vector_max" using assms(2) by simp
  show ?thesis
    using assms(3) append_buf_cases [OF wf len] on_channel_fault(2)
    by (auto simp: send_rest_def Let_def res_bind_eq_Inl split: if_splits)
qed

lemma conn_inv_write:
  assumes "os_ok os v" and "conn_inv v s" and "os_write os fd data (rx_kern s) = (r, k)"
  shows "conn_inv v (s\<lparr>rx_kern := k\<rparr>)"
  by (rule conn_inv_kern [OF assms(2) write_views(1) [OF assms(1,3)]])

lemma sendInLoop_fault:
  assumes "os_ok os v" and "conn_inv v s" and "length data \<le> vector_max"
    and "sendInLoop os cbs tid data s = Inl e"
  shows "e = Fatal_Exit \<or> e = Length_Error"
proof (cases "os_write os (chan_fd (cn_channel (cs_conn s))) data (rx_kern s)")
  case (Pair r k)
  note inv = conn_inv_write [OF assms(1,2) Pair]
  note invq = conn_inv_queueInLoop(1) [OF assms(1) inv]
  show ?thesis
    using assms(4) send_rest_fault [OF assms(2,3)] send_rest_fault [OF inv assms(3)]
      send_rest_fault [OF invq assms(3)] Pair
    by (auto simp: sendInLoop_def Let_def split: if_splits sum.splits)
qed

section \<open>Draining and half-closing\<close>

lemma shutdownWrite_keeps:
  assumes "os_ok os v" and "conn_inv v s"
  shows "conn_inv v (shutdownWrite os s)" "same_conn v s (shutdownWrite os s)"
    "outgoing v (shutdownWrite os s) = outgoing v s" "cs_conn (shutdownWrite os s) = cs_conn s"
proof -
  obtain r k where sh: "os_shutdown os (cn_sockfd (cs_conn s)) (rx_kern s) = (r, k)" by fastforce
  then have eq: "shutdownWrite os s = s\<lparr>rx_kern := k\<rparr>" by (simp add: shutdownWrite_def)
  note views = shutdown_views [OF assms(1) sh]
  show "conn_inv v (shutdownWrite os s)" unfolding eq by (rule conn_inv_kern [OF assms(2) views(1)])
  show "same_conn v s (shutdownWrite os s)" unfolding eq by (rule same_conn_kern) (simp add: views)
  show "outgoing v (shutdownWrite os s) = outgoing v s" by (simp add: eq outgoing_def views)
  show "cs_conn (shutdownWrite os s) = cs_conn s" by (simp add: eq)
qed

text \<open>\<open>half_closed\<close> says that a step shut the sending side down.\<close>

definition half_closed :: "'k view \<Rightarrow> ('k, 'a) conn_state_scheme \<Rightarrow> ('k, 'a) conn_state_scheme \<Rightarrow> bool" where
  "half_closed v s s' \<longleftrightarrow>
     wr_shut v (rx_kern s') (cn_sockfd (cs_conn s)) \<and> \<not> wr_shut v (rx_kern s) (cn_sockfd (cs_conn s))"

lemma shutdownInLoop_keeps:
  assumes "os_ok os v" and "conn_inv v s" and "cn_state (cs_conn s) \<noteq> kDisconnected"
  shows "conn_inv v (shutdownInLoop os s)" "same_conn v s (shutdownInLoop os s)"
    "outgoing v (shutdownInLoop os s) = outgoing v s" "cs_conn (shutdownInLoop os s) = cs_conn s"
    "half_closed v s (shutdownInLoop os s) \<Longrightarrow> contents (cn_outputBuffer (cs_conn s)) = []"
  using shutdownWrite_keeps [OF assms(1,2)] conn_invD(6) [OF assms(2,3)] assms(2)
  by (auto simp: shutdownInLoop_def half_closed_def)

lemma conn_inv_state:
  assumes "conn_inv v s" and "st \<noteq> kDisconnected" and "cn_state (cs_conn s) \<noteq> kDisconnected"
  shows "conn_inv v (setState st s)" and "outgoing v (setState st s) = outgoing v s"
  using assms by (auto simp: conn_inv_def setState_def rx_pk_def outgoing_def)

lemma shutdown_keeps:
  assumes ok: "os_ok os v" and inv: "conn_inv v s"
  shows "conn_inv v (shutdown os tid s)" "outgoing v (shutdown os tid s) = outgoing v s"
    "half_closed v s (shutdown os tid s) \<Longrightarrow>
       cn_state (cs_conn s) = kConnected \<and> contents (cn_outputBuffer (cs_conn s)) = []"
    "cs_conn (shutdown os tid s) =
       (if cn_state (cs_conn s) = kConnected then (cs_conn s)\<lparr>cn_state := kDisconnecting\<rparr> else cs_conn s)"
proof -
  let ?s = "setState kDisconnecting s"
  have s: "conn_inv v ?s" "outgoing v ?s = outgoing v s" if "cn_state (cs_conn s) = kConnected"
    using conn_inv_state [OF inv, of kDisconnecting] that by auto
  have st: "cn_state (cs_conn ?s) \<noteq> kDisconnected" by (simp add: setState_def)
  note sh = shutdownInLoop_keeps [OF ok s(1) st] and q = conn_inv_queueInLoop [OF ok s(1)]
  show "conn_inv v (shutdown os tid s)" using inv sh(1) q(1) by (simp add: shutdown_def Let_def)
  show "outgoing v (shutdown os tid s) = outgoing v s"
    using s(2) sh(3) q(3) by (simp add: shutdown_def Let_def)
  show "cs_conn (shutdown os tid s) =
      (if cn_state (cs_conn s) = kConnected then (cs_conn s)\<lparr>cn_state := kDisconnecting\<rparr> else cs_conn s)"
    using sh(4) by (simp add: shutdown_def Let_def setState_def)
  assume h: "half_closed v s (shutdown os tid s)"
  then have c: "cn_state (cs_conn s) = kConnected"
    by (auto simp: shutdown_def half_closed_def split: if_splits)
  have "isInLoopThread tid (rx_loop ?s)"
    using h c queueInLoop_views(2) [OF ok, of tid _ ?s]
    by (auto simp: shutdown_def half_closed_def Let_def setState_def split: if_splits)
  then have "half_closed v ?s (shutdownInLoop os ?s)"
    using h c by (simp add: shutdown_def half_closed_def Let_def setState_def)
  then show "cn_state (cs_conn s) = kConnected \<and> contents (cn_outputBuffer (cs_conn s)) = []"
    using sh(5) c by (simp add: setState_def)
qed

lemma retrieve_conn:
  assumes "os_ok os v" and "conn_inv v s"
    and w: "os_write os (cn_sockfd (cs_conn s)) (contents (cn_outputBuffer (cs_conn s))) (rx_kern s) = (Inr n, k)"
    and s': "s' = s\<lparr>rx_kern := k, cs_conn := (cs_conn s)\<lparr>cn_outputBuffer := retrieve (cn_outputBuffer (cs_conn s)) n\<rparr>\<rparr>"
  shows "outgoing v s' = outgoing v s" "same_conn v s s'" "wr_shut v (rx_kern s') = wr_shut v (rx_kern s)"
    "registered v (rx_pk s') (cn_channel (cs_conn s'))"
    "contents (cn_outputBuffer (cs_conn s')) = drop n (contents (cn_outputBuffer (cs_conn s)))"
    "wf_buffer (cn_outputBuffer (cs_conn s'))"
proof -
  note inv = conn_invD [OF assms(2)] and views = write_views [OF assms(1) w]
  show c: "contents (cn_outputBuffer (cs_conn s')) = drop n (contents (cn_outputBuffer (cs_conn s)))"
    and "wf_buffer (cn_outputBuffer (cs_conn s'))"
    using bq.get_queued [OF inv(2)] bq.get_invar [OF inv(2)] by (simp_all add: s')
  show "outgoing v s' = outgoing v s"
    using views(6) [OF refl] c by (simp add: s' outgoing_def)
  show "same_conn v s s'"
    using views(3) [of "lp_wakeupFd (rx_loop s)"] inv(5) by (auto simp: s' same_conn_def no_lost_wakeup_def)
  show "wr_shut v (rx_kern s') = wr_shut v (rx_kern s)" using views(2) by (simp add: s')
  show "registered v (rx_pk s') (cn_channel (cs_conn s'))"
    using registered_interest [OF views(1)] inv(3) by (simp add: s' rx_pk_def)
qed

text \<open>The last part of \<open>handleWrite\<close>, once the output buffer is empty.\<close>

lemma drained_keeps:
  assumes ok: "os_ok os v" and inv: "conn_inv v s2" and st: "cn_state (cs_conn s2) \<noteq> kDisconnected"
    and e: "contents (cn_outputBuffer (cs_conn s2)) = []"
    and s': "s' = (let s3 = (if writeCompleteCallback cbs \<noteq> None
          then queueInLoop os tid (Fn_writeComplete (cn_id (cs_conn s2))) s2 else s2)
        in if cn_state (cs_conn s3) = kDisconnecting then shutdownInLoop os s3 else s3)"
  shows "conn_inv v s' \<and> same_conn v s2 s' \<and> outgoing v s' = outgoing v s2 \<and>
    contents (cn_outputBuffer (cs_conn s')) = [] \<and>
    (half_closed v s2 s' \<longrightarrow> cn_state (cs_conn s2) = kDisconnecting)"
proof -
  define s3 where "s3 = (if writeCompleteCallback cbs \<noteq> None
    then queueInLoop os tid (Fn_writeComplete (cn_id (cs_conn s2))) s2 else s2)"
  have s3: "conn_inv v s3" "same_conn v s2 s3" "outgoing v s3 = outgoing v s2" "cs_conn s3 = cs_conn s2"
    "wr_shut v (rx_kern s3) = wr_shut v (rx_kern s2)"
    using conn_inv_queueInLoop [OF ok inv] inv queueInLoop_views(2) [OF ok, of tid _ s2] by (auto simp: s3_def)
  have s'_eq: "s' = (if cn_state (cs_conn s3) = kDisconnecting then shutdownInLoop os s3 else s3)"
    unfolding s' s3_def Let_def ..
  have "cn_state (cs_conn s3) \<noteq> kDisconnected" using st s3(4) by simp
  note sh = shutdownInLoop_keeps [OF ok s3(1) this]
  show ?thesis
    using s3 sh e same_conn_trans [OF s3(2) sh(2)] by (auto simp: s'_eq half_closed_def)
qed

lemma handleWrite_progress:
  assumes ok: "os_ok os v" and inv: "conn_inv v s" and st: "cn_state (cs_conn s) \<noteq> kDisconnected"
    and wr: "isWriting (cn_channel (cs_conn s))" and n: "0 < n"
    and w: "os_write os (cn_sockfd (cs_conn s)) (contents (cn_outputBuffer (cs_conn s))) (rx_kern s) = (Inr n, k)"
    and run: "handleWrite os cbs tid s = Inr s'"
  shows "conn_inv v s' \<and> same_conn v s s' \<and> outgoing v s' = outgoing v s \<and>
    (half_closed v s s' \<longrightarrow>
       cn_state (cs_conn s) = kDisconnecting \<and> contents (cn_outputBuffer (cs_conn s')) = [])"
proof -
  let ?out = "cn_outputBuffer (cs_conn s)"
  note D = conn_invD [OF inv]
  define s1 where "s1 = s\<lparr>rx_kern := k, cs_conn := (cs_conn s)\<lparr>cn_outputBuffer := retrieve ?out n\<rparr>\<rparr>"
  note s1 = retrieve_conn [OF ok inv w s1_def]
  have fields: "cn_inputBuffer (cs_conn s1) = cn_inputBuffer (cs_conn s)"
    "cn_channel (cs_conn s1) = cn_channel (cs_conn s)" "cn_sockfd (cs_conn s1) = cn_sockfd (cs_conn s)"
    "cn_state (cs_conn s1) = cn_state (cs_conn s)" "lp_wakeupFd (rx_loop s1) = lp_wakeupFd (rx_loop s)"
    by (simp_all add: s1_def)
  have empty: "readableBytes (retrieve ?out n) = 0 \<longleftrightarrow> contents (cn_outputBuffer (cs_conn s1)) = []"
    using contents_eq_Nil [OF s1(6)] by (simp add: s1_def)
  show ?thesis
  proof (cases "contents (cn_outputBuffer (cs_conn s1)) = []")
    case False
    then have "s' = s1"
      using run wr w n D(4) empty by (simp add: handleWrite_def writeFd_wf [OF D(2)] Let_def s1_def)
    moreover have "conn_inv v s1" using s1(4,6) D(1,4,5) wr False st by (simp add: conn_inv_def fields)
    ultimately show ?thesis using s1(1-3) by (simp add: half_closed_def)
  next
    case True
    obtain s2 where dis: "on_channel (disableWriting os) s1 = Inr s2"
      and s': "s' = (let s3 = (if writeCompleteCallback cbs \<noteq> None
            then queueInLoop os tid (Fn_writeComplete (cn_id (cs_conn s2))) s2 else s2)
          in if cn_state (cs_conn s3) = kDisconnecting then shutdownInLoop os s3 else s3)"
      using run wr w n D(4) empty True
      unfolding handleWrite_def writeFd_wf [OF D(2)] Let_def s1_def by (auto elim!: res_bindE)
    note upd = mask_updates(4) [THEN fun_cong]
    note m = mask_conn [OF ok s1(4) upd dis]
    have inv2: "conn_inv v s2"
      by (rule conn_inv_mask [OF ok _ s1(6) s1(4) _ _ upd _ _ dis]) (use D fields True st in auto)
    have st2: "cn_state (cs_conn s2) = cn_state (cs_conn s)" "cn_sockfd (cs_conn s2) = cn_sockfd (cs_conn s)"
      using m(1) fields by (simp_all add: same_conn_def)
    from drained_keeps [OF ok inv2 _ _ s'] st st2 m(6) True
    have "conn_inv v s' \<and> same_conn v s2 s' \<and> outgoing v s' = outgoing v s2 \<and>
      contents (cn_outputBuffer (cs_conn s')) = [] \<and> (half_closed v s2 s' \<longrightarrow> cn_state (cs_conn s2) = kDisconnecting)"
      by auto
    moreover have "same_conn v s s2" using s1(2) m(1) by (rule same_conn_trans)
    ultimately show ?thesis
      using m(2,3) s1(1,3) st2 same_conn_trans [of v s s2 s'] by (auto simp: half_closed_def)
  qed
qed

lemma handleWrite_keeps:
  assumes ok: "os_ok os v" and inv: "conn_inv v s" and st: "cn_state (cs_conn s) \<noteq> kDisconnected"
    and run: "handleWrite os cbs tid s = Inr s'"
  shows "conn_inv v s' \<and> same_conn v s s' \<and> outgoing v s' = outgoing v s \<and>
    (half_closed v s s' \<longrightarrow>
       cn_state (cs_conn s) = kDisconnecting \<and> contents (cn_outputBuffer (cs_conn s')) = [])"
proof (cases "isWriting (cn_channel (cs_conn s))")
  case False
  with run inv show ?thesis by (simp add: handleWrite_def half_closed_def)
next
  case wr: True
  note D = conn_invD [OF inv]
  obtain r k where w: "os_write os (cn_sockfd (cs_conn s)) (contents (cn_outputBuffer (cs_conn s))) (rx_kern s) = (r, k)"
    by fastforce
  show ?thesis
  proof (cases "r = Inr 0 \<or> (\<exists>e. r = Inl e)")
    case True
    then have "s' = s\<lparr>rx_kern := k\<rparr>"
      using run wr w D(4) by (auto simp: handleWrite_def writeFd_wf [OF D(2)] Let_def)
    moreover have "accepted v k (cn_sockfd (cs_conn s)) = accepted v (rx_kern s) (cn_sockfd (cs_conn s))"
      using True write_views(5,6) [OF ok w] by auto
    moreover have "same_conn v s (s\<lparr>rx_kern := k\<rparr>)"
      using write_views(3) [OF ok w, of "lp_wakeupFd (rx_loop s)"] D(5) by (intro same_conn_kern) auto
    ultimately show ?thesis
      using conn_inv_write [OF ok inv w] write_views(2) [OF ok w] by (simp add: outgoing_def half_closed_def)
  next
    case False
    then obtain n where "r = Inr n" "0 < n" by (cases r) auto
    with handleWrite_progress [OF ok inv st wr _ _ run] w show ?thesis by simp
  qed
qed

lemma handleWrite_fault:
  assumes "conn_inv v s" and "handleWrite os cbs tid s = Inl e"
  shows "e = Fatal_Exit"
  using assms(2) on_channel_fault(3) unfolding handleWrite_def Let_def writeFd_wf [OF conn_invD(2) [OF assms(1)]]
  by (auto simp: res_bind_eq_Inl split: if_splits sum.splits prod.splits)

section \<open>Opening, closing and the application's callbacks\<close>

text \<open>What every step of a connection keeps, in and outside a batch of closures (\<open>b\<close>, or \<open>None\<close> where the queue does
  not matter), and what the application's callbacks have to keep.\<close>

definition conn_ok :: "'k view \<Rightarrow> bool option \<Rightarrow> ('k, 'a) conn_state_scheme \<Rightarrow> bool" where
  "conn_ok v b s \<longleftrightarrow> conn_inv v s \<and>
     (b \<noteq> None \<longrightarrow> b = Some (lp_callingPendingFunctors (rx_loop s))) \<and> (b = Some True \<longrightarrow> no_lost_wakeup v s)"

definition keeps_conn_ok :: "'k view \<Rightarrow> (('k, 'a) conn_state_scheme \<Rightarrow> ('k, 'a) conn_state_scheme res) \<Rightarrow> bool" where
  "keeps_conn_ok v f \<longleftrightarrow> (\<forall>b s s'. conn_ok v b s \<longrightarrow> f s = Inr s' \<longrightarrow> conn_ok v b s')"

definition callbacks_ok :: "'k view \<Rightarrow> ('k, 'a) conn_state_scheme conn_callbacks \<Rightarrow> bool" where
  "callbacks_ok v cbs \<longleftrightarrow>
     keeps_conn_ok v (call (connectionCallback cbs)) \<and> keeps_conn_ok v (call (messageCallback cbs)) \<and>
     keeps_conn_ok v (call (writeCompleteCallback cbs)) \<and> keeps_conn_ok v (call (closeCallback_conn cbs)) \<and>
     (\<forall>g n. highWaterMarkCallback cbs = Some g \<longrightarrow> keeps_conn_ok v (g n))"

lemma keeps_conn_okD: "keeps_conn_ok v f \<Longrightarrow> conn_ok v b s \<Longrightarrow> f s = Inr s' \<Longrightarrow> conn_ok v b s'"
  by (auto simp: keeps_conn_ok_def)

lemma conn_ok_same: "conn_ok v b s \<Longrightarrow> conn_inv v s' \<Longrightarrow> same_conn v s s' \<Longrightarrow> conn_ok v b s'"
  by (auto simp: conn_ok_def same_conn_def)

lemma conn_ok_inv [simp]: "conn_ok v b s \<Longrightarrow> conn_inv v s"
  by (simp add: conn_ok_def)

lemma setState_loop [simp]: "rx_loop (setState st s) = rx_loop s" "rx_kern (setState st s) = rx_kern s"
  "cs_conn (setState st s) = (cs_conn s)\<lparr>cn_state := st\<rparr>" "rx_pk (setState st s) = rx_pk s"
  by (simp_all add: setState_def rx_pk_def)

text \<open>Entering \<open>kDisconnected\<close> and taking the channel's interest away belong together.\<close>

lemma close_channel:
  assumes ok: "os_ok os v" and pre: "conn_ok v b s"
    and run: "on_channel (disableAll os) (setState kDisconnected s) = Inr s'"
  shows "conn_ok v b s'" "cn_state (cs_conn s') = kDisconnected" "outgoing v s' = outgoing v s"
    "isNoneEvent (cn_channel (cs_conn s'))"
proof -
  let ?s = "setState kDisconnected s"
  note D = conn_invD [OF conn_ok_inv [OF pre]] and upd = mask_updates(5) [THEN fun_cong]
  have reg: "registered v (rx_pk ?s) (cn_channel (cs_conn ?s))" using D(3) by simp
  note m = mask_conn [OF ok reg upd run]
  have none: "chan_events (clear_all ch) = kNoneEvent" for ch by (simp add: channel_simps)
  have "conn_inv v s'"
    by (rule conn_inv_mask [OF ok _ _ reg _ _ upd _ _ run]) (use D none in auto)
  moreover have "b \<noteq> None \<longrightarrow> b = Some (lp_callingPendingFunctors (rx_loop s'))" "b = Some True \<longrightarrow> no_lost_wakeup v s'"
    using m(1) pre by (auto simp: same_conn_def conn_ok_def no_lost_wakeup_def)
  ultimately show "conn_ok v b s'" by (simp add: conn_ok_def)
  show "cn_state (cs_conn s') = kDisconnected" using m(1) by (simp add: same_conn_def)
  show "outgoing v s' = outgoing v s" using m(2) by (simp add: outgoing_def)
  show "isNoneEvent (cn_channel (cs_conn s'))" using m(5) none by (simp add: isNoneEvent_def)
qed

lemma handleClose_keeps:
  assumes "os_ok os v" and "callbacks_ok v cbs" and "conn_ok v b s" and "handleClose os cbs s = Inr s'"
  shows "conn_ok v b s'"
  using assms(2,4) close_channel(1) [OF assms(1,3)]
  by (auto simp: handleClose_def callbacks_ok_def elim!: res_bindE dest: keeps_conn_okD)

lemma removed_channel_keeps:
  assumes ok: "os_ok os v" and pre: "conn_ok v b s" and run: "on_channel (chan_remove os) s = Inr s'"
  shows "conn_ok v b s'" "chan_index (cn_channel (cs_conn s')) = kNew"
proof -
  note D = conn_invD [OF conn_ok_inv [OF pre]]
  obtain p k where r: "loop_removeChannel os (cn_channel (cs_conn s)) s =
      Inr (set_index kNew (cn_channel (cs_conn s)), s\<lparr>rx_loop := (rx_loop s)\<lparr>lp_poller := p\<rparr>, rx_kern := k\<rparr>)"
    and reg: "registered v (p, k) (set_index kNew (cn_channel (cs_conn s)))"
    and kept: "others_kept v (rx_pk s) (p, k) (chan_fd (cn_channel (cs_conn s)))"
    using loop_remove_registered [OF ok D(3)] by blast
  have s': "s' = s\<lparr>rx_loop := (rx_loop s)\<lparr>lp_poller := p\<rparr>, rx_kern := k,
      cs_conn := (cs_conn s)\<lparr>cn_channel := set_index kNew (cn_channel (cs_conn s))\<rparr>\<rparr>"
    using run r by (simp add: on_channel_def chan_remove_def)
  show "chan_index (cn_channel (cs_conn s')) = kNew" by (simp add: s' set_index_def)
  have "conn_inv v s'"
    using conn_ok_inv [OF pre] reg by (simp add: conn_inv_def s' rx_pk_def) (simp add: set_index_def)
  moreover have "no_lost_wakeup v s' = no_lost_wakeup v s"
    using others_kept_views(2) [OF kept] by (simp add: s' no_lost_wakeup_def)
  ultimately show "conn_ok v b s'" using pre by (simp add: conn_ok_def s')
qed

lemma connectDestroyed_keeps:
  assumes "os_ok os v" and "callbacks_ok v cbs" and "conn_ok v b s" and "connectDestroyed os cbs s = Inr s'"
  shows "conn_ok v b s'" "chan_index (cn_channel (cs_conn s')) = kNew"
proof -
  obtain s1 where s1: "conn_ok v b s1" and run: "on_channel (chan_remove os) s1 = Inr s'"
    using assms(2,4) close_channel(1) [OF assms(1,3)] assms(3)
    by (auto simp: connectDestroyed_def callbacks_ok_def split: if_splits elim!: res_bindE dest: keeps_conn_okD)
  show "conn_ok v b s'" "chan_index (cn_channel (cs_conn s')) = kNew"
    using removed_channel_keeps [OF assms(1) s1 run] by simp_all
qed

text \<open>What a fresh or idle connection is when its connection callback is first called.\<close>

lemma established_before_callback:
  assumes ok: "os_ok os v" and pre: "conn_inv v s" and st: "cn_state (cs_conn s) \<noteq> kDisconnected"
    and s2: "s2 = (setState kConnected s)\<lparr>cs_conn := (cs_conn (setState kConnected s))
        \<lparr>cn_channel := tie (cn_id (cs_conn s)) (cn_channel (cs_conn s))\<rparr>\<rparr>"
    and run: "on_channel (enableReading os) s2 = Inr s'"
  shows "conn_inv v s'" "same_conn v s2 s'" "cn_state (cs_conn s') = kConnected"
    "isReading (cn_channel (cs_conn s'))" "chan_index (cn_channel (cs_conn s')) = kAdded"
    "chan_tied (cn_channel (cs_conn s')) \<and> chan_tie (cn_channel (cs_conn s')) = Some (cn_id (cs_conn s'))"
proof -
  note D = conn_invD [OF pre] and upd = mask_updates(1) [THEN fun_cong]
  have reg: "registered v (rx_pk s2) (cn_channel (cs_conn s2))"
    using D(3) by (simp add: s2 rx_pk_def tie_def registered_def)
  note m = mask_conn [OF ok reg upd run]
  have w: "bit (chan_events (cn_channel (cs_conn s))) 2 \<longleftrightarrow> contents (cn_outputBuffer (cs_conn s)) \<noteq> []"
    using D(6) [OF st] by (simp add: isWriting_bit)
  show "conn_inv v s'"
    by (rule conn_inv_mask [OF ok _ _ reg _ _ upd _ _ run]) (use D w in \<open>auto simp: s2 tie_def\<close>)
  show "same_conn v s2 s'" by (rule m(1))
  then show "cn_state (cs_conn s') = kConnected" by (simp add: same_conn_def s2)
  have "isReading (set_reading (cn_channel (cs_conn s2)))" by simp
  then show "isReading (cn_channel (cs_conn s'))" unfolding isReading_def m(5) .
  have "chan_events (set_reading ch) \<noteq> kNoneEvent" for ch
    using isNoneEvent_updates(3) [of ch] by (simp add: isNoneEvent_def)
  then show "chan_index (cn_channel (cs_conn s')) = kAdded" using m(7) by simp
  show "chan_tied (cn_channel (cs_conn s')) \<and> chan_tie (cn_channel (cs_conn s')) = Some (cn_id (cs_conn s'))"
    using m(1,11) by (simp add: s2 tie_def same_conn_def)
qed

lemma connectEstablished_keeps:
  assumes ok: "os_ok os v" and cbs: "callbacks_ok v cbs" and pre: "conn_ok v b s"
    and st: "cn_state (cs_conn s) \<noteq> kDisconnected" and run: "connectEstablished os cbs s = Inr s'"
  shows "conn_ok v b s'"
proof -
  define s2 where "s2 = (setState kConnected s)\<lparr>cs_conn := (cs_conn (setState kConnected s))
      \<lparr>cn_channel := tie (cn_id (cs_conn s)) (cn_channel (cs_conn s))\<rparr>\<rparr>"
  obtain s1 where en: "on_channel (enableReading os) s2 = Inr s1" and cb: "call (connectionCallback cbs) s1 = Inr s'"
    using run by (auto simp: connectEstablished_def s2_def elim!: res_bindE)
  note e = established_before_callback [OF ok conn_ok_inv [OF pre] st s2_def en]
  have "conn_ok v b s1" using e(1,2) pre by (auto simp: conn_ok_def same_conn_def s2_def no_lost_wakeup_def)
  with cb cbs show ?thesis by (auto simp: callbacks_ok_def dest: keeps_conn_okD)
qed

text \<open>Reading: the bytes go to the input buffer, then the message callback or the closing runs.\<close>

lemma handleRead_eq:
  assumes ok: "os_ok os v" and inv: "conn_inv v s"
    and rd: "os_readv os (cn_sockfd (cs_conn s)) (readFd_blocks (cn_inputBuffer (cs_conn s))) (rx_kern s) = (r, k)"
  shows "case r of
      Inl e \<Rightarrow> handleRead os cbs s = Inr (s\<lparr>rx_kern := snd (os_getsockopt os (cn_sockfd (cs_conn s)) k)\<rparr>)
    | Inr ds \<Rightarrow>
        (handleRead os cbs s = Inl Length_Error \<and>
           vector_max < length (buffer_vec (cn_inputBuffer (cs_conn s))) + extrabuf_size) \<or>
        (\<exists>b. wf_buffer b \<and> contents b = contents (cn_inputBuffer (cs_conn s)) @ ds \<and>
           handleRead os cbs s =
             (if ds = [] then handleClose os cbs else call (messageCallback cbs))
               (s\<lparr>rx_kern := k, cs_conn := (cs_conn s)\<lparr>cn_inputBuffer := b\<rparr>\<rparr>))"
proof -
  let ?c = "cs_conn s" and ?b = "cn_inputBuffer (cs_conn s)"
  note D = conn_invD [OF inv]
  have eq: "handleRead os cbs s = res_bind (readFd (\<lambda>_. r) ?b) (\<lambda>(n, savedErrno, b).
      let s1 = s\<lparr>rx_kern := k, cs_conn := ?c\<lparr>cn_inputBuffer := b\<rparr>\<rparr> in
      if 0 < n then call (messageCallback cbs) s1 else if n = 0 then handleClose os cbs s1 else handleError os s1)"
    using rd D(4) by (simp add: handleRead_def Let_def)
  show ?thesis
  proof (cases r)
    case (Inl e)
    then have "readFd (\<lambda>_. r) ?b = Inr (-1, Some e, ?b)" by (simp add: readFd_def)
    with Inl D(4) show ?thesis by (simp add: eq handleError_def split: prod.splits)
  next
    case (Inr ds)
    define readv where "readv = (\<lambda>iov. if iov = readFd_blocks ?b then r else Inr [])"
    have "readv_ok readv"
      using readv_views(5) [OF ok rd Inr] Inr by (auto simp: readv_ok_def readv_def split: if_splits)
    moreover have "readv (readFd_blocks ?b) = Inr ds" by (simp add: readv_def Inr)
    moreover have "readFd readv ?b = readFd (\<lambda>_. r) ?b" by (simp add: readFd_def readv_def)
    ultimately have "(readFd (\<lambda>_. r) ?b = Inl Length_Error \<and> vector_max < length (buffer_vec ?b) + extrabuf_size) \<or>
      (\<exists>b'. readFd (\<lambda>_. r) ?b = Inr (int (length ds), None, b') \<and> wf_buffer b' \<and> contents b' = contents ?b @ ds)"
      using readFd_cases [OF D(1), of readv ds] by simp
    then show ?thesis
    proof (elim disjE conjE exE)
      fix b' assume b': "readFd (\<lambda>_. r) ?b = Inr (int (length ds), None, b')" "wf_buffer b'"
        "contents b' = contents ?b @ ds"
      then have "handleRead os cbs s = (if ds = [] then handleClose os cbs else call (messageCallback cbs))
          (s\<lparr>rx_kern := k, cs_conn := ?c\<lparr>cn_inputBuffer := b'\<rparr>\<rparr>)" by (simp add: eq)
      with b' Inr show ?thesis by auto
    qed (simp add: eq Inr)
  qed
qed

lemma conn_ok_read:
  assumes "os_ok os v" and "conn_ok v b s" and "os_readv os fd iov (rx_kern s) = (r, k)" and "wf_buffer inb"
  shows "conn_ok v b (s\<lparr>rx_kern := k, cs_conn := (cs_conn s)\<lparr>cn_inputBuffer := inb\<rparr>\<rparr>)"
  using assms(2,4) readv_views [OF assms(1,3)] registered_interest [OF readv_views(1) [OF assms(1,3)]]
  by (auto simp: conn_ok_def conn_inv_def rx_pk_def no_lost_wakeup_def)

lemma handleError_keeps:
  assumes "os_ok os v" and "conn_ok v b s" and "handleError os s = Inr s'"
  shows "conn_ok v b s'"
proof -
  have s': "s' = s\<lparr>rx_kern := snd (os_getsockopt os (chan_fd (cn_channel (cs_conn s))) (rx_kern s))\<rparr>"
    using assms(3) by (auto simp: handleError_def split: prod.splits)
  show ?thesis using assms(2) registered_interest [OF getsockopt_views(1) [OF assms(1)]] unfolding s'
    by (auto simp: conn_ok_def conn_inv_def rx_pk_def no_lost_wakeup_def getsockopt_views [OF assms(1)])
qed

lemma handleRead_keeps:
  assumes ok: "os_ok os v" and cbs: "callbacks_ok v cbs" and pre: "conn_ok v b s"
    and run: "handleRead os cbs s = Inr s'"
  shows "conn_ok v b s'"
proof -
  obtain r k where rd: "os_readv os (cn_sockfd (cs_conn s)) (readFd_blocks (cn_inputBuffer (cs_conn s)))
      (rx_kern s) = (r, k)" by fastforce
  note read = conn_ok_read [OF ok pre rd] and eq = handleRead_eq [OF ok conn_ok_inv [OF pre] rd, of cbs]
  show ?thesis
  proof (cases r)
    case (Inl e)
    let ?s = "s\<lparr>rx_kern := k, cs_conn := (cs_conn s)\<lparr>cn_inputBuffer := cn_inputBuffer (cs_conn s)\<rparr>\<rparr>"
    have "handleError os ?s = Inr s'"
      using eq run Inl conn_invD(4) [OF conn_ok_inv [OF pre]] by (simp add: handleError_def split: prod.splits)
    then show ?thesis by (rule handleError_keeps [OF ok read [OF conn_invD(1) [OF conn_ok_inv [OF pre]]]])
  next
    case (Inr ds)
    then obtain inb where inb: "wf_buffer inb" and e: "handleRead os cbs s =
        (if ds = [] then handleClose os cbs else call (messageCallback cbs))
          (s\<lparr>rx_kern := k, cs_conn := (cs_conn s)\<lparr>cn_inputBuffer := inb\<rparr>\<rparr>)"
      using eq run by auto
    show ?thesis
      using run e handleClose_keeps [OF ok cbs read [OF inb]] cbs read [OF inb]
      by (cases "ds = []") (auto simp: callbacks_ok_def dest: keeps_conn_okD)
  qed
qed

lemma handleWrite_ok:
  assumes "os_ok os v" and "conn_ok v b s" and "handleWrite os cbs tid s = Inr s'"
  shows "conn_ok v b s'"
proof (cases "cn_state (cs_conn s) = kDisconnected")
  case True
  then have "\<not> isWriting (cn_channel (cs_conn s))"
    using conn_invD(7) [OF conn_ok_inv [OF assms(2)]] by (simp add: isWriting_def kNoneEvent_def)
  with assms(2,3) show ?thesis by (simp add: handleWrite_def)
next
  case False
  with handleWrite_keeps [OF assms(1) conn_ok_inv [OF assms(2)] _ assms(3)] assms(2)
  show ?thesis by (auto intro: conn_ok_same)
qed

lemma run_callback_keeps:
  assumes "os_ok os v" and "callbacks_ok v cbs" and "conn_ok v b s" and "run_callback os cbs tid f s = Inr s'"
  shows "conn_ok v b s'"
  using assms handleRead_keeps [OF assms(1-3)] handleWrite_ok [OF assms(1,3)] handleClose_keeps [OF assms(1-3)]
    handleError_keeps [OF assms(1,3)]
  by (cases f) (auto simp: run_callback_def)

section \<open>The closures of a connection as the loop's work\<close>

text \<open>Texts another thread handed to \<open>send\<close> are no longer than a string can be.\<close>

definition mem_ok :: "(nat \<Rightarrow> nat \<Rightarrow> bytes option) \<Rightarrow> bool" where
  "mem_ok mem \<longleftrightarrow> (\<forall>p n ds. mem p n = Some ds \<longrightarrow> length ds \<le> vector_max)"

text \<open>\<open>TcpServer\<close> queues \<open>connectEstablished\<close> once, for a new connection and before any other closure of it:
  in the closures still to run it comes at most once, while the connection is still connecting and behind
  nothing but closures that do not concern the connection.\<close>

fun conn_allowed :: "closure list \<Rightarrow> StateE \<Rightarrow> bool" where
  "conn_allowed [] st = True"
| "conn_allowed (f # fs) st =
     (case f of
        Fn_connectEstablished i \<Rightarrow> st = kConnecting \<and> (\<forall>i. Fn_connectEstablished i \<notin> set fs)
      | Fn_removeConnectionInLoop i \<Rightarrow> conn_allowed fs st
      | Fn_listen \<Rightarrow> conn_allowed fs st
      | Fn_user n \<Rightarrow> conn_allowed fs st
      | _ \<Rightarrow> (\<forall>i. Fn_connectEstablished i \<notin> set fs))"

definition conn_work ::
    "('k, 'a) conn_state_scheme conn_callbacks \<times> int \<times> (nat \<Rightarrow> nat \<Rightarrow> bytes option) \<Rightarrow> 'k os \<Rightarrow> closure \<Rightarrow>
     ('k, 'a) conn_state_scheme \<Rightarrow> ('k, 'a) conn_state_scheme res" where
  "conn_work c os f = (case c of (cbs, tid, mem) \<Rightarrow> conn_exec os cbs tid mem f)"

definition conn_keeps ::
    "('k, 'a) conn_state_scheme conn_callbacks \<times> int \<times> (nat \<Rightarrow> nat \<Rightarrow> bytes option) \<Rightarrow> 'k view \<Rightarrow>
     ('k, 'a) conn_state_scheme \<Rightarrow> bool" where
  "conn_keeps c v s = (case c of (cbs, tid, mem) \<Rightarrow> callbacks_ok v cbs \<and> mem_ok mem \<and> conn_inv v s)"

lemma shutdownInLoop_ok:
  assumes "os_ok os v" and "conn_ok v b s"
  shows "conn_ok v b (shutdownInLoop os s)"
  using assms shutdownWrite_keeps [OF assms(1) conn_ok_inv [OF assms(2)]]
  by (auto simp: shutdownInLoop_def intro: conn_ok_same)

lemma sendInLoop_ok:
  assumes "os_ok os v" and "conn_ok v b s" and "length data \<le> vector_max"
    and "sendInLoop os cbs tid data s = Inr s'"
  shows "conn_ok v b s'"
  using sendInLoop_keeps [OF assms(1) conn_ok_inv [OF assms(2)] assms(3,4)] assms(2)
  by (auto intro: conn_ok_same)

lemma conn_allowed_others: "(\<And>i. Fn_connectEstablished i \<notin> set fs) \<Longrightarrow> conn_allowed fs st"
  by (induction fs) (auto split: closure.splits)

lemma conn_exec_keeps:
  assumes ok: "os_ok os v" and cbs: "callbacks_ok v cbs" and mem: "mem_ok mem" and pre: "conn_ok v b s"
    and f: "conn_allowed (f # fs) (cn_state (cs_conn s))" and run: "conn_exec os cbs tid mem f s = Inr s'"
  shows "conn_ok v b s' \<and> conn_allowed fs (cn_state (cs_conn s'))"
proof (cases f)
  case (Fn_connectEstablished i)
  with f have "cn_state (cs_conn s) \<noteq> kDisconnected" "conn_allowed fs (cn_state (cs_conn s'))"
    using conn_allowed_others [of fs] by auto
  with run connectEstablished_keeps [OF ok cbs pre] Fn_connectEstablished show ?thesis by (simp add: conn_exec_def)
next
  case (Fn_connectDestroyed i)
  with run f connectDestroyed_keeps(1) [OF ok cbs pre] conn_allowed_others [of fs] show ?thesis by (simp add: conn_exec_def)
next
  case (Fn_sendInLoop i p n)
  with run obtain ds where "mem p n = Some ds" "sendInLoop os cbs tid ds s = Inr s'"
    by (auto simp: conn_exec_def split: option.splits)
  moreover have "length ds \<le> vector_max" using mem \<open>mem p n = Some ds\<close> by (simp add: mem_ok_def)
  ultimately show ?thesis using sendInLoop_ok [OF ok pre] f conn_allowed_others [of fs] Fn_sendInLoop by simp
next
  case (Fn_shutdownInLoop i)
  with run f shutdownInLoop_ok [OF ok pre] conn_allowed_others [of fs] show ?thesis by (auto simp: conn_exec_def)
next
  case (Fn_writeComplete i)
  with run f cbs pre conn_allowed_others [of fs] show ?thesis by (auto simp: conn_exec_def callbacks_ok_def dest: keeps_conn_okD)
next
  case (Fn_highWaterMark i n)
  with run f cbs pre conn_allowed_others [of fs] show ?thesis
    by (auto simp: conn_exec_def callbacks_ok_def split: option.splits dest: keeps_conn_okD)
qed (use run pre f in \<open>auto simp: conn_exec_def\<close>)

interpretation conn_loop: loop_work os_ok "\<lambda>fs s. conn_allowed fs (cn_state (cs_conn s))" conn_work conn_keeps
proof (unfold_locales, goal_cases)
  case (1 os v c r f fs r')
  obtain cbs tid mem where c: "c = (cbs, tid, mem)" by (metis prod_cases3)
  have "conn_ok v (Some True) r' \<and> conn_allowed fs (cn_state (cs_conn r'))"
    using 1 conn_exec_keeps [of os v cbs mem "Some True" r f fs tid r'] by (simp add: c conn_keeps_def conn_work_def conn_ok_def)
  then show ?case using 1(2) by (simp add: c conn_keeps_def conn_ok_def)
qed (simp_all add: conn_keeps_def conn_inv_def rx_pk_def split: prod.splits)

section \<open>Back pressure\<close>

text \<open>The notifications a send queues: completion when the kernel took everything at once, the
  high-water mark when the backlog crosses it.\<close>

lemma send_rest_queues:
  assumes ok: "os_ok os v" and inv: "conn_inv v s"
    and snd: "send_rest os cbs tid data nwrote remaining fe s = Inr s'"
  shows "wr_shut v (rx_kern s') = wr_shut v (rx_kern s)"
    "lp_pendingFunctors (rx_loop s') = lp_pendingFunctors (rx_loop s) @
      (let old = readableBytes (cn_outputBuffer (cs_conn s)); mark = cn_highWaterMark (cs_conn s) in
       if \<not> fe \<and> 0 < remaining \<and> mark \<le> size_add old remaining \<and> old < mark \<and> highWaterMarkCallback cbs \<noteq> None
       then [Fn_highWaterMark (cn_id (cs_conn s)) (size_add old remaining)] else [])"
proof -
  let ?q = "if \<not> fe \<and> 0 < remaining \<and> crosses_mark cbs remaining (cs_conn s)
    then [Fn_highWaterMark (cn_id (cs_conn s)) (size_add (readableBytes (cn_outputBuffer (cs_conn s))) remaining)] else []"
  have "wr_shut v (rx_kern s') = wr_shut v (rx_kern s) \<and> lp_pendingFunctors (rx_loop s') = lp_pendingFunctors (rx_loop s) @ ?q"
  proof (cases "\<not> fe \<and> 0 < remaining")
    case False
    then have "s' = s" using snd by (auto simp: send_rest_def)
    then show ?thesis using False by auto
  next
    case True
    let ?s1 = "mark_notice os cbs tid remaining s"
    have s1: "conn_inv v ?s1" "wr_shut v (rx_kern ?s1) = wr_shut v (rx_kern s)"
      "lp_pendingFunctors (rx_loop ?s1) = lp_pendingFunctors (rx_loop s) @ ?q"
      using conn_inv_queueInLoop(1) [OF ok inv] inv queueInLoop_views(2) [OF ok, of tid _ s] True by (auto simp: mark_notice_def)
    have "send_rest os cbs tid data nwrote remaining False s = Inr s'" using snd True by simp
    then obtain b where rest: "if isWriting (cn_channel (cs_conn s)) then s' = ?s1\<lparr>cs_conn := (cs_conn s)\<lparr>cn_outputBuffer := b\<rparr>\<rparr>
        else on_channel (enableWriting os) (?s1\<lparr>cs_conn := (cs_conn s)\<lparr>cn_outputBuffer := b\<rparr>\<rparr>) = Inr s'"
      using True by (elim send_rest_shape) auto
    define s2 where "s2 = ?s1\<lparr>cs_conn := (cs_conn s)\<lparr>cn_outputBuffer := b\<rparr>\<rparr>"
    have reg: "registered v (rx_pk s2) (cn_channel (cs_conn s2))" using conn_invD(3) [OF s1(1)] by (simp add: s2_def rx_pk_def)
    have "wr_shut v (rx_kern s') = wr_shut v (rx_kern s2) \<and> lp_pendingFunctors (rx_loop s') = lp_pendingFunctors (rx_loop s2)"
    proof (cases "isWriting (cn_channel (cs_conn s))")
      case False
      then have en: "on_channel (enableWriting os) s2 = Inr s'" using rest by (simp add: s2_def)
      show ?thesis using mask_conn(3,9) [OF ok reg mask_updates(3) [THEN fun_cong] en] by blast
    qed (use rest in \<open>simp add: s2_def\<close>)
    then show ?thesis using s1(2,3) by (simp add: s2_def)
  qed
  then show "wr_shut v (rx_kern s') = wr_shut v (rx_kern s)"
    "lp_pendingFunctors (rx_loop s') = lp_pendingFunctors (rx_loop s) @
      (let old = readableBytes (cn_outputBuffer (cs_conn s)); mark = cn_highWaterMark (cs_conn s) in
       if \<not> fe \<and> 0 < remaining \<and> mark \<le> size_add old remaining \<and> old < mark \<and> highWaterMarkCallback cbs \<noteq> None
       then [Fn_highWaterMark (cn_id (cs_conn s)) (size_add old remaining)] else [])"
    by (simp_all add: crosses_mark_def Let_def)
qed

lemma sendInLoop_wr_shut:
  assumes ok: "os_ok os v" and inv: "conn_inv v s" and snd: "sendInLoop os cbs tid data s = Inr s'"
  shows "wr_shut v (rx_kern s') = wr_shut v (rx_kern s)"
proof (cases "os_write os (chan_fd (cn_channel (cs_conn s))) data (rx_kern s)")
  case (Pair r k)
  let ?k = "s\<lparr>rx_kern := k\<rparr>"
  note invk = conn_inv_write [OF ok inv Pair]
  note invq = conn_inv_queueInLoop(1) [OF ok invk]
  have k: "wr_shut v (rx_kern ?k) = wr_shut v (rx_kern s)" using write_views(2) [OF ok Pair] by simp
  have q: "wr_shut v (rx_kern (queueInLoop os tid f ?k)) = wr_shut v (rx_kern s)" for f
    using queueInLoop_views(2) [OF ok, of tid f ?k] k by simp
  show ?thesis
    using snd send_rest_queues(1) [OF ok inv] send_rest_queues(1) [OF ok invk] send_rest_queues(1) [OF ok invq]
      k q Pair
    by (cases "cn_state (cs_conn s) = kDisconnected"; cases r)
      (auto simp: sendInLoop_def Let_def split: if_splits)
qed

section \<open>Runs of a connection in its loop thread\<close>

datatype conn_ev = Ev_send bytes | Ev_writable | Ev_shutdown

fun conn_ev_step ::
    "'k os \<Rightarrow> ('k, 'a) conn_state_scheme conn_callbacks \<Rightarrow> int \<Rightarrow> conn_ev \<Rightarrow>
     ('k, 'a) conn_state_scheme \<Rightarrow> ('k, 'a) conn_state_scheme res" where
  "conn_ev_step os cbs tid (Ev_send ds) s = send os cbs tid 0 ds s"
| "conn_ev_step os cbs tid Ev_writable s = handleWrite os cbs tid s"
| "conn_ev_step os cbs tid Ev_shutdown s = Inr (shutdown os tid s)"

text \<open>
  A direct write that the kernel answers with \<open>EPIPE\<close> or \<open>ECONNRESET\<close>: \<open>sendInLoop\<close> drops the text. The
  bytes of a run that become part of the stream: those of the sends before the first shutdown, without
  the texts dropped in this way.
\<close>

definition write_reset :: "'k os \<Rightarrow> bytes \<Rightarrow> ('k, 'a) conn_state_scheme \<Rightarrow> bool" where
  "write_reset os ds s \<longleftrightarrow> contents (cn_outputBuffer (cs_conn s)) = [] \<and>
     fst (os_write os (cn_sockfd (cs_conn s)) ds (rx_kern s)) \<in> {Inl EPIPE, Inl ECONNRESET}"

fun sends ::
    "'k os \<Rightarrow> ('k, 'a) conn_state_scheme conn_callbacks \<Rightarrow> int \<Rightarrow> conn_ev list \<Rightarrow> ('k, 'a) conn_state_scheme \<Rightarrow> bytes" where
  "sends os cbs tid [] s = []"
| "sends os cbs tid (Ev_shutdown # es) s = []"
| "sends os cbs tid (ev # es) s =
     (case ev of Ev_send ds \<Rightarrow> if write_reset os ds s then [] else ds | _ \<Rightarrow> []) @
     (case conn_ev_step os cbs tid ev s of Inl e \<Rightarrow> [] | Inr t \<Rightarrow> sends os cbs tid es t)"

fun ev_fits :: "conn_ev \<Rightarrow> bool" where
  "ev_fits (Ev_send ds) = (length ds \<le> vector_max)"
| "ev_fits _ = True"

definition run_inv :: "'k view \<Rightarrow> int \<Rightarrow> ('k, 'a) conn_state_scheme \<Rightarrow> bool" where
  "run_inv v tid s \<longleftrightarrow>
     conn_inv v s \<and> cn_state (cs_conn s) \<in> {kConnected, kDisconnecting} \<and> isInLoopThread tid (rx_loop s) \<and>
     (wr_shut v (rx_kern s) (cn_sockfd (cs_conn s)) \<longrightarrow>
        cn_state (cs_conn s) = kDisconnecting \<and> contents (cn_outputBuffer (cs_conn s)) = [])"

lemma run_inv_same:
  assumes "run_inv v tid s" and "conn_inv v s'" and "same_conn v s s'"
    and "half_closed v s s' \<Longrightarrow> cn_state (cs_conn s) = kDisconnecting \<and> contents (cn_outputBuffer (cs_conn s')) = []"
    and "wr_shut v (rx_kern s) (cn_sockfd (cs_conn s)) \<Longrightarrow> contents (cn_outputBuffer (cs_conn s')) = []"
  shows "run_inv v tid s'"
  using assms by (auto simp: run_inv_def same_conn_def isInLoopThread_def half_closed_def)

lemma send_step:
  assumes ok: "os_ok os v" and inv: "run_inv v tid s" and len: "length ds \<le> vector_max"
    and run: "send os cbs tid 0 ds s = Inr s'"
  shows "run_inv v tid s' \<and> same_conn v s s' \<and>
    outgoing v s' = outgoing v s @ (if cn_state (cs_conn s) = kConnected \<and> \<not> write_reset os ds s then ds else [])"
proof (cases "cn_state (cs_conn s) = kConnected")
  case False
  with run inv show ?thesis by (simp add: send_def)
next
  case True
  have c: "conn_inv v s" and t: "isInLoopThread tid (rx_loop s)" using inv by (simp_all add: run_inv_def)
  have snd: "sendInLoop os cbs tid ds s = Inr s'" using run True t by (simp add: send_def)
  from sendInLoop_keeps [OF ok c len snd] True
  have k: "conn_inv v s'" "same_conn v s s'" "outgoing v s' = outgoing v s @ (if write_reset os ds s then [] else ds)"
    by (auto simp: write_reset_def)
  have "run_inv v tid s'"
    using True inv sendInLoop_wr_shut [OF ok c snd]
    by (intro run_inv_same [OF inv k(1,2)]) (auto simp: half_closed_def run_inv_def)
  with k True show ?thesis by simp
qed

lemma writable_step:
  assumes ok: "os_ok os v" and inv: "run_inv v tid s" and run: "handleWrite os cbs tid s = Inr s'"
  shows "run_inv v tid s' \<and> same_conn v s s' \<and> outgoing v s' = outgoing v s"
proof -
  have c: "conn_inv v s" and st: "cn_state (cs_conn s) \<noteq> kDisconnected" using inv by (auto simp: run_inv_def)
  note k = handleWrite_keeps [OF ok c st run]
  have "s' = s" if "wr_shut v (rx_kern s) (cn_sockfd (cs_conn s))"
    using that inv run conn_invD(6) [OF c st] by (simp add: run_inv_def handleWrite_def)
  then have "run_inv v tid s'"
    using k inv by (intro run_inv_same [OF inv]) (auto simp: run_inv_def)
  with k show ?thesis by simp
qed

lemma shutdown_step:
  assumes ok: "os_ok os v" and inv: "run_inv v tid s"
  shows "run_inv v tid (shutdown os tid s) \<and> cn_state (cs_conn (shutdown os tid s)) = kDisconnecting \<and>
    cn_sockfd (cs_conn (shutdown os tid s)) = cn_sockfd (cs_conn s) \<and>
    outgoing v (shutdown os tid s) = outgoing v s"
proof -
  have c: "conn_inv v s" using inv by (simp add: run_inv_def)
  note k = shutdown_keeps [OF ok c, of tid]
  have t: "isInLoopThread tid (rx_loop (shutdown os tid s))"
    using inv by (auto simp: run_inv_def shutdown_def shutdownInLoop_def shutdownWrite_def Let_def isInLoopThread_def
        split: prod.splits)
  have "wr_shut v (rx_kern (shutdown os tid s)) (cn_sockfd (cs_conn s)) \<Longrightarrow> contents (cn_outputBuffer (cs_conn s)) = []"
    using k(3) inv by (auto simp: half_closed_def run_inv_def)
  then show ?thesis using k(1,2,4) t inv by (auto simp: run_inv_def)
qed

lemma conn_ev_step_fault:
  assumes "os_ok os v" and "run_inv v tid s" and "ev_fits ev" and "conn_ev_step os cbs tid ev s = Inl e"
  shows "e = Fatal_Exit \<or> e = Length_Error"
  using assms
  by (cases ev) (auto simp: run_inv_def send_def split: if_splits dest: sendInLoop_fault handleWrite_fault)

lemma run_after_shutdown:
  assumes ok: "os_ok os v" and "run_inv v tid s" and "cn_state (cs_conn s) = kDisconnecting"
    and "\<forall>ev \<in> set evs. ev_fits ev" and "fold_res (conn_ev_step os cbs tid) evs s = Inr s'"
  shows "run_inv v tid s' \<and> cn_sockfd (cs_conn s') = cn_sockfd (cs_conn s) \<and> outgoing v s' = outgoing v s"
  using assms(2-)
proof (induction evs arbitrary: s)
  case Nil
  then show ?case by simp
next
  case (Cons ev evs)
  obtain t where t: "conn_ev_step os cbs tid ev s = Inr t" "fold_res (conn_ev_step os cbs tid) evs t = Inr s'"
    using Cons.prems(4) by (auto elim: res_bindE)
  have "run_inv v tid t \<and> cn_state (cs_conn t) = kDisconnecting \<and>
      cn_sockfd (cs_conn t) = cn_sockfd (cs_conn s) \<and> outgoing v t = outgoing v s"
    using Cons.prems(1-3) t(1) shutdown_step [OF ok Cons.prems(1)]
    by (cases ev) (auto simp: same_conn_def dest: send_step [OF ok] writable_step [OF ok])
  then show ?case using Cons.IH [OF _ _ _ t(2)] Cons.prems(3) by simp
qed

lemma run_stream:
  assumes ok: "os_ok os v" and "run_inv v tid s" and "cn_state (cs_conn s) = kConnected"
    and "\<forall>ev \<in> set evs. ev_fits ev" and "fold_res (conn_ev_step os cbs tid) evs s = Inr s'"
  shows "run_inv v tid s' \<and> cn_sockfd (cs_conn s') = cn_sockfd (cs_conn s) \<and> outgoing v s' = outgoing v s @ sends os cbs tid evs s"
  using assms(2-)
proof (induction evs arbitrary: s)
  case Nil
  then show ?case by simp
next
  case (Cons ev evs)
  obtain t where t: "conn_ev_step os cbs tid ev s = Inr t" "fold_res (conn_ev_step os cbs tid) evs t = Inr s'"
    using Cons.prems(4) by (auto elim: res_bindE)
  show ?case
  proof (cases "ev = Ev_shutdown")
    case True
    then have "t = shutdown os tid s" using t(1) by simp
    with True shutdown_step [OF ok Cons.prems(1)] run_after_shutdown [OF ok _ _ _ t(2)] Cons.prems(3)
    show ?thesis by simp
  next
    case False
    then have "run_inv v tid t \<and> cn_state (cs_conn t) = kConnected \<and> cn_sockfd (cs_conn t) = cn_sockfd (cs_conn s) \<and>
        outgoing v t @ sends os cbs tid evs t = outgoing v s @ sends os cbs tid (ev # evs) s"
      using Cons.prems(1-3) t(1)
      by (cases ev) (auto simp: same_conn_def dest: send_step [OF ok] writable_step [OF ok])
    then show ?thesis using Cons.IH [OF _ _ _ t(2)] Cons.prems(3) by simp
  qed
qed

lemma run_fault:
  assumes ok: "os_ok os v" and "run_inv v tid s"
    and "\<forall>ev \<in> set evs. ev_fits ev" and "fold_res (conn_ev_step os cbs tid) evs s = Inl e"
  shows "e = Fatal_Exit \<or> e = Length_Error"
  using assms(2-)
proof (induction evs arbitrary: s)
  case Nil
  then show ?case by simp
next
  case (Cons ev evs)
  have step: "run_inv v tid t" if "conn_ev_step os cbs tid ev s = Inr t" for t
    using that Cons.prems(1,2) shutdown_step [OF ok Cons.prems(1)]
    by (cases ev) (auto dest: send_step [OF ok] writable_step [OF ok])
  from Cons.prems(3) show ?case
    using conn_ev_step_fault [OF ok Cons.prems(1)] Cons.prems(2) step Cons.IH by (auto simp: res_bind_eq_Inl)
qed

section \<open>A turn of the loop for one connection\<close>

lemma call_if_keeps:
  assumes "os_ok os v" and "callbacks_ok v cbs" and "conn_ok v b s"
    and "call_if (run_callback os cbs tid) c cb s = Inr s'"
  shows "conn_ok v b s'"
  using assms(3,4) run_callback_keeps [OF assms(1-3)] by (auto simp: call_if_def split: if_splits option.splits)

lemma handleEventWithGuard_keeps:
  assumes "os_ok os v" and "callbacks_ok v cbs" and "conn_ok v b s"
    and "handleEventWithGuard (run_callback os cbs tid) (\<lambda>s. cn_channel (cs_conn s)) s = Inr s'"
  shows "conn_ok v b s'"
  using assms(4) unfolding handleEventWithGuard_def
  by (elim res_bindE)
    (rule call_if_keeps [OF assms(1,2) call_if_keeps [OF assms(1,2) call_if_keeps [OF assms(1,2)
       call_if_keeps [OF assms(1-3)]]]], assumption+)

lemma handleEvent_keeps:
  assumes "os_ok os v" and "callbacks_ok v cbs" and "conn_ok v b s"
    and "handleEvent lock (run_callback os cbs tid) (\<lambda>s. cn_channel (cs_conn s)) s = Inr s'"
  shows "conn_ok v b s'"
  using assms(3,4) handleEventWithGuard_keeps [OF assms(1-3)]
  by (auto simp: handleEvent_def split: if_splits option.splits)

text \<open>Why the closure of a cross-thread \<open>send\<close> is fragile: it holds the address of the caller's text.\<close>

lemma send_other_thread_queues_address:
  assumes "cn_state (cs_conn s) = kConnected" and "\<not> isInLoopThread tid (rx_loop s)"
  shows "\<exists>s'. send os cbs tid sptr buf s = Inr s' \<and> lp_pendingFunctors (rx_loop s') =
      lp_pendingFunctors (rx_loop s) @ [Fn_sendInLoop (cn_id (cs_conn s)) sptr (length buf)] \<and>
    (mem sptr (length buf) = None \<longrightarrow>
       conn_exec os cbs tid' mem (Fn_sendInLoop (cn_id (cs_conn s)) sptr (length buf)) t = Inl Undefined_Behaviour)"
  using assms by (simp add: send_def conn_exec_def)

text \<open>The notification of a backlog that crosses the high-water mark.\<close>

definition mark_crossed :: "('k, 'a) conn_state_scheme conn_callbacks \<Rightarrow> tcp_connection \<Rightarrow> nat \<Rightarrow> closure list" where
  "mark_crossed cbs c added =
     (let old = length (contents (cn_outputBuffer c)) in
      if 0 < added \<and> old < cn_highWaterMark c \<and> cn_highWaterMark c \<le> old + added \<and> highWaterMarkCallback cbs \<noteq> None
      then [Fn_highWaterMark (cn_id c) (old + added)] else [])"

lemma send_rest_mark:
  assumes "os_ok os v" and "conn_inv v s" and "remaining \<le> vector_max"
    and "send_rest os cbs tid data nwrote remaining False s = Inr s'"
  shows "lp_pendingFunctors (rx_loop s') = lp_pendingFunctors (rx_loop s) @ mark_crossed cbs (cs_conn s) remaining"
proof -
  let ?b = "cn_outputBuffer (cs_conn s)"
  note D = conn_invD(2) [OF assms(2)]
  have "readableBytes ?b \<le> vector_max"
    using wf_bufferD [OF D] by (simp add: readableBytes_diff [OF D] vector_max_def)
  then have "size_add (readableBytes ?b) remaining = length (contents ?b) + remaining"
    using assms(3) by (simp add: size_add_small vector_max_def readableBytes_wf [OF D])
  moreover have "readableBytes ?b = length (contents ?b)" by (rule readableBytes_wf [OF D])
  ultimately show ?thesis
    unfolding send_rest_queues(2) [OF assms(1,2,4)] mark_crossed_def Let_def by auto
qed

lemma sendInLoop_queues:
  assumes ok: "os_ok os v" and inv: "conn_inv v s" and st: "cn_state (cs_conn s) \<noteq> kDisconnected"
    and len: "length data \<le> vector_max" and snd: "sendInLoop os cbs tid data s = Inr s'"
  shows "lp_pendingFunctors (rx_loop s') = lp_pendingFunctors (rx_loop s) @
    (case (if contents (cn_outputBuffer (cs_conn s)) = []
           then fst (os_write os (cn_sockfd (cs_conn s)) data (rx_kern s)) else Inl EWOULDBLOCK) of
       Inr n \<Rightarrow> (if n = length data \<and> writeCompleteCallback cbs \<noteq> None
                 then [Fn_writeComplete (cn_id (cs_conn s))] else []) @
                mark_crossed cbs (cs_conn s) (length data - n)
     | Inl e \<Rightarrow> if e = EPIPE \<or> e = ECONNRESET then [] else mark_crossed cbs (cs_conn s) (length data))"
  using ok inv st len snd
proof (cases rule: sendInLoop_shape)
  case backlog
  from send_rest_mark [OF ok inv len backlog(2)] backlog(1) show ?thesis
    by (simp add: EPIPE_def ECONNRESET_def EWOULDBLOCK_def)
next
  case (gone e k)
  then show ?thesis by simp
next
  case (full e k)
  from send_rest_mark [OF ok write_keeps(1) [OF ok inv full(2)] len full(4)] full show ?thesis by simp
next
  case (taken n k)
  let ?t = "if length data - n = 0 \<and> writeCompleteCallback cbs \<noteq> None
    then queueInLoop os tid (Fn_writeComplete (cn_id (cs_conn s))) (s\<lparr>rx_kern := k\<rparr>) else s\<lparr>rx_kern := k\<rparr>"
  note invk = write_keeps(1) [OF ok inv taken(2)]
  have t: "conn_inv v ?t" "cs_conn ?t = cs_conn s" "lp_pendingFunctors (rx_loop ?t) =
      lp_pendingFunctors (rx_loop s) @ (if n = length data \<and> writeCompleteCallback cbs \<noteq> None
        then [Fn_writeComplete (cn_id (cs_conn s))] else [])"
    using conn_inv_queueInLoop(1) [OF ok invk] invk taken(3) by auto
  from send_rest_mark [OF ok t(1) _ taken(4)] len t(2,3) taken(1,2) show ?thesis by simp
qed

section \<open>Properties\<close>

text \<open>An established connection on the small kernel, whose sockets take two bytes at a time.\<close>

definition sim_buffer :: buffer where
  "sim_buffer = \<lparr>buffer_vec = replicate 8 (CHR 0x00), readerIndex = 8, writerIndex = 8\<rparr>"

definition sim_tcp :: "StateE \<Rightarrow> tcp_connection" where
  "sim_tcp st = \<lparr>cn_id = 1, cn_name = ''c'', cn_state = st, cn_reading = True, cn_sockfd = 7,
     cn_channel = (Channel 1 7)\<lparr>readCallback := Some Conn_handleRead, writeCallback := Some Conn_handleWrite,
       closeCallback := Some Conn_handleClose, errorCallback := Some Conn_handleError\<rparr>,
     cn_localAddr = \<lparr>sin_family = 2, sin_port = 0, sin_addr = (127, 0, 0, 1)\<rparr>,
     cn_peerAddr = \<lparr>sin_family = 2, sin_port = 0, sin_addr = (127, 0, 0, 1)\<rparr>,
     cn_highWaterMark = 4, cn_inputBuffer = sim_buffer, cn_outputBuffer = sim_buffer\<rparr>"

definition sim_conn :: "StateE \<Rightarrow> kernel conn_state" where
  "sim_conn st = \<lparr>rx_loop = sim_loop, rx_kern = kernel0\<lparr>k_room := 2\<rparr>, cs_conn = sim_tcp st\<rparr>"

definition sim_cbs :: "kernel conn_state conn_callbacks" where
  "sim_cbs = \<lparr>connectionCallback = Some Inr, messageCallback = Some Inr, writeCompleteCallback = Some Inr,
     highWaterMarkCallback = Some (\<lambda>_. Inr), closeCallback_conn = Some Inr\<rparr>"

lemma sim_conn_inv: "st \<noteq> kDisconnected \<Longrightarrow> conn_inv sim_view (sim_conn st)"
  by (auto simp: conn_inv_def sim_conn_def sim_tcp_def sim_buffer_def wf_buffer_def kCheapPrepend_def vector_max_def
      registered_def rx_pk_def sim_loop_def Channel_def index_consts sim_view_def kernel0_def contents_def
      isWriting_def)

lemma sim_conn_fields [simp]:
  "cs_conn (sim_conn st) = sim_tcp st" "cn_state (sim_tcp st) = st" "cn_sockfd (sim_tcp st) = 7"
  "rx_loop (sim_conn st) = sim_loop" "rx_kern (sim_conn st) = kernel0\<lparr>k_room := 2\<rparr>"
  "contents (cn_outputBuffer (sim_tcp st)) = []" "contents (cn_inputBuffer (sim_tcp st)) = []"
  by (simp_all add: sim_conn_def sim_tcp_def sim_buffer_def contents_def)

lemma sim_no_reset: "\<not> write_reset sim_os ds s"
  by (auto simp: write_reset_def sim_os_def sim_write_def EPIPE_def ECONNRESET_def)

lemma sim_callbacks_ok: "callbacks_ok v sim_cbs"
  by (auto simp: callbacks_ok_def keeps_conn_ok_def call_def sim_cbs_def)

text \<open>C1: The outgoing bytes of a connection form one stream. In any sequence of sends, writable events
  and shutdowns in the loop thread, the bytes the kernel accepted followed by those still buffered
  are exactly the bytes sent before the first shutdown, in order, on top of what was there, less
  the texts whose direct write the kernel answered with \<open>EPIPE\<close> or \<open>ECONNRESET\<close>, which are dropped whole. The
  sending side is shut down only after a shutdown was requested and every one of these bytes has
  been accepted. The run can only be cut short by a fatal exit or by a buffer beyond the maximal
  vector size, never by undefined behaviour.\<close>

theorem connection_output_stream:
  assumes "os_ok os v" and "conn_inv v s" and "cn_state (cs_conn s) = kConnected"
    and "isInLoopThread tid (rx_loop s)" and "\<not> wr_shut v (rx_kern s) (cn_sockfd (cs_conn s))"
    and "\<forall>ev \<in> set evs. ev_fits ev"
  shows "case fold_res (conn_ev_step os cbs tid) evs s of
      Inl e \<Rightarrow> e = Fatal_Exit \<or> e = Length_Error
    | Inr s' \<Rightarrow> conn_inv v s' \<and> outgoing v s' = outgoing v s @ sends os cbs tid evs s \<and>
        (wr_shut v (rx_kern s') (cn_sockfd (cs_conn s)) \<longrightarrow>
           cn_state (cs_conn s') = kDisconnecting \<and>
           accepted v (rx_kern s') (cn_sockfd (cs_conn s)) = outgoing v s @ sends os cbs tid evs s)"
proof -
  have inv: "run_inv v tid s" using assms by (simp add: run_inv_def)
  show ?thesis
    using run_fault [OF assms(1) inv assms(6)] run_stream [OF assms(1) inv assms(3,6)]
    by (fastforce simp: run_inv_def outgoing_def split: sum.splits)
qed

theorem connection_output_stream_witness:
  "case fold_res (conn_ev_step sim_os sim_cbs 1) [Ev_send ''hello'', Ev_writable, Ev_shutdown, Ev_send ''x''] (sim_conn kConnected) of
      Inl e \<Rightarrow> e = Fatal_Exit \<or> e = Length_Error
    | Inr s' \<Rightarrow> outgoing sim_view s' = ''hello''"
proof -
  let ?evs = "[Ev_send ''hello'', Ev_writable, Ev_shutdown, Ev_send ''x'']"
  have h: "isInLoopThread 1 (rx_loop (sim_conn kConnected))" "cn_state (cs_conn (sim_conn kConnected)) = kConnected"
    "\<not> wr_shut sim_view (rx_kern (sim_conn kConnected)) (cn_sockfd (cs_conn (sim_conn kConnected)))"
    "\<forall>ev \<in> set ?evs. ev_fits ev"
    by (simp_all add: isInLoopThread_def sim_loop_def sim_view_def kernel0_def vector_max_def)
  have o: "outgoing sim_view (sim_conn kConnected) = []"
    by (simp add: outgoing_def sim_view_def kernel0_def)
  show ?thesis
    using connection_output_stream [OF sim_os_ok sim_conn_inv h(2,1,3,4), of sim_cbs] o sim_no_reset
    by (auto split: sum.splits)
qed

text \<open>C11: A send notifies the application as promised: the completion callback is queued exactly when
  the kernel took the whole text at once, the high-water-mark callback exactly when the backlog rises
  from below the mark to the mark or above it, with the new backlog as its argument; a send to a
  peer that is gone queues nothing.\<close>

theorem sendInLoop_notifies:
  assumes "os_ok os v" and "conn_inv v s" and "cn_state (cs_conn s) \<noteq> kDisconnected"
    and "length data \<le> vector_max"
  shows "case sendInLoop os cbs tid data s of
      Inl e \<Rightarrow> e = Fatal_Exit \<or> e = Length_Error
    | Inr s' \<Rightarrow> lp_pendingFunctors (rx_loop s') = lp_pendingFunctors (rx_loop s) @
        (case (if contents (cn_outputBuffer (cs_conn s)) = []
               then fst (os_write os (cn_sockfd (cs_conn s)) data (rx_kern s)) else Inl EWOULDBLOCK) of
           Inr n \<Rightarrow> (if n = length data \<and> writeCompleteCallback cbs \<noteq> None
                     then [Fn_writeComplete (cn_id (cs_conn s))] else []) @
                    mark_crossed cbs (cs_conn s) (length data - n)
         | Inl e \<Rightarrow> if e = EPIPE \<or> e = ECONNRESET then [] else mark_crossed cbs (cs_conn s) (length data))"
proof (cases "sendInLoop os cbs tid data s")
  case (Inl e)
  with sendInLoop_fault [OF assms(1,2,4)] show ?thesis by auto
next
  case (Inr s')
  show ?thesis using sendInLoop_queues [OF assms Inr] by (simp add: Inr)
qed

theorem sendInLoop_notifies_witness:
  "case sendInLoop sim_os sim_cbs 1 ''a longer text'' (sim_conn kConnected) of
      Inl e \<Rightarrow> e = Fatal_Exit \<or> e = Length_Error
    | Inr s' \<Rightarrow> lp_pendingFunctors (rx_loop s') = [Fn_highWaterMark 1 11]"
proof -
  have len: "length ''a longer text'' \<le> vector_max" by (simp add: vector_max_def)
  have st: "cn_state (cs_conn (sim_conn kConnected)) \<noteq> kDisconnected" by simp
  have w: "fst (os_write sim_os 7 ''a longer text'' (kernel0\<lparr>k_room := 2\<rparr>)) = Inr 2"
    by (simp add: sim_os_def sim_write_def kernel0_def)
  have m: "mark_crossed sim_cbs (sim_tcp kConnected) n = (if 4 \<le> n then [Fn_highWaterMark 1 n] else [])"
    "lp_pendingFunctors sim_loop = []" for n
    by (simp_all add: mark_crossed_def sim_cbs_def sim_tcp_def sim_buffer_def contents_def sim_loop_def)
  show ?thesis
    using sendInLoop_notifies [OF sim_os_ok sim_conn_inv st len, of sim_cbs 1] w m by (auto split: sum.splits)
qed

text \<open>C12: A readable event delivers exactly what the kernel returned: the bytes are appended to the
  input buffer before the message callback runs on that state; an end of file runs the closing
  instead, and an error changes nothing but the kernel, where the pending error of the socket has
  been read and cleared. The only fault of the library itself is an
  input buffer within 64 KiB of the maximal vector size.\<close>

theorem handleRead_delivers_input:
  assumes "os_ok os v" and "conn_inv v s"
    and "os_readv os (cn_sockfd (cs_conn s)) (readFd_blocks (cn_inputBuffer (cs_conn s))) (rx_kern s) = (r, k)"
  shows "case r of
      Inl e \<Rightarrow> handleRead os cbs s = Inr (s\<lparr>rx_kern := snd (os_getsockopt os (cn_sockfd (cs_conn s)) k)\<rparr>)
    | Inr ds \<Rightarrow>
        (handleRead os cbs s = Inl Length_Error \<and>
           vector_max < length (buffer_vec (cn_inputBuffer (cs_conn s))) + extrabuf_size) \<or>
        (\<exists>b. wf_buffer b \<and> contents b = contents (cn_inputBuffer (cs_conn s)) @ ds \<and>
           handleRead os cbs s =
             (if ds = [] then handleClose os cbs else call (messageCallback cbs))
               (s\<lparr>rx_kern := k, cs_conn := (cs_conn s)\<lparr>cn_inputBuffer := b\<rparr>\<rparr>))"
  by (rule handleRead_eq [OF assms])

theorem handleRead_delivers_input_witness:
  "\<exists>s'. handleRead sim_os sim_cbs ((sim_conn kConnected)\<lparr>rx_kern := kernel0\<lparr>k_input := ''hi''\<rparr>\<rparr>) = Inr s' \<and>
     contents (cn_inputBuffer (cs_conn s')) = ''hi''"
proof -
  let ?s = "(sim_conn kConnected)\<lparr>rx_kern := kernel0\<lparr>k_input := ''hi''\<rparr>\<rparr>"
  have inv: "conn_inv sim_view ?s"
    by (rule conn_inv_kern [OF sim_conn_inv]) (simp_all add: sim_view_def kernel0_def)
  have rd: "os_readv sim_os (cn_sockfd (cs_conn ?s)) (readFd_blocks (cn_inputBuffer (cs_conn ?s))) (rx_kern ?s) =
      (Inr ''hi'', (rx_kern ?s)\<lparr>k_delivered := (\<lambda>_. [])(7 := ''hi'')\<rparr>)"
    by (simp add: sim_os_def sim_tcp_def sim_buffer_def readFd_blocks_def writableBytes_def extrabuf_size_def
        size_sub_def kernel0_def)
  have small: "\<not> vector_max < length (buffer_vec (cn_inputBuffer (cs_conn ?s))) + extrabuf_size"
    by (simp add: sim_tcp_def sim_buffer_def vector_max_def extrabuf_size_def)
  obtain b where "contents b = ''hi''" "handleRead sim_os sim_cbs ?s = call (messageCallback sim_cbs)
      (?s\<lparr>rx_kern := (rx_kern ?s)\<lparr>k_delivered := (\<lambda>_. [])(7 := ''hi'')\<rparr>, cs_conn := (cs_conn ?s)\<lparr>cn_inputBuffer := b\<rparr>\<rparr>)"
    using handleRead_delivers_input [OF sim_os_ok inv rd, of sim_cbs] small by auto
  then show ?thesis by (simp add: call_def sim_cbs_def)
qed

text \<open>C13: Opening a connection: \<open>connectEstablished\<close> calls the connection callback on a state that is
  connected, tied to its owner and registered with the kernel for reading, or the process exits
  because the kernel refused the registration. With no connection callback installed the call ends in
  an exception.\<close>

theorem connectEstablished_registers:
  assumes "os_ok os v" and "conn_inv v s" and "cn_state (cs_conn s) = kConnecting"
  shows "connectEstablished os cbs s = Inl Fatal_Exit \<or>
    (\<exists>s1. connectEstablished os cbs s = call (connectionCallback cbs) s1 \<and>
       (connectionCallback cbs = None \<longrightarrow> connectEstablished os cbs s = Inl Bad_Function_Call) \<and>
       conn_inv v s1 \<and> cn_state (cs_conn s1) = kConnected \<and> isReading (cn_channel (cs_conn s1)) \<and>
       chan_tied (cn_channel (cs_conn s1)) \<and> chan_tie (cn_channel (cs_conn s1)) = Some (cn_id (cs_conn s1)) \<and>
       interest v (rx_kern s1) (pl_epollfd (lp_poller (rx_loop s1))) (cn_sockfd (cs_conn s1)) =
         Some \<lparr>ev_events = chan_events (cn_channel (cs_conn s1)), ev_ptr = chan_ptr (cn_channel (cs_conn s1))\<rparr>)"
proof -
  define s2 where "s2 = (setState kConnected s)\<lparr>cs_conn := (cs_conn (setState kConnected s))
      \<lparr>cn_channel := tie (cn_id (cs_conn s)) (cn_channel (cs_conn s))\<rparr>\<rparr>"
  have eq: "connectEstablished os cbs s = res_bind (on_channel (enableReading os) s2) (call (connectionCallback cbs))"
    by (simp add: connectEstablished_def s2_def)
  show ?thesis
  proof (cases "on_channel (enableReading os) s2")
    case (Inl e)
    then show ?thesis using on_channel_fault(1) [OF Inl] by (simp add: eq)
  next
    case (Inr s1)
    have "cn_state (cs_conn s) \<noteq> kDisconnected" using assms(3) by simp
    note e = established_before_callback [OF assms(1,2) this s2_def Inr]
    have "interest v (rx_kern s1) (pl_epollfd (lp_poller (rx_loop s1))) (cn_sockfd (cs_conn s1)) =
        Some \<lparr>ev_events = chan_events (cn_channel (cs_conn s1)), ev_ptr = chan_ptr (cn_channel (cs_conn s1))\<rparr>"
      using conn_invD(3,4) [OF e(1)] e(5) by (simp add: registered_def rx_pk_def index_consts)
    then show ?thesis
      using e by (intro disjI2 exI [of _ s1]) (simp add: eq Inr call_def)
  qed
qed

theorem connectEstablished_registers_witness:
  "connectEstablished sim_os sim_cbs (sim_conn kConnecting) = Inl Fatal_Exit \<or>
   (\<exists>s1. connectEstablished sim_os sim_cbs (sim_conn kConnecting) = Inr s1 \<and>
      cn_state (cs_conn s1) = kConnected \<and> isReading (cn_channel (cs_conn s1)))"
proof -
  have st: "cn_state (cs_conn (sim_conn kConnecting)) = kConnecting" by simp
  show ?thesis
    using connectEstablished_registers [OF sim_os_ok sim_conn_inv st, of sim_cbs] by (auto simp: call_def sim_cbs_def)
qed

text \<open>C14: Closing a connection: when the peer has closed it, the channel waits for no event any more
  and the connection is closed before the application's callbacks run; once \<open>connectDestroyed\<close>
  returns, neither the poller nor the kernel knows the socket.\<close>

theorem closed_connection_unregistered:
  assumes "os_ok os v" and "callbacks_ok v cbs" and "conn_inv v s"
    and "no_lost_wakeup v s"
  shows "(case on_channel (disableAll os) (setState kDisconnected s) of
      Inl e \<Rightarrow> handleClose os cbs s = Inl e \<and> e = Fatal_Exit
    | Inr s1 \<Rightarrow> cn_state (cs_conn s1) = kDisconnected \<and> isNoneEvent (cn_channel (cs_conn s1)) \<and>
        handleClose os cbs s = res_bind (call (connectionCallback cbs) s1) (call (closeCallback_conn cbs))) \<and>
    (\<forall>s'. connectDestroyed os cbs s = Inr s' \<longrightarrow> conn_inv v s' \<and>
       pl_channels (lp_poller (rx_loop s')) (cn_sockfd (cs_conn s')) = None \<and>
       interest v (rx_kern s') (pl_epollfd (lp_poller (rx_loop s'))) (cn_sockfd (cs_conn s')) = None)"
proof (intro conjI allI impI)
  have pre: "conn_ok v (Some (lp_callingPendingFunctors (rx_loop s))) s" using assms by (simp add: conn_ok_def)
  show "case on_channel (disableAll os) (setState kDisconnected s) of
      Inl e \<Rightarrow> handleClose os cbs s = Inl e \<and> e = Fatal_Exit
    | Inr s1 \<Rightarrow> cn_state (cs_conn s1) = kDisconnected \<and> isNoneEvent (cn_channel (cs_conn s1)) \<and>
        handleClose os cbs s = res_bind (call (connectionCallback cbs) s1) (call (closeCallback_conn cbs))"
    using close_channel(2,4) [OF assms(1) pre] on_channel_fault(4)
    by (auto simp: handleClose_def split: sum.splits)
  fix s' assume d: "connectDestroyed os cbs s = Inr s'"
  note k = connectDestroyed_keeps [OF assms(1,2) pre d]
  show "conn_inv v s'" using k(1) by simp
  show "pl_channels (lp_poller (rx_loop s')) (cn_sockfd (cs_conn s')) = None"
    and "interest v (rx_kern s') (pl_epollfd (lp_poller (rx_loop s'))) (cn_sockfd (cs_conn s')) = None"
    using conn_invD(3,4) [OF conn_ok_inv [OF k(1)]] k(2) by (auto simp: registered_def rx_pk_def index_consts)
qed

theorem closed_connection_unregistered_witness:
  "\<exists>s'. connectDestroyed sim_os sim_cbs (sim_conn kConnected) = Inr s' \<and>
     pl_channels (lp_poller (rx_loop s')) (cn_sockfd (cs_conn s')) = None"
proof -
  have w: "no_lost_wakeup sim_view (sim_conn kConnected)" by (simp add: no_lost_wakeup_def sim_loop_def)
  have "\<exists>s'. connectDestroyed sim_os sim_cbs (sim_conn kConnected) = Inr s'"
    by (simp add: connectDestroyed_def on_channel_def disableAll_def chan_remove_def loop_updateChannel_def
        loop_removeChannel_def updateChannel_def removeChannel_def update_def sim_os_def sim_ctl_def call_def
        sim_cbs_def index_consts sim_tcp_def Channel_def channel_simps sim_loop_def kernel0_def isNoneEvent_def)
  then show ?thesis
    using closed_connection_unregistered [OF sim_os_ok sim_callbacks_ok sim_conn_inv w] by blast
qed

text \<open>C9: A turn of the loop keeps a connection consistent: whatever events are dispatched to its
  channel and whatever closures are then run (the establishment of a new connection among them, which
  the server queues once and first), the connection's invariant holds afterwards (buffers
  well-formed, registration in step with the kernel, waiting for writability exactly while bytes are
  buffered), the loop is out of its closures, and no closure queued meanwhile lacks a wake-up. The
  application's callbacks are assumed to keep the same.\<close>

theorem turn_keeps_connection:
  assumes "os_ok os v" and "callbacks_ok v cbs" and "mem_ok mem" and "conn_inv v s"
    and "\<not> lp_callingPendingFunctors (rx_loop s)"
    and "handleEvent lock (run_callback os cbs tid) (\<lambda>s. cn_channel (cs_conn s)) s = Inr s1"
    and "conn_allowed (lp_pendingFunctors (rx_loop s1)) (cn_state (cs_conn s1))"
    and "doPendingFunctors (conn_exec os cbs tid mem) s1 = Inr s'"
  shows "conn_inv v s' \<and> no_lost_wakeup v s' \<and> \<not> lp_callingPendingFunctors (rx_loop s')"
proof -
  have "conn_ok v (Some False) s1"
    by (rule handleEvent_keeps [OF assms(1,2) _ assms(6)]) (use assms(4,5) in \<open>simp add: conn_ok_def\<close>)
  then have keeps: "conn_keeps (cbs, tid, mem) v s1" using assms(2,3) by (simp add: conn_keeps_def)
  have work: "doPendingFunctors (conn_work (cbs, tid, mem) os) s1 = Inr s'"
    using assms(8) by (simp add: conn_work_def [abs_def])
  show ?thesis
    using conn_loop.doPendingFunctors_keeps [OF assms(1) keeps assms(7) work] by (simp add: conn_keeps_def)
qed

text \<open>Two turns: one dispatches a readable event, which delivers two bytes, and then runs a shutdown that
  was queued before; the other establishes a new connection.\<close>

definition sim_ready :: "kernel conn_state" where
  "sim_ready = \<lparr>rx_loop = sim_loop\<lparr>lp_pendingFunctors := [Fn_shutdownInLoop 1]\<rparr>,
     rx_kern = kernel0\<lparr>k_room := 2, k_input := ''hi''\<rparr>,
     cs_conn = (sim_tcp kConnected)\<lparr>cn_channel := (cn_channel (sim_tcp kConnected))\<lparr>chan_revents := 1\<rparr>\<rparr>\<rparr>"

definition sim_new :: "kernel conn_state" where
  "sim_new = \<lparr>rx_loop = sim_loop\<lparr>lp_pendingFunctors := [Fn_listen, Fn_connectEstablished 1]\<rparr>,
     rx_kern = kernel0\<lparr>k_room := 2\<rparr>, cs_conn = sim_tcp kConnecting\<rparr>"

definition sim_dispatch :: "kernel conn_state \<Rightarrow> kernel conn_state res" where
  "sim_dispatch = handleEvent (\<lambda>_. True) (run_callback sim_os sim_cbs 1) (\<lambda>s. cn_channel (cs_conn s))"

definition sim_closures :: "kernel conn_state \<Rightarrow> kernel conn_state res" where
  "sim_closures = doPendingFunctors (conn_exec sim_os sim_cbs 1 (\<lambda>_ _. None))"

lemma sim_ready_read:
  obtains b where "contents b = ''hi''" "wf_buffer b" "sim_dispatch sim_ready = Inr (sim_ready\<lparr>
    rx_kern := kernel0\<lparr>k_room := 2, k_input := ''hi'', k_delivered := (\<lambda>_. [])(7 := ''hi'')\<rparr>,
    cs_conn := (cs_conn sim_ready)\<lparr>cn_inputBuffer := b\<rparr>\<rparr>)"
proof -
  have inv: "conn_inv sim_view sim_ready"
    by (auto simp: conn_inv_def sim_ready_def sim_tcp_def sim_buffer_def wf_buffer_def kCheapPrepend_def vector_max_def
      registered_def rx_pk_def sim_loop_def Channel_def index_consts sim_view_def kernel0_def contents_def isWriting_def)
  have rd: "os_readv sim_os (cn_sockfd (cs_conn sim_ready)) (readFd_blocks (cn_inputBuffer (cs_conn sim_ready))) (rx_kern sim_ready) =
      (Inr ''hi'', kernel0\<lparr>k_room := 2, k_input := ''hi'', k_delivered := (\<lambda>_. [])(7 := ''hi'')\<rparr>)"
    by (simp add: sim_os_def sim_ready_def sim_tcp_def sim_buffer_def readFd_blocks_def writableBytes_def extrabuf_size_def
        size_sub_def kernel0_def)
  have small: "\<not> vector_max < length (buffer_vec (cn_inputBuffer (cs_conn sim_ready))) + extrabuf_size"
    by (simp add: sim_ready_def sim_tcp_def sim_buffer_def vector_max_def extrabuf_size_def)
  obtain b where b: "contents b = ''hi''" "wf_buffer b" "handleRead sim_os sim_cbs sim_ready = Inr (sim_ready\<lparr>
    rx_kern := kernel0\<lparr>k_room := 2, k_input := ''hi'', k_delivered := (\<lambda>_. [])(7 := ''hi'')\<rparr>,
    cs_conn := (cs_conn sim_ready)\<lparr>cn_inputBuffer := b\<rparr>\<rparr>)"
    using handleRead_eq [OF sim_os_ok inv rd, of sim_cbs] small by (auto simp: call_def sim_cbs_def sim_ready_def)
  have ch: "cn_channel (cs_conn sim_ready) = (cn_channel (sim_tcp kConnected))\<lparr>chan_revents := 1\<rparr>" by (simp add: sim_ready_def)
  have c: "chan_tied (cn_channel (sim_tcp kConnected)) = False" "readCallback (cn_channel (sim_tcp kConnected)) = Some Conn_handleRead"
    by (simp_all add: sim_tcp_def Channel_def)
  have "sim_dispatch sim_ready = handleRead sim_os sim_cbs sim_ready"
    unfolding b(3) by (simp add: sim_dispatch_def handleEvent_def handleEventWithGuard_def call_if_def run_callback_def ch c b(3)
        EPOLLIN_def EPOLLPRI_def EPOLLOUT_def EPOLLERR_def EPOLLHUP_def)
  with b that show ?thesis by simp
qed

lemma sim_new_runs: "\<not> isl (sim_closures sim_new)"
  by code_simp

theorem turn_keeps_connection_witness:
  "\<exists>s1 s2 t. sim_dispatch sim_ready = Inr s1 \<and> contents (cn_inputBuffer (cs_conn s1)) = ''hi'' \<and>
     sim_closures s1 = Inr s2 \<and> conn_inv sim_view s2 \<and> wr_shut sim_view (rx_kern s2) 7 \<and>
     sim_dispatch sim_new = Inr sim_new \<and> sim_closures sim_new = Inr t \<and> conn_inv sim_view t \<and> no_lost_wakeup sim_view t"
proof -
  have m: "mem_ok (\<lambda>_ _. None)" by (simp add: mem_ok_def)
  have inv: "conn_inv sim_view sim_ready" "conn_inv sim_view sim_new"
    by (auto simp: conn_inv_def sim_ready_def sim_new_def sim_tcp_def sim_buffer_def wf_buffer_def kCheapPrepend_def vector_max_def
      registered_def rx_pk_def sim_loop_def Channel_def index_consts sim_view_def kernel0_def contents_def isWriting_def)
  have idle: "\<not> lp_callingPendingFunctors (rx_loop sim_ready)" "\<not> lp_callingPendingFunctors (rx_loop sim_new)"
    by (simp_all add: sim_ready_def sim_new_def sim_loop_def)
  obtain b where b: "contents b = ''hi''" and d: "sim_dispatch sim_ready = Inr (sim_ready\<lparr>
    rx_kern := kernel0\<lparr>k_room := 2, k_input := ''hi'', k_delivered := (\<lambda>_. [])(7 := ''hi'')\<rparr>,
    cs_conn := (cs_conn sim_ready)\<lparr>cn_inputBuffer := b\<rparr>\<rparr>)" (is "_ = Inr ?s1")
    by (rule sim_ready_read)
  have a: "conn_allowed (lp_pendingFunctors (rx_loop ?s1)) (cn_state (cs_conn ?s1))" by (simp add: sim_ready_def)
  obtain s2 where s2: "sim_closures ?s1 = Inr s2" "wr_shut sim_view (rx_kern s2) 7"
    by (simp add: sim_closures_def doPendingFunctors_def swap_pending_def conn_exec_def shutdownInLoop_def shutdownWrite_def
        sim_ready_def sim_tcp_def Channel_def isWriting_def sim_os_def end_pending_def sim_view_def)
  have e: "sim_dispatch sim_new = Inr sim_new"
    by (simp add: sim_dispatch_def handleEvent_def handleEventWithGuard_def call_if_def sim_new_def sim_tcp_def Channel_def)
  obtain t where t: "sim_closures sim_new = Inr t" using sim_new_runs by (cases "sim_closures sim_new") auto
  have n: "conn_allowed (lp_pendingFunctors (rx_loop sim_new)) (cn_state (cs_conn sim_new))" by (simp add: sim_new_def)
  have "conn_inv sim_view s2" "conn_inv sim_view t" "no_lost_wakeup sim_view t"
    using turn_keeps_connection [OF sim_os_ok sim_callbacks_ok m inv(1) idle(1) d [unfolded sim_dispatch_def] a s2(1) [unfolded sim_closures_def]]
      turn_keeps_connection [OF sim_os_ok sim_callbacks_ok m inv(2) idle(2) e [unfolded sim_dispatch_def] n t [unfolded sim_closures_def]]
    by blast+
  moreover have "contents (cn_inputBuffer (cs_conn ?s1)) = ''hi''" using b by simp
  ultimately show ?thesis using d s2 e t by blast
qed

end
