(* ===== verification/Net_LoopThread.thy ===== *)
theory Net_LoopThread
  imports Net_EventLoop "HOL-Library.Multiset"
begin

text \<open>
  \<open>common/net/EventLoopThread.cc\<close> and \<open>EventLoopThreadPool.cc\<close>. The first part is the hand-over
  between the thread that calls \<open>startLoop\<close> (and later the destructor) and the thread that runs the
  loop: every access to \<open>loop_\<close>, the condition variable and the two program counters are steps of a
  relation, and the loop object is the one of \<open>Net_EventLoop\<close>. The second part is the pool and its
  round robin.
\<close>

section \<open>The hand-over of a loop\<close>

text \<open>Where \<open>threadFunc\<close> is: before the constructor of its loop, before it publishes the pointer,
  before \<open>loop.loop()\<close>, inside it, after it, or gone.\<close>

datatype thread_pc = Not_started | Constructing | Publishing | Entering | In_loop | Leaving | Ended

text \<open>Where the owner is: nothing called yet, about to test \<open>loop_\<close> in \<open>startLoop\<close>, asleep on \<open>cond_\<close>,
  returned with a pointer, in the destructor before \<open>quit\<close> with the pointer it tested, in \<open>join\<close>,
  or done.\<close>

datatype owner_pc =
  Created | Checking | Sleeping | Returned nat | Quitting nat | Joining | Destroyed

record 'k evl_thread =
  et_loop :: "nat option"
  et_exiting :: bool
  et_thread :: thread_pc
  et_owner :: owner_pc
  et_object :: "event_loop option"
  et_kern :: 'k

text \<open>What a thread is given: the system, its thread number and the owner's, the addresses of its
  loop and of the wake-up channel, the init callback, and what one turn of its loop does.\<close>

record 'k et_env =
  env_os :: "'k os"
  env_use_poll :: bool
  env_tid :: int
  env_owner :: int
  env_addr :: nat
  env_wptr :: nat
  env_cb :: "('k reactor \<Rightarrow> 'k reactor res) option"
  env_turn :: "'k reactor \<Rightarrow> 'k reactor res"

definition EventLoopThread :: "'k \<Rightarrow> 'k evl_thread" where
  "EventLoopThread k = \<lparr>et_loop = None, et_exiting = False, et_thread = Not_started, et_owner = Created,
     et_object = None, et_kern = k\<rparr>"

definition et_reactor :: "event_loop \<Rightarrow> 'k evl_thread \<Rightarrow> 'k reactor" where
  "et_reactor lp s = \<lparr>rx_loop = lp, rx_kern = et_kern s\<rparr>"

definition put_reactor :: "'k reactor \<Rightarrow> 'k evl_thread \<Rightarrow> 'k evl_thread" where
  "put_reactor r s = s\<lparr>et_object := Some (rx_loop r), et_kern := rx_kern r\<rparr>"

text \<open>\<open>EventLoop loop; if (callback_) callback_(&loop);\<close>\<close>

definition make_loop :: "'k et_env \<Rightarrow> 'k \<Rightarrow> 'k reactor res" where
  "make_loop E k =
     res_bind (EventLoop (env_os E) (env_use_poll E) False (env_tid E) (env_wptr E) k)
       (case env_cb E of None \<Rightarrow> Inr | Some f \<Rightarrow> f)"

definition notify :: "owner_pc \<Rightarrow> owner_pc" where
  "notify w = (if w = Sleeping then Checking else w)"

inductive et_step :: "'k et_env \<Rightarrow> 'k evl_thread \<Rightarrow> 'k evl_thread \<Rightarrow> bool" for E where
  start: "et_owner s = Created \<Longrightarrow> et_step E s (s\<lparr>et_owner := Checking, et_thread := Constructing\<rparr>)"
| sleep: "et_owner s = Checking \<Longrightarrow> et_loop s = None \<Longrightarrow> et_step E s (s\<lparr>et_owner := Sleeping\<rparr>)"
| return: "et_owner s = Checking \<Longrightarrow> et_loop s = Some p \<Longrightarrow> et_step E s (s\<lparr>et_owner := Returned p\<rparr>)"
| construct: "et_thread s = Constructing \<Longrightarrow> make_loop E (et_kern s) = Inr r \<Longrightarrow>
    et_step E s (put_reactor r s\<lparr>et_thread := Publishing\<rparr>)"
| publish: "et_thread s = Publishing \<Longrightarrow>
    et_step E s (s\<lparr>et_loop := Some (env_addr E), et_owner := notify (et_owner s), et_thread := Entering\<rparr>)"
| enter: "et_thread s = Entering \<Longrightarrow> et_object s = Some lp \<Longrightarrow>
    et_step E s (put_reactor (loop_enter (et_reactor lp s)) s\<lparr>et_thread := In_loop\<rparr>)"
| turn: "et_thread s = In_loop \<Longrightarrow> et_object s = Some lp \<Longrightarrow> \<not> lp_quit lp \<Longrightarrow>
    env_turn E (et_reactor lp s) = Inr r \<Longrightarrow> et_step E s (put_reactor r s)"
| leave: "et_thread s = In_loop \<Longrightarrow> et_object s = Some lp \<Longrightarrow> lp_quit lp \<Longrightarrow>
    et_step E s (put_reactor (loop_leave (et_reactor lp s)) s\<lparr>et_thread := Leaving\<rparr>)"
| finish: "et_thread s = Leaving \<Longrightarrow> et_object s = Some lp \<Longrightarrow>
    EventLoop_dtor (env_os E) (et_reactor lp s) = Inr r \<Longrightarrow>
    et_step E s (s\<lparr>et_loop := None, et_object := None, et_kern := rx_kern r, et_thread := Ended\<rparr>)"
| dtor_quit: "et_owner s = Created \<or> et_owner s = Returned q \<Longrightarrow> et_loop s = Some p \<Longrightarrow>
    et_step E s (s\<lparr>et_exiting := True, et_owner := Quitting p\<rparr>)"
| dtor_none: "et_owner s = Created \<or> et_owner s = Returned q \<Longrightarrow> et_loop s = None \<Longrightarrow>
    et_step E s (s\<lparr>et_exiting := True, et_owner := Destroyed\<rparr>)"
| quit: "et_owner s = Quitting p \<Longrightarrow> et_object s = Some lp \<Longrightarrow>
    et_step E s (put_reactor (quit (env_os E) (env_owner E) (et_reactor lp s)) s\<lparr>et_owner := Joining\<rparr>)"
| join: "et_owner s = Joining \<Longrightarrow> et_thread s = Ended \<Longrightarrow> et_step E s (s\<lparr>et_owner := Destroyed\<rparr>)"

inductive_cases et_stepE: "et_step E s t"

abbreviation et_reach :: "'k et_env \<Rightarrow> 'k evl_thread \<Rightarrow> 'k evl_thread \<Rightarrow> bool" where
  "et_reach E \<equiv> (et_step E)\<^sup>*\<^sup>*"

text \<open>Nothing that runs inside the loop calls \<open>quit\<close>.\<close>

definition turn_keeps_quit :: "'k et_env \<Rightarrow> bool" where
  "turn_keeps_quit E \<longleftrightarrow>
     (\<forall>r r'. env_turn E r = Inr r' \<longrightarrow> lp_quit (rx_loop r') = lp_quit (rx_loop r))"

section \<open>The pool\<close>

record evl_pool =
  ep_baseLoop :: nat
  ep_name :: string
  ep_started :: bool
  ep_numThreads :: int
  ep_next :: int
  ep_threads :: "string list"
  ep_loops :: "nat list"

definition EventLoopThreadPool :: "nat \<Rightarrow> string \<Rightarrow> evl_pool" where
  "EventLoopThreadPool baseLoop nameArg =
     \<lparr>ep_baseLoop = baseLoop, ep_name = nameArg, ep_started = False, ep_numThreads = 0, ep_next = 0,
      ep_threads = [], ep_loops = []\<rparr>"

definition pool_setThreadNum :: "int \<Rightarrow> evl_pool \<Rightarrow> evl_pool" where
  "pool_setThreadNum numThreads p = p\<lparr>ep_numThreads := numThreads\<rparr>"

definition thread_name :: "string \<Rightarrow> int \<Rightarrow> string" where
  "thread_name nm i = snprintf (length nm + 32) (c_str nm @ show_int i)"

text \<open>\<open>start\<close>. The argument \<open>spawn\<close> is \<open>new EventLoopThread(cb, name)\<close> followed by \<open>startLoop\<close>: it
  answers the address of the new loop. The callback runs on the base loop when there are no
  threads; \<open>cb\<close> is \<open>None\<close> when none is installed.\<close>

fun start_threads ::
    "(string \<Rightarrow> 'w \<Rightarrow> (nat \<times> 'w) res) \<Rightarrow> int \<Rightarrow> nat \<Rightarrow> evl_pool \<Rightarrow> 'w \<Rightarrow> (evl_pool \<times> 'w) res" where
  "start_threads spawn i 0 p w = Inr (p, w)"
| "start_threads spawn i (Suc n) p w =
     (let buf = thread_name (ep_name p) i in
      res_bind (spawn buf w) (\<lambda>(lp, w').
        start_threads spawn (i + 1) n
          (p\<lparr>ep_threads := ep_threads p @ [buf], ep_loops := ep_loops p @ [lp]\<rparr>) w'))"

definition pool_start ::
    "(string \<Rightarrow> 'w \<Rightarrow> (nat \<times> 'w) res) \<Rightarrow> (nat \<Rightarrow> 'w \<Rightarrow> 'w res) option \<Rightarrow> evl_pool \<Rightarrow> 'w \<Rightarrow> (evl_pool \<times> 'w) res" where
  "pool_start spawn cb p w =
     res_bind (start_threads spawn 0 (nat (ep_numThreads p)) (p\<lparr>ep_started := True\<rparr>) w) (\<lambda>(p', w').
       if ep_numThreads p' = 0 then
         (case cb of None \<Rightarrow> Inr (p', w') | Some f \<Rightarrow> res_bind (f (ep_baseLoop p') w') (\<lambda>w''. Inr (p', w'')))
       else Inr (p', w'))"

text \<open>\<open>getNextLoop\<close>: an index outside the vector is undefined. The comparison with \<open>size()\<close> converts
  \<open>next_\<close> to an unsigned number.\<close>

definition getNextLoop :: "evl_pool \<Rightarrow> (nat \<times> evl_pool) res" where
  "getNextLoop p =
     (if ep_loops p = [] then Inr (ep_baseLoop p, p)
      else if 0 \<le> ep_next p \<and> nat (ep_next p) < length (ep_loops p) then
        let lp = ep_loops p ! nat (ep_next p);
            nxt = ep_next p + 1
        in Inr (lp, p\<lparr>ep_next := (if length (ep_loops p) \<le> nat nxt then 0 else nxt)\<rparr>)
      else Inl Undefined_Behaviour)"

definition getAllLoops :: "evl_pool \<Rightarrow> nat list" where
  "getAllLoops p = (if ep_loops p = [] then [ep_baseLoop p] else ep_loops p)"

text \<open>The loops that a number of calls in a row answer.\<close>

fun next_loops :: "nat \<Rightarrow> evl_pool \<Rightarrow> (nat list \<times> evl_pool) res" where
  "next_loops 0 p = Inr ([], p)"
| "next_loops (Suc n) p =
     res_bind (getNextLoop p) (\<lambda>(l, p1). res_bind (next_loops n p1) (\<lambda>(ls, p2). Inr (l # ls, p2)))"

definition next_ok :: "evl_pool \<Rightarrow> bool" where
  "next_ok p \<longleftrightarrow> 0 \<le> ep_next p \<and> (ep_loops p \<noteq> [] \<longrightarrow> nat (ep_next p) < length (ep_loops p))"

section \<open>The hand-over, proved\<close>

text \<open>Where the owner can be for each place of the thread: it sleeps only before the publication, and
  a pointer it has is the address of the loop, which exists.\<close>

fun pc_ok :: "nat \<Rightarrow> thread_pc \<Rightarrow> owner_pc \<Rightarrow> bool" where
  "pc_ok a Not_started w \<longleftrightarrow> w \<in> {Created, Destroyed}"
| "pc_ok a Constructing w \<longleftrightarrow> w \<in> {Checking, Sleeping}"
| "pc_ok a Publishing w \<longleftrightarrow> w \<in> {Checking, Sleeping}"
| "pc_ok a Entering w \<longleftrightarrow> w \<in> {Checking, Returned a, Quitting a, Joining}"
| "pc_ok a In_loop w \<longleftrightarrow> w \<in> {Checking, Returned a, Quitting a, Joining}"
| "pc_ok a Leaving w \<longleftrightarrow> w = Joining"
| "pc_ok a Ended w \<longleftrightarrow> w \<in> {Joining, Destroyed}"

definition et_inv :: "'k et_env \<Rightarrow> 'k \<Rightarrow> 'k evl_thread \<Rightarrow> bool" where
  "et_inv E k0 s \<longleftrightarrow>
     pc_ok (env_addr E) (et_thread s) (et_owner s) \<and>
     et_loop s = (if et_thread s \<in> {Entering, In_loop, Leaving} then Some (env_addr E) else None) \<and>
     (et_object s = None \<longleftrightarrow> et_thread s \<in> {Not_started, Constructing, Ended}) \<and>
     (et_thread s \<in> {Not_started, Constructing} \<longrightarrow> et_kern s = k0) \<and>
     (et_thread s \<in> {Publishing, Entering} \<longrightarrow> et_owner s \<noteq> Joining \<longrightarrow>
        (\<exists>r. make_loop E k0 = Inr r \<and> et_object s = Some (rx_loop r) \<and> et_kern s = rx_kern r)) \<and>
     (\<forall>lp. et_thread s = In_loop \<longrightarrow> et_object s = Some lp \<longrightarrow> lp_quit lp \<longrightarrow> et_owner s = Joining)"

lemma quit_sets [simp]: "lp_quit (rx_loop (quit os tid r))"
  by (simp add: quit_def Let_def)

lemma loop_enter_quit [simp]: "\<not> lp_quit (rx_loop (loop_enter r))"
  by (simp add: loop_enter_def)

lemma put_reactor_sel [simp]:
  "et_loop (put_reactor r s) = et_loop s" "et_exiting (put_reactor r s) = et_exiting s"
  "et_thread (put_reactor r s) = et_thread s" "et_owner (put_reactor r s) = et_owner s"
  "et_object (put_reactor r s) = Some (rx_loop r)" "et_kern (put_reactor r s) = rx_kern r"
  by (simp_all add: put_reactor_def)

lemma et_step_inv:
  assumes "turn_keeps_quit E" and "et_inv E k0 s" and "et_step E s t"
  shows "et_inv E k0 t"
  using assms(3)
proof (cases rule: et_step.cases)
  case (turn lp r)
  have "lp_quit (rx_loop r) = lp_quit lp"
    using assms(1) turn(5) by (auto simp: turn_keeps_quit_def et_reactor_def)
  with assms(2) turn show ?thesis by (simp add: et_inv_def)
qed (use assms(2) in \<open>cases "et_thread s"; auto simp: et_inv_def notify_def split: if_splits\<close>)+

lemma et_inv_init: "et_inv E k (EventLoopThread k)"
  by (auto simp: et_inv_def EventLoopThread_def)

lemma et_reach_inv:
  assumes "turn_keeps_quit E" and "et_reach E s t" and "et_inv E k0 s"
  shows "et_inv E k0 t"
  using assms(2,3) by (induction rule: rtranclp_induct) (auto intro: et_step_inv [OF assms(1)])

lemma owner_gets_pointer:
  assumes "et_owner s = Checking" and "et_loop s = Some p"
  shows "\<exists>t. et_reach E s t \<and> et_owner t = Returned p"
proof -
  have "et_step E s (s\<lparr>et_owner := Returned p\<rparr>)" using assms by (rule et_step.return)
  then have "et_reach E s (s\<lparr>et_owner := Returned p\<rparr>)" by (rule r_into_rtranclp)
  then show ?thesis by (intro exI [of _ "s\<lparr>et_owner := Returned p\<rparr>"]) simp
qed

lemma publishing_wakes_owner:
  assumes "et_thread s = Publishing" and "et_owner s \<in> {Checking, Sleeping}"
  shows "\<exists>t. et_reach E s t \<and> et_owner t = Returned (env_addr E)"
proof -
  let ?t = "s\<lparr>et_loop := Some (env_addr E), et_owner := notify (et_owner s), et_thread := Entering\<rparr>"
  have st: "et_step E s ?t" using assms(1) by (rule et_step.publish)
  have "\<exists>t. et_reach E ?t t \<and> et_owner t = Returned (env_addr E)"
    using assms(2) by (intro owner_gets_pointer) (auto simp: notify_def)
  then show ?thesis using st by (meson converse_rtranclp_into_rtranclp)
qed

lemma constructing_wakes_owner:
  assumes "et_thread s = Constructing" and "et_owner s \<in> {Checking, Sleeping}"
    and "make_loop E (et_kern s) = Inr r"
  shows "\<exists>t. et_reach E s t \<and> et_owner t = Returned (env_addr E)"
proof -
  let ?t = "put_reactor r s\<lparr>et_thread := Publishing\<rparr>"
  have st: "et_step E s ?t" using assms(1,3) by (rule et_step.construct)
  have "\<exists>t. et_reach E ?t t \<and> et_owner t = Returned (env_addr E)"
    using assms(2) by (intro publishing_wakes_owner) auto
  then show ?thesis using st by (meson converse_rtranclp_into_rtranclp)
qed

text \<open>A loop that has been entered, with the owner in \<open>join\<close> and \<open>quit_\<close> clear, runs on.\<close>

definition stuck_join :: "'k evl_thread \<Rightarrow> bool" where
  "stuck_join s \<longleftrightarrow> et_thread s = In_loop \<and> et_owner s = Joining \<and>
     (\<exists>lp. et_object s = Some lp \<and> \<not> lp_quit lp)"

lemma stuck_join_step:
  assumes "turn_keeps_quit E" and "et_step E s t" and "stuck_join s"
  shows "stuck_join t"
  using assms(2)
proof (cases rule: et_step.cases)
  case (turn lp r)
  have "lp_quit (rx_loop r) = lp_quit lp"
    using assms(1) turn(5) by (auto simp: turn_keeps_quit_def et_reactor_def)
  with assms(3) turn show ?thesis by (auto simp: stuck_join_def)
qed (use assms(3) in \<open>auto simp: stuck_join_def\<close>)

lemma stuck_join_reach:
  assumes "turn_keeps_quit E" and "et_reach E s t" and "stuck_join s"
  shows "stuck_join t"
  using assms(2,3) by (induction rule: rtranclp_induct) (auto intro: stuck_join_step [OF assms(1)])

lemma quit_race:
  assumes "make_loop E k = Inr r"
  shows "\<exists>s. et_reach E (EventLoopThread k) s \<and> et_exiting s \<and> stuck_join s"
proof -
  let ?a = "env_addr E"
  let ?s0 = "EventLoopThread k"
  let ?s1 = "?s0\<lparr>et_owner := Checking, et_thread := Constructing\<rparr>"
  let ?s2 = "put_reactor r ?s1\<lparr>et_thread := Publishing\<rparr>"
  let ?s3 = "?s2\<lparr>et_loop := Some ?a, et_owner := notify (et_owner ?s2), et_thread := Entering\<rparr>"
  let ?s4 = "?s3\<lparr>et_owner := Returned ?a\<rparr>"
  let ?s5 = "?s4\<lparr>et_exiting := True, et_owner := Quitting ?a\<rparr>"
  let ?r6 = "quit (env_os E) (env_owner E) (et_reactor (rx_loop r) ?s5)"
  let ?s6 = "put_reactor ?r6 ?s5\<lparr>et_owner := Joining\<rparr>"
  let ?s7 = "put_reactor (loop_enter (et_reactor (rx_loop ?r6) ?s6)) ?s6\<lparr>et_thread := In_loop\<rparr>"
  have "et_step E ?s0 ?s1" by (rule et_step.start) (simp add: EventLoopThread_def)
  moreover have "et_step E ?s1 ?s2"
    by (rule et_step.construct) (simp_all add: EventLoopThread_def assms)
  moreover have "et_step E ?s2 ?s3" by (rule et_step.publish) simp
  moreover have "et_step E ?s3 ?s4" by (rule et_step.return) (simp_all add: notify_def)
  moreover have "et_step E ?s4 ?s5" by (rule et_step.dtor_quit) simp_all
  moreover have "et_step E ?s5 ?s6" by (rule et_step.quit) simp_all
  moreover have "et_step E ?s6 ?s7" by (rule et_step.enter) simp_all
  ultimately have "et_reach E ?s0 ?s7" by (meson converse_rtranclp_into_rtranclp rtranclp.rtrancl_refl)
  moreover have "et_exiting ?s7 \<and> stuck_join ?s7" by (simp add: stuck_join_def)
  ultimately show ?thesis by blast
qed

section \<open>The round robin, proved\<close>

lemma thread_name_eq:
  assumes "0 \<le> i" and "i < 2 ^ 31"
  shows "thread_name nm i = c_str nm @ show_nat (nat i)"
proof -
  have "nat i < 10 ^ 10" using assms by simp
  then have "length (show_nat (nat i)) \<le> 10" by (rule length_show_nat_le) simp
  moreover have "length (c_str nm) \<le> length nm" by (simp add: c_str_def length_takeWhile_le)
  ultimately show ?thesis using assms by (simp add: thread_name_def snprintf_def show_int_nonneg)
qed

lemma start_threads_pool:
  assumes "start_threads spawn i n p w = Inr (p', w')" and "0 \<le> i" and "i + int n \<le> 2 ^ 31"
  shows "ep_threads p' = ep_threads p @ map (\<lambda>j. c_str (ep_name p) @ show_nat (nat i + j)) [0..<n]"
    "length (ep_loops p') = length (ep_loops p) + n" "ep_next p' = ep_next p"
    "ep_baseLoop p' = ep_baseLoop p" "ep_numThreads p' = ep_numThreads p"
proof -
  have "ep_threads p' = ep_threads p @ map (\<lambda>j. c_str (ep_name p) @ show_nat (nat i + j)) [0..<n] \<and>
    length (ep_loops p') = length (ep_loops p) + n \<and> ep_next p' = ep_next p \<and>
    ep_baseLoop p' = ep_baseLoop p \<and> ep_numThreads p' = ep_numThreads p"
    using assms
  proof (induction n arbitrary: i p w)
    case 0
    then show ?case by simp
  next
    case (Suc n)
    let ?nm = "thread_name (ep_name p) i"
    obtain lp w1 where sp: "spawn ?nm w = Inr (lp, w1)" using Suc.prems(1) by (auto simp: Let_def elim!: res_bindE)
    let ?p1 = "p\<lparr>ep_threads := ep_threads p @ [?nm], ep_loops := ep_loops p @ [lp]\<rparr>"
    have run: "start_threads spawn (i + 1) n ?p1 w1 = Inr (p', w')" using Suc.prems(1) sp by (simp add: Let_def)
    have nm: "?nm = c_str (ep_name p) @ show_nat (nat i)" using Suc.prems by (intro thread_name_eq) auto
    have shift: "map (\<lambda>j. c_str (ep_name p) @ show_nat (nat i + j)) [0..<Suc n] =
        (c_str (ep_name p) @ show_nat (nat i)) # map (\<lambda>j. c_str (ep_name p) @ show_nat (nat (i + 1) + j)) [0..<n]"
      using Suc.prems(2) by (simp add: upt_conv_Cons map_Suc_upt [symmetric] nat_add_distrib del: upt_Suc)
    show ?case using Suc.IH [OF run] Suc.prems(2,3) unfolding shift by (simp add: nm)
  qed
  then show "ep_threads p' = ep_threads p @ map (\<lambda>j. c_str (ep_name p) @ show_nat (nat i + j)) [0..<n]"
    "length (ep_loops p') = length (ep_loops p) + n" "ep_next p' = ep_next p"
    "ep_baseLoop p' = ep_baseLoop p" "ep_numThreads p' = ep_numThreads p" by blast+
qed

lemma getNextLoop_step:
  assumes "next_ok p" and "ep_loops p \<noteq> []"
  shows "getNextLoop p = Inr (ep_loops p ! nat (ep_next p),
           p\<lparr>ep_next := int ((nat (ep_next p) + 1) mod length (ep_loops p))\<rparr>)"
proof -
  have "(nat (ep_next p) + 1) mod length (ep_loops p) =
      (if length (ep_loops p) \<le> nat (ep_next p) + 1 then 0 else nat (ep_next p) + 1)"
    using assms by (auto simp: next_ok_def le_Suc_eq)
  with assms show ?thesis by (auto simp: getNextLoop_def next_ok_def Let_def nat_add_distrib)
qed

lemma next_ok_mod: "0 < length (ep_loops p) \<Longrightarrow> next_ok (p\<lparr>ep_next := int (m mod length (ep_loops p))\<rparr>)"
  by (simp add: next_ok_def)

lemma next_loops_round:
  assumes "next_ok p" and "ep_loops p \<noteq> []"
  shows "\<exists>p'. next_loops k p =
    Inr (map (\<lambda>i. ep_loops p ! ((nat (ep_next p) + i) mod length (ep_loops p))) [0..<k], p')"
  using assms
proof (induction k arbitrary: p)
  case 0
  then show ?case by simp
next
  case (Suc k)
  let ?n = "length (ep_loops p)"
  let ?p1 = "p\<lparr>ep_next := int ((nat (ep_next p) + 1) mod ?n)\<rparr>"
  have n: "0 < ?n" using Suc.prems(2) by simp
  obtain p' where p': "next_loops k ?p1 =
      Inr (map (\<lambda>i. ep_loops p ! (((nat (ep_next p) + 1) mod ?n + i) mod ?n)) [0..<k], p')"
    using Suc.IH [of ?p1] next_ok_mod [OF n] Suc.prems(2) by auto
  have first: "ep_loops p ! nat (ep_next p) = ep_loops p ! ((nat (ep_next p) + 0) mod ?n)"
    using Suc.prems by (simp add: next_ok_def)
  have "map (\<lambda>i. ep_loops p ! ((nat (ep_next p) + i) mod ?n)) [0..<Suc k] =
      (ep_loops p ! nat (ep_next p)) # map (\<lambda>i. ep_loops p ! (((nat (ep_next p) + 1) mod ?n + i) mod ?n)) [0..<k]"
    unfolding first by (simp add: upt_conv_Cons map_Suc_upt [symmetric] mod_add_left_eq mod_Suc_eq del: upt_Suc)
  then show ?case using p' getNextLoop_step [OF Suc.prems] by (simp del: upt_Suc)
qed

lemma next_loops_base: "ep_loops p = [] \<Longrightarrow> next_loops k p = Inr (replicate k (ep_baseLoop p), p)"
  by (induction k) (simp_all add: getNextLoop_def)

text \<open>A thread on the small kernel.\<close>

definition sim_env :: "kernel et_env" where
  "sim_env = \<lparr>env_os = sim_os, env_use_poll = False, env_tid = 2, env_owner = 1, env_addr = 100,
     env_wptr = 0, env_cb = None, env_turn = Inr\<rparr>"

lemma sim_env_turn: "turn_keeps_quit sim_env"
  by (simp add: turn_keeps_quit_def sim_env_def)

lemma sim_env_makes: "\<exists>r. make_loop sim_env kernel0 = Inr r"
proof -
  have "\<not> isl (make_loop sim_env kernel0)" by code_simp
  then show ?thesis by (cases "make_loop sim_env kernel0") auto
qed

section \<open>Properties\<close>

text \<open>C33: As long as no closure quits the loop, whatever \<open>startLoop\<close> has returned is the published
  address of the thread's loop, which exists, and which is as its constructor left it until the thread
  enters \<open>loop()\<close>; and as long as \<open>startLoop\<close> has not returned, its thread
  asleep or not, it can still return that address: no notification is lost.\<close>

theorem startLoop_hands_over:
  assumes "turn_keeps_quit E" and "make_loop E k = Inr r" and "et_reach E (EventLoopThread k) s"
  shows "(\<forall>p. et_owner s = Returned p \<longrightarrow>
            p = env_addr E \<and> et_loop s = Some p \<and> et_object s \<noteq> None \<and>
            (et_thread s = Entering \<longrightarrow> et_object s = Some (rx_loop r) \<and> et_kern s = rx_kern r)) \<and>
    (et_owner s = Checking \<or> et_owner s = Sleeping \<longrightarrow>
       (\<exists>t. et_reach E s t \<and> et_owner t = Returned (env_addr E)))"
proof -
  have inv: "et_inv E k s" using et_reach_inv [OF assms(1,3) et_inv_init] .
  have "\<exists>t. et_reach E s t \<and> et_owner t = Returned (env_addr E)"
    if "et_owner s = Checking \<or> et_owner s = Sleeping"
  proof (cases "et_thread s")
    case Constructing
    then show ?thesis using that inv assms(2) by (intro constructing_wakes_owner) (auto simp: et_inv_def)
  next
    case Publishing
    then show ?thesis using that by (intro publishing_wakes_owner) auto
  qed (use inv that in \<open>auto simp: et_inv_def intro: owner_gets_pointer\<close>)
  moreover have "p = env_addr E \<and> et_loop s = Some p \<and> et_object s \<noteq> None \<and>
      (et_thread s = Entering \<longrightarrow> et_object s = Some (rx_loop r) \<and> et_kern s = rx_kern r)" if "et_owner s = Returned p" for p
    using inv that assms(2) by (cases "et_thread s") (auto simp: et_inv_def)
  ultimately show ?thesis by blast
qed

theorem startLoop_hands_over_witness:
  "\<exists>t. et_reach sim_env (EventLoopThread kernel0\<lparr>et_owner := Checking, et_thread := Constructing\<rparr>) t \<and>
     et_owner t = Returned 100"
proof -
  let ?s = "EventLoopThread kernel0\<lparr>et_owner := Checking, et_thread := Constructing\<rparr>"
  obtain r where r: "make_loop sim_env kernel0 = Inr r" using sim_env_makes by blast
  have "et_step sim_env (EventLoopThread kernel0) ?s"
    by (rule et_step.start) (simp add: EventLoopThread_def)
  then have "et_reach sim_env (EventLoopThread kernel0) ?s" by (rule r_into_rtranclp)
  from startLoop_hands_over [OF sim_env_turn r this] show ?thesis
    by (simp add: EventLoopThread_def sim_env_def)
qed

text \<open>C35: The destructor of a loop thread can wait forever: when it calls \<open>quit\<close> after the loop is
  published but before \<open>loop()\<close> is entered, \<open>loop()\<close> clears the flag again, and from then on every
  reachable state has the owner in \<open>join\<close>.\<close>

theorem quit_before_loop_hangs_destructor:
  assumes "turn_keeps_quit E" and "make_loop E k = Inr r"
  shows "\<exists>s. et_reach E (EventLoopThread k) s \<and> et_exiting s \<and>
    (\<forall>t. et_reach E s t \<longrightarrow> et_owner t = Joining)"
proof -
  obtain s where s: "et_reach E (EventLoopThread k) s" "et_exiting s" "stuck_join s"
    using quit_race [OF assms(2)] by blast
  have "et_owner t = Joining" if "et_reach E s t" for t
    using stuck_join_reach [OF assms(1) that s(3)] by (simp add: stuck_join_def)
  with s show ?thesis by blast
qed

theorem quit_before_loop_hangs_destructor_witness:
  "\<exists>s. et_reach sim_env (EventLoopThread kernel0) s \<and> et_exiting s \<and>
    (\<forall>t. et_reach sim_env s t \<longrightarrow> et_owner t = Joining)"
  using quit_before_loop_hangs_destructor [OF sim_env_turn] sim_env_makes by blast

text \<open>C32: A pool started with \<open>n\<close> threads has one loop and one name per thread, in order; successive
  calls of \<open>getNextLoop\<close> answer its loops in turn, starting with the first, so any number of calls
  is served without a fault and \<open>n\<close> of them use every loop once. Without threads every call answers
  the base loop.\<close>

theorem pool_round_robin:
  assumes "0 \<le> n" and "n < 2 ^ 31"
    and "pool_start spawn cb (pool_setThreadNum n (EventLoopThreadPool base nm)) w = Inr (p, w')"
  shows "length (ep_loops p) = nat n \<and>
    ep_threads p = map (\<lambda>i. c_str nm @ show_nat i) [0..<nat n] \<and>
    (\<exists>p'. next_loops k p =
       Inr (map (\<lambda>i. if n = 0 then base else ep_loops p ! (i mod nat n)) [0..<k], p')) \<and>
    (0 < n \<longrightarrow> (\<exists>ls p'. next_loops (nat n) p = Inr (ls, p') \<and> mset ls = mset (ep_loops p)))"
proof -
  let ?p0 = "(pool_setThreadNum n (EventLoopThreadPool base nm))\<lparr>ep_started := True\<rparr>"
  obtain w1 where st: "start_threads spawn 0 (nat n) ?p0 w = Inr (p, w1)"
    using assms(3) by (auto simp: pool_start_def pool_setThreadNum_def EventLoopThreadPool_def
        elim!: res_bindE split: if_splits option.splits)
  have bound: "0 + int (nat n) \<le> 2 ^ 31" using assms(1,2) by simp
  note facts = start_threads_pool [OF st order_refl bound]
  have len: "length (ep_loops p) = nat n" and nxt: "ep_next p = 0" and b: "ep_baseLoop p = base"
    and th: "ep_threads p = map (\<lambda>i. c_str nm @ show_nat i) [0..<nat n]"
    using facts by (simp_all add: pool_setThreadNum_def EventLoopThreadPool_def)
  have round: "\<exists>p'. next_loops k p =
      Inr (map (\<lambda>i. if n = 0 then base else ep_loops p ! (i mod nat n)) [0..<k], p')" for k
  proof (cases "n = 0")
    case True
    with len have "ep_loops p = []" by simp
    then show ?thesis using True by (simp add: next_loops_base b map_replicate_const)
  next
    case False
    with assms(1) len have "ep_loops p \<noteq> []" by auto
    moreover have "next_ok p" using nxt len False assms(1) by (auto simp: next_ok_def)
    ultimately show ?thesis using next_loops_round [of p k] nxt len False by simp
  qed
  have "\<exists>ls p'. next_loops (nat n) p = Inr (ls, p') \<and> mset ls = mset (ep_loops p)" if n: "0 < n"
  proof -
    have "map (\<lambda>i. if n = 0 then base else ep_loops p ! (i mod nat n)) [0..<nat n] =
        map (\<lambda>i. ep_loops p ! i) [0..<length (ep_loops p)]"
      using n len by (intro map_cong) auto
    then have "map (\<lambda>i. if n = 0 then base else ep_loops p ! (i mod nat n)) [0..<nat n] = ep_loops p"
      by (simp only: map_nth)
    then show ?thesis using round [of "nat n"] by auto
  qed
  then show ?thesis using len th round [of k] by blast
qed

theorem pool_round_robin_witness:
  "\<exists>p. pool_start (\<lambda>_ w. Inr (w, Suc w)) None (pool_setThreadNum 3 (EventLoopThreadPool 7 ''srv'')) 10 = Inr (p, 13) \<and>
     ep_loops p = [10, 11, 12] \<and> ep_threads p = [''srv0'', ''srv1'', ''srv2''] \<and>
     (\<exists>p'. next_loops 4 p = Inr ([10, 11, 12, 10], p'))"
proof -
  let ?start = "pool_start (\<lambda>_ w. Inr (w, Suc w)) None (pool_setThreadNum 3 (EventLoopThreadPool 7 ''srv'')) 10"
  let ?p = "\<lparr>ep_baseLoop = 7, ep_name = ''srv'', ep_started = True, ep_numThreads = 3, ep_next = 0,
      ep_threads = [''srv0'', ''srv1'', ''srv2''], ep_loops = [10, 11, 12]\<rparr>"
  have st: "?start = Inr (?p, 13)" by code_simp
  have n: "0 \<le> (3 :: int)" "(3 :: int) < 2 ^ 31" by simp_all
  have up: "[0..<4] = [0, 1, 2, 3 :: nat]" by (simp add: upt_rec)
  have "\<exists>p'. next_loops 4 ?p =
      Inr (map (\<lambda>i. if (3 :: int) = 0 then 7 else ep_loops ?p ! (i mod nat 3)) [0..<4], p')"
    using pool_round_robin [OF n st, of 4] by (elim conjE)
  then have "\<exists>p'. next_loops 4 ?p = Inr ([10, 11, 12, 10], p')"
    by (simp add: up)
  with st show ?thesis by auto
qed

end
