(* ===== verification/Net_Server.thy ===== *)
theory Net_Server
  imports Net_Connection Net_LoopThread
begin

text \<open>
  \<open>common/net/Acceptor.cc\<close>, the rest of \<open>Socket.cc\<close>, \<open>TcpServer.cc\<close>, and its two clients
  \<open>db_proxy_server/DBServer.cc\<close> and \<open>test/echoserver/main.cpp\<close>. The state \<open>server\<close> extends the state of a
  connection on its loop: \<open>rx_loop\<close> is the loop whose thread runs, \<open>sv_cur\<close> its address and \<open>sv_loops\<close>
  the other loops; \<open>cs_conn\<close> is the connection whose member function runs and \<open>sv_objects\<close> holds every
  connection object between calls. So the operations of \<open>Net_Connection\<close> work on a server as they
  are, and the close callback the server installs can reach the server. The application's functions
  are the argument \<open>app\<close>; which of them are installed is part of the state, because the server
  copies them into a connection when it creates it.
\<close>

section \<open>The model\<close>

record acceptor =
  ac_fd :: int
  ac_channel :: channel
  ac_newConnectionCallback :: bool
  ac_listenning :: bool

record cb_flags =
  has_connectionCallback :: bool
  has_messageCallback :: bool
  has_writeCompleteCallback :: bool

record 'k server = "'k conn_state" +
  sv_cur :: nat
  sv_loops :: "nat \<Rightarrow> event_loop option"
  sv_objects :: "nat \<Rightarrow> tcp_connection option"
  sv_conn_loop :: "nat \<Rightarrow> nat"
  sv_conn_cbs :: "nat \<Rightarrow> cb_flags"
  sv_fresh :: nat
  sv_loop :: nat
  sv_ipPort :: string
  sv_name :: string
  sv_acceptor :: acceptor
  sv_pool :: evl_pool
  sv_cbs :: cb_flags
  sv_started :: int
  sv_nextConnId :: int
  sv_connections :: "string \<Rightarrow> nat option"

subsection \<open>Sockets and the acceptor\<close>

definition bindAddress :: "'k os \<Rightarrow> int \<Rightarrow> sockaddr_in \<Rightarrow> 'k \<Rightarrow> 'k res" where
  "bindAddress os sockfd localaddr k =
     (case os_bind os sockfd localaddr k of (r, k') \<Rightarrow> if r \<noteq> 0 then Inl Fatal_Exit else Inr k')"

definition socket_listen :: "'k os \<Rightarrow> int \<Rightarrow> 'k \<Rightarrow> 'k res" where
  "socket_listen os sockfd k =
     (case os_listen os sockfd 1024 k of (r, k') \<Rightarrow> if r \<noteq> 0 then Inl Fatal_Exit else Inr k')"

text \<open>\<open>accept\<close> answers the descriptor and stores the peer's address only when there is a descriptor.\<close>

definition socket_accept :: "'k os \<Rightarrow> int \<Rightarrow> sockaddr_in \<Rightarrow> 'k \<Rightarrow> int \<times> sockaddr_in \<times> 'k" where
  "socket_accept os sockfd peeraddr k =
     (case os_accept4 os sockfd k of
        (Inl errno, k') \<Rightarrow> (-1, peeraddr, k')
      | (Inr (connfd, addr), k') \<Rightarrow> (connfd, if 0 \<le> connfd then addr else peeraddr, k'))"

definition setTcpNoDelay :: "'k os \<Rightarrow> int \<Rightarrow> bool \<Rightarrow> 'k \<Rightarrow> 'k" where
  "setTcpNoDelay os sockfd on k = os_setsockopt os sockfd ''TCP_NODELAY'' on k"

definition setReuseAddr :: "'k os \<Rightarrow> int \<Rightarrow> bool \<Rightarrow> 'k \<Rightarrow> 'k" where
  "setReuseAddr os sockfd on k = os_setsockopt os sockfd ''SO_REUSEADDR'' on k"

definition setReusePort :: "'k os \<Rightarrow> int \<Rightarrow> bool \<Rightarrow> 'k \<Rightarrow> 'k" where
  "setReusePort os sockfd on k = os_setsockopt os sockfd ''SO_REUSEPORT'' on k"

definition setKeepAlive :: "'k os \<Rightarrow> int \<Rightarrow> bool \<Rightarrow> 'k \<Rightarrow> 'k" where
  "setKeepAlive os sockfd on k = os_setsockopt os sockfd ''SO_KEEPALIVE'' on k"

definition createNonblocking :: "'k os \<Rightarrow> 'k \<Rightarrow> (int \<times> 'k) res" where
  "createNonblocking os k =
     (case os_socket os k of (sockfd, k') \<Rightarrow> if sockfd < 0 then Inl Fatal_Exit else Inr (sockfd, k'))"

text \<open>The constructor sets both reuse options whatever \<open>reuseport\<close> says.\<close>

definition Acceptor :: "'k os \<Rightarrow> sockaddr_in \<Rightarrow> bool \<Rightarrow> nat \<Rightarrow> 'k \<Rightarrow> (acceptor \<times> 'k) res" where
  "Acceptor os listenAddr reuseport aptr k =
     res_bind (createNonblocking os k) (\<lambda>(fd, k1).
     res_bind (bindAddress os fd listenAddr (setReusePort os fd True (setReuseAddr os fd True k1))) (\<lambda>k2.
       Inr (\<lparr>ac_fd = fd, ac_channel = (Channel aptr fd)\<lparr>readCallback := Some Acceptor_handleRead\<rparr>,
             ac_newConnectionCallback = False, ac_listenning = False\<rparr>, k2)))"

text \<open>A member of \<open>acceptChannel_\<close> that goes through the base loop.\<close>

definition on_accept_channel ::
    "(channel \<Rightarrow> 'k server \<Rightarrow> (channel \<times> 'k server) res) \<Rightarrow> 'k server \<Rightarrow> 'k server res" where
  "on_accept_channel f s =
     res_bind (f (ac_channel (sv_acceptor s)) s) (\<lambda>(ch, s').
       Inr (s'\<lparr>sv_acceptor := (sv_acceptor s')\<lparr>ac_channel := ch\<rparr>\<rparr>))"

definition Acceptor_dtor :: "'k os \<Rightarrow> 'k server \<Rightarrow> 'k server res" where
  "Acceptor_dtor os s =
     res_bind (on_accept_channel (disableAll os) s) (on_accept_channel (chan_remove os))"

definition acceptor_listen :: "'k os \<Rightarrow> 'k server \<Rightarrow> 'k server res" where
  "acceptor_listen os s =
     (let s1 = s\<lparr>sv_acceptor := (sv_acceptor s)\<lparr>ac_listenning := True\<rparr>\<rparr> in
      res_bind (socket_listen os (ac_fd (sv_acceptor s1)) (rx_kern s1)) (\<lambda>k.
        on_accept_channel (enableReading os) (s1\<lparr>rx_kern := k\<rparr>)))"

subsection \<open>Loops and connections of a server\<close>

text \<open>Working on the loop at an address. The loop that runs stays where it is; a pointer to a loop
  that does not exist is undefined.\<close>

definition with_loop :: "nat \<Rightarrow> ('k server \<Rightarrow> 'k server res) \<Rightarrow> 'k server \<Rightarrow> 'k server res" where
  "with_loop a f s =
     (if a = sv_cur s then f s
      else case sv_loops s a of
        None \<Rightarrow> Inl Undefined_Behaviour
      | Some lp \<Rightarrow>
          res_bind (f (s\<lparr>rx_loop := lp, sv_cur := a, sv_loops := (sv_loops s)(sv_cur s := Some (rx_loop s))\<rparr>)) (\<lambda>s'.
            case sv_loops s' (sv_cur s) of
              None \<Rightarrow> Inl Undefined_Behaviour
            | Some back \<Rightarrow>
                Inr (s'\<lparr>rx_loop := back, sv_cur := sv_cur s,
                        sv_loops := (sv_loops s')(sv_cur s := None, a := Some (rx_loop s'))\<rparr>)))"

text \<open>A member function of a connection object: the object is loaded, and stored when it returns.\<close>

definition with_conn :: "nat \<Rightarrow> ('k server \<Rightarrow> 'k server res) \<Rightarrow> 'k server \<Rightarrow> 'k server res" where
  "with_conn i f s =
     (case sv_objects s i of
        None \<Rightarrow> Inl Undefined_Behaviour
      | Some c \<Rightarrow>
          res_bind (f (s\<lparr>cs_conn := c\<rparr>)) (\<lambda>s'. Inr (s'\<lparr>sv_objects := (sv_objects s')(i \<mapsto> cs_conn s')\<rparr>)))"

definition removeConnectionInLoop :: "'k os \<Rightarrow> int \<Rightarrow> nat \<Rightarrow> 'k server \<Rightarrow> 'k server res" where
  "removeConnectionInLoop os tid i s =
     (case sv_objects s i of
        None \<Rightarrow> Inl Undefined_Behaviour
      | Some c \<Rightarrow>
          with_loop (sv_conn_loop s i) (\<lambda>s1. Inr (queueInLoop os tid (Fn_connectDestroyed i) s1))
            (s\<lparr>sv_connections := (sv_connections s)(cn_name c := None)\<rparr>))"

definition removeConnection :: "'k os \<Rightarrow> int \<Rightarrow> nat \<Rightarrow> 'k server \<Rightarrow> 'k server res" where
  "removeConnection os tid i s =
     with_loop (sv_loop s)
       (runInLoop os (\<lambda>_. removeConnectionInLoop os tid i) tid (Fn_removeConnectionInLoop i)) s"

text \<open>The callbacks a connection carries: those of the application that were installed when the
  connection was created, and \<open>removeConnection\<close>.\<close>

definition conn_cbs :: "'k os \<Rightarrow> 'k server conn_callbacks \<Rightarrow> int \<Rightarrow> cb_flags \<Rightarrow> nat \<Rightarrow> 'k server conn_callbacks" where
  "conn_cbs os app tid fl i =
     \<lparr>connectionCallback = (if has_connectionCallback fl then connectionCallback app else None),
      messageCallback = (if has_messageCallback fl then messageCallback app else None),
      writeCompleteCallback = (if has_writeCompleteCallback fl then writeCompleteCallback app else None),
      highWaterMarkCallback = None,
      closeCallback_conn = Some (removeConnection os tid i)\<rparr>"

text \<open>Running a closure of a loop of the server. \<open>mem\<close> is the memory of \<open>send\<close> closures, \<open>user\<close> what
  closures of the application do.\<close>

definition closure_conn :: "closure \<Rightarrow> nat option" where
  "closure_conn f =
     (case f of
        Fn_connectEstablished i \<Rightarrow> Some i | Fn_connectDestroyed i \<Rightarrow> Some i
      | Fn_sendInLoop i p n \<Rightarrow> Some i | Fn_shutdownInLoop i \<Rightarrow> Some i
      | Fn_writeComplete i \<Rightarrow> Some i | Fn_highWaterMark i n \<Rightarrow> Some i
      | _ \<Rightarrow> None)"

definition server_exec ::
    "'k os \<Rightarrow> 'k server conn_callbacks \<Rightarrow> int \<Rightarrow> (nat \<Rightarrow> nat \<Rightarrow> bytes option) \<Rightarrow>
     (nat \<Rightarrow> 'k server \<Rightarrow> 'k server res) \<Rightarrow> closure \<Rightarrow> 'k server \<Rightarrow> 'k server res" where
  "server_exec os app tid mem user f s =
     (case closure_conn f of
        Some i \<Rightarrow> with_conn i (conn_exec os (conn_cbs os app tid (sv_conn_cbs s i) i) tid mem f) s
      | None \<Rightarrow>
          (case f of
             Fn_removeConnectionInLoop i \<Rightarrow> removeConnectionInLoop os tid i s
           | Fn_listen \<Rightarrow> acceptor_listen os s
           | Fn_user n \<Rightarrow> user n s
           | _ \<Rightarrow> Inr s))"

subsection \<open>The server\<close>

text \<open>The constructor, for a base loop at address \<open>a\<close>. \<open>obj0\<close> stands for the fact that no
  connection is being worked on.\<close>

definition TcpServer ::
    "'k os \<Rightarrow> tcp_connection \<Rightarrow> nat option \<Rightarrow> sockaddr_in \<Rightarrow> string \<Rightarrow> bool \<Rightarrow> nat \<Rightarrow> 'k reactor \<Rightarrow> 'k server res" where
  "TcpServer os obj0 lp listenAddr nameArg reuse aptr r =
     (case lp of
        None \<Rightarrow> Inl Fatal_Exit
      | Some a \<Rightarrow>
          res_bind (toIpPort listenAddr) (\<lambda>ipPort.
          res_bind (Acceptor os listenAddr reuse aptr (rx_kern r)) (\<lambda>(acc, k).
            Inr \<lparr>rx_loop = rx_loop r, rx_kern = k, cs_conn = obj0, sv_cur = a, sv_loops = Map.empty,
                 sv_objects = Map.empty, sv_conn_loop = (\<lambda>_. a),
                 sv_conn_cbs = (\<lambda>_. \<lparr>has_connectionCallback = False, has_messageCallback = False,
                                    has_writeCompleteCallback = False\<rparr>),
                 sv_fresh = 0, sv_loop = a, sv_ipPort = ipPort, sv_name = nameArg,
                 sv_acceptor = acc\<lparr>ac_newConnectionCallback := True\<rparr>,
                 sv_pool = EventLoopThreadPool a nameArg,
                 sv_cbs = \<lparr>has_connectionCallback = False, has_messageCallback = False,
                           has_writeCompleteCallback = False\<rparr>,
                 sv_started = 0, sv_nextConnId = 1, sv_connections = Map.empty\<rparr>)))"

definition setConnectionCallback :: "'k server \<Rightarrow> 'k server" where
  "setConnectionCallback s = s\<lparr>sv_cbs := (sv_cbs s)\<lparr>has_connectionCallback := True\<rparr>\<rparr>"

definition setMessageCallback :: "'k server \<Rightarrow> 'k server" where
  "setMessageCallback s = s\<lparr>sv_cbs := (sv_cbs s)\<lparr>has_messageCallback := True\<rparr>\<rparr>"

definition setWriteCompleteCallback :: "'k server \<Rightarrow> 'k server" where
  "setWriteCompleteCallback s = s\<lparr>sv_cbs := (sv_cbs s)\<lparr>has_writeCompleteCallback := True\<rparr>\<rparr>"

definition setThreadNum :: "int \<Rightarrow> 'k server \<Rightarrow> 'k server" where
  "setThreadNum numThreads s = s\<lparr>sv_pool := pool_setThreadNum numThreads (sv_pool s)\<rparr>"

text \<open>\<open>EventLoopThread::startLoop\<close> as its caller sees it: the new thread has made its loop. What else can
  happen between the two threads is \<open>Net_LoopThread.et_step\<close>, where this is the state in which the
  pointer is handed over; the turns of the new loop are steps of their own. \<open>envs\<close> says where the thread
  and its objects are placed.\<close>

definition startLoop :: "(string \<Rightarrow> 'k server \<Rightarrow> 'k et_env) \<Rightarrow> string \<Rightarrow> 'k server \<Rightarrow> (nat \<times> 'k server) res" where
  "startLoop envs nm s =
     res_bind (make_loop (envs nm s) (rx_kern s)) (\<lambda>r.
       Inr (env_addr (envs nm s), s\<lparr>sv_loops := (sv_loops s)(env_addr (envs nm s) \<mapsto> rx_loop r), rx_kern := rx_kern r\<rparr>))"

text \<open>\<open>start\<close>; \<open>init\<close> is the thread init callback if one is installed.\<close>

definition start ::
    "'k os \<Rightarrow> (string \<Rightarrow> 'k server \<Rightarrow> 'k et_env) \<Rightarrow> (nat \<Rightarrow> 'k server \<Rightarrow> 'k server res) option \<Rightarrow> int \<Rightarrow>
     'k server \<Rightarrow> 'k server res" where
  "start os envs init tid s =
     (let s1 = s\<lparr>sv_started := sv_started s + 1\<rparr> in
      if sv_started s = 0 then
        res_bind (pool_start (startLoop envs) init (sv_pool s1) s1) (\<lambda>(p, s2).
          with_loop (sv_loop s) (runInLoop os (\<lambda>_. acceptor_listen os) tid Fn_listen) (s2\<lparr>sv_pool := p\<rparr>))
      else Inr s1)"

definition conn_name :: "string \<Rightarrow> string \<Rightarrow> int \<Rightarrow> string" where
  "conn_name nm ipPort connId =
     nm @ snprintf 64 (''-'' @ c_str ipPort @ ''#'' @ show_int connId)"

definition zero_addr :: sockaddr_in where
  "zero_addr = \<lparr>sin_family = 0, sin_port = 0, sin_addr = (0, 0, 0, 0)\<rparr>"

text \<open>\<open>newConnection\<close>, in the thread of the base loop. The increment of \<open>nextConnId_\<close> is undefined at
  the largest \<open>int\<close>. \<open>cptr\<close> is the address of the channel of the new object.\<close>

definition newConnection ::
    "'k os \<Rightarrow> 'k server conn_callbacks \<Rightarrow> int \<Rightarrow> (nat \<Rightarrow> nat) \<Rightarrow> int \<Rightarrow> sockaddr_in \<Rightarrow> 'k server \<Rightarrow> 'k server res" where
  "newConnection os app tid cptr sockfd peerAddr s =
     res_bind (getNextLoop (sv_pool s)) (\<lambda>(ioLoop, p).
       if sv_nextConnId s = 2 ^ 31 - 1 then Inl Undefined_Behaviour
       else
         let connName = conn_name (sv_name s) (sv_ipPort s) (sv_nextConnId s);
             obj = sv_fresh s
         in case os_getsockname os sockfd (rx_kern s) of (r, k1) \<Rightarrow>
              let localAddr = (case r of Inl errno \<Rightarrow> zero_addr | Inr a \<Rightarrow> a) in
              res_bind (TcpConnection os False obj connName sockfd localAddr peerAddr (cptr obj) k1) (\<lambda>(conn, k2).
                let s1 = s\<lparr>rx_kern := k2, sv_pool := p, sv_nextConnId := sv_nextConnId s + 1,
                           sv_fresh := Suc obj, sv_objects := (sv_objects s)(obj \<mapsto> conn),
                           sv_conn_loop := (sv_conn_loop s)(obj := ioLoop),
                           sv_conn_cbs := (sv_conn_cbs s)(obj := sv_cbs s),
                           sv_connections := (sv_connections s)(connName \<mapsto> obj)\<rparr>
                in with_loop ioLoop
                     (runInLoop os (\<lambda>_. with_conn obj (connectEstablished os (conn_cbs os app tid (sv_cbs s) obj)))
                        tid (Fn_connectEstablished obj)) s1))"

text \<open>\<open>Acceptor::handleRead\<close>, with the callback the server installs.\<close>

definition acceptor_handleRead ::
    "'k os \<Rightarrow> 'k server conn_callbacks \<Rightarrow> int \<Rightarrow> (nat \<Rightarrow> nat) \<Rightarrow> sockaddr_in \<Rightarrow> 'k server \<Rightarrow> 'k server res" where
  "acceptor_handleRead os app tid cptr peer0 s =
     (case socket_accept os (ac_fd (sv_acceptor s)) peer0 (rx_kern s) of (connfd, peerAddr, k1) \<Rightarrow>
        let s1 = s\<lparr>rx_kern := k1\<rparr> in
        if 0 \<le> connfd then
          if ac_newConnectionCallback (sv_acceptor s1) then newConnection os app tid cptr connfd peerAddr s1
          else Inr (s1\<lparr>rx_kern := os_close os connfd k1\<rparr>)
        else Inr s1)"

text \<open>The destructor destroys every connection in its own loop; \<open>order\<close> is the order in which the
  hash map gives its entries.\<close>

definition TcpServer_dtor ::
    "'k os \<Rightarrow> 'k server conn_callbacks \<Rightarrow> int \<Rightarrow> string list \<Rightarrow> 'k server \<Rightarrow> 'k server res" where
  "TcpServer_dtor os app tid order s =
     fold_res (\<lambda>nm s1.
       case sv_connections s1 nm of
         None \<Rightarrow> Inr s1
       | Some i \<Rightarrow>
           with_loop (sv_conn_loop s1 i)
             (runInLoop os (\<lambda>_. with_conn i (connectDestroyed os (conn_cbs os app tid (sv_conn_cbs s1 i) i)))
                tid (Fn_connectDestroyed i)) s1) order s"

subsection \<open>Clients\<close>

text \<open>\<open>CDBServer\<close> installs no callback and asks for 48 threads.\<close>

definition CDBServer ::
    "'k os \<Rightarrow> tcp_connection \<Rightarrow> nat option \<Rightarrow> sockaddr_in \<Rightarrow> string \<Rightarrow> nat \<Rightarrow> 'k reactor \<Rightarrow> 'k server res" where
  "CDBServer os obj0 lp listenAddr nameArg aptr r =
     res_bind (TcpServer os obj0 lp listenAddr nameArg False aptr r) (\<lambda>s. Inr (setThreadNum 48 s))"

definition CDBServer_start ::
    "'k os \<Rightarrow> (string \<Rightarrow> 'k server \<Rightarrow> 'k et_env) \<Rightarrow> int \<Rightarrow> 'k server \<Rightarrow> 'k server res" where
  "CDBServer_start os envs tid s = start os envs None tid s"

text \<open>The echo server: what it received is sent back and the connection is shut down.\<close>

definition echo_onConnection :: "('k, 'a) conn_state_scheme \<Rightarrow> ('k, 'a) conn_state_scheme res" where
  "echo_onConnection s = Inr s"

definition echo_onMessage ::
    "'k os \<Rightarrow> ('k, 'a) conn_state_scheme conn_callbacks \<Rightarrow> int \<Rightarrow> nat \<Rightarrow>
     ('k, 'a) conn_state_scheme \<Rightarrow> ('k, 'a) conn_state_scheme res" where
  "echo_onMessage os cbs tid sptr s =
     res_bind (retrieveAllAsString (cn_inputBuffer (cs_conn s))) (\<lambda>(msg, b).
     res_bind (send os cbs tid sptr msg (s\<lparr>cs_conn := (cs_conn s)\<lparr>cn_inputBuffer := b\<rparr>\<rparr>)) (\<lambda>s1.
       Inr (shutdown os tid s1)))"

definition EchoServer ::
    "'k os \<Rightarrow> tcp_connection \<Rightarrow> nat option \<Rightarrow> sockaddr_in \<Rightarrow> string \<Rightarrow> nat \<Rightarrow> 'k reactor \<Rightarrow> 'k server res" where
  "EchoServer os obj0 lp addr nm aptr r =
     res_bind (TcpServer os obj0 lp addr nm False aptr r) (\<lambda>s.
       Inr (setThreadNum 3 (setMessageCallback (setConnectionCallback s))))"

section \<open>The tables of the server\<close>

text \<open>What the server remembers of its connections.\<close>

definition tables ::
    "'k server \<Rightarrow> (string \<Rightarrow> nat option) \<times> (nat \<Rightarrow> string option) \<times> nat \<times> int \<times> string \<times> string" where
  "tables s = (sv_connections s, \<lambda>i. map_option cn_name (sv_objects s i), sv_fresh s, sv_nextConnId s,
     sv_name s, sv_ipPort s)"

text \<open>The members of \<open>TcpServer\<close> are private: a callback of the application cannot change the tables,
  nor the name of its connection.\<close>

definition keeps_tables :: "('k server \<Rightarrow> 'k server res) \<Rightarrow> bool" where
  "keeps_tables f \<longleftrightarrow> (\<forall>s s'. f s = Inr s' \<longrightarrow> tables s' = tables s)"

definition keeps_names :: "('k server \<Rightarrow> 'k server res) \<Rightarrow> bool" where
  "keeps_names f \<longleftrightarrow> (\<forall>s s'. f s = Inr s' \<longrightarrow> tables s' = tables s \<and> cn_name (cs_conn s') = cn_name (cs_conn s))"

definition app_keeps_names :: "'k server conn_callbacks \<Rightarrow> bool" where
  "app_keeps_names app \<longleftrightarrow> (\<forall>f. connectionCallback app = Some f \<longrightarrow> keeps_names f)"

lemma keeps_tablesD: "keeps_tables f \<Longrightarrow> f s = Inr s' \<Longrightarrow> tables s' = tables s"
  by (auto simp: keeps_tables_def)

lemma keeps_namesD:
  "keeps_names f \<Longrightarrow> f s = Inr s' \<Longrightarrow> tables s' = tables s \<and> cn_name (cs_conn s') = cn_name (cs_conn s)"
  by (auto simp: keeps_names_def)

lemma keeps_names_bind:
  "keeps_names f \<Longrightarrow> keeps_names g \<Longrightarrow> keeps_names (\<lambda>s. res_bind (f s) g)"
  by (fastforce simp: keeps_names_def elim!: res_bindE)

lemma loop_updateChannel_shape:
  "loop_updateChannel os ch r = Inr (ch', r') \<Longrightarrow>
     \<exists>p k. r' = r\<lparr>rx_loop := (rx_loop r)\<lparr>lp_poller := p\<rparr>, rx_kern := k\<rparr>"
  by (auto simp: loop_updateChannel_def elim!: res_bindE)

lemma keeps_names_on_channel:
  assumes "\<And>ch s ch' s'. f ch s = Inr (ch', s') \<Longrightarrow> \<exists>l k. s' = s\<lparr>rx_loop := l, rx_kern := k\<rparr>"
  shows "keeps_names (on_channel f)"
proof (unfold keeps_names_def, intro allI impI)
  fix s s' assume "on_channel f s = Inr s'"
  then obtain ch r where "f (cn_channel (cs_conn s)) s = Inr (ch, r)"
    and s': "s' = r\<lparr>cs_conn := (cs_conn r)\<lparr>cn_channel := ch\<rparr>\<rparr>"
    by (auto simp: on_channel_def elim!: res_bindE)
  from assms [OF this(1)] obtain l k where "r = s\<lparr>rx_loop := l, rx_kern := k\<rparr>" by blast
  then show "tables s' = tables s \<and> cn_name (cs_conn s') = cn_name (cs_conn s)"
    by (simp add: s' tables_def)
qed

lemma keeps_names_enableReading: "keeps_names (on_channel (enableReading os))"
  by (rule keeps_names_on_channel) (auto simp: enableReading_def dest!: loop_updateChannel_shape)

lemma tables_reactor [simp]:
  "tables (s\<lparr>rx_loop := l\<rparr>) = tables s" "tables (s\<lparr>rx_kern := k\<rparr>) = tables s"
  "tables (s\<lparr>cs_conn := c\<rparr>) = tables s" "tables (s\<lparr>sv_cur := a\<rparr>) = tables s"
  "tables (s\<lparr>sv_loops := ls\<rparr>) = tables s" "tables (s\<lparr>sv_pool := p\<rparr>) = tables s"
  "tables (s\<lparr>sv_conn_loop := cl\<rparr>) = tables s" "tables (s\<lparr>sv_conn_cbs := cc\<rparr>) = tables s"
  by (simp_all add: tables_def)

lemma queueInLoop_server [simp]:
  fixes s :: "'k server"
  shows "tables (queueInLoop os tid f s) = tables s" "sv_cur (queueInLoop os tid f s) = sv_cur s"
    "sv_loops (queueInLoop os tid f s) = sv_loops s" "sv_objects (queueInLoop os tid f s) = sv_objects s"
    "sv_conn_loop (queueInLoop os tid f s) = sv_conn_loop s" "sv_pool (queueInLoop os tid f s) = sv_pool s"
    "sv_conn_cbs (queueInLoop os tid f s) = sv_conn_cbs s"
  by (simp_all add: queueInLoop_def wakeup_def Let_def split: prod.splits)

lemma keeps_tables_with_loop:
  assumes "keeps_tables f"
  shows "keeps_tables (with_loop a f)"
  unfolding keeps_tables_def
  by (auto simp: with_loop_def split: if_splits option.splits elim!: res_bindE dest!: keeps_tablesD [OF assms])

lemma keeps_tables_runInLoop:
  assumes "\<And>g. keeps_tables (exec g)"
  shows "keeps_tables (runInLoop os exec tid g)"
  unfolding keeps_tables_def
  by (auto simp: runInLoop_def split: if_splits dest!: keeps_tablesD [OF assms])

lemma keeps_tables_with_conn:
  assumes "keeps_names f"
  shows "keeps_tables (with_conn i f)"
proof -
  have "tables s' = tables s" if run: "with_conn i f s = Inr s'" for s s'
  proof -
    obtain c s1 where c: "sv_objects s i = Some c" and f: "f (s\<lparr>cs_conn := c\<rparr>) = Inr s1"
      and s': "s' = s1\<lparr>sv_objects := (sv_objects s1)(i \<mapsto> cs_conn s1)\<rparr>"
      using run by (auto simp: with_conn_def split: option.splits elim!: res_bindE)
    have k: "tables s1 = tables s" "cn_name (cs_conn s1) = cn_name c" using keeps_namesD [OF assms f] by auto
    then have "map_option cn_name (sv_objects s1 j) = map_option cn_name (sv_objects s j)" for j
      by (auto simp: tables_def dest: fun_cong)
    with k c s' show ?thesis by (auto simp: tables_def fun_eq_iff)
  qed
  then show ?thesis by (auto simp: keeps_tables_def)
qed

lemma keeps_names_connectEstablished:
  assumes "\<And>f. connectionCallback cbs = Some f \<Longrightarrow> keeps_names f"
  shows "keeps_names (connectEstablished os cbs)"
proof -
  have cb: "keeps_names (call (connectionCallback cbs))"
  proof (cases "connectionCallback cbs")
    case (Some f)
    then have "call (connectionCallback cbs) = f" by (simp add: call_def fun_eq_iff)
    with assms [OF Some] show ?thesis by simp
  qed (simp add: keeps_names_def call_def)
  note both = keeps_names_bind [OF keeps_names_enableReading cb]
  show ?thesis unfolding keeps_names_def
  proof (intro allI impI)
    fix s s' assume "connectEstablished os cbs s = Inr s'"
    then show "tables s' = tables s \<and> cn_name (cs_conn s') = cn_name (cs_conn s)"
      unfolding connectEstablished_def Let_def by (drule_tac keeps_namesD [OF both]) (simp add: setState_def)
  qed
qed

section \<open>Names of connections\<close>

lemma conn_name_eq:
  assumes "length ipPort \<le> 21" and "CHR 0x00 \<notin> set ipPort" and "0 \<le> i" and "i < 2 ^ 31"
  shows "conn_name nm ipPort i = nm @ ''-'' @ ipPort @ ''#'' @ show_nat (nat i)"
proof -
  have "nat i < 10 ^ 10" using assms by simp
  then have "length (show_nat (nat i)) \<le> 10" by (rule length_show_nat_le) simp
  moreover have "c_str ipPort = ipPort" using assms(2) by (simp add: c_str_def)
  ultimately show ?thesis using assms by (simp add: conn_name_def snprintf_def show_int_nonneg)
qed

lemma conn_name_inj:
  assumes "length ipPort \<le> 21" and "CHR 0x00 \<notin> set ipPort" and "0 \<le> i" "i < 2 ^ 31" "0 \<le> j" "j < 2 ^ 31"
  shows "conn_name nm ipPort i = conn_name nm ipPort j \<longleftrightarrow> i = j"
  using assms by (auto simp: conn_name_eq)

text \<open>The invariant: connection number \<open>i\<close> carries the identifier \<open>i + 1\<close> in its name, and the map holds
  exactly the connections \<open>L\<close> under their names.\<close>

fun tables_inv ::
    "nat set \<Rightarrow> (string \<Rightarrow> nat option) \<times> (nat \<Rightarrow> string option) \<times> nat \<times> int \<times> string \<times> string \<Rightarrow> bool" where
  "tables_inv L (conns, names, fresh, nextId, nm, ip) \<longleftrightarrow>
     length ip \<le> 21 \<and> CHR 0x00 \<notin> set ip \<and> nextId = int fresh + 1 \<and> nextId < 2 ^ 31 \<and>
     (\<forall>i \<in> L. i < fresh) \<and>
     (\<forall>i. names i = (if i < fresh then Some (conn_name nm ip (int i + 1)) else None)) \<and>
     (\<forall>x i. conns x = Some i \<longleftrightarrow> i \<in> L \<and> x = conn_name nm ip (int i + 1))"

definition server_inv :: "nat set \<Rightarrow> 'k server \<Rightarrow> bool" where
  "server_inv L s \<longleftrightarrow> tables_inv L (tables s)"

datatype srv_op = Op_accept int sockaddr_in | Op_remove nat

definition srv_step ::
    "'k os \<Rightarrow> 'k server conn_callbacks \<Rightarrow> int \<Rightarrow> (nat \<Rightarrow> nat) \<Rightarrow> srv_op \<Rightarrow> 'k server \<Rightarrow> 'k server res" where
  "srv_step os app tid cptr op s =
     (case op of
        Op_accept sockfd peer \<Rightarrow> newConnection os app tid cptr sockfd peer s
      | Op_remove i \<Rightarrow> removeConnectionInLoop os tid i s)"

text \<open>The specification: the set of connections after a sequence of operations, when \<open>n\<close> have been
  accepted before.\<close>

fun live :: "srv_op list \<Rightarrow> nat \<Rightarrow> nat set \<Rightarrow> nat set" where
  "live [] n L = L"
| "live (Op_accept fd peer # ops) n L = live ops (Suc n) (insert n L)"
| "live (Op_remove i # ops) n L = live ops n (L - {i})"

lemma newConnection_tables:
  assumes app: "app_keeps_names app"
    and run: "newConnection os app tid cptr sockfd peer s = Inr s'"
  shows "sv_nextConnId s \<noteq> 2 ^ 31 - 1"
    "tables s' = ((sv_connections s)(conn_name (sv_name s) (sv_ipPort s) (sv_nextConnId s) \<mapsto> sv_fresh s),
       (\<lambda>i. map_option cn_name (sv_objects s i))(sv_fresh s \<mapsto> conn_name (sv_name s) (sv_ipPort s) (sv_nextConnId s)),
       Suc (sv_fresh s), sv_nextConnId s + 1, sv_name s, sv_ipPort s)"
proof -
  let ?nm = "conn_name (sv_name s) (sv_ipPort s) (sv_nextConnId s)" and ?i = "sv_fresh s"
  let ?cbs = "conn_cbs os app tid (sv_cbs s) ?i"
  show n: "sv_nextConnId s \<noteq> 2 ^ 31 - 1" using run by (auto simp: newConnection_def elim!: res_bindE)
  have cb: "keeps_names f" if "connectionCallback ?cbs = Some f" for f
    using that app by (auto simp: conn_cbs_def app_keeps_names_def split: if_splits)
  have est: "keeps_tables (with_loop a (runInLoop os (\<lambda>_. with_conn ?i (connectEstablished os ?cbs)) tid
      (Fn_connectEstablished ?i)))" for a
    by (intro keeps_tables_with_loop keeps_tables_runInLoop keeps_tables_with_conn keeps_names_connectEstablished)
      (rule cb)
  obtain io p la k1 conn k2 where conn: "TcpConnection os False ?i ?nm sockfd la peer (cptr ?i) k1 = Inr (conn, k2)"
    and w: "with_loop io (runInLoop os (\<lambda>_. with_conn ?i (connectEstablished os ?cbs)) tid (Fn_connectEstablished ?i))
      (s\<lparr>rx_kern := k2, sv_pool := p, sv_nextConnId := sv_nextConnId s + 1, sv_fresh := Suc ?i,
         sv_objects := (sv_objects s)(?i \<mapsto> conn), sv_conn_loop := (sv_conn_loop s)(?i := io),
         sv_conn_cbs := (sv_conn_cbs s)(?i := sv_cbs s), sv_connections := (sv_connections s)(?nm \<mapsto> ?i)\<rparr>) = Inr s'"
    using run n by (auto simp: newConnection_def Let_def elim!: res_bindE split: prod.splits)
  have "cn_name conn = ?nm" using conn by (auto simp: TcpConnection_def elim!: res_bindE)
  with keeps_tablesD [OF est w] show "tables s' = ((sv_connections s)(?nm \<mapsto> ?i),
       (\<lambda>i. map_option cn_name (sv_objects s i))(?i \<mapsto> ?nm), Suc ?i, sv_nextConnId s + 1, sv_name s, sv_ipPort s)"
    by (auto simp: tables_def fun_eq_iff)
qed

lemma tables_inv_accept:
  assumes "tables_inv L (conns, names, fresh, nextId, nm, ip)" and "nextId \<noteq> 2 ^ 31 - 1"
  shows "tables_inv (insert fresh L) (conns(conn_name nm ip nextId \<mapsto> fresh), names(fresh \<mapsto> conn_name nm ip nextId),
    Suc fresh, nextId + 1, nm, ip)"
proof -
  have ip: "length ip \<le> 21" "CHR 0x00 \<notin> set ip" and n: "nextId = int fresh + 1" "nextId < 2 ^ 31"
    and L: "\<And>i. i \<in> L \<Longrightarrow> i < fresh" using assms(1) by auto
  have ne: "conn_name nm ip (int i + 1) \<noteq> conn_name nm ip nextId" if "i \<in> L" for i
    using conn_name_inj [OF ip, of "int i + 1" nextId nm] L [OF that] n by auto
  have "(conns(conn_name nm ip nextId \<mapsto> fresh)) x = Some i \<longleftrightarrow>
      i \<in> insert fresh L \<and> x = conn_name nm ip (int i + 1)" for x i
    using assms(1) n(1) ne [of i] by auto
  then show ?thesis using assms by auto
qed

lemma tables_inv_remove:
  assumes "tables_inv L (conns, names, fresh, nextId, nm, ip)" and "names i = Some x"
  shows "tables_inv (L - {i}) (conns(x := None), names, fresh, nextId, nm, ip)"
proof -
  have ip: "length ip \<le> 21" "CHR 0x00 \<notin> set ip" and n: "nextId = int fresh + 1" "nextId < 2 ^ 31"
    and i: "i < fresh" and x: "x = conn_name nm ip (int i + 1)"
    using assms by (auto split: if_splits)
  have "conn_name nm ip (int j + 1) = x \<longleftrightarrow> j = i" if "j < fresh" for j
    using conn_name_inj [OF ip, of "int j + 1" "int i + 1" nm] that n i x by auto
  then show ?thesis using assms(1) by auto
qed

lemma removeConnectionInLoop_tables:
  assumes "removeConnectionInLoop os tid i s = Inr s'"
  obtains c where "sv_objects s i = Some c"
    and "tables s' = tables (s\<lparr>sv_connections := (sv_connections s)(cn_name c := None)\<rparr>)"
proof -
  have q: "keeps_tables (with_loop a (\<lambda>s1. Inr (queueInLoop os tid (Fn_connectDestroyed i) s1)))" for a
    by (rule keeps_tables_with_loop) (simp add: keeps_tables_def)
  from assms obtain c where c: "sv_objects s i = Some c"
    and w: "with_loop (sv_conn_loop s i) (\<lambda>s1. Inr (queueInLoop os tid (Fn_connectDestroyed i) s1))
      (s\<lparr>sv_connections := (sv_connections s)(cn_name c := None)\<rparr>) = Inr s'"
    by (auto simp: removeConnectionInLoop_def split: option.splits)
  show ?thesis using that [OF c keeps_tablesD [OF q w]] .
qed

lemma srv_step_inv:
  assumes app: "app_keeps_names app"
    and inv: "server_inv L s" and run: "srv_step os app tid cptr op s = Inr s'"
  shows "server_inv (live [op] (sv_fresh s) L) s' \<and> sv_name s' = sv_name s \<and> sv_ipPort s' = sv_ipPort s \<and>
    sv_fresh s' = sv_fresh s + (case op of Op_accept fd peer \<Rightarrow> 1 | Op_remove i \<Rightarrow> 0)"
proof (cases op)
  case (Op_accept fd peer)
  then have r: "newConnection os app tid cptr fd peer s = Inr s'" using run by (simp add: srv_step_def)
  note t = newConnection_tables [OF app r]
  have "tables_inv (insert (sv_fresh s) L) (tables s')"
    unfolding t(2) by (rule tables_inv_accept) (use inv t(1) in \<open>simp_all add: server_inv_def tables_def\<close>)
  then show ?thesis using t(2) Op_accept by (simp add: server_inv_def tables_def)
next
  case (Op_remove i)
  then have "removeConnectionInLoop os tid i s = Inr s'" using run by (simp add: srv_step_def)
  then obtain c where c: "sv_objects s i = Some c"
    and t: "tables s' = tables (s\<lparr>sv_connections := (sv_connections s)(cn_name c := None)\<rparr>)"
    by (rule removeConnectionInLoop_tables)
  have "tables_inv (L - {i}) (tables (s\<lparr>sv_connections := (sv_connections s)(cn_name c := None)\<rparr>))"
    unfolding tables_def using inv c
    by (auto simp: server_inv_def tables_def simp del: tables_inv.simps intro!: tables_inv_remove)
  moreover have "sv_name s' = sv_name s" "sv_ipPort s' = sv_ipPort s" "sv_fresh s' = sv_fresh s"
    using t by (simp_all add: tables_def)
  ultimately show ?thesis using Op_remove by (simp add: server_inv_def t)
qed

lemma live_Cons: "live (op # ops) n L =
    live ops (n + (case op of Op_accept fd peer \<Rightarrow> 1 | Op_remove i \<Rightarrow> 0)) (live [op] n L)"
  by (cases op) simp_all

lemma srv_run_inv:
  assumes app: "app_keeps_names app"
    and "server_inv L s" and "fold_res (srv_step os app tid cptr) ops s = Inr s'"
  shows "server_inv (live ops (sv_fresh s) L) s' \<and> sv_name s' = sv_name s \<and> sv_ipPort s' = sv_ipPort s"
  using assms(2,3)
proof (induction ops arbitrary: s L)
  case Nil
  then show ?case by simp
next
  case (Cons op ops)
  then obtain s1 where s1: "srv_step os app tid cptr op s = Inr s1"
    and rest: "fold_res (srv_step os app tid cptr) ops s1 = Inr s'"
    by (auto elim: res_bindE)
  note k = srv_step_inv [OF app Cons.prems(1) s1]
  show ?case using Cons.IH [OF _ rest] k by (subst live_Cons) auto
qed

lemma TcpServer_inv:
  assumes "TcpServer os obj0 lp listenAddr nameArg reuse aptr r = Inr s"
  shows "server_inv {} s" "sv_fresh s = 0" "sv_name s = nameArg" "toIpPort listenAddr = Inr (sv_ipPort s)"
proof -
  obtain ip where ip: "toIpPort listenAddr = Inr ip" "length ip \<le> 21"
    and eq: "ip = toIp listenAddr @ '':'' @ show_nat (unat (toPort listenAddr))"
    using toIpPort_Inr [of listenAddr] by auto
  have "CHR 0x00 \<notin> set (show_nat n)" for n using show_nat_digits [of "CHR 0x00" n] by (auto simp: is_digit_def)
  then have z: "CHR 0x00 \<notin> set ip" by (cases "sin_addr listenAddr") (simp add: eq toIp_def)
  from assms ip z show "server_inv {} s" "sv_fresh s = 0" "sv_name s = nameArg" "toIpPort listenAddr = Inr (sv_ipPort s)"
    by (auto simp: TcpServer_def server_inv_def tables_def split: option.splits elim!: res_bindE)
qed

lemma TcpServer_fields:
  assumes "TcpServer os obj0 (Some a) listenAddr nameArg reuse aptr r = Inr s"
  shows "sv_fresh s = 0" "sv_nextConnId s = 1" "sv_cur s = a"
  using assms by (auto simp: TcpServer_def elim!: res_bindE)

section \<open>Queueing on a loop of the server\<close>

definition loop_at :: "nat \<Rightarrow> 'k server \<Rightarrow> event_loop option" where
  "loop_at a s = (if a = sv_cur s then Some (rx_loop s) else sv_loops s a)"

text \<open>\<open>s'\<close> is \<open>s\<close> with one closure more at the end of the queue of loop \<open>a\<close>.\<close>

definition queued_on :: "'k os \<Rightarrow> int \<Rightarrow> nat \<Rightarrow> closure \<Rightarrow> 'k server \<Rightarrow> 'k server \<Rightarrow> bool" where
  "queued_on os tid a f s s' \<longleftrightarrow>
     (\<exists>lp. loop_at a s = Some lp \<and>
        loop_at a s' = Some (lp\<lparr>lp_pendingFunctors := lp_pendingFunctors lp @ [f]\<rparr>) \<and>
        rx_kern s' = (if \<not> isInLoopThread tid lp \<or> lp_callingPendingFunctors lp
          then snd (os_write os (lp_wakeupFd lp) one_bytes (rx_kern s)) else rx_kern s)) \<and>
     (\<forall>b. b \<noteq> a \<longrightarrow> loop_at b s' = loop_at b s) \<and> sv_cur s' = sv_cur s \<and>
     sv_objects s' = sv_objects s \<and> sv_connections s' = sv_connections s \<and> sv_conn_loop s' = sv_conn_loop s \<and>
     sv_conn_cbs s' = sv_conn_cbs s \<and> sv_pool s' = sv_pool s \<and> sv_nextConnId s' = sv_nextConnId s \<and>
     sv_fresh s' = sv_fresh s"

lemma queueInLoop_kern:
  "rx_kern (queueInLoop os tid f s) =
     (if \<not> isInLoopThread tid (rx_loop s) \<or> lp_callingPendingFunctors (rx_loop s)
      then snd (os_write os (lp_wakeupFd (rx_loop s)) one_bytes (rx_kern s)) else rx_kern s)"
  by (simp add: queueInLoop_def wakeup_def Let_def isInLoopThread_def split: prod.splits)

lemma queueInLoop_server_more [simp]:
  fixes s :: "'k server"
  shows "sv_connections (queueInLoop os tid f s) = sv_connections s"
    "sv_nextConnId (queueInLoop os tid f s) = sv_nextConnId s" "sv_fresh (queueInLoop os tid f s) = sv_fresh s"
  by (simp_all add: queueInLoop_def wakeup_def Let_def split: prod.splits)

lemma with_loop_queues:
  assumes "loop_at a s = Some lp"
  obtains s' where "with_loop a (\<lambda>s1. Inr (queueInLoop os tid f s1)) s = Inr s'" and "queued_on os tid a f s s'"
proof (cases "a = sv_cur s")
  case True
  then have "queued_on os tid a f s (queueInLoop os tid f s)"
    by (simp add: queued_on_def loop_at_def queueInLoop_kern)
  with True show ?thesis using that by (simp add: with_loop_def)
next
  case False
  then have lp: "sv_loops s a = Some lp" using assms by (simp add: loop_at_def)
  let ?s1 = "s\<lparr>rx_loop := lp, sv_cur := a, sv_loops := (sv_loops s)(sv_cur s := Some (rx_loop s))\<rparr>"
  let ?s2 = "queueInLoop os tid f ?s1"
  let ?s3 = "?s2\<lparr>rx_loop := rx_loop s, sv_cur := sv_cur s,
      sv_loops := (sv_loops ?s2)(sv_cur s := None, a := Some (rx_loop ?s2))\<rparr>"
  have "with_loop a (\<lambda>s1. Inr (queueInLoop os tid f s1)) s = Inr ?s3"
    using False lp by (simp add: with_loop_def)
  moreover have "queued_on os tid a f s ?s3"
    using False lp by (simp add: queued_on_def loop_at_def queueInLoop_kern)
  ultimately show ?thesis by (rule that)
qed

lemma with_loop_runInLoop_other:
  assumes "loop_at a s = Some lp" and "lp_threadId lp \<noteq> tid"
  shows "with_loop a (runInLoop os exec tid f) s = with_loop a (\<lambda>s1. Inr (queueInLoop os tid f s1)) s"
  using assms by (auto simp: with_loop_def runInLoop_def isInLoopThread_def loop_at_def split: if_splits)

text \<open>A connection object as its constructor leaves it.\<close>

definition made_conn :: "nat \<Rightarrow> string \<Rightarrow> int \<Rightarrow> nat \<Rightarrow> sockaddr_in \<Rightarrow> tcp_connection \<Rightarrow> bool" where
  "made_conn i nm fd ptr peer c \<longleftrightarrow>
     cn_id c = i \<and> cn_name c = nm \<and> cn_state c = kConnecting \<and> cn_sockfd c = fd \<and> cn_peerAddr c = peer \<and>
     chan_ptr (cn_channel c) = ptr \<and> chan_fd (cn_channel c) = fd \<and> chan_index (cn_channel c) = kNew \<and>
     wf_buffer (cn_inputBuffer c) \<and> wf_buffer (cn_outputBuffer c) \<and>
     contents (cn_inputBuffer c) = [] \<and> contents (cn_outputBuffer c) = []"

lemma TcpConnection_made:
  obtains c where "TcpConnection os False i nm fd la peer ptr k = Inr (c, os_setsockopt os fd ''SO_KEEPALIVE'' True k)"
    and "made_conn i nm fd ptr peer c"
proof -
  obtain b where "Buffer kInitialSize = Inr b" "wf_buffer b" "contents b = []" using Buffer_wf [of kInitialSize] by (auto simp: buffer_consts)
  then show ?thesis using that by (simp add: TcpConnection_def made_conn_def Channel_def index_consts)
qed

text \<open>The state of \<open>newConnection\<close> when it hands the new object to its loop.\<close>

definition added_conn :: "nat \<Rightarrow> evl_pool \<Rightarrow> tcp_connection \<Rightarrow> 'k \<Rightarrow> 'k server \<Rightarrow> 'k server" where
  "added_conn io p c k s =
     s\<lparr>rx_kern := k, sv_pool := p, sv_nextConnId := sv_nextConnId s + 1, sv_fresh := Suc (sv_fresh s),
       sv_objects := (sv_objects s)(sv_fresh s \<mapsto> c), sv_conn_loop := (sv_conn_loop s)(sv_fresh s := io),
       sv_conn_cbs := (sv_conn_cbs s)(sv_fresh s := sv_cbs s),
       sv_connections := (sv_connections s)(cn_name c \<mapsto> sv_fresh s)\<rparr>"

lemma queued_onD:
  assumes "queued_on os tid a f s s'"
  shows "loop_at a s = Some lp \<Longrightarrow>
      loop_at a s' = Some (lp\<lparr>lp_pendingFunctors := lp_pendingFunctors lp @ [f]\<rparr>)"
    "loop_at a s = Some lp \<Longrightarrow> lp_threadId lp \<noteq> tid \<Longrightarrow>
      rx_kern s' = snd (os_write os (lp_wakeupFd lp) one_bytes (rx_kern s))"
    "b \<noteq> a \<Longrightarrow> loop_at b s' = loop_at b s" "sv_cur s' = sv_cur s" "sv_objects s' = sv_objects s"
    "sv_connections s' = sv_connections s" "sv_conn_loop s' = sv_conn_loop s" "sv_conn_cbs s' = sv_conn_cbs s"
    "sv_pool s' = sv_pool s" "sv_nextConnId s' = sv_nextConnId s" "sv_fresh s' = sv_fresh s"
  using assms by (auto simp: queued_on_def isInLoopThread_def)

lemma loop_at_tables [simp]:
  "loop_at b (added_conn io p c k s) = loop_at b s" "loop_at b (s\<lparr>sv_connections := m\<rparr>) = loop_at b s"
  by (simp_all add: loop_at_def added_conn_def)

lemma added_conn_fields [simp]:
  "rx_kern (added_conn io p c k s) = k" "sv_pool (added_conn io p c k s) = p"
  "sv_objects (added_conn io p c k s) = (sv_objects s)(sv_fresh s \<mapsto> c)"
  "sv_connections (added_conn io p c k s) = (sv_connections s)(cn_name c \<mapsto> sv_fresh s)"
  "sv_conn_loop (added_conn io p c k s) = (sv_conn_loop s)(sv_fresh s := io)"
  "sv_nextConnId (added_conn io p c k s) = sv_nextConnId s + 1" "sv_fresh (added_conn io p c k s) = Suc (sv_fresh s)"
  "sv_cur (added_conn io p c k s) = sv_cur s"
  by (simp_all add: added_conn_def)

lemma newConnection_eq:
  assumes "getNextLoop (sv_pool s) = Inr (io, p)" and "sv_nextConnId s \<noteq> 2 ^ 31 - 1"
    and k: "k = os_setsockopt os fd ''SO_KEEPALIVE'' True (snd (os_getsockname os fd (rx_kern s)))"
  obtains c where "newConnection os app tid cptr fd peer s =
      with_loop io (runInLoop os (\<lambda>_. with_conn (sv_fresh s) (connectEstablished os (conn_cbs os app tid (sv_cbs s) (sv_fresh s))))
        tid (Fn_connectEstablished (sv_fresh s))) (added_conn io p c k s)"
    and "made_conn (sv_fresh s) (conn_name (sv_name s) (sv_ipPort s) (sv_nextConnId s)) fd (cptr (sv_fresh s)) peer c"
proof -
  let ?nm = "conn_name (sv_name s) (sv_ipPort s) (sv_nextConnId s)" and ?i = "sv_fresh s"
  obtain a k1 where g: "os_getsockname os fd (rx_kern s) = (a, k1)" by fastforce
  obtain c where "TcpConnection os False ?i ?nm fd (case a of Inl errno \<Rightarrow> zero_addr | Inr a \<Rightarrow> a) peer (cptr ?i) k1 = Inr (c, k)"
    and m: "made_conn ?i ?nm fd (cptr ?i) peer c"
    using TcpConnection_made [of os ?i ?nm fd _ peer "cptr ?i" k1] unfolding k g snd_conv by blast
  moreover have "cn_name c = ?nm" using m by (simp add: made_conn_def)
  ultimately show ?thesis using that [OF _ m] assms(1,2) g by (simp add: newConnection_def Let_def added_conn_def)
qed

lemma newConnection_queues:
  assumes "getNextLoop (sv_pool s) = Inr (io, p)" and "loop_at io s = Some lp" and "lp_threadId lp \<noteq> tid"
    and "sv_nextConnId s < 2 ^ 31 - 1"
  obtains c k2 s' where "newConnection os app tid cptr fd peer s = Inr s'"
    and "queued_on os tid io (Fn_connectEstablished (sv_fresh s)) (added_conn io p c k2 s) s'"
    and "cn_name c = conn_name (sv_name s) (sv_ipPort s) (sv_nextConnId s)" and "cn_state c = kConnecting"
    and "cn_sockfd c = fd" and "cn_peerAddr c = peer"
proof -
  let ?nm = "conn_name (sv_name s) (sv_ipPort s) (sv_nextConnId s)" and ?i = "sv_fresh s"
  have "sv_nextConnId s \<noteq> 2 ^ 31 - 1" using assms(4) by simp
  from newConnection_eq [OF assms(1) this refl] obtain c k2 where
    new: "newConnection os app tid cptr fd peer s =
      with_loop io (runInLoop os (\<lambda>_. with_conn ?i (connectEstablished os (conn_cbs os app tid (sv_cbs s) ?i)))
        tid (Fn_connectEstablished ?i)) (added_conn io p c k2 s)"
    and c: "made_conn ?i ?nm fd (cptr ?i) peer c" by metis
  have lp: "loop_at io (added_conn io p c k2 s) = Some lp" using assms(2) by simp
  obtain s' where "with_loop io (\<lambda>s. Inr (queueInLoop os tid (Fn_connectEstablished ?i) s)) (added_conn io p c k2 s) = Inr s'"
    and q: "queued_on os tid io (Fn_connectEstablished ?i) (added_conn io p c k2 s) s'"
    by (rule with_loop_queues [OF lp])
  then have "newConnection os app tid cptr fd peer s = Inr s'"
    using with_loop_runInLoop_other [OF lp assms(3)] new by simp
  then show ?thesis by (rule that [OF _ q]) (use c in \<open>simp_all add: made_conn_def\<close>)
qed

lemma removeConnectionInLoop_queues:
  assumes "sv_objects s i = Some c" and "loop_at (sv_conn_loop s i) s = Some lp"
  obtains s' where "removeConnectionInLoop os tid i s = Inr s'"
    and "queued_on os tid (sv_conn_loop s i) (Fn_connectDestroyed i)
      (s\<lparr>sv_connections := (sv_connections s)(cn_name c := None)\<rparr>) s'"
proof -
  let ?s1 = "s\<lparr>sv_connections := (sv_connections s)(cn_name c := None)\<rparr>" and ?a = "sv_conn_loop s i"
  have "loop_at ?a ?s1 = Some lp" using assms(2) by simp
  then obtain s' where w: "with_loop ?a (\<lambda>s. Inr (queueInLoop os tid (Fn_connectDestroyed i) s)) ?s1 = Inr s'"
    and q: "queued_on os tid ?a (Fn_connectDestroyed i) ?s1 s'"
    by (rule with_loop_queues)
  have "removeConnectionInLoop os tid i s = Inr s'" using w assms(1) by (simp add: removeConnectionInLoop_def)
  then show ?thesis using q by (rule that)
qed

text \<open>Without a connection callback no connection is ever established.\<close>

lemma connectEstablished_no_callback:
  assumes "connectionCallback cbs = None"
  shows "connectEstablished os cbs s = Inl Fatal_Exit \<or> connectEstablished os cbs s = Inl Bad_Function_Call"
proof -
  let ?s1 = "setState kConnected s"
  let ?s2 = "?s1\<lparr>cs_conn := (cs_conn ?s1)\<lparr>cn_channel := tie (cn_id (cs_conn ?s1)) (cn_channel (cs_conn ?s1))\<rparr>\<rparr>"
  have "connectEstablished os cbs s = res_bind (on_channel (enableReading os) ?s2) (call None)"
    using assms by (simp add: connectEstablished_def Let_def)
  then show ?thesis
    using on_channel_fault(1) [of os ?s2] by (cases "on_channel (enableReading os) ?s2") (auto simp: call_def)
qed

lemma with_loop_runInLoop_no_result:
  assumes "\<And>g s s'. exec g s \<noteq> Inr s'" and "with_loop a (runInLoop os exec tid f) s = Inr s'"
  shows "queued_on os tid a f s s'"
proof -
  have eq: "with_loop a (\<lambda>s1. Inr (queueInLoop os tid f s1)) s = Inr s'"
    using assms by (auto simp: with_loop_def runInLoop_def split: if_splits option.splits elim!: res_bindE)
  then have "loop_at a s \<noteq> None" by (auto simp: with_loop_def loop_at_def split: if_splits option.splits)
  then obtain lp where "loop_at a s = Some lp" by blast
  then obtain s'' where "with_loop a (\<lambda>s1. Inr (queueInLoop os tid f s1)) s = Inr s''" "queued_on os tid a f s s''"
    by (rule with_loop_queues)
  with eq show ?thesis by simp
qed

lemma newConnection_no_callback:
  assumes "\<not> has_connectionCallback (sv_cbs s)" and "newConnection os app tid cptr fd peer s = Inr s'"
  shows "sv_conn_cbs s' (sv_fresh s) = sv_cbs s" "sv_objects s' (sv_fresh s) \<noteq> None"
proof -
  let ?i = "sv_fresh s" and ?cbs = "conn_cbs os app tid (sv_cbs s) (sv_fresh s)"
  let ?exec = "\<lambda>_ :: closure. with_conn ?i (connectEstablished os ?cbs)"
  have none: "connectionCallback ?cbs = None" using assms(1) by (simp add: conn_cbs_def)
  have "connectEstablished os ?cbs t \<noteq> Inr t'" for t t'
    using connectEstablished_no_callback [OF none, of os t] by auto
  then have no: "?exec g t \<noteq> Inr t'" for g t t'
    by (auto simp: with_conn_def split: option.splits elim!: res_bindE)
  obtain io s1 where "with_loop io (runInLoop os ?exec tid (Fn_connectEstablished ?i)) s1 = Inr s'"
    and s1: "sv_conn_cbs s1 ?i = sv_cbs s" "sv_objects s1 ?i \<noteq> None"
    using assms(2) by (auto simp: newConnection_def Let_def elim!: res_bindE split: prod.splits if_splits)
  from with_loop_runInLoop_no_result [OF no this(1)] s1
  show "sv_conn_cbs s' ?i = sv_cbs s" "sv_objects s' ?i \<noteq> None" by (auto simp: queued_on_def)
qed

section \<open>Echo\<close>

lemma echo_step:
  assumes ok: "os_ok os v" and inv: "run_inv v tid s"
    and st: "cn_state (cs_conn s) = kConnected"
  shows "case echo_onMessage os cbs tid 0 s of
      Inl e \<Rightarrow> e = Fatal_Exit \<or> e = Length_Error
    | Inr s' \<Rightarrow> conn_inv v s' \<and> contents (cn_inputBuffer (cs_conn s')) = [] \<and>
        cn_state (cs_conn s') = kDisconnecting \<and> outgoing v s' = outgoing v s @
          (if write_reset os (contents (cn_inputBuffer (cs_conn s))) s then [] else contents (cn_inputBuffer (cs_conn s)))"
proof -
  let ?b = "cn_inputBuffer (cs_conn s)"
  let ?s0 = "s\<lparr>cs_conn := (cs_conn s)\<lparr>cn_inputBuffer := retrieveAll ?b\<rparr>\<rparr>"
  have c: "conn_inv v s" and t: "isInLoopThread tid (rx_loop s)" using inv by (simp_all add: run_inv_def)
  have wf: "wf_buffer ?b" using c by (simp add: conn_inv_def)
  have len: "length (contents ?b) \<le> vector_max" using wf by (auto simp: wf_buffer_def contents_def)
  have c0: "conn_inv v ?s0" using c wf_retrieveAll [OF wf] by (simp add: conn_inv_def rx_pk_def)
  then have inv0: "run_inv v tid ?s0" using inv by (simp add: run_inv_def)
  have out0: "outgoing v ?s0 = outgoing v s" by (simp add: outgoing_def)
  have eq: "echo_onMessage os cbs tid 0 s =
      res_bind (send os cbs tid 0 (contents ?b) ?s0) (\<lambda>s1. Inr (shutdown os tid s1))"
    by (simp add: echo_onMessage_def retrieveAllAsString_wf [OF wf])
  show ?thesis
  proof (cases "send os cbs tid 0 (contents ?b) ?s0")
    case (Inl e)
    then have "sendInLoop os cbs tid (contents ?b) ?s0 = Inl e" using st t by (simp add: send_def)
    from sendInLoop_fault [OF ok c0 len this] show ?thesis using Inl eq by simp
  next
    case (Inr s1)
    have "write_reset os ds ?s0 = write_reset os ds s" for ds by (simp add: write_reset_def)
    with send_step [OF ok inv0 len Inr] st out0
    have s1: "run_inv v tid s1" "same_conn v ?s0 s1"
      "outgoing v s1 = outgoing v s @ (if write_reset os (contents ?b) s then [] else contents ?b)" by auto
    have c1: "conn_inv v s1" using s1(1) by (simp add: run_inv_def)
    have "cn_inputBuffer (cs_conn (shutdown os tid s1)) = retrieveAll ?b"
      using shutdown_keeps(4) [OF ok c1, of tid] s1(2) by (simp add: same_conn_def)
    with shutdown_step [OF ok s1(1)] s1(3) Inr eq show ?thesis by (simp add: run_inv_def)
  qed
qed

text \<open>A server with two loops besides its own, on the small kernel.\<close>

definition sim_listen_addr :: sockaddr_in where
  "sim_listen_addr = \<lparr>sin_family = 2, sin_port = 0, sin_addr = (127, 0, 0, 1)\<rparr>"

definition sim_server0 :: "kernel server" where
  "sim_server0 = projr (TcpServer sim_os (sim_tcp kDisconnected) (Some 50) sim_listen_addr ''srv'' False 9 sim_reactor)"

definition sim_server :: "kernel server" where
  "sim_server = setMessageCallback (setConnectionCallback (sim_server0\<lparr>
     sv_pool := (EventLoopThreadPool 50 ''srv'')\<lparr>ep_loops := [60, 61]\<rparr>,
     sv_loops := [60 \<mapsto> sim_loop\<lparr>lp_threadId := 2, lp_wakeupFd := 14\<rparr>, 61 \<mapsto> sim_loop\<lparr>lp_threadId := 3, lp_wakeupFd := 15\<rparr>]\<rparr>))"

definition sim_app :: "kernel server conn_callbacks" where
  "sim_app = \<lparr>connectionCallback = Some Inr, messageCallback = Some Inr, writeCompleteCallback = None,
     highWaterMarkCallback = None, closeCallback_conn = None\<rparr>"

lemma sim_server0_eq:
  "TcpServer sim_os (sim_tcp kDisconnected) (Some 50) sim_listen_addr ''srv'' False 9 sim_reactor = Inr sim_server0"
proof -
  let ?t = "TcpServer sim_os (sim_tcp kDisconnected) (Some 50) sim_listen_addr ''srv'' False 9 sim_reactor"
  have "\<not> isl ?t" by code_simp
  then show ?thesis by (cases ?t) (auto simp: sim_server0_def)
qed

lemma sim_server_tables: "tables sim_server = tables sim_server0"
  by (simp add: sim_server_def setMessageCallback_def setConnectionCallback_def tables_def)

lemma sim_app_keeps_names: "app_keeps_names sim_app"
  by (simp add: app_keeps_names_def sim_app_def keeps_names_def)

lemma sim_server_fields [simp]:
  "sv_fresh sim_server = 0" "sv_nextConnId sim_server = 1" "sv_cur sim_server = 50"
  "sv_pool sim_server = (EventLoopThreadPool 50 ''srv'')\<lparr>ep_loops := [60, 61]\<rparr>"
  "loop_at 60 sim_server = Some (sim_loop\<lparr>lp_threadId := 2, lp_wakeupFd := 14\<rparr>)"
  "loop_at 61 sim_server = Some (sim_loop\<lparr>lp_threadId := 3, lp_wakeupFd := 15\<rparr>)"
proof -
  have f: "sv_fresh sim_server0 = 0" "sv_nextConnId sim_server0 = 1" "sv_cur sim_server0 = 50"
    using TcpServer_fields [OF sim_server0_eq] by simp_all
  then show "sv_fresh sim_server = 0" "sv_nextConnId sim_server = 1" "sv_cur sim_server = 50"
    "sv_pool sim_server = (EventLoopThreadPool 50 ''srv'')\<lparr>ep_loops := [60, 61]\<rparr>"
    "loop_at 60 sim_server = Some (sim_loop\<lparr>lp_threadId := 2, lp_wakeupFd := 14\<rparr>)"
    "loop_at 61 sim_server = Some (sim_loop\<lparr>lp_threadId := 3, lp_wakeupFd := 15\<rparr>)"
    by (simp_all add: sim_server_def setMessageCallback_def setConnectionCallback_def loop_at_def)
qed

lemma sim_next_loop:
  "getNextLoop ((EventLoopThreadPool 50 ''srv'')\<lparr>ep_loops := [60, 61]\<rparr>) =
     Inr (60, (EventLoopThreadPool 50 ''srv'')\<lparr>ep_loops := [60, 61], ep_next := 1\<rparr>)"
  "getNextLoop ((EventLoopThreadPool 50 ''srv'')\<lparr>ep_loops := [60, 61], ep_next := 1\<rparr>) =
     Inr (61, (EventLoopThreadPool 50 ''srv'')\<lparr>ep_loops := [60, 61], ep_next := 0\<rparr>)"
  by (simp_all add: getNextLoop_def EventLoopThreadPool_def)

lemma sim_server_next:
  "getNextLoop (sv_pool sim_server) = Inr (60, (EventLoopThreadPool 50 ''srv'')\<lparr>ep_loops := [60, 61], ep_next := 1\<rparr>)"
  by (simp add: sim_next_loop)

lemma sim_server_thread: "lp_threadId (sim_loop\<lparr>lp_threadId := 2, lp_wakeupFd := 14\<rparr>) \<noteq> 1"
  by simp

lemma sim_server_id: "sv_nextConnId sim_server < 2 ^ 31 - 1"
  by simp

lemma sim_server_run:
  "\<exists>s'. fold_res (srv_step sim_os sim_app 1 cptr) [Op_accept 8 peer, Op_accept 9 peer, Op_remove 0] sim_server = Inr s'"
proof -
  obtain c k s1 where r1: "newConnection sim_os sim_app 1 cptr 8 peer sim_server = Inr s1"
    and q1: "queued_on sim_os 1 60 (Fn_connectEstablished 0)
      (added_conn 60 ((EventLoopThreadPool 50 ''srv'')\<lparr>ep_loops := [60, 61], ep_next := 1\<rparr>) c k sim_server) s1"
    by (rule newConnection_queues [OF sim_server_next sim_server_fields(5) sim_server_thread sim_server_id,
        of sim_os sim_app cptr 8 peer, unfolded sim_server_fields(1)])
  have s1: "sv_pool s1 = (EventLoopThreadPool 50 ''srv'')\<lparr>ep_loops := [60, 61], ep_next := 1\<rparr>"
    "loop_at 61 s1 = Some (sim_loop\<lparr>lp_threadId := 3, lp_wakeupFd := 15\<rparr>)" "sv_nextConnId s1 = 2" "sv_fresh s1 = 1"
    "sv_objects s1 0 = Some c" "sv_conn_loop s1 0 = 60" "loop_at 60 s1 \<noteq> None"
    using queued_onD [OF q1] by simp_all
  have n: "getNextLoop (sv_pool s1) = Inr (61, (EventLoopThreadPool 50 ''srv'')\<lparr>ep_loops := [60, 61], ep_next := 0\<rparr>)"
    and i: "sv_nextConnId s1 < 2 ^ 31 - 1" and th: "lp_threadId (sim_loop\<lparr>lp_threadId := 3, lp_wakeupFd := 15\<rparr>) \<noteq> 1"
    using s1 by (simp_all add: sim_next_loop)
  obtain d k' s2 where r2: "newConnection sim_os sim_app 1 cptr 9 peer s1 = Inr s2"
    and q2: "queued_on sim_os 1 61 (Fn_connectEstablished 1)
      (added_conn 61 ((EventLoopThreadPool 50 ''srv'')\<lparr>ep_loops := [60, 61], ep_next := 0\<rparr>) d k' s1) s2"
    by (rule newConnection_queues [OF n s1(2) th i, of sim_os sim_app cptr 9 peer, unfolded s1(4)])
  have "sv_objects s2 0 = Some c" "loop_at (sv_conn_loop s2 0) s2 \<noteq> None"
    using queued_onD [OF q2] s1 by simp_all
  then obtain s3 where "removeConnectionInLoop sim_os 1 0 s2 = Inr s3"
    by (auto elim: removeConnectionInLoop_queues)
  with r1 r2 show ?thesis by (simp add: srv_step_def)
qed

section \<open>Properties\<close>

text \<open>C30: The connection map of a server refines a set of numbers: after any sequence of accepted and
  removed connections it holds exactly the connections accepted and not removed, the \<open>i\<close>-th accepted
  one under the name that ends in \<open>i + 1\<close>. No name is ever used twice, so no connection is
  overwritten, and the name is never cut by its 64 byte array. (Configuring and starting a server
  leave its tables alone; callbacks of the application cannot reach them.)\<close>

theorem server_tracks_connections:
  assumes "app_keeps_names app" and "TcpServer os obj0 lp listenAddr nameArg reuse aptr r = Inr s0"
    and "tables s = tables s0" and "fold_res (srv_step os app tid cptr) ops s = Inr s'"
    and "toIpPort listenAddr = Inr ip"
  shows "\<forall>x i. sv_connections s' x = Some i \<longleftrightarrow>
      i \<in> live ops 0 {} \<and> x = nameArg @ ''-'' @ ip @ ''#'' @ show_nat (Suc i)"
proof (intro allI)
  fix x i
  note t = TcpServer_inv [OF assms(2)]
  have s: "server_inv {} s" "sv_fresh s = 0" "sv_name s = nameArg" "sv_ipPort s = ip"
    using t assms(3,5) by (auto simp: server_inv_def tables_def)
  from srv_run_inv [OF assms(1) s(1) assms(4)] s
  have run: "server_inv (live ops 0 {}) s'" "sv_name s' = nameArg" "sv_ipPort s' = ip" by auto
  then have ip: "length ip \<le> 21" "CHR 0x00 \<notin> set ip"
    and m: "sv_connections s' x = Some i \<longleftrightarrow> i \<in> live ops 0 {} \<and> x = conn_name nameArg ip (int i + 1)"
    and b: "i \<in> live ops 0 {} \<Longrightarrow> int i + 1 < 2 ^ 31"
    by (auto simp: server_inv_def tables_def)
  have "conn_name nameArg ip (int i + 1) = nameArg @ ''-'' @ ip @ ''#'' @ show_nat (Suc i)"
    if "i \<in> live ops 0 {}"
    using conn_name_eq [OF ip _ b [OF that], of nameArg] by (simp add: nat_add_distrib)
  with m show "sv_connections s' x = Some i \<longleftrightarrow>
      i \<in> live ops 0 {} \<and> x = nameArg @ ''-'' @ ip @ ''#'' @ show_nat (Suc i)" by auto
qed

theorem server_tracks_connections_witness:
  "\<exists>s'. fold_res (srv_step sim_os sim_app 1 (\<lambda>i. i + 10))
       [Op_accept 8 sim_listen_addr, Op_accept 9 sim_listen_addr, Op_remove 0] sim_server = Inr s' \<and>
     sv_connections s' ''srv-127.0.0.1:0#2'' = Some 1 \<and> sv_connections s' ''srv-127.0.0.1:0#1'' = None"
proof -
  let ?ops = "[Op_accept 8 sim_listen_addr, Op_accept 9 sim_listen_addr, Op_remove 0]"
  let ?run = "fold_res (srv_step sim_os sim_app 1 (\<lambda>i. i + 10)) ?ops sim_server"
  obtain s' where s': "?run = Inr s'" using sim_server_run by blast
  have ip: "toIpPort sim_listen_addr = Inr ''127.0.0.1:0''" by code_simp
  have two: "show_nat (Suc (Suc 0)) = ''2''" by code_simp
  have L: "live ?ops 0 {} = {1}" by auto
  have m: "sv_connections s' x = Some i \<longleftrightarrow> i = 1 \<and> x = ''srv'' @ ''-'' @ ''127.0.0.1:0'' @ ''#'' @ show_nat (Suc i)" for x i
    using server_tracks_connections [OF sim_app_keeps_names sim_server0_eq sim_server_tables s' ip]
    unfolding L by simp
  have "sv_connections s' ''srv-127.0.0.1:0#2'' = Some 1" by (subst m) (simp add: two)
  moreover have "sv_connections s' ''srv-127.0.0.1:0#1'' \<noteq> Some i" for i
    by (subst m) (auto simp: two)
  ultimately show ?thesis using s' by (meson not_None_eq)
qed

text \<open>C31: A new connection goes to the loop whose turn it is: when that loop runs in another thread,
  \<open>newConnection\<close> always returns (until the 32 bit connection counter is exhausted), the new object
  carries the accepted descriptor and the peer's address, and \<open>connectEstablished\<close> for it is
  queued last on that loop, which is woken; no other loop changes.\<close>

theorem newConnection_hands_to_loop:
  assumes "getNextLoop (sv_pool s) = Inr (io, p)" and "loop_at io s = Some lp" and "lp_threadId lp \<noteq> tid"
    and "sv_nextConnId s < 2 ^ 31 - 1" and "os_ok os v"
  shows "\<exists>s' c. newConnection os app tid cptr fd peer s = Inr s' \<and>
    sv_objects s' (sv_fresh s) = Some c \<and> cn_state c = kConnecting \<and> cn_sockfd c = fd \<and> cn_peerAddr c = peer \<and>
    sv_connections s' (cn_name c) = Some (sv_fresh s) \<and> sv_conn_loop s' (sv_fresh s) = io \<and> sv_pool s' = p \<and>
    loop_at io s' = Some (lp\<lparr>lp_pendingFunctors := lp_pendingFunctors lp @ [Fn_connectEstablished (sv_fresh s)]\<rparr>) \<and>
    0 < evcount v (rx_kern s') (lp_wakeupFd lp) \<and> (\<forall>b. b \<noteq> io \<longrightarrow> loop_at b s' = loop_at b s)"
proof -
  obtain c k2 s' where s': "newConnection os app tid cptr fd peer s = Inr s'"
    and q: "queued_on os tid io (Fn_connectEstablished (sv_fresh s)) (added_conn io p c k2 s) s'"
    and c: "cn_name c = conn_name (sv_name s) (sv_ipPort s) (sv_nextConnId s)"
      "cn_state c = kConnecting" "cn_sockfd c = fd" "cn_peerAddr c = peer"
    by (rule newConnection_queues [OF assms(1-4)])
  have "0 < evcount v (snd (os_write os (lp_wakeupFd lp) one_bytes k2)) (lp_wakeupFd lp)"
    using os_okD(4) [OF assms(5)] unfolding eventfd_ok_def by (metis prod.collapse)
  then show ?thesis
    using s' c assms(2,3) queued_onD [OF q] by (intro exI [of _ s'] exI [of _ c]) simp
qed

theorem newConnection_hands_to_loop_witness:
  "\<exists>s' c. newConnection sim_os sim_app 1 (\<lambda>i. i + 10) 8 sim_listen_addr sim_server = Inr s' \<and>
     sv_objects s' 0 = Some c \<and> cn_sockfd c = 8 \<and> sv_conn_loop s' 0 = 60"
proof -
  show ?thesis
    using newConnection_hands_to_loop [OF sim_server_next sim_server_fields(5) sim_server_thread sim_server_id
        sim_os_ok, of sim_app "\<lambda>i. i + 10" 8 sim_listen_addr]
    unfolding sim_server_fields(1) by blast
qed

text \<open>Removing a connection erases its own entry of the map and nothing else, and queues
  \<open>connectDestroyed\<close> last on the connection's own loop, whichever loop that is.\<close>

lemma removeConnection_queues_destruction:
  assumes "sv_objects s i = Some c" and "loop_at (sv_conn_loop s i) s = Some lp"
  shows "\<exists>s'. removeConnectionInLoop os tid i s = Inr s' \<and>
    sv_connections s' = (sv_connections s)(cn_name c := None) \<and> sv_objects s' = sv_objects s \<and>
    loop_at (sv_conn_loop s i) s' =
      Some (lp\<lparr>lp_pendingFunctors := lp_pendingFunctors lp @ [Fn_connectDestroyed i]\<rparr>) \<and>
    (\<forall>b. b \<noteq> sv_conn_loop s i \<longrightarrow> loop_at b s' = loop_at b s)"
proof -
  obtain s' where "removeConnectionInLoop os tid i s = Inr s'"
    and "queued_on os tid (sv_conn_loop s i) (Fn_connectDestroyed i)
      (s\<lparr>sv_connections := (sv_connections s)(cn_name c := None)\<rparr>) s'"
    by (rule removeConnectionInLoop_queues [OF assms])
  with assms(2) show ?thesis by (auto dest: queued_onD)
qed

text \<open>C34: The echo server answers a readable event with exactly the bytes it received: they follow
  what was on its way out, the input buffer is empty again, and the connection is shutting down. Only when
  nothing was waiting and the kernel answers the direct write with \<open>EPIPE\<close> or \<open>ECONNRESET\<close> the answer is
  dropped. The library can only stop it by a fatal exit or a buffer beyond the maximal vector size.\<close>

theorem echo_returns_input:
  assumes "os_ok os v" and "conn_inv v s" and "cn_state (cs_conn s) = kConnected"
    and "isInLoopThread tid (rx_loop s)" and "\<not> wr_shut v (rx_kern s) (cn_sockfd (cs_conn s))"
    and "os_readv os (cn_sockfd (cs_conn s)) (readFd_blocks (cn_inputBuffer (cs_conn s))) (rx_kern s) = (Inr ds, k)"
    and "ds \<noteq> []" and "messageCallback cbs = Some (echo_onMessage os cbs' tid 0)"
    and "msg = contents (cn_inputBuffer (cs_conn s)) @ ds"
  shows "case handleRead os cbs s of
      Inl e \<Rightarrow> e = Fatal_Exit \<or> e = Length_Error
    | Inr s' \<Rightarrow> conn_inv v s' \<and> contents (cn_inputBuffer (cs_conn s')) = [] \<and>
        cn_state (cs_conn s') = kDisconnecting \<and>
        outgoing v s' = outgoing v s @ (if write_reset os msg (s\<lparr>rx_kern := k\<rparr>) then [] else msg)"
proof -
  from handleRead_eq [OF assms(1,2,6), of cbs] assms(7,8) consider "handleRead os cbs s = Inl Length_Error"
    | b where "wf_buffer b" "contents b = contents (cn_inputBuffer (cs_conn s)) @ ds"
      "handleRead os cbs s = echo_onMessage os cbs' tid 0 (s\<lparr>rx_kern := k, cs_conn := (cs_conn s)\<lparr>cn_inputBuffer := b\<rparr>\<rparr>)"
    by (auto simp: call_def)
  then show ?thesis
  proof cases
    case (2 b)
    let ?s1 = "s\<lparr>rx_kern := k, cs_conn := (cs_conn s)\<lparr>cn_inputBuffer := b\<rparr>\<rparr>"
    note views = readv_views [OF assms(1,6)]
    have "conn_inv v ?s1"
      using assms(2) 2(1) registered_interest [OF views(1)] by (auto simp: conn_inv_def rx_pk_def)
    then have inv: "run_inv v tid ?s1" using assms(3-5) views by (simp add: run_inv_def)
    have st: "cn_state (cs_conn ?s1) = kConnected" using assms(3) by simp
    have "outgoing v ?s1 = outgoing v s" "write_reset os msg ?s1 = write_reset os msg (s\<lparr>rx_kern := k\<rparr>)"
      using views(2) by (simp_all add: outgoing_def write_reset_def)
    then show ?thesis
      using echo_step [OF assms(1) inv st, of cbs'] 2 assms(9) by (auto split: sum.splits)
  qed simp
qed

theorem echo_returns_input_witness:
  "case handleRead sim_os (sim_cbs\<lparr>messageCallback := Some (echo_onMessage sim_os sim_cbs 1 0)\<rparr>)
       ((sim_conn kConnected)\<lparr>rx_kern := kernel0\<lparr>k_room := 2, k_input := ''hello''\<rparr>\<rparr>) of
     Inl e \<Rightarrow> e = Fatal_Exit \<or> e = Length_Error
   | Inr s' \<Rightarrow> outgoing sim_view s' = ''hello''"
proof -
  let ?s = "(sim_conn kConnected)\<lparr>rx_kern := kernel0\<lparr>k_room := 2, k_input := ''hello''\<rparr>\<rparr>"
  let ?cbs = "sim_cbs\<lparr>messageCallback := Some (echo_onMessage sim_os sim_cbs 1 0)\<rparr>"
  have inv: "conn_inv sim_view ?s"
    by (rule conn_inv_kern [OF sim_conn_inv]) (simp_all add: sim_view_def kernel0_def)
  have h: "cn_state (cs_conn ?s) = kConnected" "isInLoopThread 1 (rx_loop ?s)"
    "\<not> wr_shut sim_view (rx_kern ?s) (cn_sockfd (cs_conn ?s))" "''hello'' \<noteq> ([] :: bytes)"
    "messageCallback ?cbs = Some (echo_onMessage sim_os sim_cbs 1 0)"
    by (simp_all add: isInLoopThread_def sim_loop_def sim_view_def kernel0_def)
  have rd: "os_readv sim_os (cn_sockfd (cs_conn ?s)) (readFd_blocks (cn_inputBuffer (cs_conn ?s))) (rx_kern ?s) =
      (Inr ''hello'', (rx_kern ?s)\<lparr>k_delivered := (\<lambda>_. [])(7 := ''hello'')\<rparr>)"
    by (simp add: sim_os_def sim_tcp_def sim_buffer_def readFd_blocks_def writableBytes_def extrabuf_size_def
        size_sub_def kernel0_def)
  have "outgoing sim_view ?s = []" by (simp add: outgoing_def sim_view_def kernel0_def)
  then show ?thesis
    using echo_returns_input [OF sim_os_ok inv h(1-3) rd h(4,5) refl] sim_no_reset by (auto split: sum.splits)
qed

text \<open>C36: The database server cannot serve a connection: it installs no connection callback, so the
  first thing its loop does for an accepted connection, \<open>connectEstablished\<close>, ends in an exception
  (or the process exits because the kernel refuses the descriptor), whatever the application is.\<close>

theorem dbserver_connection_throws:
  assumes "CDBServer os obj0 lp listenAddr nameArg aptr r = Inr s0" and "sv_cbs s = sv_cbs s0"
    and "newConnection os app tid cptr fd peer s = Inr s1" and "i = sv_fresh s"
    and "sv_conn_cbs s2 i = sv_conn_cbs s1 i" and "sv_objects s2 i = sv_objects s1 i"
  shows "server_exec os app tid' mem user (Fn_connectEstablished i) s2 \<in> {Inl Fatal_Exit, Inl Bad_Function_Call}"
proof -
  have fl: "\<not> has_connectionCallback (sv_cbs s)"
    using assms(1,2) by (auto simp: CDBServer_def TcpServer_def setThreadNum_def elim!: res_bindE split: option.splits)
  from newConnection_no_callback [OF fl assms(3)] assms(4-6) obtain c
    where c: "sv_objects s2 i = Some c" and f: "sv_conn_cbs s2 i = sv_cbs s" by auto
  let ?cbs = "conn_cbs os app tid' (sv_cbs s) i"
  have "connectionCallback ?cbs = None" using fl by (simp add: conn_cbs_def)
  from connectEstablished_no_callback [OF this, of os "s2\<lparr>cs_conn := c\<rparr>"] c f show ?thesis
    by (auto simp: server_exec_def closure_conn_def with_conn_def conn_exec_def)
qed

theorem dbserver_connection_throws_witness:
  defines "s0 \<equiv> setThreadNum 48 sim_server0"
  shows "\<exists>s1. newConnection sim_os sim_app 1 (\<lambda>i. i + 10) 8 sim_listen_addr
       (s0\<lparr>sv_pool := sv_pool sim_server, sv_loops := sv_loops sim_server\<rparr>) = Inr s1 \<and>
     server_exec sim_os sim_app 2 (\<lambda>_ _. None) (\<lambda>_. Inr) (Fn_connectEstablished 0) s1
       \<in> {Inl Fatal_Exit, Inl Bad_Function_Call}"
proof -
  let ?s = "s0\<lparr>sv_pool := sv_pool sim_server, sv_loops := sv_loops sim_server\<rparr>"
  let ?run = "newConnection sim_os sim_app 1 (\<lambda>i. i + 10) 8 sim_listen_addr ?s"
  have db: "CDBServer sim_os (sim_tcp kDisconnected) (Some 50) sim_listen_addr ''srv'' 9 sim_reactor = Inr s0"
    by (simp add: CDBServer_def sim_server0_eq s0_def)
  have f: "sv_fresh ?s = 0" "sv_nextConnId ?s = 1" "loop_at 60 ?s = loop_at 60 sim_server"
    using sim_server_fields
    by (simp_all add: s0_def setThreadNum_def loop_at_def sim_server_def setMessageCallback_def setConnectionCallback_def)
  have n: "getNextLoop (sv_pool ?s) = Inr (60, (EventLoopThreadPool 50 ''srv'')\<lparr>ep_loops := [60, 61], ep_next := 1\<rparr>)"
    and i: "sv_nextConnId ?s < 2 ^ 31 - 1" and lp: "loop_at 60 ?s = Some (sim_loop\<lparr>lp_threadId := 2, lp_wakeupFd := 14\<rparr>)"
    using f by (simp_all add: sim_next_loop)
  obtain s1 where s1: "?run = Inr s1"
    by (rule newConnection_queues [OF n lp sim_server_thread i])
  have "0 = sv_fresh ?s" using f by simp
  from dbserver_connection_throws [OF db _ s1 this refl refl] s1 show ?thesis by auto
qed

end
