(* ===== verification/Net_Lifetime.thy ===== *)
theory Net_Lifetime
  imports Net_EventLoop
begin

text \<open>
  The life time of connection objects, without the rest of the server: which channels the kernel may
  report, which connections are in the map of the server, which closures hold a reference, and what
  each of the threads is doing. \<open>life_inv\<close> is the protocol that makes it safe to free a connection
  as soon as nothing refers to it; every transition of this file keeps it. \<open>Net_ServerLoop\<close> shows that
  the code of the server makes only these transitions.
\<close>

section \<open>The abstract state\<close>

text \<open>The thread of a loop waits, goes through the channels \<open>poll\<close> returned, or through a batch of
  closures.\<close>

datatype loop_phase = In_poll | In_handlers "nat list" | In_functors "closure list"

record life_conn =
  lc_ptr :: nat
  lc_fd :: int
  lc_index :: int
  lc_up :: bool

record life_loop =
  ll_epfd :: int
  ll_wake :: nat
  ll_queue :: "closure list"

record life =
  lf_loops :: "nat \<Rightarrow> life_loop option"
  lf_watch :: "int \<Rightarrow> int \<Rightarrow> nat option"
  lf_conns :: "nat \<Rightarrow> life_conn option"
  lf_home :: "nat \<Rightarrow> nat"
  lf_map :: "nat set"
  lf_fresh :: nat
  lf_base :: nat
  lf_acc :: nat

definition batch :: "loop_phase \<Rightarrow> closure list" where
  "batch p = (case p of In_functors fs \<Rightarrow> fs | _ \<Rightarrow> [])"

definition active :: "loop_phase \<Rightarrow> nat list" where
  "active p = (case p of In_handlers ps \<Rightarrow> ps | _ \<Rightarrow> [])"

lemma batch_simps [simp]:
  "batch In_poll = []" "batch (In_handlers ps) = []" "batch (In_functors fs) = fs"
  "active In_poll = []" "active (In_handlers ps) = ps" "active (In_functors fs) = []"
  by (simp_all add: batch_def active_def)

text \<open>The closures a loop still has to run: the rest of its batch, then its queue.\<close>

definition work :: "(nat \<Rightarrow> loop_phase) \<Rightarrow> life \<Rightarrow> nat \<Rightarrow> closure list" where
  "work ph L b = batch (ph b) @ (case lf_loops L b of None \<Rightarrow> [] | Some l \<Rightarrow> ll_queue l)"

fun is_est :: "closure \<Rightarrow> bool" where
  "is_est (Fn_connectEstablished i) = True"
| "is_est _ = False"

text \<open>A closure the server may have queued on loop \<open>b\<close>: it names an existing connection, of that loop
  or, for a removal, queued on the base loop.\<close>

fun fits :: "life \<Rightarrow> nat \<Rightarrow> closure \<Rightarrow> bool" where
  "fits L b (Fn_connectEstablished i) \<longleftrightarrow> lf_conns L i \<noteq> None \<and> lf_home L i = b"
| "fits L b (Fn_connectDestroyed i) \<longleftrightarrow> lf_conns L i \<noteq> None \<and> lf_home L i = b"
| "fits L b (Fn_writeComplete i) \<longleftrightarrow> lf_conns L i \<noteq> None \<and> lf_home L i = b"
| "fits L b (Fn_highWaterMark i n) \<longleftrightarrow> lf_conns L i \<noteq> None \<and> lf_home L i = b"
| "fits L b (Fn_removeConnectionInLoop i) \<longleftrightarrow> lf_conns L i \<noteq> None \<and> b = lf_base L"
| "fits L b _ \<longleftrightarrow> False"

text \<open>Connection \<open>i\<close> is held: it is in the map, or its destruction is still to be run.\<close>

definition held :: "(nat \<Rightarrow> loop_phase) \<Rightarrow> life \<Rightarrow> nat \<Rightarrow> bool" where
  "held ph L i \<longleftrightarrow> i \<in> lf_map L \<or> Fn_connectDestroyed i \<in> set (work ph L (lf_home L i))"

text \<open>The address \<open>p\<close> is that of a channel of loop \<open>b\<close> that exists: its wake-up channel, the acceptor's,
  or that of a connection, whose index satisfies \<open>P\<close>.\<close>

definition chan_of :: "(int \<Rightarrow> int \<Rightarrow> bool) \<Rightarrow> life \<Rightarrow> nat \<Rightarrow> nat \<Rightarrow> bool" where
  "chan_of P L b p \<longleftrightarrow>
     (\<exists>l. lf_loops L b = Some l \<and> p = ll_wake l) \<or> b = lf_base L \<and> p = lf_acc L \<or>
     (\<exists>i c. lf_conns L i = Some c \<and> lf_home L i = b \<and> lc_ptr c = p \<and> P (lc_fd c) (lc_index c))"

section \<open>The protocol\<close>

definition loops_inv :: "life \<Rightarrow> bool" where
  "loops_inv L \<longleftrightarrow> lf_loops L (lf_base L) \<noteq> None \<and>
     (\<forall>a b la lb. lf_loops L a = Some la \<longrightarrow> lf_loops L b = Some lb \<longrightarrow> ll_epfd la = ll_epfd lb \<longrightarrow> a = b)"

definition conns_inv :: "life \<Rightarrow> bool" where
  "conns_inv L \<longleftrightarrow>
     (\<forall>i c. lf_conns L i = Some c \<longrightarrow> i < lf_fresh L \<and> lf_loops L (lf_home L i) \<noteq> None \<and>
        lc_index c \<in> {kNew, kAdded, kDeleted} \<and> (lc_index c = kNew \<longrightarrow> \<not> lc_up c) \<and>
        lc_ptr c \<noteq> lf_acc L \<and> (\<forall>b l. lf_loops L b = Some l \<longrightarrow> lc_ptr c \<noteq> ll_wake l)) \<and>
     (\<forall>i \<in> lf_map L. lf_conns L i \<noteq> None) \<and>
     (\<forall>i j c d. lf_conns L i = Some c \<longrightarrow> lf_conns L j = Some d \<longrightarrow> lc_ptr c = lc_ptr d \<longrightarrow> i = j)"

text \<open>The kernel reports only channels that exist and are registered with that descriptor.\<close>

definition watch_inv :: "life \<Rightarrow> bool" where
  "watch_inv L \<longleftrightarrow>
     (\<forall>b l fd p. lf_loops L b = Some l \<longrightarrow> lf_watch L (ll_epfd l) fd = Some p \<longrightarrow>
        chan_of (\<lambda>fd' idx. fd' = fd \<and> idx = kAdded) L b p)"

text \<open>A registered connection is held.\<close>

definition held_inv :: "(nat \<Rightarrow> loop_phase) \<Rightarrow> life \<Rightarrow> bool" where
  "held_inv ph L \<longleftrightarrow>
     (\<forall>i c. lf_conns L i = Some c \<longrightarrow> lc_index c \<noteq> kNew \<longrightarrow> held ph L i)"

text \<open>A connection that waits to be established is in the map, not registered, and waits only once.\<close>

definition est_inv :: "(nat \<Rightarrow> loop_phase) \<Rightarrow> life \<Rightarrow> bool" where
  "est_inv ph L \<longleftrightarrow>
     (\<forall>b. distinct (filter is_est (work ph L b))) \<and>
     (\<forall>b i c. Fn_connectEstablished i \<in> set (work ph L b) \<longrightarrow> lf_conns L i = Some c \<longrightarrow>
        i \<in> lf_map L \<and> lc_index c = kNew \<and>
        (\<forall>b'. Fn_removeConnectionInLoop i \<notin> set (work ph L b')))"

text \<open>The channels a thread still has to go through exist and are registered.\<close>

definition active_inv :: "(nat \<Rightarrow> loop_phase) \<Rightarrow> life \<Rightarrow> bool" where
  "active_inv ph L \<longleftrightarrow>
     (\<forall>b. \<forall>p \<in> set (active (ph b)). chan_of (\<lambda>fd idx. idx \<noteq> kNew) L b p)"

definition work_inv :: "(nat \<Rightarrow> loop_phase) \<Rightarrow> life \<Rightarrow> bool" where
  "work_inv ph L \<longleftrightarrow> (\<forall>b. \<forall>f \<in> set (work ph L b). fits L b f)"

definition life_inv :: "(nat \<Rightarrow> loop_phase) \<Rightarrow> life \<Rightarrow> bool" where
  "life_inv ph L \<longleftrightarrow> loops_inv L \<and> conns_inv L \<and> watch_inv L \<and> held_inv ph L \<and> est_inv ph L \<and>
     active_inv ph L \<and> work_inv ph L"

lemma life_invI:
  assumes "loops_inv L" "conns_inv L" "watch_inv L" "held_inv ph L" "est_inv ph L" "active_inv ph L" "work_inv ph L"
  shows "life_inv ph L"
  using assms by (simp add: life_inv_def)

lemma life_invD:
  assumes "life_inv ph L"
  shows "loops_inv L" "conns_inv L" "watch_inv L" "held_inv ph L" "est_inv ph L" "active_inv ph L" "work_inv ph L"
  using assms by (simp_all add: life_inv_def)

section \<open>Transitions\<close>

definition put_conn :: "nat \<Rightarrow> life_conn \<Rightarrow> life \<Rightarrow> life" where
  "put_conn i c L = L\<lparr>lf_conns := (lf_conns L)(i \<mapsto> c)\<rparr>"

definition put_watch :: "int \<Rightarrow> int \<Rightarrow> nat option \<Rightarrow> life \<Rightarrow> life" where
  "put_watch ep fd w L = L\<lparr>lf_watch := (lf_watch L)(ep := (lf_watch L ep)(fd := w))\<rparr>"

definition put_queue :: "nat \<Rightarrow> closure \<Rightarrow> life \<Rightarrow> life" where
  "put_queue b f L =
     L\<lparr>lf_loops := (lf_loops L)(b := map_option (\<lambda>l. l\<lparr>ll_queue := ll_queue l @ [f]\<rparr>) (lf_loops L b))\<rparr>"

lemma put_queue_fields [simp]:
  "lf_watch (put_queue b f L) = lf_watch L" "lf_conns (put_queue b f L) = lf_conns L"
  "lf_home (put_queue b f L) = lf_home L" "lf_map (put_queue b f L) = lf_map L"
  "lf_fresh (put_queue b f L) = lf_fresh L" "lf_base (put_queue b f L) = lf_base L"
  "lf_acc (put_queue b f L) = lf_acc L"
  by (simp_all add: put_queue_def)

lemma work_put [simp]:
  "work ph (put_conn i c L) b = work ph L b" "work ph (put_watch ep fd w L) b = work ph L b"
  "work ph (L\<lparr>lf_map := M\<rparr>) b = work ph L b" "work ph (L\<lparr>lf_conns := C\<rparr>) b = work ph L b"
  "work ph (L\<lparr>lf_watch := W\<rparr>) b = work ph L b"
  by (simp_all add: work_def put_conn_def put_watch_def)

lemma work_put_queue:
  assumes "lf_loops L b \<noteq> None"
  shows "work ph (put_queue b f L) b' = (if b' = b then work ph L b @ [f] else work ph L b')"
  using assms by (auto simp: work_def put_queue_def split: option.splits)

text \<open>Changing what is recorded of a connection whose place, descriptor and address stay.\<close>

lemma chan_of_put_conn:
  assumes "lf_conns L i = Some c" and "lc_ptr c' = lc_ptr c" and "lc_fd c' = lc_fd c"
    and "P (lc_fd c) (lc_index c) \<Longrightarrow> Q (lc_fd c) (lc_index c')" and "\<And>fd x. P fd x \<Longrightarrow> Q fd x"
    and "chan_of P L b p"
  shows "chan_of Q (put_conn i c' L) b p"
proof -
  consider (wake) l where "lf_loops L b = Some l" "p = ll_wake l" | (acc) "b = lf_base L" "p = lf_acc L"
    | (conn) j d where "lf_conns L j = Some d" "lf_home L j = b" "lc_ptr d = p" "P (lc_fd d) (lc_index d)"
    using assms(6) by (auto simp: chan_of_def)
  then show ?thesis
  proof cases
    case conn
    then show ?thesis using assms(1-5) unfolding chan_of_def put_conn_def
      by (intro disjI2 exI [of _ j] exI [of _ "if j = i then c' else d"]) auto
  qed (auto simp: chan_of_def put_conn_def)
qed

lemma fits_put_conn [simp]: "lf_conns L i \<noteq> None \<Longrightarrow> fits (put_conn i c L) b f = fits L b f"
  by (cases f) (auto simp: put_conn_def)

lemma held_put_conn [simp]: "held ph (put_conn i c L) j = held ph L j"
  unfolding held_def work_put by (simp add: put_conn_def)


lemma chan_of_mono:
  assumes "chan_of P L b p" and "lf_loops L' = lf_loops L" "lf_base L' = lf_base L" "lf_acc L' = lf_acc L"
    and "\<And>i c. lf_conns L i = Some c \<Longrightarrow> P (lc_fd c) (lc_index c) \<Longrightarrow> lf_conns L' i = Some c \<and> lf_home L' i = lf_home L i"
  shows "chan_of P L' b p"
  using assms(1) unfolding chan_of_def assms(2-4) by (metis assms(5))

lemma chan_of_watch [simp]: "chan_of P (L\<lparr>lf_watch := W\<rparr>) b p = chan_of P L b p"
  by (simp add: chan_of_def)

lemma chan_of_put_queue [simp]: "chan_of P (put_queue b' f L) b p = chan_of P L b p"
proof -
  have "(\<exists>l. lf_loops (put_queue b' f L) b = Some l \<and> p = ll_wake l) \<longleftrightarrow> (\<exists>l. lf_loops L b = Some l \<and> p = ll_wake l)"
    by (auto simp: put_queue_def)
  then show ?thesis unfolding chan_of_def by (simp add: put_queue_def)
qed

lemma fits_put_queue [simp]: "fits (put_queue b' f L) b g = fits L b g"
  by (cases g) (auto simp: put_queue_def)

lemma fits_watch [simp]: "fits (L\<lparr>lf_watch := W\<rparr>) b g = fits L b g"
  by (cases g) auto

subsection \<open>Registration\<close>

text \<open>
  The channel of connection \<open>i\<close> is registered anew, changed or removed: what the kernel watches
  changes at most for its own descriptor, in step with the index; it is registered only while the
  connection is held and not waiting to be established, and it is not removed while its loop goes
  through active channels.
\<close>

definition watch_step :: "life_conn \<Rightarrow> life_conn \<Rightarrow> int \<Rightarrow> (int \<Rightarrow> int \<Rightarrow> nat option) \<Rightarrow> (int \<Rightarrow> int \<Rightarrow> nat option) \<Rightarrow> bool" where
  "watch_step c c' e W W' \<longleftrightarrow>
     (\<forall>ep fd p. W' ep fd = Some p \<longrightarrow>
        W ep fd = Some p \<and> (lc_index c = kAdded \<longrightarrow> lc_index c' = kAdded \<or> ep \<noteq> e \<or> fd \<noteq> lc_fd c) \<or>
        ep = e \<and> fd = lc_fd c \<and> p = lc_ptr c \<and> lc_index c' = kAdded)"

lemma conn_step_active:
  assumes inv: "active_inv ph L" and c: "lf_conns L i = Some c" and same: "lc_ptr c' = lc_ptr c" "lc_fd c' = lc_fd c"
    and act: "lc_index c \<noteq> kNew \<longrightarrow> lc_index c' \<noteq> kNew \<or> active (ph (lf_home L i)) = []"
  shows "active_inv ph (put_conn i c' (L\<lparr>lf_watch := W\<rparr>))" (is "active_inv ph ?L")
  unfolding active_inv_def
proof (intro allI ballI)
  fix b p assume p: "p \<in> set (active (ph b))"
  with inv have ch: "chan_of (\<lambda>fd idx. idx \<noteq> kNew) L b p" by (simp add: active_inv_def)
  show "chan_of (\<lambda>fd idx. idx \<noteq> kNew) ?L b p"
  proof (cases "lf_home L i = b \<and> lc_index c \<noteq> kNew")
    case True
    then have "lc_index c' \<noteq> kNew" using act p by auto
    then show ?thesis using chan_of_put_conn [of "L\<lparr>lf_watch := W\<rparr>" i c c'] c same ch by simp
  next
    case False
    have "chan_of (\<lambda>fd idx. idx \<noteq> kNew) ?L b p \<longleftrightarrow> chan_of (\<lambda>fd idx. idx \<noteq> kNew) L b p \<or>
        lf_home L i = b \<and> lc_ptr c' = p \<and> lc_index c' \<noteq> kNew" if "\<not> (lf_home L i = b \<and> lc_index c \<noteq> kNew)"
      using c that unfolding chan_of_def put_conn_def by auto
    with False ch show ?thesis by blast
  qed
qed

lemma conn_step_watch:
  assumes I: "loops_inv L" "watch_inv L" and c: "lf_conns L i = Some c" and l: "lf_loops L (lf_home L i) = Some l"
    and same: "lc_ptr c' = lc_ptr c" "lc_fd c' = lc_fd c" and W: "watch_step c c' (ll_epfd l) (lf_watch L) W"
  shows "watch_inv (put_conn i c' (L\<lparr>lf_watch := W\<rparr>))" (is "watch_inv ?L")
  unfolding watch_inv_def
proof (intro allI impI)
  fix b lb fd p assume "lf_loops ?L b = Some lb" and "lf_watch ?L (ll_epfd lb) fd = Some p"
  then have lb: "lf_loops L b = Some lb" and w: "W (ll_epfd lb) fd = Some p" by (simp_all add: put_conn_def)
  show "chan_of (\<lambda>fd' idx. fd' = fd \<and> idx = kAdded) ?L b p"
  proof (cases "ll_epfd lb = ll_epfd l \<and> fd = lc_fd c \<and> p = lc_ptr c \<and> lc_index c' = kAdded")
    case True
    then have "b = lf_home L i" using I(1) lb l unfolding loops_inv_def by blast
    with True same show ?thesis
      unfolding chan_of_def put_conn_def by (intro disjI2 exI [of _ i] exI [of _ c']) simp
  next
    case False
    with W w have w': "lf_watch L (ll_epfd lb) fd = Some p"
      and k: "lc_index c = kAdded \<longrightarrow> lc_index c' = kAdded \<or> ll_epfd lb \<noteq> ll_epfd l \<or> fd \<noteq> lc_fd c"
      unfolding watch_step_def by blast+
    with I(2) lb have "chan_of (\<lambda>fd' idx. fd' = fd \<and> idx = kAdded) L b p" by (simp add: watch_inv_def)
    then consider (wake) l where "lf_loops L b = Some l" "p = ll_wake l" | (acc) "b = lf_base L" "p = lf_acc L"
      | (conn) j d where "lf_conns L j = Some d" "lf_home L j = b" "lc_ptr d = p" "lc_fd d = fd" "lc_index d = kAdded"
      by (auto simp: chan_of_def)
    then show ?thesis
    proof cases
      case conn
      then have "j = i \<Longrightarrow> lc_index c' = kAdded" using k c l lb by auto
      then show ?thesis using conn c same unfolding chan_of_def put_conn_def
        by (intro disjI2 exI [of _ j] exI [of _ "if j = i then c' else d"]) auto
    qed (auto simp: chan_of_def put_conn_def)
  qed
qed

lemma conn_step_inv:
  assumes inv: "life_inv ph L" and c: "lf_conns L i = Some c" and l: "lf_loops L (lf_home L i) = Some l"
    and same: "lc_ptr c' = lc_ptr c" "lc_fd c' = lc_fd c"
    and idx: "lc_index c' \<in> {kNew, kAdded, kDeleted}" "lc_index c' = kNew \<longrightarrow> \<not> lc_up c'"
    and reg: "lc_index c' \<noteq> kNew \<longrightarrow> held ph L i \<and> (\<forall>b. Fn_connectEstablished i \<notin> set (work ph L b))"
    and act: "lc_index c \<noteq> kNew \<longrightarrow> lc_index c' \<noteq> kNew \<or> active (ph (lf_home L i)) = []"
    and W: "watch_step c c' (ll_epfd l) (lf_watch L) W"
  shows "life_inv ph (put_conn i c' (L\<lparr>lf_watch := W\<rparr>))" (is "life_inv ph ?L")
proof (rule life_invI)
  note I = life_invD [OF inv]
  show "loops_inv ?L" using I(1) by (simp add: loops_inv_def put_conn_def)
  show "conns_inv ?L"
    using I(2) c same idx unfolding conns_inv_def put_conn_def by (auto split: if_splits)
  show "held_inv ph ?L"
    using I(4) reg unfolding held_inv_def held_put_conn by (auto simp: put_conn_def held_def split: if_splits)
  show "est_inv ph ?L"
    using I(5) reg c unfolding est_inv_def work_put by (auto simp: put_conn_def split: if_splits)
  show "work_inv ph ?L"
    using I(7) c unfolding work_inv_def work_put by simp
  show "active_inv ph ?L" by (rule conn_step_active [OF I(6) c same act])
  show "watch_inv ?L" by (rule conn_step_watch [OF I(1,3) c l same W])
qed

subsection \<open>Queues\<close>

lemma queue_est:
  assumes inv: "est_inv ph L" and b: "lf_loops L b \<noteq> None"
    and est: "\<And>i. f = Fn_connectEstablished i \<Longrightarrow>
        i \<in> lf_map L \<and> (\<forall>c. lf_conns L i = Some c \<longrightarrow> lc_index c = kNew) \<and>
        (\<forall>b'. Fn_connectEstablished i \<notin> set (work ph L b') \<and> Fn_removeConnectionInLoop i \<notin> set (work ph L b'))"
    and rem: "\<And>i b'. f = Fn_removeConnectionInLoop i \<Longrightarrow> Fn_connectEstablished i \<notin> set (work ph L b')"
  shows "est_inv ph (put_queue b f L)" (is "est_inv ph ?L")
proof -
  have w: "work ph ?L b' = (if b' = b then work ph L b @ [f] else work ph L b')" for b'
    by (rule work_put_queue [OF b])
  show ?thesis
  proof (cases "is_est f")
    case True
    then obtain i where f: "f = Fn_connectEstablished i" by (cases f) auto
    show ?thesis using inv est [OF f] f unfolding est_inv_def w by (auto simp: put_queue_def)
  next
    case False
    have "distinct (filter is_est (work ph ?L b'))" for b' using inv False by (auto simp: est_inv_def w)
    moreover have "i \<in> lf_map ?L \<and> lc_index c = kNew \<and> (\<forall>b'. Fn_removeConnectionInLoop i \<notin> set (work ph ?L b'))"
      if "Fn_connectEstablished i \<in> set (work ph ?L b')" "lf_conns ?L i = Some c" for b' i c
    proof -
      have "Fn_connectEstablished i \<in> set (work ph L b')" using that(1) False by (auto simp: w split: if_splits)
      then show ?thesis using that(2) inv rem [of i b'] by (auto simp: est_inv_def w)
    qed
    ultimately show ?thesis unfolding est_inv_def by blast
  qed
qed

lemma queue_inv:
  assumes inv: "life_inv ph L" and b: "lf_loops L b \<noteq> None" and fit: "fits L b f"
    and est: "\<And>i. f = Fn_connectEstablished i \<Longrightarrow>
        i \<in> lf_map L \<and> (\<forall>c. lf_conns L i = Some c \<longrightarrow> lc_index c = kNew) \<and>
        (\<forall>b'. Fn_connectEstablished i \<notin> set (work ph L b') \<and> Fn_removeConnectionInLoop i \<notin> set (work ph L b'))"
    and rem: "\<And>i b'. f = Fn_removeConnectionInLoop i \<Longrightarrow> Fn_connectEstablished i \<notin> set (work ph L b')"
  shows "life_inv ph (put_queue b f L)" (is "life_inv ph ?L")
proof (rule life_invI)
  note I = life_invD [OF inv]
  have w: "work ph ?L b' = (if b' = b then work ph L b @ [f] else work ph L b')" for b'
    by (rule work_put_queue [OF b])
  have "\<exists>l'. lf_loops L a = Some l' \<and> ll_epfd l' = ll_epfd l \<and> ll_wake l' = ll_wake l" if "lf_loops ?L a = Some l" for a l
    using that by (auto simp: put_queue_def split: if_splits)
  note pull = this
  show "loops_inv ?L" unfolding loops_inv_def
  proof (intro conjI allI impI)
    show "lf_loops ?L (lf_base ?L) \<noteq> None" using I(1) by (auto simp: loops_inv_def put_queue_def)
    fix a a' la la' assume "lf_loops ?L a = Some la" "lf_loops ?L a' = Some la'" "ll_epfd la = ll_epfd la'"
    then show "a = a'" using pull [of a la] pull [of a' la'] I(1) by (auto simp: loops_inv_def)
  qed
  show "conns_inv ?L"
    using I(2) pull unfolding conns_inv_def put_queue_def by (auto split: if_splits)
  show "watch_inv ?L" unfolding watch_inv_def chan_of_put_queue
  proof (intro allI impI)
    fix a l fd p assume "lf_loops ?L a = Some l" and x: "lf_watch ?L (ll_epfd l) fd = Some p"
    from pull [OF this(1)] obtain l' where "lf_loops L a = Some l'" "ll_epfd l' = ll_epfd l" by blast
    moreover have "lf_watch L (ll_epfd l) fd = Some p" using x by (simp add: put_queue_def)
    ultimately show "chan_of (\<lambda>fd' idx. fd' = fd \<and> idx = kAdded) L a p"
      using I(3) unfolding watch_inv_def by metis
  qed
  show "held_inv ph ?L" using I(4) unfolding held_inv_def held_def w by (auto simp: put_queue_def)
  show "active_inv ph ?L" using I(6) by (simp add: active_inv_def)
  show "work_inv ph ?L" using I(7) fit unfolding work_inv_def w by auto
  show "est_inv ph ?L" by (rule queue_est [OF I(5) b est rem])
qed

text \<open>\<open>removeConnectionInLoop\<close>: out of the map, and destroyed later by its own loop.\<close>

definition drop_conn :: "nat \<Rightarrow> life \<Rightarrow> life" where
  "drop_conn i L = (put_queue (lf_home L i) (Fn_connectDestroyed i) L)\<lparr>lf_map := lf_map L - {i}\<rparr>"

lemma drop_conn_inv:
  assumes inv: "life_inv ph L" and i: "lf_conns L i \<noteq> None"
    and est: "\<And>b. Fn_connectEstablished i \<notin> set (work ph L b)"
  shows "life_inv ph (drop_conn i L)"
proof -
  let ?b = "lf_home L i" and ?L1 = "put_queue (lf_home L i) (Fn_connectDestroyed i) L"
  have b: "lf_loops L ?b \<noteq> None" using life_invD(2) [OF inv] i by (auto simp: conns_inv_def)
  have "life_inv ph ?L1" using i by (intro queue_inv [OF inv b]) simp_all
  note I = life_invD [OF this]
  have w: "work ph ?L1 b' = (if b' = ?b then work ph L ?b @ [Fn_connectDestroyed i] else work ph L b')" for b'
    by (rule work_put_queue [OF b])
  let ?L = "?L1\<lparr>lf_map := lf_map L - {i}\<rparr>"
  have "chan_of P ?L b' p = chan_of P ?L1 b' p" for P b' p by (simp add: chan_of_def)
  then have "watch_inv ?L" "active_inv ph ?L" using I(3,6) by (simp_all add: watch_inv_def active_inv_def)
  moreover have "loops_inv ?L" "conns_inv ?L" using I(1,2) by (auto simp: loops_inv_def conns_inv_def)
  moreover have "held ph ?L j" if "held ph ?L1 j" for j
    using that b by (cases "j = i") (auto simp: held_def w)
  then have "held_inv ph ?L" using I(4) by (simp add: held_inv_def)
  moreover have "est_inv ph ?L" using I(5) est by (auto simp: est_inv_def w)
  moreover have "fits ?L b' f = fits ?L1 b' f" for b' f by (cases f) auto
  then have "work_inv ph ?L" using I(7) by (simp add: work_inv_def)
  ultimately show ?thesis unfolding drop_conn_def by (intro life_invI)
qed

subsection \<open>New connections and freed ones\<close>

definition add_conn :: "nat \<Rightarrow> life_conn \<Rightarrow> life \<Rightarrow> life" where
  "add_conn b c L =
     L\<lparr>lf_conns := (lf_conns L)(lf_fresh L \<mapsto> c), lf_home := (lf_home L)(lf_fresh L := b),
       lf_map := insert (lf_fresh L) (lf_map L), lf_fresh := Suc (lf_fresh L)\<rparr>"

text \<open>The address is one no existing channel has.\<close>

definition free_ptr :: "life \<Rightarrow> nat \<Rightarrow> bool" where
  "free_ptr L p \<longleftrightarrow> p \<noteq> lf_acc L \<and> (\<forall>b l. lf_loops L b = Some l \<longrightarrow> p \<noteq> ll_wake l) \<and>
     (\<forall>i c. lf_conns L i = Some c \<longrightarrow> p \<noteq> lc_ptr c)"

lemma fits_conn: "fits L b f \<Longrightarrow> conns_inv L \<Longrightarrow>
    f \<noteq> Fn_connectEstablished (lf_fresh L) \<and> f \<noteq> Fn_connectDestroyed (lf_fresh L) \<and>
    f \<noteq> Fn_removeConnectionInLoop (lf_fresh L)"
  by (cases f) (auto simp: conns_inv_def)

lemma work_not_fresh:
  assumes "life_inv ph L"
  shows "Fn_connectEstablished (lf_fresh L) \<notin> set (work ph L b)"
    "Fn_removeConnectionInLoop (lf_fresh L) \<notin> set (work ph L b)"
    "Fn_connectDestroyed (lf_fresh L) \<notin> set (work ph L b)"
  using life_invD(2,7) [OF assms] fits_conn unfolding work_inv_def by blast+

lemma add_conn_inv:
  assumes inv: "life_inv ph L" and b: "lf_loops L b \<noteq> None" and p: "free_ptr L (lc_ptr c)"
    and c: "lc_index c = kNew" "\<not> lc_up c"
  shows "life_inv ph (add_conn b c L)" (is "life_inv ph ?L")
proof (rule life_invI)
  note I = life_invD [OF inv]
  have new: "lf_conns L (lf_fresh L) = None"
    using I(2) unfolding conns_inv_def by (metis less_irrefl not_None_eq)
  have m: "lf_fresh L \<notin> lf_map L" using I(2) new by (auto simp: conns_inv_def)
  have w: "work ph ?L = work ph L" by (simp add: work_def add_conn_def fun_eq_iff)
  have keep: "chan_of P ?L b' q" if "chan_of P L b' q" for P b' q
    by (rule chan_of_mono [OF that]) (use new in \<open>auto simp: add_conn_def\<close>)
  show "loops_inv ?L" using I(1) by (simp add: loops_inv_def add_conn_def)
  show "conns_inv ?L" unfolding conns_inv_def
  proof (intro conjI allI impI ballI)
    fix i d assume "lf_conns ?L i = Some d"
    then consider "i = lf_fresh L" "d = c" | "i \<noteq> lf_fresh L" "lf_conns L i = Some d"
      by (auto simp: add_conn_def split: if_splits)
    then show "i < lf_fresh ?L" "lf_loops ?L (lf_home ?L i) \<noteq> None" "lc_index d \<in> {kNew, kAdded, kDeleted}"
      "lc_index d = kNew \<Longrightarrow> \<not> lc_up d" "lc_ptr d \<noteq> lf_acc ?L"
      "lf_loops ?L b' = Some l \<Longrightarrow> lc_ptr d \<noteq> ll_wake l" for b' l
      using I(2) p c b unfolding add_conn_def free_ptr_def by (cases; auto simp: conns_inv_def less_SucI)+
  next
    fix i assume "i \<in> lf_map ?L"
    then show "lf_conns ?L i \<noteq> None" using I(2) by (auto simp: add_conn_def conns_inv_def)
  next
    fix i j d d' assume "lf_conns ?L i = Some d" "lf_conns ?L j = Some d'" "lc_ptr d = lc_ptr d'"
    then show "i = j" using I(2) p unfolding free_ptr_def add_conn_def
      by (auto simp: conns_inv_def split: if_splits) metis+
  qed
  show "watch_inv ?L" using I(3) keep unfolding watch_inv_def by (simp add: add_conn_def)
  show "held_inv ph ?L"
    using I(4) c(1) new unfolding held_inv_def held_def w by (auto simp: add_conn_def)
  show "active_inv ph ?L" using I(6) keep by (auto simp: active_inv_def)
  show "est_inv ph ?L"
    using I(5) work_not_fresh [OF inv] unfolding est_inv_def w by (auto simp: add_conn_def)
  have "fits ?L b' f" if "fits L b' f" for b' f
    using that new by (cases f) (auto simp: add_conn_def)
  then show "work_inv ph ?L" using I(7) unfolding work_inv_def w by blast
qed

text \<open>Nothing refers to connection \<open>i\<close>: it is not in the map, and no closure has a shared pointer to it.\<close>

fun refers :: "closure \<Rightarrow> nat \<Rightarrow> bool" where
  "refers (Fn_connectEstablished j) i \<longleftrightarrow> j = i"
| "refers (Fn_connectDestroyed j) i \<longleftrightarrow> j = i"
| "refers (Fn_writeComplete j) i \<longleftrightarrow> j = i"
| "refers (Fn_highWaterMark j n) i \<longleftrightarrow> j = i"
| "refers (Fn_removeConnectionInLoop j) i \<longleftrightarrow> j = i"
| "refers _ i \<longleftrightarrow> False"

definition unreferenced :: "(nat \<Rightarrow> loop_phase) \<Rightarrow> life \<Rightarrow> nat \<Rightarrow> bool" where
  "unreferenced ph L i \<longleftrightarrow> i \<notin> lf_map L \<and> (\<forall>b. \<forall>f \<in> set (work ph L b). \<not> refers f i)"

lemma free_inv:
  assumes inv: "life_inv ph L" and u: "unreferenced ph L i"
    and W: "\<And>ep fd p. W ep fd = Some p \<Longrightarrow> lf_watch L ep fd = Some p"
  shows "life_inv ph (L\<lparr>lf_conns := (lf_conns L)(i := None), lf_watch := W\<rparr>)" (is "life_inv ph ?L")
proof (rule life_invI)
  note I = life_invD [OF inv]
  have w: "work ph ?L = work ph L" by (simp add: work_def fun_eq_iff)
  have "\<not> held ph L i" using u by (force simp: unreferenced_def held_def)
  then have new: "lc_index c = kNew" if "lf_conns L i = Some c" for c
    using I(4) that by (auto simp: held_inv_def)
  have keep: "chan_of P ?L b p" if "chan_of P L b p" "\<And>fd. \<not> P fd kNew" for P b p
  proof -
    have "j \<noteq> i" if "lf_conns L j = Some d" "P (lc_fd d) (lc_index d)" for j d
      using new that \<open>\<And>fd. \<not> P fd kNew\<close> by metis
    then show ?thesis by (intro chan_of_mono [OF that(1)]) auto
  qed
  show "loops_inv ?L" using I(1) by (simp add: loops_inv_def)
  show "conns_inv ?L" using I(2) u by (auto simp: conns_inv_def unreferenced_def)
  show "watch_inv ?L" unfolding watch_inv_def
  proof (intro allI impI)
    fix b l fd p assume "lf_loops ?L b = Some l" "lf_watch ?L (ll_epfd l) fd = Some p"
    then have "chan_of (\<lambda>fd' idx. fd' = fd \<and> idx = kAdded) L b p"
      using I(3) W [of "ll_epfd l" fd p] by (simp add: watch_inv_def)
    then show "chan_of (\<lambda>fd' idx. fd' = fd \<and> idx = kAdded) ?L b p"
      by (rule keep) (simp add: index_consts)
  qed
  show "held_inv ph ?L" using I(4) unfolding held_inv_def held_def w by auto
  show "est_inv ph ?L" using I(5) unfolding est_inv_def w by auto
  have "chan_of (\<lambda>fd idx. idx \<noteq> kNew) ?L b p" if "p \<in> set (active (ph b))" for b p
    using I(6) that by (intro keep) (simp_all add: active_inv_def)
  then show "active_inv ph ?L" unfolding active_inv_def by blast
  have "fits ?L b f" if "fits L b f" "\<not> refers f i" for b f
    using that by (cases f) auto
  then show "work_inv ph ?L" using I(7) u unfolding work_inv_def w unreferenced_def by blast
qed


text \<open>The kernel may forget registrations.\<close>

lemma shrink_inv:
  assumes "life_inv ph L" and W: "\<And>ep fd p. W ep fd = Some p \<Longrightarrow> lf_watch L ep fd = Some p"
  shows "life_inv ph (L\<lparr>lf_watch := W\<rparr>)"
proof -
  note I = life_invD [OF assms(1)]
  have "watch_inv (L\<lparr>lf_watch := W\<rparr>)" using I(3) W unfolding watch_inv_def by simp
  moreover have "held ph (L\<lparr>lf_watch := W\<rparr>) = held ph L" by (simp add: held_def fun_eq_iff)
  then have "held_inv ph (L\<lparr>lf_watch := W\<rparr>)" using I(4) by (simp add: held_inv_def)
  ultimately show ?thesis using I(1,2,5,6,7)
    by (intro life_invI) (simp_all add: loops_inv_def conns_inv_def est_inv_def active_inv_def work_inv_def)
qed

subsection \<open>Phases\<close>

text \<open>A phase change that keeps what is left to run, and whose active channels exist.\<close>

lemma phase_inv:
  assumes inv: "life_inv ph L" and w: "\<And>a. work ph' L' a = work ph L a"
    and same: "lf_watch L' = lf_watch L" "lf_conns L' = lf_conns L" "lf_home L' = lf_home L" "lf_map L' = lf_map L"
      "lf_fresh L' = lf_fresh L" "lf_base L' = lf_base L" "lf_acc L' = lf_acc L"
    and loops: "\<And>a. map_option (\<lambda>l. (ll_epfd l, ll_wake l)) (lf_loops L' a) = map_option (\<lambda>l. (ll_epfd l, ll_wake l)) (lf_loops L a)"
    and act: "\<And>a p. p \<in> set (active (ph' a)) \<Longrightarrow> chan_of (\<lambda>fd idx. idx \<noteq> kNew) L a p"
  shows "life_inv ph' L'"
proof (rule life_invI)
  note I = life_invD [OF inv]
  have pull: "\<exists>l. lf_loops L a = Some l \<and> ll_epfd l = ll_epfd l' \<and> ll_wake l = ll_wake l'" if "lf_loops L' a = Some l'" for a l'
    using loops [of a] that by (cases "lf_loops L a") auto
  have push: "\<exists>l. lf_loops L' a = Some l \<and> ll_epfd l = ll_epfd l' \<and> ll_wake l = ll_wake l'" if "lf_loops L a = Some l'" for a l'
    using loops [of a] that by (cases "lf_loops L' a") auto
  have some: "(lf_loops L' a = None) = (lf_loops L a = None)" for a
    using loops [of a] by (cases "lf_loops L a"; cases "lf_loops L' a") auto
  have ch: "chan_of P L' a p" if "chan_of P L a p" for P a p
    using that push unfolding chan_of_def same by metis
  show "loops_inv L'" unfolding loops_inv_def
  proof (intro conjI allI impI)
    show "lf_loops L' (lf_base L') \<noteq> None" using I(1) some same by (simp add: loops_inv_def)
    fix a b la lb assume "lf_loops L' a = Some la" "lf_loops L' b = Some lb" "ll_epfd la = ll_epfd lb"
    then show "a = b" using pull [of a la] pull [of b lb] I(1) by (auto simp: loops_inv_def)
  qed
  have "lc_ptr c \<noteq> ll_wake l'" if "lf_conns L i = Some c" "lf_loops L' b = Some l'" for i c b l'
    using I(2) pull [OF that(2)] that(1) unfolding conns_inv_def by metis
  then show "conns_inv L'" using I(2) unfolding conns_inv_def same some by blast
  show "watch_inv L'" unfolding watch_inv_def
  proof (intro allI impI)
    fix b l fd p assume "lf_loops L' b = Some l" and x: "lf_watch L' (ll_epfd l) fd = Some p"
    from pull [OF this(1)] obtain l0 where "lf_loops L b = Some l0" "ll_epfd l0 = ll_epfd l" by blast
    with x I(3) have "chan_of (\<lambda>fd' idx. fd' = fd \<and> idx = kAdded) L b p" by (simp add: watch_inv_def same)
    then show "chan_of (\<lambda>fd' idx. fd' = fd \<and> idx = kAdded) L' b p" by (rule ch)
  qed
  show "held_inv ph' L'" using I(4) unfolding held_inv_def held_def w same .
  show "est_inv ph' L'" using I(5) unfolding est_inv_def w same .
  show "active_inv ph' L'" using act ch unfolding active_inv_def by blast
  have "fits L' a f = fits L a f" for a f by (cases f) (simp_all add: same)
  then show "work_inv ph' L'" using I(7) by (simp add: work_inv_def w)
qed

text \<open>Taking a closure from the batch: one that is not a destruction, or whose channel is gone.\<close>

lemma pop_inv:
  assumes inv: "life_inv ph L" and ph: "ph b = In_functors (f # fs)"
    and d: "\<And>i c. f = Fn_connectDestroyed i \<Longrightarrow> lf_conns L i = Some c \<Longrightarrow> lc_index c = kNew"
  shows "life_inv (ph(b := In_functors fs)) L" (is "life_inv ?ph L")
proof (rule life_invI)
  note I = life_invD [OF inv]
  have w: "work ph L b = f # work ?ph L b" "a \<noteq> b \<Longrightarrow> work ?ph L a = work ph L a" for a
    using ph by (simp_all add: work_def)
  have sub: "set (work ?ph L a) \<subseteq> set (work ph L a)" for a using w(1) w(2) [of a] by (cases "a = b") auto
  show "held_inv ?ph L" unfolding held_inv_def
  proof (intro allI impI)
    fix i c assume c: "lf_conns L i = Some c" "lc_index c \<noteq> kNew"
    then have "held ph L i" using I(4) by (simp add: held_inv_def)
    moreover have "f \<noteq> Fn_connectDestroyed i" using d c by blast
    ultimately show "held ?ph L i" using w(1) w(2) [of "lf_home L i"]
      by (cases "lf_home L i = b") (auto simp: held_def)
  qed
  have "distinct (filter is_est (work ?ph L a))" for a
    using I(5) w(1) w(2) [of a] unfolding est_inv_def by (cases "a = b") (metis distinct.simps(2) filter.simps(2))+
  then show "est_inv ?ph L" using I(5) sub unfolding est_inv_def by blast
  show "active_inv ?ph L" using I(6) ph by (auto simp: active_inv_def)
  show "work_inv ?ph L" using I(7) sub unfolding work_inv_def by blast
qed (use life_invD [OF inv] in auto)

text \<open>When a connection's establishment is taken from the batch, the connection is in the map, its
  channel is not registered, and no other closure establishes or removes it.\<close>

lemma pop_est:
  assumes inv: "life_inv ph L" and ph: "ph b = In_functors (Fn_connectEstablished i # fs)"
  shows "i \<in> lf_map L" "lf_conns L i \<noteq> None" "lf_home L i = b"
    "Fn_connectEstablished i \<notin> set (work (ph(b := In_functors fs)) L b')"
proof -
  note I = life_invD [OF inv]
  let ?ph = "ph(b := In_functors fs)"
  have w: "work ph L b = Fn_connectEstablished i # work ?ph L b" "a \<noteq> b \<Longrightarrow> work ?ph L a = work ph L a" for a
    using ph by (simp_all add: work_def)
  then have "Fn_connectEstablished i \<in> set (work ph L b)" by simp
  then have "fits L b (Fn_connectEstablished i)" using I(7) unfolding work_inv_def by blast
  then show c: "lf_conns L i \<noteq> None" and h: "lf_home L i = b" by auto
  have "Fn_connectEstablished i \<in> set (work ph L b)" using w(1) by simp
  with c I(5) show "i \<in> lf_map L" unfolding est_inv_def by blast
  show "Fn_connectEstablished i \<notin> set (work ?ph L b')"
  proof (cases "b' = b")
    case True
    have "distinct (filter is_est (Fn_connectEstablished i # work ?ph L b))"
      using I(5) w(1) unfolding est_inv_def by metis
    then show ?thesis using True by simp
  next
    case False
    have "fits L b' (Fn_connectEstablished i)" if "Fn_connectEstablished i \<in> set (work ph L b')"
      using I(7) that unfolding work_inv_def by blast
    then show ?thesis using False h w(2) by auto
  qed
qed

end
