(* ===== verification/Net_ServerLoop.thy ===== *)
theory Net_ServerLoop
  imports Net_Server Net_Lifetime
begin

text \<open>
  The loops of a server at work: the channels a loop of the server may have (\<open>server_chans\<close>), the
  dispatch of one active channel (\<open>server_handle\<close>), a whole turn of \<open>EventLoop::loop\<close> on a server
  (\<open>server_turn\<close>), and the threads of all its loops running concurrently (\<open>sl_step\<close>), where one step is
  one call of \<open>poll\<close>, one event handler or one closure. A connection object may be freed as soon as no
  shared pointer refers to it. The code is shown to follow the protocol of \<open>Net_Lifetime\<close>: \<open>life_of\<close>
  reads off the abstract state, and the locale \<open>application\<close> is what the callbacks of an application
  have to keep.
\<close>

section \<open>The model\<close>

definition owner_of :: "nat \<Rightarrow> 'k server \<Rightarrow> nat option" where
  "owner_of p s =
     find (\<lambda>i. case sv_objects s i of None \<Rightarrow> False | Some c \<Rightarrow> chan_ptr (cn_channel c) = p) [0..<sv_fresh s]"

definition server_chans :: "'k server \<Rightarrow> chan_store" where
  "server_chans s p =
     (if p = chan_ptr (lp_wakeupChannel (rx_loop s)) then Some (lp_wakeupChannel (rx_loop s))
      else if p = chan_ptr (ac_channel (sv_acceptor s)) then Some (ac_channel (sv_acceptor s))
      else case owner_of p s of None \<Rightarrow> None | Some i \<Rightarrow> map_option cn_channel (sv_objects s i))"

text \<open>\<open>poll\<close> changes \<open>revents_\<close> only.\<close>

definition pick :: "chan_store \<Rightarrow> channel \<Rightarrow> channel" where
  "pick store ch = (case store (chan_ptr ch) of None \<Rightarrow> ch | Some ch' \<Rightarrow> set_revents (chan_revents ch') ch)"

definition server_put :: "chan_store \<Rightarrow> 'k server \<Rightarrow> 'k server" where
  "server_put store s =
     s\<lparr>rx_loop := (rx_loop s)\<lparr>lp_wakeupChannel := pick store (lp_wakeupChannel (rx_loop s))\<rparr>,
       sv_acceptor := (sv_acceptor s)\<lparr>ac_channel := pick store (ac_channel (sv_acceptor s))\<rparr>,
       sv_objects := (\<lambda>i. map_option (\<lambda>c. c\<lparr>cn_channel := pick store (cn_channel c)\<rparr>) (sv_objects s i))\<rparr>"

text \<open>\<open>channel->handleEvent\<close> for the channel at address \<open>p\<close>, in the loop that runs.\<close>

definition server_handle ::
    "'k os \<Rightarrow> 'k server conn_callbacks \<Rightarrow> int \<Rightarrow> (nat \<Rightarrow> nat) \<Rightarrow> sockaddr_in \<Rightarrow> nat \<Rightarrow> 'k server \<Rightarrow> 'k server res" where
  "server_handle os app tid cptr peer0 p s =
     (if p = chan_ptr (lp_wakeupChannel (rx_loop s)) then
        handleEvent (\<lambda>_. True) (\<lambda>f s. Inr (case f of Loop_handleRead \<Rightarrow> loop_handleRead os s | _ \<Rightarrow> s))
          (\<lambda>s. lp_wakeupChannel (rx_loop s)) s
      else if p = chan_ptr (ac_channel (sv_acceptor s)) then
        handleEvent (\<lambda>_. True)
          (\<lambda>f s. case f of Acceptor_handleRead \<Rightarrow> acceptor_handleRead os app tid cptr peer0 s | _ \<Rightarrow> Inr s)
          (\<lambda>s. ac_channel (sv_acceptor s)) s
      else
        (case owner_of p s of
           None \<Rightarrow> Inl Undefined_Behaviour
         | Some i \<Rightarrow>
             with_conn i
               (handleEvent (\<lambda>obj. sv_objects s obj \<noteq> None)
                  (run_callback os (conn_cbs os app tid (sv_conn_cbs s i) i) tid) (\<lambda>s. cn_channel (cs_conn s))) s))"

definition server_turn ::
    "'k os \<Rightarrow> 'k server conn_callbacks \<Rightarrow> int \<Rightarrow> (nat \<Rightarrow> nat) \<Rightarrow> sockaddr_in \<Rightarrow> (nat \<Rightarrow> nat \<Rightarrow> bytes option) \<Rightarrow>
     (nat \<Rightarrow> 'k server \<Rightarrow> 'k server res) \<Rightarrow> 'k server \<Rightarrow> 'k server res" where
  "server_turn os app tid cptr peer0 mem user s =
     loop_turn os server_chans server_put (server_handle os app tid cptr peer0) (server_exec os app tid mem user) s"

text \<open>The first part of a turn: \<open>poll\<close>, with the reported events stored in the channels.\<close>

definition server_poll :: "'k os \<Rightarrow> 'k server \<Rightarrow> 'k server res" where
  "server_poll os s =
     res_bind (poll os kPollTimeMs (lp_poller (rx_loop s)) (server_chans s) (rx_kern s)) (\<lambda>(act, store, p, k).
       Inr (server_put store (s\<lparr>rx_loop := (rx_loop s)\<lparr>lp_poller := p, lp_activeChannels := act\<rparr>, rx_kern := k\<rparr>)))"

lemma server_turn_parts:
  "server_turn os app tid cptr peer0 mem user s =
     res_bind (server_poll os s) (\<lambda>s1.
     res_bind (fold_res (server_handle os app tid cptr peer0) (lp_activeChannels (rx_loop s1)) s1) (\<lambda>s2.
     case swap_pending s2 of (fs, s3) \<Rightarrow>
       res_bind (fold_res (server_exec os app tid mem user) fs s3) (\<lambda>s4. Inr (end_pending s4))))"
  by (simp add: server_turn_def loop_turn_def server_poll_def doPendingFunctors_def server_put_def
      res_bind_def split: sum.splits prod.splits)

text \<open>The destructor of a connection closes its socket.\<close>

definition free_object :: "'k os \<Rightarrow> nat \<Rightarrow> tcp_connection \<Rightarrow> 'k server \<Rightarrow> 'k server" where
  "free_object os i c s = s\<lparr>sv_objects := (sv_objects s)(i := None), rx_kern := os_close os (cn_sockfd c) (rx_kern s)\<rparr>"

text \<open>What is relied on of the calls that make and close descriptors: they register nothing, and \<open>close\<close> at
  most forgets.\<close>

definition sock_ok :: "'k os \<Rightarrow> 'k view \<Rightarrow> bool" where
  "sock_ok os v \<longleftrightarrow>
     (\<forall>fd k. interest v (snd (os_accept4 os fd k)) = interest v k) \<and>
     (\<forall>fd k. interest v (snd (os_getsockname os fd k)) = interest v k) \<and>
     (\<forall>fd opt on k. interest v (os_setsockopt os fd opt on k) = interest v k) \<and>
     (\<forall>k. interest v (snd (os_socket os k)) = interest v k) \<and>
     (\<forall>fd a k. interest v (snd (os_bind os fd a k)) = interest v k) \<and>
     (\<forall>fd n k. interest v (snd (os_listen os fd n k)) = interest v k) \<and>
     (\<forall>k ep. ep \<noteq> fst (os_epoll_create1 os k) \<longrightarrow> interest v (snd (os_epoll_create1 os k)) ep = interest v k ep) \<and>
     (\<forall>fd k ep fd' e. interest v (os_close os fd k) ep fd' = Some e \<longrightarrow> interest v k ep fd' = Some e)"

lemma sock_interest:
  assumes "sock_ok os v"
  shows "interest v (snd (os_accept4 os fd k)) = interest v k" "interest v (snd (os_getsockname os fd k)) = interest v k"
    "interest v (os_setsockopt os fd opt on k) = interest v k"
    "interest v (os_close os fd k) ep fd' = Some e \<Longrightarrow> interest v k ep fd' = Some e"
  using assms [unfolded sock_ok_def, THEN conjunct1, rule_format]
    assms [unfolded sock_ok_def, THEN conjunct2, THEN conjunct1, rule_format]
    assms [unfolded sock_ok_def, THEN conjunct2, THEN conjunct2, THEN conjunct1, rule_format]
    assms [unfolded sock_ok_def, THEN conjunct2, THEN conjunct2, THEN conjunct2, THEN conjunct2, THEN conjunct2,
      THEN conjunct2, THEN conjunct2, rule_format]
  by this+

section \<open>The abstract state of a server\<close>

definition life_conn_of :: "tcp_connection \<Rightarrow> life_conn" where
  "life_conn_of c =
     \<lparr>lc_ptr = chan_ptr (cn_channel c), lc_fd = chan_fd (cn_channel c), lc_index = chan_index (cn_channel c),
      lc_up = (cn_state c = kConnected)\<rparr>"

definition life_loop_of :: "event_loop \<Rightarrow> life_loop" where
  "life_loop_of l =
     \<lparr>ll_epfd = pl_epollfd (lp_poller l), ll_wake = chan_ptr (lp_wakeupChannel l), ll_queue = lp_pendingFunctors l\<rparr>"

definition watch_of :: "'k view \<Rightarrow> 'k \<Rightarrow> int \<Rightarrow> int \<Rightarrow> nat option" where
  "watch_of v k ep fd = map_option ev_ptr (interest v k ep fd)"

definition cname :: "'k server \<Rightarrow> nat \<Rightarrow> string" where
  "cname s i = conn_name (sv_name s) (sv_ipPort s) (int i + 1)"

definition life_of :: "'k view \<Rightarrow> 'k server \<Rightarrow> life" where
  "life_of v s =
     \<lparr>lf_loops = (\<lambda>b. map_option life_loop_of (loop_at b s)), lf_watch = watch_of v (rx_kern s),
      lf_conns = (\<lambda>i. map_option life_conn_of (sv_objects s i)), lf_home = sv_conn_loop s,
      lf_map = {i. sv_connections s (cname s i) = Some i}, lf_fresh = sv_fresh s, lf_base = sv_loop s,
      lf_acc = chan_ptr (ac_channel (sv_acceptor s))\<rparr>"

definition names_inv :: "'k server \<Rightarrow> bool" where
  "names_inv s \<longleftrightarrow>
     length (sv_ipPort s) \<le> 21 \<and> CHR 0x00 \<notin> set (sv_ipPort s) \<and>
     sv_nextConnId s = int (sv_fresh s) + 1 \<and> sv_nextConnId s < 2 ^ 31 \<and>
     (let ch = ac_channel (sv_acceptor s) in closeCallback ch = None \<and> errorCallback ch = None \<and> writeCallback ch = None) \<and>
     (\<forall>x i. sv_connections s x = Some i \<longrightarrow> x = cname s i \<and> sv_objects s i \<noteq> None) \<and>
     (\<forall>i c. sv_objects s i = Some c \<longrightarrow> cn_name c = cname s i \<and> cn_id c = i \<and> cn_sockfd c = chan_fd (cn_channel c))"

lemma names_inv_cong:
  assumes "names_inv s" and "sv_ipPort t = sv_ipPort s" "sv_name t = sv_name s" "sv_nextConnId t = sv_nextConnId s"
    "sv_fresh t = sv_fresh s" "sv_connections t = sv_connections s" "sv_acceptor t = sv_acceptor s"
    and "\<And>i. sv_objects s i \<noteq> None \<Longrightarrow> sv_objects t i \<noteq> None"
    and "\<And>i c. sv_objects t i = Some c \<Longrightarrow> cn_name c = cname s i \<and> cn_id c = i \<and> cn_sockfd c = chan_fd (cn_channel c)"
  shows "names_inv t"
proof -
  have cn: "cname t = cname s" by (simp add: cname_def assms(2,3) fun_eq_iff)
  have "\<forall>i c. sv_objects t i = Some c \<longrightarrow> cn_name c = cname t i \<and> cn_id c = i \<and> cn_sockfd c = chan_fd (cn_channel c)"
    using assms(9) unfolding cn by blast
  moreover have "\<forall>x i. sv_connections t x = Some i \<longrightarrow> x = cname t i \<and> sv_objects t i \<noteq> None"
    using assms(1,8) unfolding names_inv_def cn assms(6) by blast
  ultimately have "\<forall>i c. sv_objects t i = Some c \<longrightarrow> cn_name c = cname t i \<and> cn_id c = i \<and> cn_sockfd c = chan_fd (cn_channel c)"
    and "\<forall>x i. sv_connections t x = Some i \<longrightarrow> x = cname t i \<and> sv_objects t i \<noteq> None" .
  with assms(1-5,7) show ?thesis unfolding names_inv_def by simp
qed

definition safe :: "'k view \<Rightarrow> (nat \<Rightarrow> loop_phase) \<Rightarrow> 'k server \<Rightarrow> bool" where
  "safe v ph s \<longleftrightarrow> life_inv ph (life_of v s) \<and> names_inv s"

text \<open>The threads. \<open>ph b\<close> is what the thread of loop \<open>b\<close> is doing; a new connection object is placed where
  no existing channel is.\<close>

inductive sl_step ::
    "'k os \<Rightarrow> (int \<Rightarrow> 'k server conn_callbacks) \<Rightarrow> 'k view \<Rightarrow>
     (nat \<Rightarrow> loop_phase) \<times> 'k server \<Rightarrow> (nat \<Rightarrow> loop_phase) \<times> 'k server \<Rightarrow> bool"
  for os app v where
  polls: "ph b = In_poll \<Longrightarrow> with_loop b (server_poll os) s = Inr s' \<Longrightarrow> loop_at b s' = Some l \<Longrightarrow>
    sl_step os app v (ph, s) (ph(b := In_handlers (lp_activeChannels l)), s')"
| handles: "ph b = In_handlers (p # ps) \<Longrightarrow> loop_at b s = Some l \<Longrightarrow> free_ptr (life_of v s) (cptr (sv_fresh s)) \<Longrightarrow>
    with_loop b (server_handle os (app (lp_threadId l)) (lp_threadId l) cptr peer0 p) s = Inr s' \<Longrightarrow>
    sl_step os app v (ph, s) (ph(b := In_handlers ps), s')"
| swaps: "ph b = In_handlers [] \<Longrightarrow> loop_at b s = Some l \<Longrightarrow>
    with_loop b (\<lambda>s. Inr (snd (swap_pending s))) s = Inr s' \<Longrightarrow>
    sl_step os app v (ph, s) (ph(b := In_functors (lp_pendingFunctors l)), s')"
| runs: "ph b = In_functors (f # fs) \<Longrightarrow> loop_at b s = Some l \<Longrightarrow>
    with_loop b (server_exec os (app (lp_threadId l)) (lp_threadId l) mem user f) s = Inr s' \<Longrightarrow>
    sl_step os app v (ph, s) (ph(b := In_functors fs), s')"
| ends: "ph b = In_functors [] \<Longrightarrow> with_loop b (\<lambda>s. Inr (end_pending s)) s = Inr s' \<Longrightarrow>
    sl_step os app v (ph, s) (ph(b := In_poll), s')"
| frees: "sv_objects s i = Some c \<Longrightarrow> unreferenced ph (life_of v s) i \<Longrightarrow>
    sl_step os app v (ph, s) (ph, free_object os i c s)"

abbreviation sl_reach ::
    "'k os \<Rightarrow> (int \<Rightarrow> 'k server conn_callbacks) \<Rightarrow> 'k view \<Rightarrow>
     (nat \<Rightarrow> loop_phase) \<times> 'k server \<Rightarrow> (nat \<Rightarrow> loop_phase) \<times> 'k server \<Rightarrow> bool" where
  "sl_reach os app v \<equiv> (sl_step os app v)\<^sup>*\<^sup>*"


section \<open>Switching loops\<close>

text \<open>Two states that differ only in which loop is the one that runs.\<close>

definition same_server :: "'k server \<Rightarrow> 'k server \<Rightarrow> bool" where
  "same_server s t \<longleftrightarrow> (\<forall>b. loop_at b t = loop_at b s) \<and> (\<exists>l a ls. t = s\<lparr>rx_loop := l, sv_cur := a, sv_loops := ls\<rparr>)"

lemma same_server_refl: "same_server s s"
  unfolding same_server_def by (intro conjI allI refl exI [of _ "rx_loop s"] exI [of _ "sv_cur s"] exI [of _ "sv_loops s"]) simp

lemma same_server_fields:
  assumes "same_server s t"
  shows "loop_at b t = loop_at b s" "rx_kern t = rx_kern s" "cs_conn t = cs_conn s" "sv_objects t = sv_objects s"
    "sv_conn_loop t = sv_conn_loop s" "sv_connections t = sv_connections s" "sv_fresh t = sv_fresh s"
    "sv_loop t = sv_loop s" "sv_acceptor t = sv_acceptor s" "sv_name t = sv_name s" "sv_ipPort t = sv_ipPort s"
    "sv_nextConnId t = sv_nextConnId s" "sv_conn_cbs t = sv_conn_cbs s" "sv_pool t = sv_pool s" "sv_cbs t = sv_cbs s"
  using assms by (auto simp: same_server_def)

lemma same_server_life:
  assumes "same_server s t"
  shows "life_of v t = life_of v s" "names_inv t = names_inv s" "cname t = cname s"
  by (simp_all add: life_of_def names_inv_def cname_def same_server_fields [OF assms] fun_eq_iff)

lemma with_loop_same:
  assumes "with_loop a f s = Inr s'" and cur: "\<And>t t'. same_server s t \<Longrightarrow> sv_cur t = a \<Longrightarrow> f t = Inr t' \<Longrightarrow> sv_cur t' = a"
  obtains t t' where "same_server s t" "sv_cur t = a" "loop_at a s = Some (rx_loop t)" "f t = Inr t'"
    "same_server t' s'" "sv_cur s' = sv_cur s"
proof (cases "a = sv_cur s")
  case True
  moreover have f: "f s = Inr s'" using True assms(1) by (simp add: with_loop_def)
  moreover have "sv_cur s' = sv_cur s" using cur [OF same_server_refl True [symmetric] f] True by simp
  moreover note same_server_refl [of s] same_server_refl [of s']
  ultimately show ?thesis using assms(1) that [of s s'] by (simp add: with_loop_def loop_at_def)
next
  case False
  then obtain lp where lp: "sv_loops s a = Some lp"
    using assms(1) by (auto simp: with_loop_def split: option.splits)
  let ?t = "s\<lparr>rx_loop := lp, sv_cur := a, sv_loops := (sv_loops s)(sv_cur s := Some (rx_loop s))\<rparr>"
  have t: "same_server s ?t" using False lp unfolding same_server_def by (auto simp: loop_at_def)
  obtain t' bk where t': "f ?t = Inr t'" "sv_loops t' (sv_cur s) = Some bk"
    and s': "s' = t'\<lparr>rx_loop := bk, sv_cur := sv_cur s, sv_loops := (sv_loops t')(sv_cur s := None, a := Some (rx_loop t'))\<rparr>"
    using assms(1) False lp by (auto simp: with_loop_def elim!: res_bindE split: option.splits)
  have "sv_cur t' = a" using cur [OF t] t'(1) by simp
  then have "same_server t' s'" using False t'(2) unfolding same_server_def s' by (auto simp: loop_at_def)
  then show ?thesis using that [OF t _ _ t'(1)] False lp by (simp add: s' loop_at_def)
qed

section \<open>One connection at work\<close>

definition stored :: "nat \<Rightarrow> 'k server \<Rightarrow> 'k server" where
  "stored i s = s\<lparr>sv_objects := (sv_objects s)(i \<mapsto> cs_conn s)\<rparr>"

abbreviation idx :: "'k server \<Rightarrow> int" where
  "idx s \<equiv> chan_index (cn_channel (cs_conn s))"

abbreviation up :: "'k server \<Rightarrow> bool" where
  "up s \<equiv> cn_state (cs_conn s) = kConnected"

text \<open>Connection \<open>i\<close> is the one whose member function runs, in the thread \<open>tid\<close> of its loop.\<close>

definition loaded :: "'k view \<Rightarrow> (nat \<Rightarrow> loop_phase) \<Rightarrow> int \<Rightarrow> nat \<Rightarrow> 'k server \<Rightarrow> bool" where
  "loaded v ph tid i s \<longleftrightarrow> safe v ph (stored i s) \<and>
     (\<exists>c. sv_objects s i = Some c \<and> cn_name c = cn_name (cs_conn s)) \<and>
     sv_conn_loop s i = sv_cur s \<and> lp_threadId (rx_loop s) = tid"

text \<open>What a callback or a handler of a connection keeps: it never takes the channel out of the poller
  and never makes a connection connected.\<close>

definition kept :: "'k view \<Rightarrow> (nat \<Rightarrow> loop_phase) \<Rightarrow> int \<Rightarrow> nat \<Rightarrow> 'k server \<Rightarrow> 'k server \<Rightarrow> bool" where
  "kept v ph tid i s s' \<longleftrightarrow> loaded v ph tid i s' \<and> sv_cur s' = sv_cur s \<and>
     (idx s \<noteq> kNew \<longrightarrow> idx s' \<noteq> kNew) \<and> (\<not> up s \<longrightarrow> \<not> up s')"

lemma kept_refl: "loaded v ph tid i s \<Longrightarrow> kept v ph tid i s s"
  by (simp add: kept_def)

lemma kept_trans: "kept v ph tid i s t \<Longrightarrow> kept v ph tid i t u \<Longrightarrow> kept v ph tid i s u"
  by (auto simp: kept_def)

lemma loadedD:
  assumes "loaded v ph tid i s"
  shows "life_inv ph (life_of v (stored i s))" "names_inv (stored i s)" "sv_conn_loop s i = sv_cur s"
    "lp_threadId (rx_loop s) = tid" "cn_name (cs_conn s) = cname s i" "cn_id (cs_conn s) = i"
    "cn_sockfd (cs_conn s) = chan_fd (cn_channel (cs_conn s))"
proof -
  show "life_inv ph (life_of v (stored i s))" and n: "names_inv (stored i s)" and "sv_conn_loop s i = sv_cur s"
    and "lp_threadId (rx_loop s) = tid"
    using assms by (simp_all add: loaded_def safe_def)
  have "sv_objects (stored i s) i = Some (cs_conn s)" by (simp add: stored_def)
  with n have "cn_name (cs_conn s) = cname (stored i s) i \<and> cn_id (cs_conn s) = i \<and>
      cn_sockfd (cs_conn s) = chan_fd (cn_channel (cs_conn s))"
    unfolding names_inv_def by blast
  then show "cn_name (cs_conn s) = cname s i" "cn_id (cs_conn s) = i"
    "cn_sockfd (cs_conn s) = chan_fd (cn_channel (cs_conn s))" by (simp_all add: stored_def cname_def)
qed

lemma life_of_stored [simp]:
  "lf_loops (life_of v (stored i s)) b = map_option life_loop_of (loop_at b s)"
  "lf_watch (life_of v (stored i s)) = watch_of v (rx_kern s)"
  "lf_conns (life_of v (stored i s)) = (\<lambda>j. map_option life_conn_of (sv_objects s j))(i \<mapsto> life_conn_of (cs_conn s))"
  "lf_home (life_of v (stored i s)) = sv_conn_loop s" "lf_fresh (life_of v (stored i s)) = sv_fresh s"
  "lf_base (life_of v (stored i s)) = sv_loop s" "lf_acc (life_of v (stored i s)) = chan_ptr (ac_channel (sv_acceptor s))"
  "lf_map (life_of v (stored i s)) = {j. sv_connections s (cname s j) = Some j}"
  by (auto simp: life_of_def stored_def loop_at_def cname_def fun_eq_iff)

lemma loop_at_cur [simp]: "loop_at (sv_cur s) s = Some (rx_loop s)"
  by (simp add: loop_at_def)

text \<open>The members of a connection change the loop that runs, the kernel and the connection object.\<close>

lemma life_of_upd:
  assumes "life_loop_of l = life_loop_of (rx_loop s)"
  shows "life_of v (stored i (s\<lparr>rx_loop := l, rx_kern := k, cs_conn := c\<rparr>)) =
    put_conn i (life_conn_of c) ((life_of v (stored i s))\<lparr>lf_watch := watch_of v k\<rparr>)"
proof -
  have "map_option life_loop_of (loop_at b (s\<lparr>rx_loop := l, rx_kern := k, cs_conn := c, sv_objects := ob\<rparr>)) =
      map_option life_loop_of (loop_at b (s\<lparr>sv_objects := ob'\<rparr>))" for b ob ob'
    using assms by (simp add: loop_at_def)
  then show ?thesis by (simp add: put_conn_def stored_def life_of_def cname_def fun_eq_iff)
qed

lemma stored_cur [simp]: "sv_cur (stored i s) = sv_cur s"
  by (simp add: stored_def)

lemma queueInLoop_fields [simp]:
  fixes s :: "'k server"
  shows "cs_conn (queueInLoop os tid f s) = cs_conn s" "sv_acceptor (queueInLoop os tid f s) = sv_acceptor s"
    "sv_loop (queueInLoop os tid f s) = sv_loop s" "sv_name (queueInLoop os tid f s) = sv_name s"
    "sv_ipPort (queueInLoop os tid f s) = sv_ipPort s"
  by (simp_all add: queueInLoop_def wakeup_def Let_def split: prod.splits)

lemma life_of_queue:
  assumes "os_ok os v"
  shows "life_of v (stored i (queueInLoop os tid f s)) = put_queue (sv_cur s) f (life_of v (stored i s))"
proof -
  show ?thesis
    using queueInLoop_views(1) [OF assms, of tid f s]
    by (auto simp: life_of_def stored_def put_queue_def loop_at_def life_loop_of_def watch_of_def cname_def fun_eq_iff)
qed


lemma updateChannel_watch:
  assumes ok: "os_ok os v" and i: "chan_index ch \<in> {kNew, kAdded, kDeleted}"
    and u: "updateChannel os ch p k = Inr (ch', p', k')"
  defines "x \<equiv> if chan_index ch = kAdded \<and> isNoneEvent ch then kDeleted else kAdded"
  shows "ch' = ch\<lparr>chan_index := x\<rparr>" "pl_epollfd p' = pl_epollfd p"
    "watch_of v k' = (watch_of v k)(pl_epollfd p := (watch_of v k (pl_epollfd p))
       (chan_fd ch := if x = kAdded then Some (chan_ptr ch) else None))"
proof -
  have idx: "ch\<lparr>chan_index := chan_index ch\<rparr> = ch" by simp
  consider (add) "chan_index ch = kNew \<or> chan_index ch = kDeleted" "pl_epollfd p' = pl_epollfd p"
      "update os EPOLL_CTL_ADD (set_index kAdded ch) p' k = Inr k'" "ch' = set_index kAdded ch"
    | (del) "chan_index ch = kAdded" "isNoneEvent ch" "update os EPOLL_CTL_DEL ch p k = Inr k'" "p' = p"
      "ch' = set_index kDeleted ch"
    | (mod) "chan_index ch = kAdded" "\<not> isNoneEvent ch" "update os EPOLL_CTL_MOD ch p k = Inr k'" "p' = p" "ch' = ch"
    using u i unfolding updateChannel_def by (auto simp: Let_def index_consts elim!: res_bindE split: if_splits)
  then show "ch' = ch\<lparr>chan_index := x\<rparr>" "pl_epollfd p' = pl_epollfd p"
    "watch_of v k' = (watch_of v k)(pl_epollfd p := (watch_of v k (pl_epollfd p))
       (chan_fd ch := if x = kAdded then Some (chan_ptr ch) else None))"
  proof (atomize (full), cases)
    case add
    then show "ch' = ch\<lparr>chan_index := x\<rparr> \<and> pl_epollfd p' = pl_epollfd p \<and>
      watch_of v k' = (watch_of v k)(pl_epollfd p := (watch_of v k (pl_epollfd p))
       (chan_fd ch := if x = kAdded then Some (chan_ptr ch) else None))"
      using update_set(1) [OF ok _ add(3)] by (auto simp: x_def set_index_def watch_of_def fun_eq_iff index_consts)
  next
    case del
    obtain k1 where "update os EPOLL_CTL_DEL ch p k = Inr k1"
      "interest v k1 = set_interest (interest v k) (pl_epollfd p) (chan_fd ch) None"
      by (rule update_del [OF ok])
    then show "ch' = ch\<lparr>chan_index := x\<rparr> \<and> pl_epollfd p' = pl_epollfd p \<and>
      watch_of v k' = (watch_of v k)(pl_epollfd p := (watch_of v k (pl_epollfd p))
       (chan_fd ch := if x = kAdded then Some (chan_ptr ch) else None))"
      using del by (auto simp: x_def set_index_def watch_of_def fun_eq_iff index_consts)
  next
    case mod
    then show "ch' = ch\<lparr>chan_index := x\<rparr> \<and> pl_epollfd p' = pl_epollfd p \<and>
      watch_of v k' = (watch_of v k)(pl_epollfd p := (watch_of v k (pl_epollfd p))
       (chan_fd ch := if x = kAdded then Some (chan_ptr ch) else None))"
      using update_set(1) [OF ok _ mod(3)] idx by (auto simp: x_def watch_of_def fun_eq_iff index_consts)
  qed
qed

lemma removeChannel_watch:
  assumes ok: "os_ok os v" and u: "removeChannel os ch p k = Inr (ch', p', k')"
  shows "ch' = ch\<lparr>chan_index := kNew\<rparr>" "pl_epollfd p' = pl_epollfd p"
    "watch_of v k' = (if chan_index ch = kAdded
       then (watch_of v k)(pl_epollfd p := (watch_of v k (pl_epollfd p))(chan_fd ch := None)) else watch_of v k)"
proof -
  let ?p = "p\<lparr>pl_channels := (pl_channels p)(chan_fd ch := None)\<rparr>"
  obtain k1 where d: "update os EPOLL_CTL_DEL ch ?p k = Inr k1"
    "interest v k1 = set_interest (interest v k) (pl_epollfd ?p) (chan_fd ch) None"
    by (rule update_del [OF ok])
  with u show "ch' = ch\<lparr>chan_index := kNew\<rparr>" "pl_epollfd p' = pl_epollfd p"
    "watch_of v k' = (if chan_index ch = kAdded
       then (watch_of v k)(pl_epollfd p := (watch_of v k (pl_epollfd p))(chan_fd ch := None)) else watch_of v k)"
    by (auto simp: removeChannel_def Let_def set_index_def watch_of_def fun_eq_iff split: if_splits)
qed

subsection \<open>Steps of a connection\<close>

text \<open>The general step: the loop that runs keeps its queue, the connection its names.\<close>

lemma loaded_step:
  assumes ld: "loaded v ph tid i s" and l: "life_loop_of l = life_loop_of (rx_loop s)" "lp_threadId l = lp_threadId (rx_loop s)"
    and nm: "cn_name c = cn_name (cs_conn s)" "cn_id c = cn_id (cs_conn s)" "cn_sockfd c = cn_sockfd (cs_conn s)"
    and ch: "chan_ptr (cn_channel c) = chan_ptr (cn_channel (cs_conn s))" "chan_fd (cn_channel c) = chan_fd (cn_channel (cs_conn s))"
    and i: "chan_index (cn_channel c) \<in> {kNew, kAdded, kDeleted}"
      "chan_index (cn_channel c) = kNew \<longrightarrow> cn_state c \<noteq> kConnected"
    and reg: "chan_index (cn_channel c) \<noteq> kNew \<longrightarrow> idx s \<noteq> kNew \<or>
        held ph (life_of v (stored i s)) i \<and> (\<forall>b. Fn_connectEstablished i \<notin> set (work ph (life_of v (stored i s)) b))"
    and act: "idx s \<noteq> kNew \<longrightarrow> chan_index (cn_channel c) \<noteq> kNew \<or> active (ph (sv_cur s)) = []"
    and W: "watch_step (life_conn_of (cs_conn s)) (life_conn_of c) (pl_epollfd (lp_poller (rx_loop s)))
        (watch_of v (rx_kern s)) (watch_of v k)"
  shows "loaded v ph tid i (s\<lparr>rx_loop := l, rx_kern := k, cs_conn := c\<rparr>)"
proof -
  let ?L = "life_of v (stored i s)" and ?s = "s\<lparr>rx_loop := l, rx_kern := k, cs_conn := c\<rparr>"
  note D = loadedD [OF ld]
  have conn: "lf_conns ?L i = Some (life_conn_of (cs_conn s))" by simp
  have loop: "lf_loops ?L (lf_home ?L i) = Some (life_loop_of (rx_loop s))" using D(3) by simp
  have reg': "idx s \<noteq> kNew \<Longrightarrow> held ph ?L i \<and> (\<forall>b. Fn_connectEstablished i \<notin> set (work ph ?L b))"
    using life_invD(4,5) [OF D(1)] conn unfolding held_inv_def est_inv_def
    by (metis life_conn.select_convs(3) life_conn_of_def)
  have "life_inv ph (put_conn i (life_conn_of c) (?L\<lparr>lf_watch := watch_of v k\<rparr>))"
    by (rule conn_step_inv [OF D(1) conn loop])
      (use ch i reg reg' act W D(3) in \<open>auto simp: life_conn_of_def life_loop_of_def\<close>)
  then have "life_inv ph (life_of v (stored i ?s))" using l by (simp add: life_of_upd)
  moreover have "names_inv (stored i ?s)"
  proof -
    have cn: "cname (stored i s) = cname s" by (simp add: stored_def cname_def fun_eq_iff)
    have "cn_name d = cname (stored i s) j \<and> cn_id d = j \<and> cn_sockfd d = chan_fd (cn_channel d)"
      if "sv_objects (stored i ?s) j = Some d" for j d
    proof (cases "j = i")
      case True
      then show ?thesis using that D(5-7) nm ch cn by (simp add: stored_def)
    next
      case False
      then have "sv_objects (stored i s) j = Some d" using that by (simp add: stored_def)
      then show ?thesis using D(2) unfolding names_inv_def by blast
    qed
    note obj = this
    show ?thesis by (rule names_inv_cong [OF D(2) _ _ _ _ _ _ _ obj]) (auto simp: stored_def split: if_splits)
  qed
  ultimately show ?thesis using ld l nm by (auto simp: loaded_def safe_def)
qed


lemma loaded_index:
  assumes "loaded v ph tid i s"
  shows "idx s \<in> {kNew, kAdded, kDeleted}" "idx s = kNew \<longrightarrow> \<not> up s"
proof -
  let ?c = "life_conn_of (cs_conn s)"
  have "lf_conns (life_of v (stored i s)) i = Some ?c" by simp
  then have "lc_index ?c \<in> {kNew, kAdded, kDeleted} \<and> (lc_index ?c = kNew \<longrightarrow> \<not> lc_up ?c)"
    using life_invD(2) [OF loadedD(1) [OF assms]] unfolding conns_inv_def by blast
  then show "idx s \<in> {kNew, kAdded, kDeleted}" "idx s = kNew \<longrightarrow> \<not> up s" by (simp_all add: life_conn_of_def)
qed

text \<open>A change of the object and of the kernel that leaves registration alone.\<close>

lemma kept_plain:
  assumes ld: "loaded v ph tid i s"
    and nm: "cn_name c = cn_name (cs_conn s)" "cn_id c = cn_id (cs_conn s)" "cn_sockfd c = cn_sockfd (cs_conn s)"
    and ch: "chan_ptr (cn_channel c) = chan_ptr (cn_channel (cs_conn s))" "chan_fd (cn_channel c) = chan_fd (cn_channel (cs_conn s))"
      "chan_index (cn_channel c) = idx s"
    and st: "cn_state c = kConnected \<Longrightarrow> up s" and k: "interest v k = interest v (rx_kern s)"
  shows "kept v ph tid i s (s\<lparr>rx_kern := k, cs_conn := c\<rparr>)"
proof -
  note I = loaded_index [OF ld]
  have "watch_of v k = watch_of v (rx_kern s)" using k by (simp add: watch_of_def fun_eq_iff)
  then have "loaded v ph tid i (s\<lparr>rx_loop := rx_loop s, rx_kern := k, cs_conn := c\<rparr>)"
    using I st by (intro loaded_step [OF ld]) (use nm ch in \<open>auto simp: watch_step_def life_conn_of_def\<close>)
  then show ?thesis using st ch by (auto simp: kept_def)
qed

text \<open>\<open>enableReading\<close> and its kin, on a connection whose state may just have been set.\<close>

lemma on_channel_update:
  assumes ok: "os_ok os v" and ld: "loaded v ph tid i s"
    and e: "\<And>ch. \<exists>e. f ch = ch\<lparr>chan_events := e\<rparr>"
    and nm: "cn_name c = cn_name (cs_conn s)" "cn_id c = cn_id (cs_conn s)" "cn_sockfd c = cn_sockfd (cs_conn s)"
    and ch: "chan_ptr (cn_channel c) = chan_ptr (cn_channel (cs_conn s))" "chan_fd (cn_channel c) = chan_fd (cn_channel (cs_conn s))"
      "chan_index (cn_channel c) = idx s"
    and reg: "idx s \<noteq> kNew \<or>
        held ph (life_of v (stored i s)) i \<and> (\<forall>b. Fn_connectEstablished i \<notin> set (work ph (life_of v (stored i s)) b))"
    and u: "on_channel (\<lambda>ch. loop_updateChannel os (f ch)) (s\<lparr>cs_conn := c\<rparr>) = Inr s'"
  shows "loaded v ph tid i s'" "sv_cur s' = sv_cur s" "idx s' \<noteq> kNew" "cn_state (cs_conn s') = cn_state c"
proof -
  note D = loadedD [OF ld]
  obtain e where f: "f (cn_channel c) = (cn_channel c)\<lparr>chan_events := e\<rparr>" using e by blast
  let ?ch = "(cn_channel c)\<lparr>chan_events := e\<rparr>"
  have I: "chan_index ?ch \<in> {kNew, kAdded, kDeleted}"
    using loaded_index(1) [OF ld] ch by simp
  obtain ch' p k where up: "updateChannel os ?ch (lp_poller (rx_loop s)) (rx_kern s) = Inr (ch', p, k)"
    and s': "s' = s\<lparr>rx_loop := (rx_loop s)\<lparr>lp_poller := p\<rparr>, rx_kern := k, cs_conn := c\<lparr>cn_channel := ch'\<rparr>\<rparr>"
    using u f by (auto simp: on_channel_def loop_updateChannel_def elim!: res_bindE)
  note W = updateChannel_watch [OF ok I up]
  have n: "chan_index ch' \<noteq> kNew" using W(1) by (simp add: index_consts)
  show "loaded v ph tid i s'" unfolding s'
  proof (rule loaded_step [OF ld])
    show "watch_step (life_conn_of (cs_conn s)) (life_conn_of (c\<lparr>cn_channel := ch'\<rparr>))
        (pl_epollfd (lp_poller (rx_loop s))) (watch_of v (rx_kern s)) (watch_of v k)"
      unfolding W(3) W(1) using ch by (auto simp: watch_step_def life_conn_of_def index_consts split: if_splits)
  qed (use W(1,2) nm ch n reg in \<open>auto simp: life_loop_of_def\<close>)
  show "sv_cur s' = sv_cur s" "idx s' \<noteq> kNew" "cn_state (cs_conn s') = cn_state c" using n by (simp_all add: s')
qed

lemma on_channel_remove:
  assumes ok: "os_ok os v" and ld: "loaded v ph tid i s" and dn: "\<not> up s" and act: "active (ph (sv_cur s)) = []"
    and u: "on_channel (chan_remove os) s = Inr s'"
  shows "loaded v ph tid i s'" "sv_cur s' = sv_cur s" "idx s' = kNew"
proof -
  obtain ch' p k where r: "removeChannel os (cn_channel (cs_conn s)) (lp_poller (rx_loop s)) (rx_kern s) = Inr (ch', p, k)"
    and s': "s' = s\<lparr>rx_loop := (rx_loop s)\<lparr>lp_poller := p\<rparr>, rx_kern := k, cs_conn := (cs_conn s)\<lparr>cn_channel := ch'\<rparr>\<rparr>"
    using u by (auto simp: on_channel_def chan_remove_def loop_removeChannel_def elim!: res_bindE)
  note W = removeChannel_watch [OF ok r]
  show "loaded v ph tid i s'" unfolding s'
  proof (rule loaded_step [OF ld])
    show "watch_step (life_conn_of (cs_conn s)) (life_conn_of ((cs_conn s)\<lparr>cn_channel := ch'\<rparr>))
        (pl_epollfd (lp_poller (rx_loop s))) (watch_of v (rx_kern s)) (watch_of v k)"
      unfolding W(3) W(1) by (auto simp: watch_step_def life_conn_of_def index_consts split: if_splits)
  qed (use W(1,2) dn act in \<open>auto simp: life_loop_of_def\<close>)
  show "sv_cur s' = sv_cur s" "idx s' = kNew" using W(1) by (simp_all add: s')
qed


lemma chan_members:
  "enableReading os = (\<lambda>ch. loop_updateChannel os (set_reading ch))"
  "enableWriting os = (\<lambda>ch. loop_updateChannel os (set_writing ch))"
  "disableWriting os = (\<lambda>ch. loop_updateChannel os (clear_writing ch))"
  "disableAll os = (\<lambda>ch. loop_updateChannel os (clear_all ch))"
  by (simp_all add: fun_eq_iff enableReading_def enableWriting_def disableWriting_def disableAll_def)

lemma event_setters:
  "\<exists>e. set_reading ch = ch\<lparr>chan_events := e\<rparr>" "\<exists>e. set_writing ch = ch\<lparr>chan_events := e\<rparr>"
  "\<exists>e. clear_writing ch = ch\<lparr>chan_events := e\<rparr>" "\<exists>e. clear_all ch = ch\<lparr>chan_events := e\<rparr>"
  by (auto simp: set_reading_def set_writing_def clear_writing_def clear_all_def)

text \<open>Changing what a registered channel waits for.\<close>

lemma update_kept:
  assumes "os_ok os v" and "loaded v ph tid i s" and "idx s \<noteq> kNew"
    and "\<And>ch. \<exists>e. f ch = ch\<lparr>chan_events := e\<rparr>" and "on_channel (\<lambda>ch. loop_updateChannel os (f ch)) s = Inr s'"
  shows "kept v ph tid i s s'"
  using on_channel_update [OF assms(1,2,4), of "cs_conn s" s'] assms(3,5) by (simp add: kept_def)

lemma queue_kept:
  assumes ok: "os_ok os v" and ld: "loaded v ph tid i s" and f: "f = Fn_writeComplete i \<or> f = Fn_highWaterMark i n"
  shows "kept v ph tid i s (queueInLoop os tid' f s)"
proof -
  let ?s = "queueInLoop os tid' f s" and ?L = "life_of v (stored i s)"
  note D = loadedD [OF ld]
  have "life_inv ph (put_queue (sv_cur s) f ?L)" by (rule queue_inv [OF D(1)]) (use f D(3) in auto)
  then have "life_inv ph (life_of v (stored i ?s))" unfolding life_of_queue [OF ok] .
  moreover have "names_inv (stored i ?s)"
  proof (rule names_inv_cong [OF D(2)])
    fix j c assume "sv_objects (stored i ?s) j = Some c"
    then have "sv_objects (stored i s) j = Some c" by (simp add: stored_def)
    then show "cn_name c = cname (stored i s) j \<and> cn_id c = j \<and> cn_sockfd c = chan_fd (cn_channel c)"
      using D(2) unfolding names_inv_def by blast
  qed (auto simp: stored_def split: if_splits)
  ultimately have "loaded v ph tid i ?s" using ld by (simp add: loaded_def safe_def)
  then show ?thesis by (simp add: kept_def)
qed

subsection \<open>Sending\<close>

lemma kept_loaded: "kept v ph tid i s s' \<Longrightarrow> loaded v ph tid i s'"
  by (simp add: kept_def)

lemma kept_idx: "kept v ph tid i s s' \<Longrightarrow> idx s \<noteq> kNew \<Longrightarrow> idx s' \<noteq> kNew"
  by (simp add: kept_def)

lemma kept_buffers:
  assumes "loaded v ph tid i s"
  shows "kept v ph tid i s (s\<lparr>cs_conn := (cs_conn s)\<lparr>cn_outputBuffer := b\<rparr>\<rparr>)"
    "kept v ph tid i s (s\<lparr>cs_conn := (cs_conn s)\<lparr>cn_inputBuffer := b\<rparr>\<rparr>)"
  using kept_plain [OF assms, of "(cs_conn s)\<lparr>cn_outputBuffer := b\<rparr>" "rx_kern s"]
    kept_plain [OF assms, of "(cs_conn s)\<lparr>cn_inputBuffer := b\<rparr>" "rx_kern s"] by simp_all

lemma kept_kernel:
  assumes "loaded v ph tid i s" and "interest v k = interest v (rx_kern s)"
  shows "kept v ph tid i s (s\<lparr>rx_kern := k\<rparr>)"
  using kept_plain [OF assms(1), of "cs_conn s" k] assms(2) by simp

lemma send_rest_kept:
  assumes ok: "os_ok os v" and ld: "loaded v ph tid i s" and ix: "idx s \<noteq> kNew"
    and run: "send_rest os cbs tid data nwrote remaining fault s = Inr s'"
  shows "kept v ph tid i s s'"
proof (cases "\<not> fault \<and> 0 < remaining")
  case False
  then have "s' = s" using run by (auto simp: send_rest_def)
  then show ?thesis using kept_refl [OF ld] by simp
next
  case True
  let ?s1 = "mark_notice os cbs tid remaining s"
  have k1: "kept v ph tid i s ?s1"
    using kept_refl [OF ld] queue_kept [OF ok ld] loadedD(6) [OF ld] by (simp add: mark_notice_def)
  have "send_rest os cbs tid data nwrote remaining False s = Inr s'" "0 < remaining" using run True by simp_all
  then obtain b where rest: "if isWriting (cn_channel (cs_conn s)) then s' = ?s1\<lparr>cs_conn := (cs_conn s)\<lparr>cn_outputBuffer := b\<rparr>\<rparr>
      else on_channel (enableWriting os) (?s1\<lparr>cs_conn := (cs_conn s)\<lparr>cn_outputBuffer := b\<rparr>\<rparr>) = Inr s'"
    by (rule send_rest_shape)
  let ?s2 = "?s1\<lparr>cs_conn := (cs_conn s)\<lparr>cn_outputBuffer := b\<rparr>\<rparr>"
  have k2: "kept v ph tid i s ?s2" using kept_trans [OF k1 kept_buffers(1) [OF kept_loaded [OF k1], of b]] by simp
  show ?thesis
  proof (cases "isWriting (cn_channel (cs_conn s))")
    case True
    then show ?thesis using rest k2 by simp
  next
    case False
    then have "on_channel (\<lambda>ch. loop_updateChannel os (set_writing ch)) ?s2 = Inr s'" using rest by (simp add: chan_members)
    from update_kept [OF ok kept_loaded [OF k2] kept_idx [OF k2 ix] event_setters(2) this] k2
    show ?thesis by (rule kept_trans [rotated])
  qed
qed

lemma sendInLoop_kept:
  assumes ok: "os_ok os v" and ld: "loaded v ph tid i s" and ix: "idx s \<noteq> kNew"
    and run: "sendInLoop os cbs tid data s = Inr s'"
  shows "kept v ph tid i s s'"
proof -
  obtain r k where w: "os_write os (chan_fd (cn_channel (cs_conn s))) data (rx_kern s) = (r, k)" by fastforce
  have k: "kept v ph tid i s (s\<lparr>rx_kern := k\<rparr>)" by (rule kept_kernel [OF ld write_views(1) [OF ok w]])
  have q: "kept v ph tid i s (queueInLoop os tid (Fn_writeComplete (cn_id (cs_conn s))) (s\<lparr>rx_kern := k\<rparr>))"
    using kept_trans [OF k queue_kept [OF ok kept_loaded [OF k]]] loadedD(6) [OF ld] by simp
  have rest: "kept v ph tid i s s'" if "kept v ph tid i s t" "send_rest os cbs tid data n m f t = Inr s'" for t n m f
    using kept_trans [OF that(1) send_rest_kept [OF ok kept_loaded [OF that(1)] kept_idx [OF that(1) ix] that(2)]] .
  show ?thesis
    using run w rest [OF k] rest [OF q] rest [OF kept_refl [OF ld]] kept_refl [OF ld]
    by (auto simp: sendInLoop_def Let_def split: if_splits sum.splits)
qed


lemma send_kept:
  assumes ok: "os_ok os v" and ld: "loaded v ph tid i s" and run: "send os cbs tid sptr buf s = Inr s'"
  shows "kept v ph tid i s s'"
proof (cases "up s")
  case True
  then have "sendInLoop os cbs tid buf s = Inr s'"
    using run loadedD(4) [OF ld] by (simp add: send_def isInLoopThread_def)
  moreover have "idx s \<noteq> kNew" using loaded_index(2) [OF ld] True by blast
  ultimately show ?thesis using sendInLoop_kept [OF ok ld] by blast
next
  case False
  then show ?thesis using run kept_refl [OF ld] by (simp add: send_def)
qed

lemma shutdownInLoop_kept:
  assumes ok: "os_ok os v" and ld: "loaded v ph tid i s"
  shows "kept v ph tid i s (shutdownInLoop os s)"
proof -
  obtain r k where w: "os_shutdown os (cn_sockfd (cs_conn s)) (rx_kern s) = (r, k)" by fastforce
  show ?thesis using kept_kernel [OF ld shutdown_views(1) [OF ok w]] kept_refl [OF ld] w
    by (simp add: shutdownInLoop_def shutdownWrite_def)
qed

lemma shutdown_kept:
  assumes ok: "os_ok os v" and ld: "loaded v ph tid i s"
  shows "kept v ph tid i s (shutdown os tid s)"
proof -
  let ?s1 = "setState kDisconnecting s"
  have k: "kept v ph tid i s ?s1"
    using kept_plain [OF ld, of "(cs_conn s)\<lparr>cn_state := kDisconnecting\<rparr>" "rx_kern s"] by (simp add: setState_def)
  have "kept v ph tid i s (shutdownInLoop os ?s1)"
    by (rule kept_trans [OF k shutdownInLoop_kept [OF ok kept_loaded [OF k]]])
  then show ?thesis
    using kept_refl [OF ld] loadedD(4) [OF ld] by (simp add: shutdown_def Let_def setState_def isInLoopThread_def)
qed

section \<open>Queueing from one loop to another\<close>

definition frame :: "'k server \<Rightarrow> 'k server \<Rightarrow> bool" where
  "frame s s' \<longleftrightarrow> cs_conn s' = cs_conn s \<and> sv_objects s' = sv_objects s \<and> sv_conn_loop s' = sv_conn_loop s \<and>
     sv_fresh s' = sv_fresh s \<and> sv_nextConnId s' = sv_nextConnId s \<and> sv_name s' = sv_name s \<and>
     sv_ipPort s' = sv_ipPort s \<and> sv_loop s' = sv_loop s \<and> sv_acceptor s' = sv_acceptor s \<and> sv_cur s' = sv_cur s \<and>
     (\<forall>b. map_option lp_threadId (loop_at b s') = map_option lp_threadId (loop_at b s))"

lemma frame_thread: "frame s s' \<Longrightarrow> lp_threadId (rx_loop s') = lp_threadId (rx_loop s)"
  unfolding frame_def by (metis loop_at_cur option.inject option.simps(9))

lemma frame_trans: "frame s t \<Longrightarrow> frame t u \<Longrightarrow> frame s u"
  by (simp add: frame_def)

lemma frame_names:
  assumes N: "names_inv s" and f: "frame s s'" and c: "sv_connections s' = sv_connections s"
  shows "names_inv s'"
proof (rule names_inv_cong [OF N])
  fix i d assume "sv_objects s' i = Some d"
  then have "sv_objects s i = Some d" using f by (simp add: frame_def)
  then show "cn_name d = cname s i \<and> cn_id d = i \<and> cn_sockfd d = chan_fd (cn_channel d)"
    using N unfolding names_inv_def by blast
qed (use f c in \<open>simp_all add: frame_def\<close>)

lemma loop_at_objects [simp]: "loop_at b (s\<lparr>sv_objects := ob\<rparr>) = loop_at b s"
  by (simp add: loop_at_def)

lemma with_loop_queue_life:
  assumes ok: "os_ok os v" and run: "with_loop a (\<lambda>s. Inr (queueInLoop os tid f s)) s = Inr s'"
  shows "life_of v (s'\<lparr>sv_objects := ob\<rparr>) = put_queue a f (life_of v (s\<lparr>sv_objects := ob\<rparr>))"
    "loop_at a s \<noteq> None" "frame s s'" "sv_connections s' = sv_connections s"
proof -
  obtain t where t: "same_server s t" "sv_cur t = a" "loop_at a s = Some (rx_loop t)"
    and s': "same_server (queueInLoop os tid f t) s'" "sv_cur s' = sv_cur s"
    by (rule with_loop_same [OF run]) auto
  let ?q = "queueInLoop os tid f t"
  note f = same_server_fields [OF t(1)] same_server_fields [OF s'(1)]
  show "loop_at a s \<noteq> None" using t(3) by simp
  have la: "loop_at b s' = (if b = a then Some ((rx_loop t)\<lparr>lp_pendingFunctors := lp_pendingFunctors (rx_loop t) @ [f]\<rparr>)
      else loop_at b s)" for b
    unfolding f(16) using t(2) f(1) [of b] by (auto simp: loop_at_def)
  show "sv_connections s' = sv_connections s" by (simp add: f)
  show fr: "frame s s'" using t(2,3) s'(2) unfolding frame_def la by (auto simp: f)
  have w: "watch_of v (rx_kern s') = watch_of v (rx_kern s)"
    using queueInLoop_views(1) [OF ok, of tid f t] by (simp add: f watch_of_def fun_eq_iff)
  have cn: "cname (s'\<lparr>sv_objects := ob\<rparr>) = cname (s\<lparr>sv_objects := ob\<rparr>)" by (simp add: cname_def fun_eq_iff f)
  have "map_option life_loop_of (loop_at b s') = (if b = a
      then map_option (\<lambda>l. l\<lparr>ll_queue := ll_queue l @ [f]\<rparr>) (map_option life_loop_of (loop_at a s))
      else map_option life_loop_of (loop_at b s))" for b
    unfolding la using t(3) by (simp add: life_loop_of_def)
  then show "life_of v (s'\<lparr>sv_objects := ob\<rparr>) = put_queue a f (life_of v (s\<lparr>sv_objects := ob\<rparr>))"
    using fr f(21) f(6) by (simp add: life_of_def put_queue_def w cn frame_def loop_at_objects fun_eq_iff)
qed


lemma same_server_safe:
  assumes st: "same_server s t"
  shows "life_of v (t\<lparr>sv_objects := ob\<rparr>) = life_of v (s\<lparr>sv_objects := ob\<rparr>)"
    "safe v ph (t\<lparr>sv_objects := ob\<rparr>) = safe v ph (s\<lparr>sv_objects := ob\<rparr>)"
proof -
  obtain l a ls where t: "t = s\<lparr>rx_loop := l, sv_cur := a, sv_loops := ls\<rparr>" using st by (auto simp: same_server_def)
  have "t\<lparr>sv_objects := ob\<rparr> = (s\<lparr>sv_objects := ob\<rparr>)\<lparr>rx_loop := l, sv_cur := a, sv_loops := ls\<rparr>" by (simp add: t)
  moreover have "loop_at b (t\<lparr>sv_objects := ob\<rparr>) = loop_at b (s\<lparr>sv_objects := ob\<rparr>)" for b
    using st by (simp add: same_server_def)
  ultimately have "same_server (s\<lparr>sv_objects := ob\<rparr>) (t\<lparr>sv_objects := ob\<rparr>)" unfolding same_server_def by blast
  note L = same_server_life [OF this]
  show "life_of v (t\<lparr>sv_objects := ob\<rparr>) = life_of v (s\<lparr>sv_objects := ob\<rparr>)" by (rule L(1))
  show "safe v ph (t\<lparr>sv_objects := ob\<rparr>) = safe v ph (s\<lparr>sv_objects := ob\<rparr>)" unfolding safe_def L ..
qed

lemma frame_same_server:
  assumes "same_server s t" and "frame t t'" and "same_server t' s'" and "sv_cur s' = sv_cur s"
  shows "frame s s'"
  using assms(2,4) unfolding frame_def by (auto simp: same_server_fields [OF assms(1)] same_server_fields [OF assms(3)])

lemma cname_inj:
  assumes "names_inv s" and "i < sv_fresh s" and "j < sv_fresh s" and "cname s i = cname s j"
  shows "i = j"
  using assms conn_name_inj [of "sv_ipPort s" "int i + 1" "int j + 1" "sv_name s"]
  by (auto simp: names_inv_def cname_def)

lemma objects_id: "s\<lparr>sv_objects := sv_objects s\<rparr> = s"
  by simp

lemma object_bound:
  assumes "life_inv ph (life_of v s)" and "sv_objects s j \<noteq> None"
  shows "j < sv_fresh s"
proof -
  from assms(2) obtain d where "lf_conns (life_of v s) j = Some d" by (auto simp: life_of_def)
  then have "j < lf_fresh (life_of v s)" using life_invD(2) [OF assms(1)] unfolding conns_inv_def by blast
  then show ?thesis by (simp add: life_of_def)
qed

lemma removeConnectionInLoop_safe:
  assumes ok: "os_ok os v" and inv: "safe v ph (s\<lparr>sv_objects := ob\<rparr>)" and i: "ob i \<noteq> None"
    and c: "sv_objects s i = Some c" "cn_name c = cname s i"
    and est: "\<And>b. Fn_connectEstablished i \<notin> set (work ph (life_of v (s\<lparr>sv_objects := ob\<rparr>)) b)"
    and run: "removeConnectionInLoop os tid i s = Inr s'"
  shows "safe v ph (s'\<lparr>sv_objects := ob\<rparr>) \<and> frame s s'"
proof -
  let ?s1 = "s\<lparr>sv_connections := (sv_connections s)(cname s i := None)\<rparr>" and ?o = "s\<lparr>sv_objects := ob\<rparr>"
  have L: "life_inv ph (life_of v ?o)" and N: "names_inv ?o" using inv by (simp_all add: safe_def)
  have cn: "cname ?s1 = cname s" "cname ?o = cname s" "cname (?s1\<lparr>sv_objects := ob\<rparr>) = cname s"
    by (simp_all add: cname_def fun_eq_iff)
  have q: "with_loop (sv_conn_loop s i) (\<lambda>s. Inr (queueInLoop os tid (Fn_connectDestroyed i) s)) ?s1 = Inr s'"
    using run c by (simp add: removeConnectionInLoop_def)
  note Q = with_loop_queue_life [OF ok q]
  have fresh: "j < sv_fresh s" if "ob j \<noteq> None" for j
    using object_bound [OF L, of j] that by simp
  have "j = i" if "sv_connections s (cname s j) = Some j" "cname s j = cname s i" for j
  proof -
    have "sv_connections ?o (cname s j) = Some j" using that(1) by simp
    then have "sv_objects ?o j \<noteq> None" using N unfolding names_inv_def by blast
    then have "ob j \<noteq> None" by simp
    then show ?thesis using cname_inj [OF N, of j i] fresh i that(2) cn by simp
  qed
  then have m: "{j. ((sv_connections s)(cname s i := None)) (cname s j) = Some j} =
      {j. sv_connections s (cname s j) = Some j} - {i}" by auto
  have lo: "loop_at b (?s1\<lparr>sv_objects := ob\<rparr>) = loop_at b ?o" for b by (simp add: loop_at_def)
  have "life_of v (?s1\<lparr>sv_objects := ob\<rparr>) = (life_of v ?o)\<lparr>lf_map := lf_map (life_of v ?o) - {i}\<rparr>"
    unfolding life_of_def cn lo using m by (simp add: fun_eq_iff)
  then have "life_of v (s'\<lparr>sv_objects := ob\<rparr>) = drop_conn i (life_of v ?o)"
    unfolding Q(1) by (simp add: drop_conn_def put_queue_def life_of_def)
  moreover have "life_inv ph (drop_conn i (life_of v ?o))"
    by (rule drop_conn_inv [OF L _ est]) (use i in \<open>simp add: life_of_def\<close>)
  moreover have "names_inv (s'\<lparr>sv_objects := ob\<rparr>)"
  proof -
    have f: "cname (s'\<lparr>sv_objects := ob\<rparr>) = cname s" using Q(3) by (simp add: cname_def frame_def fun_eq_iff)
    show ?thesis using N Q(3,4) unfolding names_inv_def f cn by (auto simp: frame_def split: if_splits)
  qed
  moreover have "frame s s'" using Q(3) by (simp add: frame_def)
  ultimately show ?thesis by (simp add: safe_def)
qed


lemma with_loop_runInLoop:
  assumes "with_loop a (runInLoop os exec tid f) s = Inr s'"
  obtains (direct) "with_loop a (exec f) s = Inr s'" "map_option lp_threadId (loop_at a s) = Some tid"
  | (queued) "with_loop a (\<lambda>s. Inr (queueInLoop os tid f s)) s = Inr s'"
proof (cases "map_option lp_threadId (loop_at a s) = Some tid")
  case True
  then have "with_loop a (runInLoop os exec tid f) s = with_loop a (exec f) s"
    by (auto simp: with_loop_def runInLoop_def isInLoopThread_def loop_at_def split: if_splits)
  then show ?thesis using True assms direct by simp
next
  case False
  then have "with_loop a (runInLoop os exec tid f) s = with_loop a (\<lambda>s. Inr (queueInLoop os tid f s)) s"
    by (auto simp: with_loop_def runInLoop_def isInLoopThread_def loop_at_def split: if_splits option.splits)
  then show ?thesis using assms queued by simp
qed

lemma removeConnection_safe:
  assumes ok: "os_ok os v" and inv: "safe v ph (s\<lparr>sv_objects := ob\<rparr>)" and i: "ob i \<noteq> None"
    and c: "sv_objects s i = Some c" "cn_name c = cname s i"
    and est: "\<And>b. Fn_connectEstablished i \<notin> set (work ph (life_of v (s\<lparr>sv_objects := ob\<rparr>)) b)"
    and run: "removeConnection os tid i s = Inr s'"
  shows "safe v ph (s'\<lparr>sv_objects := ob\<rparr>) \<and> frame s s'"
proof -
  have L: "life_inv ph (life_of v (s\<lparr>sv_objects := ob\<rparr>))" and N: "names_inv (s\<lparr>sv_objects := ob\<rparr>)"
    using inv by (simp_all add: safe_def)
  from run consider (direct) "with_loop (sv_loop s) (removeConnectionInLoop os tid i) s = Inr s'"
    | (queued) "with_loop (sv_loop s) (\<lambda>s. Inr (queueInLoop os tid (Fn_removeConnectionInLoop i) s)) s = Inr s'"
    unfolding removeConnection_def by (rule with_loop_runInLoop) auto
  then show ?thesis
  proof cases
    case direct
    have step: "safe v ph (t'\<lparr>sv_objects := ob\<rparr>) \<and> frame t t'"
      if st: "same_server s t" and r: "removeConnectionInLoop os tid i t = Inr t'" for t t'
    proof (rule removeConnectionInLoop_safe [where ob = ob and i = i, OF ok _ i _ _ _ r])
      show "safe v ph (t\<lparr>sv_objects := ob\<rparr>)" using inv unfolding same_server_safe(2) [OF st] .
      show "sv_objects t i = Some c" "cn_name c = cname t i"
        using c by (simp_all add: same_server_fields [OF st] same_server_life [OF st])
      show "Fn_connectEstablished i \<notin> set (work ph (life_of v (t\<lparr>sv_objects := ob\<rparr>)) b)" for b
        using est unfolding same_server_safe(1) [OF st] .
    qed
    obtain t t' where t: "same_server s t" "removeConnectionInLoop os tid i t = Inr t'" "same_server t' s'" "sv_cur s' = sv_cur s"
      by (rule with_loop_same [OF direct]) (use step in \<open>auto simp: frame_def\<close>)
    from step [OF t(1,2)] show ?thesis
      using frame_same_server [OF t(1) _ t(3,4)] same_server_safe(2) [OF t(3)] by blast
  next
    case queued
    note Q = with_loop_queue_life [OF ok queued]
    have "life_inv ph (life_of v (s'\<lparr>sv_objects := ob\<rparr>))"
      unfolding Q(1) by (rule queue_inv [OF L]) (use Q(2) i est in \<open>auto simp: life_of_def\<close>)
    moreover have cn: "cname (s'\<lparr>sv_objects := ob\<rparr>) = cname (s\<lparr>sv_objects := ob\<rparr>)"
      using Q(3) by (simp add: cname_def frame_def fun_eq_iff)
    have "names_inv (s'\<lparr>sv_objects := ob\<rparr>)" using N Q(3,4) unfolding names_inv_def cn by (simp add: frame_def)
    ultimately show ?thesis using Q(3) by (simp add: safe_def)
  qed
qed

lemma stored_alt: "cs_conn s' = cs_conn s \<Longrightarrow> sv_objects s' = sv_objects s \<Longrightarrow>
    stored i s' = s'\<lparr>sv_objects := (sv_objects s)(i \<mapsto> cs_conn s)\<rparr>"
  by (simp add: stored_def)

lemma removeConnection_kept:
  assumes ok: "os_ok os v" and ld: "loaded v ph tid i s" and ix: "idx s \<noteq> kNew"
    and run: "removeConnection os tid i s = Inr s'"
  shows "kept v ph tid i s s'"
proof -
  let ?ob = "(sv_objects s)(i \<mapsto> cs_conn s)"
  note D = loadedD [OF ld]
  obtain c where c: "sv_objects s i = Some c" "cn_name c = cname s i" using ld D(5) by (auto simp: loaded_def)
  have conn: "lf_conns (life_of v (stored i s)) i = Some (life_conn_of (cs_conn s))" by simp
  have e: "Fn_connectEstablished i \<notin> set (work ph (life_of v (stored i s)) b)" for b
    using life_invD(5) [OF D(1)] conn ix unfolding est_inv_def by (metis life_conn.select_convs(3) life_conn_of_def)
  have "safe v ph (stored i s)" using D(1,2) by (simp add: safe_def)
  then have r: "safe v ph (s'\<lparr>sv_objects := ?ob\<rparr>)" and f: "frame s s'"
    using removeConnection_safe [where ob = ?ob, OF ok _ _ c _ run, of ph] e unfolding stored_def by auto
  then have "stored i s' = s'\<lparr>sv_objects := ?ob\<rparr>" by (intro stored_alt) (simp_all add: frame_def)
  with r f ld have "loaded v ph tid i s'" using frame_thread [OF f] by (simp add: loaded_def frame_def)
  then show ?thesis using f by (simp add: kept_def frame_def)
qed


section \<open>Entering and leaving a connection\<close>

lemma safe_cs_conn [simp]: "safe v ph (s\<lparr>cs_conn := c\<rparr>) = safe v ph s"
proof -
  have "loop_at b (s\<lparr>cs_conn := c\<rparr>) = loop_at b s" for b by (simp add: loop_at_def)
  then show ?thesis by (simp add: safe_def life_of_def names_inv_def cname_def)
qed

lemma loaded_enter:
  assumes "safe v ph s" and "sv_objects s i = Some c" and "sv_conn_loop s i = sv_cur s" and "lp_threadId (rx_loop s) = tid"
  shows "loaded v ph tid i (s\<lparr>cs_conn := c\<rparr>)" "stored i (s\<lparr>cs_conn := c\<rparr>) = s\<lparr>cs_conn := c\<rparr>"
proof -
  have "(sv_objects s)(i \<mapsto> c) = sv_objects s" using assms(2) by (auto simp: fun_eq_iff)
  then show e: "stored i (s\<lparr>cs_conn := c\<rparr>) = s\<lparr>cs_conn := c\<rparr>" by (simp add: stored_def)
  show "loaded v ph tid i (s\<lparr>cs_conn := c\<rparr>)" using assms unfolding loaded_def e by simp
qed

lemma loaded_leave: "loaded v ph tid i s \<Longrightarrow> safe v ph (stored i s)"
  by (simp add: loaded_def)

lemma life_of_cs_conn [simp]: "life_of v (s\<lparr>cs_conn := c\<rparr>) = life_of v s"
proof -
  have "loop_at b (s\<lparr>cs_conn := c\<rparr>) = loop_at b s" for b by (simp add: loop_at_def)
  then show ?thesis by (simp add: life_of_def cname_def)
qed

lemma with_connE:
  assumes "with_conn i f s = Inr s'"
  obtains c s1 where "sv_objects s i = Some c" "f (s\<lparr>cs_conn := c\<rparr>) = Inr s1" "s' = stored i s1"
  using assms by (auto simp: with_conn_def stored_def elim!: res_bindE split: option.splits)

text \<open>A kernel that watches no more than before.\<close>

lemma safe_shrink:
  assumes "safe v ph s" and k: "\<And>ep fd e. interest v k ep fd = Some e \<Longrightarrow> interest v (rx_kern s) ep fd = Some e"
  shows "safe v ph (s\<lparr>rx_kern := k\<rparr>)"
proof -
  have lo: "loop_at b (s\<lparr>rx_kern := k\<rparr>) = loop_at b s" for b by (simp add: loop_at_def)
  have cn: "cname (s\<lparr>rx_kern := k\<rparr>) = cname s" by (simp add: cname_def fun_eq_iff)
  have "life_of v (s\<lparr>rx_kern := k\<rparr>) = (life_of v s)\<lparr>lf_watch := watch_of v k\<rparr>"
    by (simp add: life_of_def lo cn)
  moreover have "life_inv ph ((life_of v s)\<lparr>lf_watch := watch_of v k\<rparr>)"
    by (rule shrink_inv) (use assms in \<open>auto simp: safe_def life_of_def watch_of_def\<close>)
  moreover have "names_inv (s\<lparr>rx_kern := k\<rparr>)" using assms(1) unfolding safe_def names_inv_def cn by simp
  ultimately show ?thesis by (simp add: safe_def)
qed

lemma safe_kernel:
  assumes "safe v ph s" and "interest v k = interest v (rx_kern s)"
  shows "safe v ph (s\<lparr>rx_kern := k\<rparr>)"
  by (rule safe_shrink [OF assms(1)]) (simp add: assms(2))

text \<open>The object that \<open>newConnection\<close> creates.\<close>

lemma added_conn_safe:
  assumes inv: "safe v ph s" and n: "sv_nextConnId s \<noteq> 2 ^ 31 - 1" and io: "loop_at io s \<noteq> None"
    and k: "interest v k = interest v (rx_kern s)" and p: "free_ptr (life_of v s) (chan_ptr (cn_channel c))"
    and c: "chan_index (cn_channel c) = kNew" "cn_state c \<noteq> kConnected" "cn_name c = cname s (sv_fresh s)"
      "cn_id c = sv_fresh s" "cn_sockfd c = chan_fd (cn_channel c)"
  shows "life_of v (added_conn io q c k s) = add_conn io (life_conn_of c) (life_of v s)" "safe v ph (added_conn io q c k s)"
proof -
  let ?i = "sv_fresh s" and ?s = "added_conn io q c k s"
  have L: "life_inv ph (life_of v s)" and N: "names_inv s" using inv by (simp_all add: safe_def)
  have cn: "cname ?s = cname s" by (simp add: cname_def added_conn_def fun_eq_iff)
  have obj: "sv_objects s j \<noteq> None" "x = cname s j" if "sv_connections s x = Some j" for x j
    using N that unfolding names_inv_def by blast+
  have lt: "j < ?i" if "sv_objects s j \<noteq> None" for j
    using object_bound [OF L that] .
  have b: "int ?i + 1 < 2 ^ 31" "length (sv_ipPort s) \<le> 21" "CHR 0x00 \<notin> set (sv_ipPort s)"
    "sv_nextConnId s = int ?i + 1" "int ?i + 2 < 2 ^ 31"
    using N n unfolding names_inv_def by auto
  have ne: "cname s j \<noteq> cname s ?i" if "j < ?i" for j
    using conn_name_inj [OF b(2,3), of "int j + 1" "int ?i + 1" "sv_name s"] that b(1) unfolding cname_def by auto
  have m: "{j. sv_connections ?s (cname s j) = Some j} = insert ?i {j. sv_connections s (cname s j) = Some j}"
    using c(3) ne obj(1) lt by (auto simp: added_conn_def split: if_splits)
  have lo: "loop_at b ?s = loop_at b s" for b by simp
  show eq: "life_of v ?s = add_conn io (life_conn_of c) (life_of v s)"
    using m k unfolding life_of_def cn lo
    by (simp add: add_conn_def added_conn_def watch_of_def fun_eq_iff)
  have "life_inv ph (add_conn io (life_conn_of c) (life_of v s))"
    by (rule add_conn_inv [OF L]) (use io p c in \<open>auto simp: life_of_def life_conn_of_def\<close>)
  moreover have "names_inv ?s"
  proof -
    have "x = cname s j \<and> sv_objects ?s j \<noteq> None" if "sv_connections ?s x = Some j" for x j
      using that obj c(3) by (auto simp: added_conn_def split: if_splits)
    moreover have "cn_name d = cname s j \<and> cn_id d = j \<and> cn_sockfd d = chan_fd (cn_channel d)"
      if "sv_objects ?s j = Some d" for j d
    proof (cases "j = ?i")
      case True
      then show ?thesis using that c by (simp add: added_conn_def)
    next
      case False
      then have "sv_objects s j = Some d" using that by (simp add: added_conn_def)
      then show ?thesis using N unfolding names_inv_def by blast
    qed
    moreover have "let ch = ac_channel (sv_acceptor s) in closeCallback ch = None \<and> errorCallback ch = None \<and> writeCallback ch = None"
      using N unfolding names_inv_def by blast
    ultimately show ?thesis using b unfolding names_inv_def cn by (simp add: added_conn_def)
  qed
  ultimately show "safe v ph ?s" by (simp add: safe_def eq)
qed

text \<open>The state in which \<open>newConnection\<close> hands the new object to its loop, and that object in its loop's thread.\<close>

lemma added_conn_new:
  fixes q :: evl_pool
  assumes sk: "sock_ok os v" and inv: "safe v ph s" and n: "sv_nextConnId s \<noteq> 2 ^ 31 - 1" and io: "loop_at io s \<noteq> None"
    and p: "free_ptr (life_of v s) ptr"
    and c: "made_conn (sv_fresh s) (conn_name (sv_name s) (sv_ipPort s) (sv_nextConnId s)) fd ptr peer c"
  defines "s1 \<equiv> added_conn io q c (os_setsockopt os fd ''SO_KEEPALIVE'' True (snd (os_getsockname os fd (rx_kern s)))) s"
  shows "safe v ph s1" "sv_fresh s \<in> lf_map (life_of v s1)" "sv_conn_loop s1 (sv_fresh s) = io"
    "Fn_connectEstablished (sv_fresh s) \<notin> set (work ph (life_of v s1) b)"
    "Fn_removeConnectionInLoop (sv_fresh s) \<notin> set (work ph (life_of v s1) b)"
proof -
  let ?i = "sv_fresh s" and ?k = "os_setsockopt os fd ''SO_KEEPALIVE'' True (snd (os_getsockname os fd (rx_kern s)))"
  have L: "life_inv ph (life_of v s)" and N: "names_inv s" using inv by (simp_all add: safe_def)
  have nm: "conn_name (sv_name s) (sv_ipPort s) (sv_nextConnId s) = cname s ?i"
    using N unfolding names_inv_def cname_def by simp
  have ki: "interest v ?k = interest v (rx_kern s)" by (simp add: sock_interest [OF sk])
  have "free_ptr (life_of v s) (chan_ptr (cn_channel c))" "chan_index (cn_channel c) = kNew" "cn_state c \<noteq> kConnected"
    "cn_name c = cname s ?i" "cn_id c = ?i" "cn_sockfd c = chan_fd (cn_channel c)"
    using c p by (simp_all add: made_conn_def nm)
  note new = added_conn_safe [OF inv n io ki this, of q, folded s1_def]
  show "safe v ph s1" by (rule new(2))
  have fr: "lf_fresh (life_of v s) = ?i" by (simp add: life_of_def)
  have wk: "work ph (life_of v s1) = work ph (life_of v s)"
    unfolding new(1) by (simp add: work_def add_conn_def fun_eq_iff)
  show "?i \<in> lf_map (life_of v s1)" unfolding new(1) add_conn_def by (simp add: fr)
  show "sv_conn_loop s1 ?i = io" by (simp add: s1_def)
  show "Fn_connectEstablished ?i \<notin> set (work ph (life_of v s1) b)" "Fn_removeConnectionInLoop ?i \<notin> set (work ph (life_of v s1) b)"
    using work_not_fresh [OF L, unfolded fr] unfolding wk by blast+
qed

lemma added_conn_loaded:
  assumes "safe v ph s1" "i \<in> lf_map (life_of v s1)" "sv_conn_loop s1 i = io"
    and est: "\<And>b. Fn_connectEstablished i \<notin> set (work ph (life_of v s1) b)"
    and rem: "\<And>b. Fn_removeConnectionInLoop i \<notin> set (work ph (life_of v s1) b)"
    and st: "same_server s1 t" and cur: "sv_cur t = io" and tid: "lp_threadId (rx_loop t) = tid" and d: "sv_objects t i = Some d"
  shows "loaded v ph tid i (t\<lparr>cs_conn := d\<rparr>)" "held ph (life_of v (stored i (t\<lparr>cs_conn := d\<rparr>))) i"
    "Fn_connectEstablished i \<notin> set (work ph (life_of v (stored i (t\<lparr>cs_conn := d\<rparr>))) b)"
proof -
  have "safe v ph t" using assms(1) unfolding safe_def same_server_life [OF st] .
  moreover have "sv_conn_loop t i = sv_cur t" using cur assms(3) by (simp add: same_server_fields [OF st])
  ultimately have sd: "stored i (t\<lparr>cs_conn := d\<rparr>) = t\<lparr>cs_conn := d\<rparr>" and ld: "loaded v ph tid i (t\<lparr>cs_conn := d\<rparr>)"
    using d tid loaded_enter by blast+
  show "loaded v ph tid i (t\<lparr>cs_conn := d\<rparr>)" by (rule ld)
  have lf: "life_of v (stored i (t\<lparr>cs_conn := d\<rparr>)) = life_of v s1" by (simp add: sd same_server_life [OF st])
  show "held ph (life_of v (stored i (t\<lparr>cs_conn := d\<rparr>))) i" using assms(2) unfolding lf held_def by blast
  show "Fn_connectEstablished i \<notin> set (work ph (life_of v (stored i (t\<lparr>cs_conn := d\<rparr>))) b)" using est unfolding lf .
qed

section \<open>Polling and phases\<close>

lemma safe_phase:
  assumes "safe v ph s" and "life_inv ph (life_of v s) \<Longrightarrow> life_inv ph' (life_of v s)"
  shows "safe v ph' s"
  using assms by (simp add: safe_def)

lemma pick_fields [simp]:
  "chan_ptr (pick store ch) = chan_ptr ch" "chan_fd (pick store ch) = chan_fd ch" "chan_index (pick store ch) = chan_index ch"
  "readCallback (pick store ch) = readCallback ch" "writeCallback (pick store ch) = writeCallback ch"
  "closeCallback (pick store ch) = closeCallback ch" "errorCallback (pick store ch) = errorCallback ch"
  by (simp_all add: pick_def set_revents_def split: option.splits)

lemma fillActiveChannels_ptrs:
  "fillActiveChannels es store act = Inr (store', act') \<Longrightarrow> act' = act @ map ev_ptr es"
  by (induction es store act rule: fillActiveChannels.induct) (auto split: option.splits)

text \<open>What \<open>poll\<close> puts in the active list was watched, and the rest of the abstract state stays.\<close>

lemma server_poll_life:
  assumes ok: "os_ok os v" and N: "names_inv s" and run: "server_poll os s = Inr s'"
  shows "life_of v s' = life_of v s" "names_inv s'" "sv_cur s' = sv_cur s"
    "\<forall>p \<in> set (lp_activeChannels (rx_loop s')). \<exists>fd. watch_of v (rx_kern s) (pl_epollfd (lp_poller (rx_loop s))) fd = Some p"
proof -
  obtain act store p k where pl: "poll os kPollTimeMs (lp_poller (rx_loop s)) (server_chans s) (rx_kern s) = Inr (act, store, p, k)"
    and s': "s' = server_put store (s\<lparr>rx_loop := (rx_loop s)\<lparr>lp_poller := p, lp_activeChannels := act\<rparr>, rx_kern := k\<rparr>)"
    using run by (auto simp: server_poll_def elim!: res_bindE)
  obtain r k1 where w: "os_epoll_wait os (pl_epollfd (lp_poller (rx_loop s))) (to_int32 (int (pl_events_size (lp_poller (rx_loop s))))) kPollTimeMs (rx_kern s) = (r, k1)"
    by fastforce
  have pk: "k = k1" "pl_epollfd p = pl_epollfd (lp_poller (rx_loop s))"
    and act: "act = (case r of Inl e \<Rightarrow> [] | Inr evs \<Rightarrow> map ev_ptr evs)"
    using pl w by (auto simp: poll_def resize_events_def split: sum.splits if_splits elim!: res_bindE dest!: fillActiveChannels_ptrs)
  have W: "watch_of v k = watch_of v (rx_kern s)"
    using epoll_wait_views(1) [OF ok w] pk by (simp add: watch_of_def fun_eq_iff)
  have lo: "map_option life_loop_of (loop_at b s') = map_option life_loop_of (loop_at b s)" for b
    using pk by (simp add: s' server_put_def loop_at_def life_loop_of_def)
  have cn: "cname s' = cname s" by (simp add: s' server_put_def cname_def fun_eq_iff)
  show "life_of v s' = life_of v s"
    unfolding life_of_def lo cn using W by (simp add: s' server_put_def option.map_comp comp_def life_conn_of_def [abs_def])
  show "sv_cur s' = sv_cur s" by (simp add: s' server_put_def)
  show "names_inv s'" using N unfolding names_inv_def cn by (auto simp: s' server_put_def Let_def)
  show "\<forall>p \<in> set (lp_activeChannels (rx_loop s')). \<exists>fd. watch_of v (rx_kern s) (pl_epollfd (lp_poller (rx_loop s))) fd = Some p"
  proof
    fix q assume "q \<in> set (lp_activeChannels (rx_loop s'))"
    then obtain evs e where "r = Inr evs" "e \<in> set evs" "q = ev_ptr e"
      by (auto simp: s' server_put_def act split: sum.splits)
    with epoll_wait_views(6) [OF ok w] obtain fd ev
      where "interest v (rx_kern s) (pl_epollfd (lp_poller (rx_loop s))) fd = Some ev" "ev_ptr ev = q" by blast
    then show "\<exists>fd. watch_of v (rx_kern s) (pl_epollfd (lp_poller (rx_loop s))) fd = Some q"
      by (intro exI [of _ fd]) (simp add: watch_of_def)
  qed
qed

text \<open>Entering a loop and leaving it again.\<close>

lemma with_loop_safe:
  assumes run: "with_loop b f s = Inr s'" and l: "loop_at b s = Some l" and inv: "safe v ph s"
    and step: "\<And>t t'. same_server s t \<Longrightarrow> sv_cur t = b \<Longrightarrow> rx_loop t = l \<Longrightarrow> safe v ph t \<Longrightarrow> f t = Inr t' \<Longrightarrow>
      safe v ph' t' \<and> sv_cur t' = sv_cur t"
  shows "safe v ph' s'"
proof -
  have st: "safe v ph t" if "same_server s t" for t
    using inv unfolding safe_def same_server_life [OF that] .
  have lt: "rx_loop t = l" if "same_server s t" "sv_cur t = b" for t
    using same_server_fields(1) [OF that(1), of b] l that(2) by (simp add: loop_at_def)
  obtain t t' where t: "same_server s t" "sv_cur t = b" "f t = Inr t'" "same_server t' s'"
    by (rule with_loop_same [OF run]) (use step st lt in metis)+
  then have "safe v ph' t'" using step st lt by blast
  then show ?thesis unfolding safe_def same_server_life [OF t(4)] .
qed

lemma polls_safe:
  assumes ok: "os_ok os v" and inv: "safe v ph s" and ph: "ph b = In_poll"
    and run: "with_loop b (server_poll os) s = Inr s'" and l: "loop_at b s' = Some l"
  shows "safe v (ph(b := In_handlers (lp_activeChannels l))) s'"
proof -
  have st: "safe v ph t" if "same_server s t" for t
    using inv unfolding safe_def same_server_life [OF that] .
  have cur: "sv_cur t' = b" if "same_server s t" "sv_cur t = b" "server_poll os t = Inr t'" for t t'
    using server_poll_life(3) [OF ok _ that(3)] st [OF that(1)] that(2) by (simp add: safe_def)
  obtain t t' where t: "same_server s t" "sv_cur t = b" "server_poll os t = Inr t'" "same_server t' s'"
    by (rule with_loop_same [OF run]) (use cur in auto)
  have L: "life_inv ph (life_of v t)" and N: "names_inv t" using st [OF t(1)] by (simp_all add: safe_def)
  note P = server_poll_life [OF ok N t(3)]
  have lt: "rx_loop t' = l" using same_server_fields(1) [OF t(4), of b] l P(3) t(2) by (simp add: loop_at_def)
  have act: "chan_of (\<lambda>fd ix. ix \<noteq> kNew) (life_of v t) b p" if p: "p \<in> set (lp_activeChannels l)" for p
  proof -
    obtain fd where "watch_of v (rx_kern t) (pl_epollfd (lp_poller (rx_loop t))) fd = Some p"
      using P(4) p unfolding lt by blast
    then have "chan_of (\<lambda>fd' ix. fd' = fd \<and> ix = kAdded) (life_of v t) b p"
      using life_invD(3) [OF L] t(2) loop_at_cur [of t] unfolding watch_inv_def
      by (auto simp: life_of_def life_loop_of_def)
    then show ?thesis by (auto simp: chan_of_def index_consts)
  qed
  have "life_inv (ph(b := In_handlers (lp_activeChannels l))) (life_of v t)"
  proof (rule phase_inv [OF L])
    show "chan_of (\<lambda>fd idx. idx \<noteq> kNew) (life_of v t) a p"
      if "p \<in> set (active ((ph(b := In_handlers (lp_activeChannels l))) a))" for a p
      using that act life_invD(6) [OF L] by (cases "a = b") (auto simp: active_inv_def)
    show "work (ph(b := In_handlers (lp_activeChannels l))) (life_of v t) a = work ph (life_of v t) a" for a
      using ph by (auto simp: work_def)
  qed simp_all
  then show ?thesis using P(1,2) unfolding safe_def same_server_life [OF t(4)] by simp
qed

lemma swaps_life:
  assumes "loop_at b s = Some l" and "with_loop b (\<lambda>s. Inr (g s)) s = Inr s'"
    and g: "\<And>t. same_server s t \<Longrightarrow> rx_loop t = l \<Longrightarrow> g t = t\<lparr>rx_loop := l'\<rparr>"
  shows "\<exists>t. same_server s t \<and> sv_cur t = b \<and> rx_loop t = l \<and> same_server (t\<lparr>rx_loop := l'\<rparr>) s'"
proof -
  have lt: "rx_loop t = l" if "same_server s t" "sv_cur t = b" for t
    using same_server_fields(1) [OF that(1), of b] assms(1) that(2) by (simp add: loop_at_def)
  obtain t where "same_server s t" "sv_cur t = b" "same_server (t\<lparr>rx_loop := l'\<rparr>) s'"
    by (rule with_loop_same [OF assms(2)]) (use g lt in force)+
  then show ?thesis using lt by blast
qed

lemma life_of_loop:
  "life_of v (t\<lparr>rx_loop := l'\<rparr>) =
     (life_of v t)\<lparr>lf_loops := (lf_loops (life_of v t))(sv_cur t \<mapsto> life_loop_of l')\<rparr>"
  by (auto simp: life_of_def loop_at_def cname_def fun_eq_iff)

lemma names_inv_loop [simp]: "names_inv (t\<lparr>rx_loop := l'\<rparr>) = names_inv t"
  by (simp add: names_inv_def cname_def)

lemma swaps_safe:
  assumes inv: "safe v ph s" and ph: "ph b = In_handlers []" and l: "loop_at b s = Some l"
    and run: "with_loop b (\<lambda>s. Inr (snd (swap_pending s))) s = Inr s'"
  shows "safe v (ph(b := In_functors (lp_pendingFunctors l))) s'"
proof -
  let ?l = "l\<lparr>lp_callingPendingFunctors := True, lp_pendingFunctors := []\<rparr>"
  obtain t where t: "same_server s t" "sv_cur t = b" "rx_loop t = l" "same_server (t\<lparr>rx_loop := ?l\<rparr>) s'"
    using swaps_life [OF l run, of ?l] by (auto simp: swap_pending_def)
  have L: "life_inv ph (life_of v t)" and N: "names_inv t"
    using inv unfolding safe_def same_server_life [OF t(1)] by simp_all
  have lb: "lf_loops (life_of v t) b = Some (life_loop_of l)" using t(2,3) loop_at_cur [of t] by (simp add: life_of_def)
  have "life_inv (ph(b := In_functors (lp_pendingFunctors l))) (life_of v (t\<lparr>rx_loop := ?l\<rparr>))"
  proof (rule phase_inv [OF L])
    show "work (ph(b := In_functors (lp_pendingFunctors l))) (life_of v (t\<lparr>rx_loop := ?l\<rparr>)) a = work ph (life_of v t) a" for a
      using ph t(2) lb by (simp add: work_def life_of_loop life_loop_of_def)
    show "chan_of (\<lambda>fd idx. idx \<noteq> kNew) (life_of v t) a p"
      if "p \<in> set (active ((ph(b := In_functors (lp_pendingFunctors l))) a))" for a p
      using that life_invD(6) [OF L] by (cases "a = b") (auto simp: active_inv_def)
    show "map_option (\<lambda>l. (ll_epfd l, ll_wake l)) (lf_loops (life_of v (t\<lparr>rx_loop := ?l\<rparr>)) a) =
        map_option (\<lambda>l. (ll_epfd l, ll_wake l)) (lf_loops (life_of v t) a)" for a
      using t(2) lb by (simp add: life_of_loop life_loop_of_def)
  qed (simp_all add: life_of_loop)
  then show ?thesis using N unfolding safe_def same_server_life [OF t(4)] by simp
qed

lemma ends_safe:
  assumes inv: "safe v ph s" and ph: "ph b = In_functors []" and l: "loop_at b s = Some l"
    and run: "with_loop b (\<lambda>s. Inr (end_pending s)) s = Inr s'"
  shows "safe v (ph(b := In_poll)) s'"
proof -
  let ?l = "l\<lparr>lp_callingPendingFunctors := False\<rparr>"
  obtain t where t: "same_server s t" "sv_cur t = b" "rx_loop t = l" "same_server (t\<lparr>rx_loop := ?l\<rparr>) s'"
    using swaps_life [OF l run, of ?l] by (auto simp: end_pending_def)
  have L: "life_inv ph (life_of v t)" and N: "names_inv t"
    using inv unfolding safe_def same_server_life [OF t(1)] by simp_all
  have "lf_loops (life_of v t) b = Some (life_loop_of l)" using t(2,3) loop_at_cur [of t] by (simp add: life_of_def)
  then have e: "life_of v (t\<lparr>rx_loop := ?l\<rparr>) = life_of v t" using t(2)
    by (simp add: life_of_loop life_loop_of_def fun_upd_idem)
  have "life_inv (ph(b := In_poll)) (life_of v t)"
  proof (rule phase_inv [OF L])
    show "work (ph(b := In_poll)) (life_of v t) a = work ph (life_of v t) a" for a using ph by (simp add: work_def)
    show "chan_of (\<lambda>fd idx. idx \<noteq> kNew) (life_of v t) a p" if "p \<in> set (active ((ph(b := In_poll)) a))" for a p
      using that life_invD(6) [OF L] by (cases "a = b") (auto simp: active_inv_def)
  qed simp_all
  then show ?thesis using N e unfolding safe_def same_server_life [OF t(4)] by simp
qed

lemma frees_safe:
  assumes sk: "sock_ok os v" and inv: "safe v ph s" and u: "unreferenced ph (life_of v s) i"
  shows "safe v ph (free_object os i c s)"
proof -
  let ?k = "os_close os (cn_sockfd c) (rx_kern s)" and ?s = "free_object os i c s"
  have L: "life_inv ph (life_of v s)" and N: "names_inv s" using inv by (simp_all add: safe_def)
  have cn: "cname ?s = cname s" by (simp add: cname_def free_object_def fun_eq_iff)
  have lo: "loop_at b ?s = loop_at b s" for b by (simp add: loop_at_def free_object_def)
  have k: "interest v (rx_kern s) ep fd = Some e" if "interest v ?k ep fd = Some e" for ep fd e
    using sock_interest(4) [OF sk that] .
  have eq: "life_of v ?s = (life_of v s)\<lparr>lf_conns := (lf_conns (life_of v s))(i := None), lf_watch := watch_of v ?k\<rparr>"
    unfolding life_of_def cn lo by (auto simp: free_object_def fun_eq_iff)
  have "watch_of v (rx_kern s) ep fd = Some p" if "watch_of v ?k ep fd = Some p" for ep fd p
    using that k by (auto simp: watch_of_def)
  then have "life_inv ph (life_of v ?s)" unfolding eq by (intro free_inv [OF L u]) (simp add: life_of_def)
  moreover have "names_inv ?s"
  proof -
    have im: "i \<notin> lf_map (life_of v s)" using u by (simp add: unreferenced_def)
    have "x = cname s j \<and> sv_objects ?s j \<noteq> None" if "sv_connections ?s x = Some j" for x j
    proof -
      have "sv_connections s x = Some j" using that by (simp add: free_object_def)
      then have j: "x = cname s j" "sv_objects s j \<noteq> None" "sv_connections s (cname s j) = Some j"
        using N unfolding names_inv_def by blast+
      then have "j \<in> lf_map (life_of v s)" by (simp add: life_of_def)
      then have "j \<noteq> i" using im by blast
      then show ?thesis using j by (simp add: free_object_def)
    qed
    moreover have "cn_name d = cname s j \<and> cn_id d = j \<and> cn_sockfd d = chan_fd (cn_channel d)"
      if "sv_objects ?s j = Some d" for j d
    proof -
      have "sv_objects s j = Some d" using that by (simp add: free_object_def split: if_splits)
      then show ?thesis using N unfolding names_inv_def by blast
    qed
    ultimately show ?thesis using N unfolding names_inv_def cn by (simp add: free_object_def)
  qed
  ultimately show ?thesis by (simp add: safe_def)
qed

text \<open>A thread goes on to its next channel.\<close>

lemma next_channel:
  assumes "safe v ph s" and ph: "ph b = In_handlers (p # ps)"
  shows "safe v (ph(b := In_handlers ps)) s" "chan_of (\<lambda>fd ix. ix \<noteq> kNew) (life_of v s) b p"
proof -
  have L: "life_inv ph (life_of v s)" using assms by (simp add: safe_def)
  show "chan_of (\<lambda>fd ix. ix \<noteq> kNew) (life_of v s) b p"
    using life_invD(6) [OF L] ph unfolding active_inv_def by (metis batch_simps(5) list.set_intros(1))
  have "life_inv (ph(b := In_handlers ps)) (life_of v s)"
  proof (rule phase_inv [OF L])
    show "work (ph(b := In_handlers ps)) (life_of v s) a = work ph (life_of v s) a" for a using ph by (simp add: work_def)
    show "chan_of (\<lambda>fd idx. idx \<noteq> kNew) (life_of v s) a q" if "q \<in> set (active ((ph(b := In_handlers ps)) a))" for a q
    proof -
      have "q \<in> set (active (ph a))" using that ph by (cases "a = b") auto
      then show ?thesis using life_invD(6) [OF L] unfolding active_inv_def by blast
    qed
  qed simp_all
  then show "safe v (ph(b := In_handlers ps)) s" using assms by (simp add: safe_def)
qed

text \<open>The first step of \<open>handleClose\<close>.\<close>

lemma closing_kept:
  assumes "os_ok os v" and "loaded v ph tid i s" and "idx s \<noteq> kNew"
    and "on_channel (disableAll os) (setState kDisconnected s) = Inr s1"
  shows "kept v ph tid i s s1" "\<not> up s1"
  using on_channel_update [OF assms(1,2) event_setters(4), of "(cs_conn s)\<lparr>cn_state := kDisconnected\<rparr>" s1] assms(3,4)
  by (auto simp: kept_def setState_def chan_members)

section \<open>Dispatch\<close>

text \<open>Dispatch on a channel of which only the read callback is installed.\<close>

lemma handleEvent_read_only:
  assumes "closeCallback (chan s) = None" "errorCallback (chan s) = None" "writeCallback (chan s) = None"
    and w: "\<And>s'. run f s = Inr s' \<Longrightarrow> readCallback (chan s) = Some f \<Longrightarrow> writeCallback (chan s') = None"
    and "handleEvent lock run chan s = Inr s'" and "readCallback (chan s) = None \<or> readCallback (chan s) = Some f"
  shows "s' = s \<or> run f s = Inr s'"
  using assms unfolding handleEvent_def handleEventWithGuard_def
  by (auto simp: call_if_def split: if_splits option.splits elim!: res_bindE)

lemma handleEvent_fold:
  assumes "P s" and run: "\<And>f t u. P t \<Longrightarrow> run f t = Inr u \<Longrightarrow> P u" and "handleEvent lock run chan s = Inr s'"
  shows "P s'"
proof -
  have c: "P u" if "P t" "call_if run b cb t = Inr u" for t u b cb
    using that run by (auto simp: call_if_def split: if_splits option.splits)
  have "P s'" if "handleEventWithGuard run chan s = Inr s'"
    using that unfolding handleEventWithGuard_def
    by (elim res_bindE) (rule c [OF c [OF c [OF c [OF assms(1)]]]], assumption+)
  then show ?thesis using assms(1,3) by (auto simp: handleEvent_def split: if_splits option.splits)
qed

lemma owner_of_unique:
  assumes L: "life_inv ph (life_of v s)" and c: "sv_objects s i = Some c" "chan_ptr (cn_channel c) = p"
    and o: "owner_of p s = Some j"
  shows "j = i"
proof -
  obtain d where d: "sv_objects s j = Some d" "chan_ptr (cn_channel d) = p"
    using o by (auto simp: owner_of_def find_Some_iff split: option.splits)
  have "lf_conns (life_of v s) i = Some (life_conn_of c)" "lf_conns (life_of v s) j = Some (life_conn_of d)"
    using c d by (simp_all add: life_of_def)
  moreover have "lc_ptr (life_conn_of c) = lc_ptr (life_conn_of d)" using c d by (simp add: life_conn_of_def)
  ultimately show ?thesis using life_invD(2) [OF L] unfolding conns_inv_def by blast
qed

lemma owner_of_total:
  assumes "sv_objects s i = Some c" and "chan_ptr (cn_channel c) = p" and "i < sv_fresh s"
  shows "owner_of p s \<noteq> None"
  using assms unfolding owner_of_def find_None_iff by (auto split: option.splits)

text \<open>The channel of a connection, found by its address, and the connection in its loop's thread.\<close>

lemma handler_ready:
  assumes inv: "safe v ph s" and tid: "lp_threadId (rx_loop s) = tid"
    and ch: "chan_of (\<lambda>fd ix. ix \<noteq> kNew) (life_of v s) (sv_cur s) p"
    and p: "p \<noteq> chan_ptr (lp_wakeupChannel (rx_loop s))" "p \<noteq> chan_ptr (ac_channel (sv_acceptor s))"
  obtains i c where "sv_objects s i = Some c" "owner_of p s = Some i" "chan_index (cn_channel c) \<noteq> kNew"
    "loaded v ph tid i (s\<lparr>cs_conn := c\<rparr>)"
proof -
  have L: "life_inv ph (life_of v s)" using inv by (simp add: safe_def)
  obtain i c where i: "sv_objects s i = Some c" "sv_conn_loop s i = sv_cur s" "chan_ptr (cn_channel c) = p"
    "chan_index (cn_channel c) \<noteq> kNew"
    using ch p by (auto simp: chan_of_def life_of_def life_loop_of_def life_conn_of_def)
  obtain j where "owner_of p s = Some j" using owner_of_total [OF i(1,3) object_bound [OF L]] i(1) by auto
  with owner_of_unique [OF L i(1,3)] have "owner_of p s = Some i" by simp
  then show ?thesis using that i loaded_enter(1) [OF inv i(1,2) tid] by blast
qed

lemma wake_handle_safe:
  assumes ok: "os_ok os v" and inv: "safe v ph s"
    and run: "handleEvent lock (\<lambda>f s. Inr (case f of Loop_handleRead \<Rightarrow> loop_handleRead os s | _ \<Rightarrow> s))
      (\<lambda>s. lp_wakeupChannel (rx_loop s)) s = Inr s'"
  shows "safe v ph s' \<and> sv_cur s' = sv_cur s"
proof -
  have keep: "safe v ph (loop_handleRead os t)" if "safe v ph t" for t
  proof -
    obtain r k where r: "os_read os (lp_wakeupFd (rx_loop t)) 8 (rx_kern t) = (r, k)" by fastforce
    then have "interest v k = interest v (rx_kern t)" using os_okD(5) [OF ok] unfolding read_ok_def by blast
    then show ?thesis using safe_kernel [OF that] r by (simp add: loop_handleRead_def)
  qed
  have cur: "sv_cur (loop_handleRead os t) = sv_cur t" for t :: "'a server"
    by (simp add: loop_handleRead_def split: prod.splits)
  from run show ?thesis
    by (rule handleEvent_fold [where P = "\<lambda>t. safe v ph t \<and> sv_cur t = sv_cur s", rotated 2])
      (use inv keep cur in \<open>auto split: callback.splits\<close>)
qed

text \<open>The acceptor has a read callback only, so at most one callback runs.\<close>

lemma accept_callbacks:
  assumes "safe v ph s"
  shows "closeCallback (ac_channel (sv_acceptor s)) = None" "errorCallback (ac_channel (sv_acceptor s)) = None"
    "writeCallback (ac_channel (sv_acceptor s)) = None"
proof -
  have "let ch = ac_channel (sv_acceptor s) in closeCallback ch = None \<and> errorCallback ch = None \<and> writeCallback ch = None"
    using assms unfolding safe_def names_inv_def by blast
  then show "closeCallback (ac_channel (sv_acceptor s)) = None" "errorCallback (ac_channel (sv_acceptor s)) = None"
    "writeCallback (ac_channel (sv_acceptor s)) = None" by (simp_all add: Let_def)
qed

lemma accept_handle_cases:
  assumes "safe v ph s" and one: "\<And>f t. run f s = Inr t \<Longrightarrow> safe v ph t"
    and e: "handleEvent lock run (\<lambda>s. ac_channel (sv_acceptor s)) s = Inr s'"
  shows "s' = s \<or> (\<exists>f. run f s = Inr s')"
proof (cases "readCallback (ac_channel (sv_acceptor s))")
  case None
  then have "s' = s"
    using accept_callbacks [OF assms(1)] e
    by (auto simp: handleEvent_def handleEventWithGuard_def call_if_def split: if_splits option.splits)
  then show ?thesis by simp
next
  case (Some f)
  have "s' = s \<or> run f s = Inr s'"
    by (rule handleEvent_read_only [OF accept_callbacks [OF assms(1)] _ e]) (simp_all add: Some accept_callbacks(3) [OF one])
  then show ?thesis by blast
qed

text \<open>The closure a thread is about to run: what it finds.\<close>

lemma functor_fits:
  assumes inv: "safe v ph s" and ph: "ph (sv_cur s) = In_functors (f # fs)"
  shows "f \<in> set (work ph (life_of v s) (sv_cur s))" "fits (life_of v s) (sv_cur s) f"
    "(\<And>i. f \<noteq> Fn_connectDestroyed i) \<Longrightarrow> safe v (ph(sv_cur s := In_functors fs)) s"
proof -
  have L: "life_inv ph (life_of v s)" using inv by (simp add: safe_def)
  show f: "f \<in> set (work ph (life_of v s) (sv_cur s))" using ph by (simp add: work_def)
  then show "fits (life_of v s) (sv_cur s) f" using life_invD(7) [OF L] unfolding work_inv_def by blast
  show "safe v (ph(sv_cur s := In_functors fs)) s" if "\<And>i. f \<noteq> Fn_connectDestroyed i"
    using inv pop_inv [OF L ph] that unfolding safe_def by blast
qed

lemma functor_ready:
  assumes "safe v ph s" and "lp_threadId (rx_loop s) = tid" and fit: "fits (life_of v s') (sv_cur s) f"
    and "closure_conn f = Some i" and "sv_objects s' = sv_objects s" "sv_conn_loop s' = sv_conn_loop s"
  shows "\<exists>c. sv_objects s i = Some c \<and> loaded v ph tid i (s\<lparr>cs_conn := c\<rparr>)"
proof -
  obtain c where c: "sv_objects s i = Some c" and h: "sv_conn_loop s i = sv_cur s"
    using fit assms(4-6) by (cases f) (auto simp: closure_conn_def life_of_def)
  then show ?thesis using loaded_enter(1) [OF assms(1) c h assms(2)] by blast
qed

lemma est_ready:
  assumes inv: "safe v ph s" and tid: "lp_threadId (rx_loop s) = tid"
    and ph: "ph (sv_cur s) = In_functors (Fn_connectEstablished i # fs)"
  obtains c where "sv_objects s i = Some c" "loaded v (ph(sv_cur s := In_functors fs)) tid i (s\<lparr>cs_conn := c\<rparr>)"
    "held (ph(sv_cur s := In_functors fs)) (life_of v (stored i (s\<lparr>cs_conn := c\<rparr>))) i"
    "\<And>b. Fn_connectEstablished i \<notin> set (work (ph(sv_cur s := In_functors fs)) (life_of v (stored i (s\<lparr>cs_conn := c\<rparr>))) b)"
proof -
  let ?ph = "ph(sv_cur s := In_functors fs)"
  have L: "life_inv ph (life_of v s)" using inv by (simp add: safe_def)
  note F = functor_fits [OF inv ph]
  have s0: "safe v ?ph s" by (rule F(3)) simp
  obtain c where c: "sv_objects s i = Some c" "sv_conn_loop s i = sv_cur s" using F(2) by (auto simp: life_of_def)
  note ld = loaded_enter [OF s0 c tid]
  note E = pop_est [OF L ph]
  show ?thesis by (rule that [OF c(1) ld(1)]) (use E(1,4) in \<open>simp_all add: ld(2) held_def\<close>)
qed

lemma remove_ready:
  assumes inv: "safe v ph s" and ph: "ph (sv_cur s) = In_functors (Fn_removeConnectionInLoop i # fs)"
  obtains c where "sv_objects s i = Some c" "cn_name c = cname s i"
    "\<And>b. Fn_connectEstablished i \<notin> set (work (ph(sv_cur s := In_functors fs)) (life_of v s) b)"
proof -
  let ?ph = "ph(sv_cur s := In_functors fs)"
  have L: "life_inv ph (life_of v s)" using inv by (simp add: safe_def)
  note F = functor_fits [OF inv ph]
  obtain c where c: "sv_objects s i = Some c" using F(2) by (auto simp: life_of_def)
  have nm: "cn_name c = cname s i" using inv c unfolding safe_def names_inv_def by blast
  have "Fn_connectEstablished i \<notin> set (work ph (life_of v s) b)" for b
    using life_invD(5) [OF L] F(1) c unfolding est_inv_def by (force simp: life_of_def)
  moreover have "set (work ?ph (life_of v s) b) \<subseteq> set (work ph (life_of v s) b)" for b
    using ph by (cases "b = sv_cur s") (auto simp: work_def)
  ultimately show ?thesis by (intro that [OF c nm]) blast
qed

lemma exec_enter:
  assumes "server_exec os app tid mem user f s = Inr s'" and "closure_conn f = Some i" and "sv_objects s i = Some c"
  shows "\<exists>s1. conn_exec os (conn_cbs os app tid (sv_conn_cbs s i) i) tid mem f (s\<lparr>cs_conn := c\<rparr>) = Inr s1 \<and> s' = stored i s1"
  using assms by (auto simp: server_exec_def elim!: with_connE)

section \<open>Applications\<close>

definition app_callbacks :: "'s conn_callbacks \<Rightarrow> ('s \<Rightarrow> 's res) set" where
  "app_callbacks a =
     set_option (connectionCallback a) \<union> set_option (messageCallback a) \<union> set_option (writeCompleteCallback a)"

text \<open>The callbacks of an application, per thread, keep the connection they are given.\<close>

locale application =
  fixes app :: "'k os \<Rightarrow> int \<Rightarrow> 'k server conn_callbacks"
  assumes callback_kept: "os_ok os v \<Longrightarrow> g \<in> app_callbacks (app os tid) \<Longrightarrow> loaded v ph tid i s \<Longrightarrow> g s = Inr s' \<Longrightarrow>
    kept v ph tid i s s'"
begin

lemma call_kept:
  assumes "os_ok os v" and "loaded v ph tid i s" and "call cb s = Inr s'"
    and "cb \<in> {connectionCallback (conn_cbs os (app os tid) tid fl i), messageCallback (conn_cbs os (app os tid) tid fl i),
      writeCompleteCallback (conn_cbs os (app os tid) tid fl i)}"
  shows "kept v ph tid i s s'"
proof -
  obtain g where g: "cb = Some g" "g s = Inr s'" using assms(3) by (auto simp: call_def split: option.splits)
  then have "g \<in> app_callbacks (app os tid)"
    using assms(4) by (auto simp: conn_cbs_def app_callbacks_def split: if_splits)
  then show ?thesis using callback_kept [OF assms(1) _ assms(2)] g(2) by blast
qed

lemma handleClose_kept:
  assumes ok: "os_ok os v" and ld: "loaded v ph tid i s" and ix: "idx s \<noteq> kNew"
    and run: "handleClose os (conn_cbs os (app os tid) tid fl i) s = Inr s'"
  shows "kept v ph tid i s s'"
proof -
  let ?cbs = "conn_cbs os (app os tid) tid fl i"
  obtain s1 s2 where s1: "on_channel (disableAll os) (setState kDisconnected s) = Inr s1"
    and s2: "call (connectionCallback ?cbs) s1 = Inr s2" and s': "call (closeCallback_conn ?cbs) s2 = Inr s'"
    using run by (auto simp: handleClose_def elim!: res_bindE)
  have k1: "kept v ph tid i s s1" by (rule closing_kept [OF ok ld ix s1])
  have k2: "kept v ph tid i s1 s2" by (rule call_kept [where fl = fl, OF ok kept_loaded [OF k1] s2]) simp
  note k12 = kept_trans [OF k1 k2]
  have "removeConnection os tid i s2 = Inr s'" using s' by (simp add: call_def conn_cbs_def)
  from removeConnection_kept [OF ok kept_loaded [OF k12] kept_idx [OF k12 ix] this]
  show ?thesis by (rule kept_trans [OF k12])
qed

lemma handleError_kept:
  assumes "os_ok os v" and "loaded v ph tid i s" and "handleError os s = Inr s'"
  shows "kept v ph tid i s s'"
proof -
  have "s' = s\<lparr>rx_kern := snd (os_getsockopt os (chan_fd (cn_channel (cs_conn s))) (rx_kern s))\<rparr>"
    using assms(3) by (auto simp: handleError_def split: prod.splits)
  then show ?thesis using kept_kernel [OF assms(2) getsockopt_views(1) [OF assms(1)]] by simp
qed

lemma handleRead_kept:
  assumes ok: "os_ok os v" and ld: "loaded v ph tid i s" and ix: "idx s \<noteq> kNew"
    and run: "handleRead os (conn_cbs os (app os tid) tid fl i) s = Inr s'"
  shows "kept v ph tid i s s'"
proof -
  let ?cbs = "conn_cbs os (app os tid) tid fl i"
  obtain r k where r: "os_readv os (chan_fd (cn_channel (cs_conn s))) (readFd_blocks (cn_inputBuffer (cs_conn s))) (rx_kern s) = (r, k)"
    by fastforce
  obtain b and n :: int where c: "(if 0 < n then call (messageCallback ?cbs) (s\<lparr>rx_kern := k, cs_conn := (cs_conn s)\<lparr>cn_inputBuffer := b\<rparr>\<rparr>)
      else if n = 0 then handleClose os ?cbs (s\<lparr>rx_kern := k, cs_conn := (cs_conn s)\<lparr>cn_inputBuffer := b\<rparr>\<rparr>)
      else handleError os (s\<lparr>rx_kern := k, cs_conn := (cs_conn s)\<lparr>cn_inputBuffer := b\<rparr>\<rparr>)) = Inr s'"
    using run r by (auto simp: handleRead_def Let_def elim!: res_bindE)
  let ?s1 = "s\<lparr>rx_kern := k, cs_conn := (cs_conn s)\<lparr>cn_inputBuffer := b\<rparr>\<rparr>"
  have k1: "kept v ph tid i s ?s1"
    by (rule kept_plain [OF ld]) (use readv_views(1) [OF ok r] in simp_all)
  note ld1 = kept_loaded [OF k1] and ix1 = kept_idx [OF k1 ix]
  have "kept v ph tid i ?s1 s'"
    using c call_kept [OF ok ld1, of "messageCallback ?cbs" s' fl] handleClose_kept [OF ok ld1 ix1, of fl s'] handleError_kept [OF ok ld1]
    by (auto split: if_splits)
  then show ?thesis by (rule kept_trans [OF k1])
qed

lemma handleWrite_kept:
  assumes ok: "os_ok os v" and ld: "loaded v ph tid i s" and ix: "idx s \<noteq> kNew"
    and run: "handleWrite os cbs tid s = Inr s'"
  shows "kept v ph tid i s s'"
proof (cases "isWriting (cn_channel (cs_conn s))")
  case False
  then show ?thesis using run kept_refl [OF ld] by (simp add: handleWrite_def)
next
  case True
  obtain n e k where w: "writeFd (\<lambda>ds. os_write os (chan_fd (cn_channel (cs_conn s))) ds (rx_kern s)) (cn_outputBuffer (cs_conn s)) = Inr (n, e, k)"
    using run True by (auto simp: handleWrite_def Let_def elim!: res_bindE)
  then obtain ds r where "os_write os (chan_fd (cn_channel (cs_conn s))) ds (rx_kern s) = (r, k)"
    by (auto simp: writeFd_def elim!: res_bindE split: prod.splits sum.splits)
  note k = write_views(1) [OF ok this]
  let ?b = "retrieve (cn_outputBuffer (cs_conn s)) (nat n)"
  let ?s1 = "s\<lparr>rx_kern := k, cs_conn := (cs_conn s)\<lparr>cn_outputBuffer := ?b\<rparr>\<rparr>"
  have k1: "kept v ph tid i s ?s1" by (rule kept_plain [OF ld]) (use k in simp_all)
  have k0: "kept v ph tid i s (s\<lparr>rx_kern := k\<rparr>)" by (rule kept_kernel [OF ld k])
  show ?thesis
  proof (cases "0 < n \<and> readableBytes ?b = 0")
    case False
    then show ?thesis using run True w k0 k1 by (auto simp: handleWrite_def Let_def split: if_splits)
  next
    case empty: True
    then obtain s2 where s2: "on_channel (\<lambda>ch. loop_updateChannel os (clear_writing ch)) ?s1 = Inr s2"
      and s': "s' = (let s3 = (if writeCompleteCallback cbs \<noteq> None
          then queueInLoop os tid (Fn_writeComplete (cn_id (cs_conn s2))) s2 else s2)
        in if cn_state (cs_conn s3) = kDisconnecting then shutdownInLoop os s3 else s3)"
      using run True w by (auto simp: handleWrite_def Let_def chan_members elim!: res_bindE)
    from update_kept [OF ok kept_loaded [OF k1] kept_idx [OF k1 ix] event_setters(3) s2]
    have k2: "kept v ph tid i s s2" by (rule kept_trans [OF k1])
    note ld2 = kept_loaded [OF k2]
    have k3: "kept v ph tid i s (queueInLoop os tid (Fn_writeComplete (cn_id (cs_conn s2))) s2)"
      using kept_trans [OF k2 queue_kept [OF ok ld2]] loadedD(6) [OF ld2] by simp
    have "kept v ph tid i s (shutdownInLoop os t)" if "kept v ph tid i s t" for t
      by (rule kept_trans [OF that shutdownInLoop_kept [OF ok kept_loaded [OF that]]])
    then show ?thesis using k2 k3 unfolding s' Let_def by auto
  qed
qed

lemma run_callback_kept:
  assumes "os_ok os v" and "loaded v ph tid i s" and "idx s \<noteq> kNew"
    and "run_callback os (conn_cbs os (app os tid) tid fl i) tid f s = Inr s'"
  shows "kept v ph tid i s s'"
  using assms(4) handleRead_kept [OF assms(1-3)] handleWrite_kept [OF assms(1-3)] handleClose_kept [OF assms(1-3)]
    handleError_kept [OF assms(1,2)] kept_refl [OF assms(2)]
  by (cases f) (auto simp: run_callback_def)

lemma handleEvent_kept:
  assumes ok: "os_ok os v" and ld: "loaded v ph tid i s" and ix: "idx s \<noteq> kNew"
    and run: "handleEvent lock (run_callback os (conn_cbs os (app os tid) tid fl i) tid) (\<lambda>s. cn_channel (cs_conn s)) s = Inr s'"
  shows "kept v ph tid i s s'"
proof -
  let ?run = "run_callback os (conn_cbs os (app os tid) tid fl i) tid"
  have step: "kept v ph tid i s u" if "kept v ph tid i s t" "call_if ?run c cb t = Inr u" for t u c cb
    using that(2) kept_trans [OF that(1) run_callback_kept [OF ok kept_loaded [OF that(1)] kept_idx [OF that(1) ix]]] that(1)
    by (auto simp: call_if_def split: if_splits option.splits)
  have "kept v ph tid i s s'" if "handleEventWithGuard ?run (\<lambda>s. cn_channel (cs_conn s)) s = Inr s'"
    using that unfolding handleEventWithGuard_def
    by (elim res_bindE) (rule step [OF step [OF step [OF step [OF kept_refl [OF ld]]]]], assumption+)
  then show ?thesis using run kept_refl [OF ld] by (auto simp: handleEvent_def split: if_splits option.splits)
qed

text \<open>Establishing a connection that is in the map, and destroying one, in its loop's closures.\<close>

lemma connectEstablished_loaded:
  assumes ok: "os_ok os v" and ld: "loaded v ph tid i s" and h: "held ph (life_of v (stored i s)) i"
    and e: "\<And>b. Fn_connectEstablished i \<notin> set (work ph (life_of v (stored i s)) b)"
    and run: "connectEstablished os (conn_cbs os (app os tid) tid fl i) s = Inr s'"
  shows "loaded v ph tid i s'" "sv_cur s' = sv_cur s"
proof -
  let ?cbs = "conn_cbs os (app os tid) tid fl i"
  let ?c = "(cs_conn s)\<lparr>cn_state := kConnected, cn_channel := tie (cn_id (cs_conn s)) (cn_channel (cs_conn s))\<rparr>"
  obtain s1 where s1: "on_channel (\<lambda>ch. loop_updateChannel os (set_reading ch)) (s\<lparr>cs_conn := ?c\<rparr>) = Inr s1"
    and s': "call (connectionCallback ?cbs) s1 = Inr s'"
    using run by (auto simp: connectEstablished_def Let_def setState_def chan_members elim!: res_bindE)
  have "loaded v ph tid i s1" "sv_cur s1 = sv_cur s"
    using on_channel_update [OF ok ld event_setters(1) _ _ _ _ _ _ _ s1] h e by (simp_all add: tie_def)
  moreover have "kept v ph tid i s1 s'" by (rule call_kept [where fl = fl, OF ok calculation(1) s']) simp
  ultimately show "loaded v ph tid i s'" "sv_cur s' = sv_cur s" by (simp_all add: kept_def)
qed

lemma connectDestroyed_loaded:
  assumes ok: "os_ok os v" and ld: "loaded v ph tid i s" and act: "active (ph (sv_cur s)) = []"
    and run: "connectDestroyed os (conn_cbs os (app os tid) tid fl i) s = Inr s'"
  shows "loaded v ph tid i s'" "sv_cur s' = sv_cur s" "idx s' = kNew"
proof -
  let ?cbs = "conn_cbs os (app os tid) tid fl i"
  have "\<exists>s2. loaded v ph tid i s2 \<and> sv_cur s2 = sv_cur s \<and> \<not> up s2 \<and> on_channel (chan_remove os) s2 = Inr s'"
  proof (cases "up s")
    case False
    then show ?thesis using run ld by (intro exI [of _ s]) (simp add: connectDestroyed_def)
  next
    case True
    then have ix: "idx s \<noteq> kNew" using loaded_index(2) [OF ld] by blast
    obtain s1 s2 where s1: "on_channel (disableAll os) (setState kDisconnected s) = Inr s1"
      and s2: "call (connectionCallback ?cbs) s1 = Inr s2" and s': "on_channel (chan_remove os) s2 = Inr s'"
      using run True by (auto simp: connectDestroyed_def elim!: res_bindE)
    have l1: "loaded v ph tid i s1" "sv_cur s1 = sv_cur s" "\<not> up s1"
      using closing_kept [OF ok ld ix s1] by (simp_all add: kept_def)
    have "kept v ph tid i s1 s2" by (rule call_kept [where fl = fl, OF ok l1(1) s2]) simp
    then show ?thesis using l1 s' by (auto simp: kept_def)
  qed
  then obtain s2 where "loaded v ph tid i s2" "sv_cur s2 = sv_cur s" "\<not> up s2" "on_channel (chan_remove os) s2 = Inr s'"
    by blast
  then show "loaded v ph tid i s'" "sv_cur s' = sv_cur s" "idx s' = kNew"
    using on_channel_remove [OF ok, of ph tid i s2 s'] act by simp_all
qed

subsection \<open>New connections\<close>

lemma newConnection_safe:
  assumes ok: "os_ok os v" and sk: "sock_ok os v" and inv: "safe v ph s"
    and p: "free_ptr (life_of v s) (cptr (sv_fresh s))"
    and run: "newConnection os (app os tid) tid cptr fd peer s = Inr s'"
  shows "safe v ph s' \<and> sv_cur s' = sv_cur s"
proof -
  let ?i = "sv_fresh s" and ?cbs = "conn_cbs os (app os tid) tid (sv_cbs s) (sv_fresh s)"
  let ?k = "os_setsockopt os fd ''SO_KEEPALIVE'' True (snd (os_getsockname os fd (rx_kern s)))"
  obtain io q where g: "getNextLoop (sv_pool s) = Inr (io, q)" and n: "sv_nextConnId s \<noteq> 2 ^ 31 - 1"
    using run by (auto simp: newConnection_def elim!: res_bindE split: if_splits)
  obtain c where r: "newConnection os (app os tid) tid cptr fd peer s = with_loop io (runInLoop os
        (\<lambda>_. with_conn ?i (connectEstablished os ?cbs)) tid (Fn_connectEstablished ?i)) (added_conn io q c ?k s)"
    and c: "made_conn ?i (conn_name (sv_name s) (sv_ipPort s) (sv_nextConnId s)) fd (cptr ?i) peer c"
    by (rule newConnection_eq [OF g n refl])
  let ?s1 = "added_conn io q c ?k s"
  from run have w: "with_loop io (runInLoop os (\<lambda>_. with_conn ?i (connectEstablished os ?cbs)) tid (Fn_connectEstablished ?i)) ?s1 = Inr s'"
    unfolding r .
  have io: "loop_at io s \<noteq> None"
    using w by (auto simp: with_loop_def loop_at_def added_conn_def split: if_splits option.splits)
  note A = added_conn_new [where q = q, OF sk inv n io p c]
  from w show ?thesis
  proof (cases rule: with_loop_runInLoop)
    case direct
    have step: "safe v ph t' \<and> sv_cur t' = io"
      if st: "same_server ?s1 t" and cur: "sv_cur t = io" and r: "with_conn ?i (connectEstablished os ?cbs) t = Inr t'" for t t'
    proof -
      obtain d t1 where d: "sv_objects t ?i = Some d" and e: "connectEstablished os ?cbs (t\<lparr>cs_conn := d\<rparr>) = Inr t1"
        and t': "t' = stored ?i t1" by (rule with_connE [OF r])
      have "lp_threadId (rx_loop t) = tid"
        using direct(2) same_server_fields(1) [OF st, of io] loop_at_cur [of t] unfolding cur by auto
      note E = added_conn_loaded [OF A st cur this d]
      from connectEstablished_loaded [OF ok E e] show ?thesis using loaded_leave [of v ph tid ?i t1] cur unfolding t' by simp
    qed
    obtain t t' where "same_server ?s1 t" "sv_cur t = io" "with_conn ?i (connectEstablished os ?cbs) t = Inr t'"
      "same_server t' s'" "sv_cur s' = sv_cur ?s1"
      by (rule with_loop_same [OF direct(1)]) (use step in auto)
    then show ?thesis using step same_server_life [of t' s'] by (simp add: safe_def)
  next
    case queued
    note Q = with_loop_queue_life [OF ok queued]
    have same: "s'\<lparr>sv_objects := sv_objects ?s1\<rparr> = s'" using Q(3) by (simp add: frame_def)
    have lf: "life_of v s' = put_queue io (Fn_connectEstablished ?i) (life_of v ?s1)"
      using Q(1) [of "sv_objects ?s1", unfolded same objects_id] .
    have "life_inv ph (put_queue io (Fn_connectEstablished ?i) (life_of v ?s1))"
      by (rule queue_inv) (use A io c in \<open>auto simp: safe_def life_of_def life_conn_of_def made_conn_def\<close>)
    moreover have "names_inv s'" using frame_names [OF _ Q(3,4)] A(1) by (simp add: safe_def)
    ultimately show ?thesis using Q(3) by (simp add: safe_def lf frame_def)
  qed
qed

subsection \<open>Event handlers\<close>

lemma acceptor_handleRead_safe:
  assumes ok: "os_ok os v" and sk: "sock_ok os v" and inv: "safe v ph s"
    and p: "free_ptr (life_of v s) (cptr (sv_fresh s))"
    and run: "acceptor_handleRead os (app os tid) tid cptr peer0 s = Inr s'"
  shows "safe v ph s' \<and> sv_cur s' = sv_cur s"
proof -
  obtain fd peer k where a: "socket_accept os (ac_fd (sv_acceptor s)) peer0 (rx_kern s) = (fd, peer, k)" by (metis prod_cases3)
  then have "k = snd (os_accept4 os (ac_fd (sv_acceptor s)) (rx_kern s))"
    by (auto simp: socket_accept_def split: prod.splits sum.splits)
  then have k: "interest v k = interest v (rx_kern s)" using sock_interest(1) [OF sk] by simp
  let ?s1 = "s\<lparr>rx_kern := k\<rparr>"
  have s1: "safe v ph ?s1" by (rule safe_kernel [OF inv k])
  have lo: "loop_at b ?s1 = loop_at b s" for b by (simp add: loop_at_def)
  have "free_ptr (life_of v ?s1) (cptr (sv_fresh ?s1))" using p by (simp add: free_ptr_def life_of_def lo)
  note new = newConnection_safe [where cptr = cptr, OF ok sk s1 this]
  have "interest v k ep fd' = Some e" if "interest v (os_close os fd k) ep fd' = Some e" for ep fd' e
    using sock_interest(4) [OF sk that] .
  then have cl: "safe v ph (?s1\<lparr>rx_kern := os_close os fd k\<rparr>)" by (intro safe_shrink [OF s1]) simp
  consider "0 \<le> fd" "ac_newConnectionCallback (sv_acceptor s)" "newConnection os (app os tid) tid cptr fd peer ?s1 = Inr s'"
    | "s' = ?s1\<lparr>rx_kern := os_close os fd k\<rparr>" | "s' = ?s1"
    using run a unfolding acceptor_handleRead_def by (auto simp: Let_def split: if_splits)
  then show ?thesis
  proof cases
    case 1
    from new [OF this(3)] show ?thesis by simp
  next
    case 2
    with cl show ?thesis by simp
  next
    case 3
    with s1 show ?thesis by simp
  qed
qed

lemma server_handle_safe:
  assumes ok: "os_ok os v" and sk: "sock_ok os v" and inv: "safe v ph s"
    and tid: "lp_threadId (rx_loop s) = tid" and ch: "chan_of (\<lambda>fd ix. ix \<noteq> kNew) (life_of v s) (sv_cur s) p"
    and fp: "free_ptr (life_of v s) (cptr (sv_fresh s))"
    and run: "server_handle os (app os tid) tid cptr peer0 p s = Inr s'"
  shows "safe v ph s' \<and> sv_cur s' = sv_cur s"
proof -
  consider (wake) "p = chan_ptr (lp_wakeupChannel (rx_loop s))"
    | (acc) "p \<noteq> chan_ptr (lp_wakeupChannel (rx_loop s))" "p = chan_ptr (ac_channel (sv_acceptor s))"
    | (conn) "p \<noteq> chan_ptr (lp_wakeupChannel (rx_loop s))" "p \<noteq> chan_ptr (ac_channel (sv_acceptor s))" by blast
  then show ?thesis
  proof cases
    case wake
    then show ?thesis using wake_handle_safe [OF ok inv] run by (simp add: server_handle_def)
  next
    case acc
    let ?acc = "\<lambda>f s. case f of Acceptor_handleRead \<Rightarrow> acceptor_handleRead os (app os tid) tid cptr peer0 s | _ \<Rightarrow> Inr s"
    have one: "safe v ph t \<and> sv_cur t = sv_cur s" if "?acc f s = Inr t" for f t
      using that inv acceptor_handleRead_safe [where cptr = cptr, OF ok sk inv fp, of tid peer0 t] by (auto split: callback.splits)
    have e: "handleEvent (\<lambda>_. True) ?acc (\<lambda>s. ac_channel (sv_acceptor s)) s = Inr s'"
      using run acc by (simp add: server_handle_def)
    have "s' = s \<or> (\<exists>f. ?acc f s = Inr s')"
      by (rule accept_handle_cases [OF inv _ e]) (use one in blast)
    then show ?thesis using inv one by blast
  next
    case conn
    obtain i c where i: "sv_objects s i = Some c" "owner_of p s = Some i" "chan_index (cn_channel c) \<noteq> kNew"
      and ld: "loaded v ph tid i (s\<lparr>cs_conn := c\<rparr>)"
      by (rule handler_ready [OF inv tid ch conn])
    from i(2) conn run have "with_conn i (handleEvent (\<lambda>obj. sv_objects s obj \<noteq> None)
        (run_callback os (conn_cbs os (app os tid) tid (sv_conn_cbs s i) i) tid) (\<lambda>s. cn_channel (cs_conn s))) s = Inr s'"
      by (simp add: server_handle_def)
    then obtain s1 where e: "handleEvent (\<lambda>obj. sv_objects s obj \<noteq> None)
        (run_callback os (conn_cbs os (app os tid) tid (sv_conn_cbs s i) i) tid) (\<lambda>s. cn_channel (cs_conn s)) (s\<lparr>cs_conn := c\<rparr>) = Inr s1"
      and s': "s' = stored i s1" by (rule with_connE) (use i in auto)
    have "kept v ph tid i (s\<lparr>cs_conn := c\<rparr>) s1" by (rule handleEvent_kept [OF ok ld _ e]) (use i in simp)
    then show ?thesis using loaded_leave [of v ph tid i s1] unfolding kept_def s' by simp
  qed
qed

subsection \<open>Closures\<close>

lemma exec_destroyed_safe:
  assumes ok: "os_ok os v" and inv: "safe v ph s" and tid: "lp_threadId (rx_loop s) = tid"
    and ph: "ph (sv_cur s) = In_functors (Fn_connectDestroyed i # fs)"
    and run: "server_exec os (app os tid) tid mem user (Fn_connectDestroyed i) s = Inr s'"
  shows "safe v (ph(sv_cur s := In_functors fs)) s' \<and> sv_cur s' = sv_cur s"
proof -
  let ?ph = "ph(sv_cur s := In_functors fs)"
  note F = functor_fits [OF inv ph]
  obtain c where c: "sv_objects s i = Some c" and ld: "loaded v ph tid i (s\<lparr>cs_conn := c\<rparr>)"
    using functor_ready [OF inv tid F(2), of i] by (auto simp: closure_conn_def)
  then obtain s1 where s': "s' = stored i s1"
    and e: "connectDestroyed os (conn_cbs os (app os tid) tid (sv_conn_cbs s i) i) (s\<lparr>cs_conn := c\<rparr>) = Inr s1"
    using exec_enter [OF run, of i c] by (auto simp: closure_conn_def conn_exec_def)
  have "active (ph (sv_cur (s\<lparr>cs_conn := c\<rparr>))) = []" using ph by simp
  note D = connectDestroyed_loaded [OF ok ld this e]
  have L1: "life_inv ph (life_of v (stored i s1))" "names_inv (stored i s1)"
    using loaded_leave [OF D(1)] by (simp_all add: safe_def)
  have "life_inv ?ph (life_of v (stored i s1))"
    by (rule pop_inv [OF L1(1) ph]) (use D(3) in \<open>auto simp: life_conn_of_def\<close>)
  then show ?thesis using L1(2) D(2) unfolding s' safe_def by simp
qed

lemma exec_remove_safe:
  assumes ok: "os_ok os v" and inv: "safe v ph s" and tid: "lp_threadId (rx_loop s) = tid"
    and ph: "ph (sv_cur s) = In_functors (Fn_removeConnectionInLoop i # fs)"
    and run: "server_exec os (app os tid) tid mem user (Fn_removeConnectionInLoop i) s = Inr s'"
  shows "safe v (ph(sv_cur s := In_functors fs)) s' \<and> sv_cur s' = sv_cur s"
proof -
  let ?ph = "ph(sv_cur s := In_functors fs)"
  note F = functor_fits [OF inv ph]
  have r: "removeConnectionInLoop os tid i s = Inr s'" using run by (simp add: server_exec_def closure_conn_def)
  have s0: "safe v ?ph s" by (rule F(3)) simp
  obtain c where c: "sv_objects s i = Some c" "cn_name c = cname s i"
    and e: "\<And>b. Fn_connectEstablished i \<notin> set (work ?ph (life_of v s) b)"
    by (rule remove_ready [OF inv ph]) blast
  have R: "safe v ?ph (s'\<lparr>sv_objects := sv_objects s\<rparr>)" "frame s s'"
    using removeConnectionInLoop_safe [where ob = "sv_objects s", OF ok _ _ c _ r, of ?ph] s0 c(1) e by simp_all
  then have "sv_objects s = sv_objects s'" "sv_cur s' = sv_cur s" by (simp_all add: frame_def)
  with R(1) show ?thesis unfolding \<open>sv_objects s = sv_objects s'\<close> objects_id by blast
qed

lemma server_exec_safe:
  assumes ok: "os_ok os v" and inv: "safe v ph s" and tid: "lp_threadId (rx_loop s) = tid"
    and ph: "ph (sv_cur s) = In_functors (f # fs)"
    and run: "server_exec os (app os tid) tid mem user f s = Inr s'"
  shows "safe v (ph(sv_cur s := In_functors fs)) s' \<and> sv_cur s' = sv_cur s"
proof -
  let ?ph = "ph(sv_cur s := In_functors fs)"
  note F = functor_fits [OF inv ph]
  show ?thesis
  proof (cases f)
    case (Fn_connectEstablished i)
    obtain c where c: "sv_objects s i = Some c" and R: "loaded v ?ph tid i (s\<lparr>cs_conn := c\<rparr>)"
      "held ?ph (life_of v (stored i (s\<lparr>cs_conn := c\<rparr>))) i"
      "\<And>b. Fn_connectEstablished i \<notin> set (work ?ph (life_of v (stored i (s\<lparr>cs_conn := c\<rparr>))) b)"
      by (rule est_ready [OF inv tid ph [unfolded Fn_connectEstablished]]) blast
    then obtain s1 where s': "s' = stored i s1"
      and e: "connectEstablished os (conn_cbs os (app os tid) tid (sv_conn_cbs s i) i) (s\<lparr>cs_conn := c\<rparr>) = Inr s1"
      using exec_enter [OF run, of i c] Fn_connectEstablished by (auto simp: closure_conn_def conn_exec_def)
    show ?thesis using connectEstablished_loaded [OF ok R e] loaded_leave [of v ?ph tid i s1] unfolding s' by simp
  next
    case (Fn_connectDestroyed i)
    then show ?thesis using exec_destroyed_safe [OF ok inv tid] ph run by blast
  next
    case (Fn_writeComplete i)
    have s0: "safe v ?ph s" by (rule F(3)) (simp add: Fn_writeComplete)
    obtain c where c: "sv_objects s i = Some c" and ld: "loaded v ?ph tid i (s\<lparr>cs_conn := c\<rparr>)"
      using functor_ready [OF s0 tid F(2), of i] Fn_writeComplete by (auto simp: closure_conn_def)
    then obtain s1 where s': "s' = stored i s1"
      and e: "call (writeCompleteCallback (conn_cbs os (app os tid) tid (sv_conn_cbs s i) i)) (s\<lparr>cs_conn := c\<rparr>) = Inr s1"
      using exec_enter [OF run, of i c] Fn_writeComplete by (auto simp: closure_conn_def conn_exec_def)
    have "kept v ?ph tid i (s\<lparr>cs_conn := c\<rparr>) s1"
      by (rule call_kept [where fl = "sv_conn_cbs s i", OF ok ld e]) simp
    then show ?thesis using loaded_leave [of v ?ph tid i s1] unfolding s' kept_def by simp
  next
    case (Fn_highWaterMark i n)
    then show ?thesis
      using run by (auto simp: server_exec_def closure_conn_def conn_exec_def conn_cbs_def elim!: with_connE)
  next
    case (Fn_removeConnectionInLoop i)
    then show ?thesis using exec_remove_safe [OF ok inv tid] ph run by blast
  qed (use F(2) in simp_all)
qed

subsection \<open>Steps\<close>

lemma sl_step_safe:
  assumes ok: "os_ok os v" and sk: "sock_ok os v" and step: "sl_step os (app os) v x y" and inv: "safe v (fst x) (snd x)"
  shows "safe v (fst y) (snd y)"
  using step inv
proof (cases rule: sl_step.cases)
  case (polls ph b s s' l)
  then show ?thesis using polls_safe [OF ok, of ph s b s' l] inv by simp
next
  case (handles ph b p ps s l cptr peer0 s')
  have inv': "safe v ph s" using inv handles by simp
  have "safe v (ph(b := In_handlers ps)) s'"
  proof (rule with_loop_safe [OF handles(6) handles(4) next_channel(1) [OF inv' handles(3)]])
    fix t t' assume st: "same_server s t" and t: "sv_cur t = b" "rx_loop t = l" "safe v (ph(b := In_handlers ps)) t"
      and r: "server_handle os (app os (lp_threadId l)) (lp_threadId l) cptr peer0 p t = Inr t'"
    have "chan_of (\<lambda>fd ix. ix \<noteq> kNew) (life_of v t) (sv_cur t) p"
      using next_channel(2) [OF inv' handles(3)] unfolding t(1) same_server_life [OF st] .
    moreover have "free_ptr (life_of v t) (cptr (sv_fresh t))"
      using handles(5) unfolding same_server_life [OF st] same_server_fields [OF st] .
    ultimately show "safe v (ph(b := In_handlers ps)) t' \<and> sv_cur t' = sv_cur t"
      using server_handle_safe [where cptr = cptr, OF ok sk t(3) _ _ _ r] t(2) by simp
  qed
  then show ?thesis using handles by simp
next
  case (swaps ph b s l s')
  then show ?thesis using swaps_safe [of v ph s b l s'] inv by simp
next
  case (runs ph b f fs s l mem user s')
  have "safe v (ph(b := In_functors fs)) s'"
  proof (rule with_loop_safe [OF runs(5) runs(4)])
    show "safe v ph s" using inv runs by simp
    fix t t' assume t: "sv_cur t = b" "rx_loop t = l" "safe v ph t"
      and r: "server_exec os (app os (lp_threadId l)) (lp_threadId l) mem user f t = Inr t'"
    show "safe v (ph(b := In_functors fs)) t' \<and> sv_cur t' = sv_cur t"
      using server_exec_safe [OF ok t(3) _ _ r] t(1,2) runs(3) by simp
  qed
  then show ?thesis using runs by simp
next
  case (ends ph b s s')
  obtain l where "loop_at b s = Some l"
    using ends(4) by (auto simp: with_loop_def loop_at_def split: if_splits option.splits)
  then show ?thesis using ends_safe [of v ph s b l s'] inv ends by simp
next
  case (frees s i c ph)
  then show ?thesis using frees_safe [OF sk] inv by simp
qed

lemma sl_reach_safe:
  assumes "os_ok os v" and "sock_ok os v" and "sl_reach os (app os) v x y" and "safe v (fst x) (snd x)"
  shows "safe v (fst y) (snd y)"
  using assms(3,4) by (induction rule: rtranclp_induct) (auto intro: sl_step_safe [OF assms(1,2)])

end

end
