(* ===== verification/Net_Echo.thy ===== *)
theory Net_Echo
  imports Net_ServerLoop
begin

text \<open>
  The echo server of \<open>test/echoserver/main.cpp\<close> on all its loops: its callbacks are an interpretation of the
  locale \<open>application\<close>, its \<open>main\<close> builds and starts the server, and a server that has been started is in a state
  from which the invariant of \<open>Net_ServerLoop\<close> holds. Where a new loop thread is placed is an argument
  \<open>envs\<close>; the hypothesis \<open>envs_ok\<close> is what memory and kernel guarantee about it.
\<close>

section \<open>The echo server\<close>

text \<open>The callbacks of \<open>test/echoserver/main.cpp\<close> in thread \<open>tid\<close>; a connection of that server carries no
  write-complete and no high-water-mark callback.\<close>

definition echo_app :: "'k os \<Rightarrow> int \<Rightarrow> 'k server conn_callbacks" where
  "echo_app os tid =
     \<lparr>connectionCallback = Some echo_onConnection,
      messageCallback = Some (echo_onMessage os \<lparr>connectionCallback = None, messageCallback = None,
        writeCompleteCallback = None, highWaterMarkCallback = None, closeCallback_conn = None\<rparr> tid 0),
      writeCompleteCallback = None, highWaterMarkCallback = None, closeCallback_conn = None\<rparr>"

interpretation echo: application echo_app
proof (unfold_locales, goal_cases)
  case (1 os v g tid ph i s s')
  consider "s' = s" | cbs where "echo_onMessage os cbs tid 0 s = Inr s'"
    using 1(2,4) by (auto simp: echo_app_def app_callbacks_def echo_onConnection_def)
  then show ?case
  proof cases
    case 1
    then show ?thesis using kept_refl \<open>loaded v ph tid i s\<close> by blast
  next
    case 2
    then obtain msg b s1 where s1: "send os cbs tid 0 msg (s\<lparr>cs_conn := (cs_conn s)\<lparr>cn_inputBuffer := b\<rparr>\<rparr>) = Inr s1"
      and s': "s' = shutdown os tid s1"
      by (auto simp: echo_onMessage_def elim!: res_bindE)
    have k0: "kept v ph tid i s (s\<lparr>cs_conn := (cs_conn s)\<lparr>cn_inputBuffer := b\<rparr>\<rparr>)" by (rule kept_buffers [OF 1(3)])
    have k1: "kept v ph tid i s s1" by (rule kept_trans [OF k0 send_kept [OF 1(1) kept_loaded [OF k0] s1]])
    show ?thesis unfolding s' by (rule kept_trans [OF k1 shutdown_kept [OF 1(1) kept_loaded [OF k1]]])
  qed
qed

text \<open>\<open>main\<close>: the server is built and started, then the loop runs, possibly forever. \<open>cptr\<close>, \<open>wptr\<close>, \<open>aptr\<close> and \<open>a\<close>
  are the addresses of the objects, \<open>peer0\<close> the default address of \<open>InetAddress\<close>, \<open>mem\<close> and \<open>user\<close> stand for
  closures this program never queues.\<close>

definition echo_boot ::
    "'k os \<Rightarrow> (string \<Rightarrow> in_addr) \<Rightarrow> (string \<Rightarrow> 'k server \<Rightarrow> 'k et_env) \<Rightarrow> bool \<Rightarrow> int \<Rightarrow> nat \<Rightarrow> nat \<Rightarrow> nat \<Rightarrow>
     tcp_connection \<Rightarrow> 'k \<Rightarrow> 'k server res" where
  "echo_boot os inet_addr envs use_poll tid wptr a aptr obj0 k =
     res_bind (EventLoop os use_poll False tid wptr k) (\<lambda>r.
     res_bind (EchoServer os obj0 (Some a) (InetAddress inet_addr 8000 ''127.0.0.1'') ''EchoServer-01'' aptr r) (\<lambda>s.
       start os envs None tid s))"

definition echo_main ::
    "'k os \<Rightarrow> (string \<Rightarrow> in_addr) \<Rightarrow> (string \<Rightarrow> 'k server \<Rightarrow> 'k et_env) \<Rightarrow> bool \<Rightarrow> int \<Rightarrow> nat \<Rightarrow> nat \<Rightarrow> nat \<Rightarrow>
     tcp_connection \<Rightarrow> (nat \<Rightarrow> nat) \<Rightarrow> sockaddr_in \<Rightarrow> (nat \<Rightarrow> nat \<Rightarrow> bytes option) \<Rightarrow> (nat \<Rightarrow> 'k server \<Rightarrow> 'k server res) \<Rightarrow>
     'k \<Rightarrow> int res option" where
  "echo_main os inet_addr envs use_poll tid wptr a aptr obj0 cptr peer0 mem user k =
     (case echo_boot os inet_addr envs use_poll tid wptr a aptr obj0 k of
        Inl e \<Rightarrow> Some (Inl e)
      | Inr s \<Rightarrow>
          map_option (\<lambda>r. res_bind r (\<lambda>_. Inr 0))
            (loop (server_turn os (echo_app os tid) tid cptr peer0 mem user) s))"

text \<open>A server that has been started: no connection yet, every loop with an epoll instance of its own that
  watches only its wake-up channel or the acceptor, and empty queues.\<close>

definition listening :: "'k view \<Rightarrow> 'k server \<Rightarrow> bool" where
  "listening v s \<longleftrightarrow>
     sv_objects s = Map.empty \<and> sv_connections s = Map.empty \<and> sv_fresh s = 0 \<and> sv_nextConnId s = 1 \<and>
     length (sv_ipPort s) \<le> 21 \<and> CHR 0x00 \<notin> set (sv_ipPort s) \<and>
     (let ch = ac_channel (sv_acceptor s) in closeCallback ch = None \<and> errorCallback ch = None \<and> writeCallback ch = None) \<and>
     loop_at (sv_loop s) s \<noteq> None \<and>
     (\<forall>a b la lb. loop_at a s = Some la \<longrightarrow> loop_at b s = Some lb \<longrightarrow>
        pl_epollfd (lp_poller la) = pl_epollfd (lp_poller lb) \<longrightarrow> a = b) \<and>
     (\<forall>b l. loop_at b s = Some l \<longrightarrow> lp_pendingFunctors l = [] \<and>
        (\<forall>fd p. watch_of v (rx_kern s) (pl_epollfd (lp_poller l)) fd = Some p \<longrightarrow>
           p = chan_ptr (lp_wakeupChannel l) \<or> b = sv_loop s \<and> p = chan_ptr (ac_channel (sv_acceptor s))))"

lemma listening_safe:
  assumes "listening v s"
  shows "safe v (\<lambda>_. In_poll) s"
proof -
  note D = assms [unfolded listening_def]
  have w: "work (\<lambda>_. In_poll) (life_of v s) b = []" for b
    using D by (auto simp: work_def life_of_def life_loop_of_def split: option.splits)
  have "loops_inv (life_of v s)" using D unfolding loops_inv_def by (auto simp: life_of_def life_loop_of_def)
  moreover have "conns_inv (life_of v s)" using D by (simp add: conns_inv_def life_of_def)
  moreover have "watch_inv (life_of v s)" unfolding watch_inv_def
  proof (intro allI impI)
    fix b l fd p assume "lf_loops (life_of v s) b = Some l" "lf_watch (life_of v s) (ll_epfd l) fd = Some p"
    then obtain l0 where "loop_at b s = Some l0" "l = life_loop_of l0"
      "watch_of v (rx_kern s) (pl_epollfd (lp_poller l0)) fd = Some p"
      by (auto simp: life_of_def life_loop_of_def)
    then show "chan_of (\<lambda>fd' idx. fd' = fd \<and> idx = kAdded) (life_of v s) b p"
      using D unfolding chan_of_def by (auto simp: life_of_def life_loop_of_def)
  qed
  moreover have "held_inv (\<lambda>_. In_poll) (life_of v s)" using D by (simp add: held_inv_def life_of_def)
  moreover have "est_inv (\<lambda>_. In_poll) (life_of v s)" by (simp add: est_inv_def w)
  moreover have "active_inv (\<lambda>_. In_poll) (life_of v s)" by (simp add: active_inv_def)
  moreover have "work_inv (\<lambda>_. In_poll) (life_of v s)" by (simp add: work_inv_def w)
  ultimately have "life_inv (\<lambda>_. In_poll) (life_of v s)" by (rule life_invI)
  moreover have "names_inv s" using D by (simp add: names_inv_def)
  ultimately show ?thesis by (simp add: safe_def)
qed

subsection \<open>From the constructors to a listening server\<close>

lemma sock_views:
  assumes "sock_ok os v"
  shows "os_getsockname os fd k = (a, k') \<Longrightarrow> watch_of v k' = watch_of v k"
    "os_socket os k = (x, k') \<Longrightarrow> watch_of v k' = watch_of v k" "os_bind os fd ad k = (x, k') \<Longrightarrow> watch_of v k' = watch_of v k"
    "os_listen os fd n k = (x, k') \<Longrightarrow> watch_of v k' = watch_of v k" "watch_of v (os_setsockopt os fd opt on k) = watch_of v k"
    "os_epoll_create1 os k = (x, k') \<Longrightarrow> ep \<noteq> x \<Longrightarrow> watch_of v k' ep = watch_of v k ep"
  using assms unfolding sock_ok_def watch_of_def fun_eq_iff by (metis fst_conv snd_conv)+

lemma EventLoop_watches:
  assumes ok: "os_ok os v" and sk: "sock_ok os v" and run: "EventLoop os False False tid wptr k = Inr r"
  shows "lp_threadId (rx_loop r) = tid" "lp_pendingFunctors (rx_loop r) = []"
    "watch_of v (rx_kern r) (pl_epollfd (lp_poller (rx_loop r))) fd = Some p \<Longrightarrow> p = chan_ptr (lp_wakeupChannel (rx_loop r))"
    "ep \<noteq> pl_epollfd (lp_poller (rx_loop r)) \<Longrightarrow> watch_of v (rx_kern r) ep = watch_of v k ep"
proof -
  obtain ep0 k1 where c: "os_epoll_create1 os k = (ep0, k1)" by fastforce
  let ?p = "\<lparr>pl_channels = Map.empty, pl_epollfd = ep0, pl_events_size = kInitEventListSize\<rparr>"
  obtain wfd k2 where e: "os_eventfd os k1 = (wfd, k2)" by fastforce
  let ?ch = "set_reading ((Channel wptr wfd)\<lparr>readCallback := Some Loop_handleRead\<rparr>)"
  obtain ch' p' k' where ep: "0 \<le> ep0" and u: "updateChannel os ?ch ?p k2 = Inr (ch', p', k')"
    and r: "lp_threadId (rx_loop r) = tid" "lp_pendingFunctors (rx_loop r) = []" "lp_poller (rx_loop r) = p'"
      "lp_wakeupChannel (rx_loop r) = ch'" "rx_kern r = k'"
    using run c e by (auto simp: EventLoop_def newDefaultPoller_def EPollPoller_def createEventfd_def enableReading_def
        loop_updateChannel_def Let_def elim!: res_bindE split: if_splits)
  have "chan_index ?ch \<in> {kNew, kAdded, kDeleted}" by (simp add: Channel_def set_reading_def index_consts)
  note W = updateChannel_watch [OF ok this u]
  have k2: "watch_of v k2 = watch_of v k1" "watch_of v k1 ep0 = Map.empty"
    using os_okD(7) [OF ok] c e ep unfolding create_ok_def by (auto simp: watch_of_def fun_eq_iff)
  show "lp_threadId (rx_loop r) = tid" "lp_pendingFunctors (rx_loop r) = []" by (rule r)+
  show "p = chan_ptr (lp_wakeupChannel (rx_loop r))"
    if "watch_of v (rx_kern r) (pl_epollfd (lp_poller (rx_loop r))) fd = Some p"
    using that k2 unfolding r W(2,3) by (auto simp: W(1) set_reading_def split: if_splits)
  show "watch_of v (rx_kern r) ep = watch_of v k ep" if "ep \<noteq> pl_epollfd (lp_poller (rx_loop r))"
    using that k2 sock_views(6) [OF sk c, of ep] unfolding r W(2,3) by simp
qed

text \<open>Where the system places a new loop thread: as long as the process has \<open>room\<close>, at an address and with an
  epoll descriptor that are not in use. No thread init callback is installed.\<close>

definition envs_ok ::
    "'k os \<Rightarrow> ((nat \<Rightarrow> event_loop option) \<Rightarrow> 'k \<Rightarrow> bool) \<Rightarrow> (string \<Rightarrow> 'k server \<Rightarrow> 'k et_env) \<Rightarrow> bool" where
  "envs_ok os room envs \<longleftrightarrow> (\<forall>nm s. room (\<lambda>b. loop_at b s) (rx_kern s) \<longrightarrow>
     env_os (envs nm s) = os \<and> \<not> env_use_poll (envs nm s) \<and> env_cb (envs nm s) = None \<and>
     loop_at (env_addr (envs nm s)) s = None \<and>
     (\<forall>r. make_loop (envs nm s) (rx_kern s) = Inr r \<longrightarrow>
        room ((\<lambda>b. loop_at b s)(env_addr (envs nm s) \<mapsto> rx_loop r)) (rx_kern r) \<and>
        (\<forall>b l. loop_at b s = Some l \<longrightarrow> pl_epollfd (lp_poller l) \<noteq> pl_epollfd (lp_poller (rx_loop r)))))"

lemma startLoop_placed:
  assumes "envs_ok os room envs" and "room (\<lambda>b. loop_at b s) (rx_kern s)" and "startLoop envs nm s = Inr (a, s')"
  obtains tid wptr r where "loop_at a s = None" "EventLoop os False False tid wptr (rx_kern s) = Inr r"
    "s' = s\<lparr>sv_loops := (sv_loops s)(a \<mapsto> rx_loop r), rx_kern := rx_kern r\<rparr>"
    "\<And>b l. loop_at b s = Some l \<Longrightarrow> pl_epollfd (lp_poller l) \<noteq> pl_epollfd (lp_poller (rx_loop r))"
    "room (\<lambda>b. loop_at b s') (rx_kern s')"
proof -
  let ?E = "envs nm s"
  obtain r where m: "make_loop ?E (rx_kern s) = Inr r" and a: "a = env_addr ?E"
    and s': "s' = s\<lparr>sv_loops := (sv_loops s)(a \<mapsto> rx_loop r), rx_kern := rx_kern r\<rparr>"
    using assms(3) by (auto simp: startLoop_def elim!: res_bindE)
  have E: "env_os ?E = os" "\<not> env_use_poll ?E" "env_cb ?E = None" "loop_at a s = None"
    "room ((\<lambda>b. loop_at b s)(a \<mapsto> rx_loop r)) (rx_kern r)"
    "\<And>b l. loop_at b s = Some l \<Longrightarrow> pl_epollfd (lp_poller l) \<noteq> pl_epollfd (lp_poller (rx_loop r))"
    using assms(1,2) m unfolding envs_ok_def a by blast+
  have "(\<lambda>b. loop_at b s') = (\<lambda>b. loop_at b s)(a \<mapsto> rx_loop r)"
    using E(4) by (auto simp: s' loop_at_def fun_eq_iff split: if_splits)
  moreover have "EventLoop os False False (env_tid ?E) (env_wptr ?E) (rx_kern s) = Inr r"
    using m E(1-3) by (simp add: make_loop_def)
  ultimately show ?thesis using that E(4-6) s' by simp
qed

lemma startLoop_listening:
  assumes ok: "os_ok os v" and sk: "sock_ok os v" and sp: "envs_ok os room envs" and inv: "listening v s"
    and rm: "room (\<lambda>b. loop_at b s) (rx_kern s)" and run: "startLoop envs nm s = Inr (a, s')"
  shows "listening v s'" "sv_cur s' = sv_cur s" "rx_loop s' = rx_loop s" "sv_loop s' = sv_loop s" "sv_acceptor s' = sv_acceptor s"
    "sv_ipPort s' = sv_ipPort s" "room (\<lambda>b. loop_at b s') (rx_kern s')"
proof -
  obtain tid wptr r where a: "loop_at a s = None" and r: "EventLoop os False False tid wptr (rx_kern s) = Inr r"
    and s': "s' = s\<lparr>sv_loops := (sv_loops s)(a \<mapsto> rx_loop r), rx_kern := rx_kern r\<rparr>"
    and d: "\<And>b l. loop_at b s = Some l \<Longrightarrow> pl_epollfd (lp_poller l) \<noteq> pl_epollfd (lp_poller (rx_loop r))"
    and "room (\<lambda>b. loop_at b s') (rx_kern s')"
    by (rule startLoop_placed [OF sp rm run]) blast
  then show "room (\<lambda>b. loop_at b s') (rx_kern s')" by blast
  note E = EventLoop_watches [OF ok sk r]
  have lo: "loop_at b s' = (if b = a then Some (rx_loop r) else loop_at b s)" for b
    using a by (auto simp: s' loop_at_def split: if_splits)
  show "sv_cur s' = sv_cur s" "rx_loop s' = rx_loop s" "sv_loop s' = sv_loop s" "sv_acceptor s' = sv_acceptor s"
    "sv_ipPort s' = sv_ipPort s" by (simp_all add: s')
  note D = inv [unfolded listening_def]
  have "lp_pendingFunctors l = [] \<and> (\<forall>fd p. watch_of v (rx_kern s') (pl_epollfd (lp_poller l)) fd = Some p \<longrightarrow>
      p = chan_ptr (lp_wakeupChannel l) \<or> b = sv_loop s \<and> p = chan_ptr (ac_channel (sv_acceptor s)))"
    if "loop_at b s' = Some l" for b l
  proof (cases "b = a")
    case True
    then have "l = rx_loop r" using that by (simp add: lo)
    then show ?thesis using E(2,3) by (auto simp: s')
  next
    case False
    then have l: "loop_at b s = Some l" using that by (simp add: lo)
    have "watch_of v (rx_kern s') (pl_epollfd (lp_poller l)) = watch_of v (rx_kern s) (pl_epollfd (lp_poller l))"
      using E(4) [OF d [OF l]] by (simp add: s')
    then show ?thesis using D l by simp
  qed
  moreover have "b = c" if "loop_at b s' = Some lb" "loop_at c s' = Some lc"
      "pl_epollfd (lp_poller lb) = pl_epollfd (lp_poller lc)" for b c lb lc
    using that D d [of b lb] d [of c lc] by (auto simp: lo split: if_splits)
  moreover have "loop_at (sv_loop s) s' \<noteq> None" using D by (simp add: lo)
  ultimately show "listening v s'" using D unfolding listening_def by (auto simp: s')
qed

lemma start_threads_listening:
  assumes ok: "os_ok os v" and sk: "sock_ok os v" and sp: "envs_ok os room envs"
  shows "listening v s \<Longrightarrow> room (\<lambda>b. loop_at b s) (rx_kern s) \<Longrightarrow> start_threads (startLoop envs) i n p s = Inr (p', s') \<Longrightarrow>
    listening v s' \<and> sv_cur s' = sv_cur s \<and> rx_loop s' = rx_loop s \<and> sv_loop s' = sv_loop s \<and> sv_acceptor s' = sv_acceptor s \<and>
    sv_ipPort s' = sv_ipPort s"
proof (induction n arbitrary: i p s)
  case 0
  then show ?case by simp
next
  case (Suc n)
  obtain a s1 where s1: "startLoop envs (thread_name (ep_name p) i) s = Inr (a, s1)"
    using Suc.prems(3) by (auto simp: Let_def elim!: res_bindE)
  note S = startLoop_listening [OF ok sk sp Suc.prems(1,2) s1]
  show ?case using Suc.IH [OF S(1,7)] Suc.prems(3) s1 S(2-6) by (simp add: Let_def)
qed

lemma loop_at_update [simp]:
  "loop_at b (s\<lparr>sv_pool := p\<rparr>) = loop_at b s" "loop_at b (s\<lparr>sv_started := n\<rparr>) = loop_at b s"
  "loop_at b (s\<lparr>sv_cbs := f\<rparr>) = loop_at b s" "loop_at b (s\<lparr>sv_acceptor := ac\<rparr>) = loop_at b s"
  "loop_at b (s\<lparr>rx_kern := k\<rparr>) = loop_at b s"
  by (simp_all add: loop_at_def)

lemma listening_update [simp]:
  "listening v (s\<lparr>sv_pool := p\<rparr>) = listening v s" "listening v (s\<lparr>sv_started := n\<rparr>) = listening v s"
  "listening v (s\<lparr>sv_cbs := f\<rparr>) = listening v s"
  by (simp_all add: listening_def)

lemma acceptor_listen_shape:
  assumes "acceptor_listen os s = Inr s'"
  obtains x k ch p k' where "os_listen os (ac_fd (sv_acceptor s)) 1024 (rx_kern s) = (x, k)"
    "updateChannel os (set_reading (ac_channel (sv_acceptor s))) (lp_poller (rx_loop s)) k = Inr (ch, p, k')"
    "s' = s\<lparr>rx_loop := (rx_loop s)\<lparr>lp_poller := p\<rparr>, rx_kern := k',
       sv_acceptor := (sv_acceptor s)\<lparr>ac_listenning := True, ac_channel := ch\<rparr>\<rparr>"
  using assms that
  by (cases "os_listen os (ac_fd (sv_acceptor s)) 1024 (rx_kern s)")
    (auto simp: acceptor_listen_def socket_listen_def on_accept_channel_def enableReading_def
      loop_updateChannel_def Let_def elim!: res_bindE split: if_splits)

lemma acceptor_listen_listening:
  assumes ok: "os_ok os v" and sk: "sock_ok os v" and inv: "listening v s" and cur: "sv_cur s = sv_loop s"
    and i: "chan_index (ac_channel (sv_acceptor s)) = kNew" and run: "acceptor_listen os s = Inr s'"
  shows "listening v s'" "sv_pool s' = sv_pool s" "sv_ipPort s' = sv_ipPort s"
proof -
  let ?ch = "set_reading (ac_channel (sv_acceptor s))"
  obtain x k ch p k' where l: "os_listen os (ac_fd (sv_acceptor s)) 1024 (rx_kern s) = (x, k)"
    and u: "updateChannel os ?ch (lp_poller (rx_loop s)) k = Inr (ch, p, k')"
    and s': "s' = s\<lparr>rx_loop := (rx_loop s)\<lparr>lp_poller := p\<rparr>, rx_kern := k',
      sv_acceptor := (sv_acceptor s)\<lparr>ac_listenning := True, ac_channel := ch\<rparr>\<rparr>"
    by (rule acceptor_listen_shape [OF run])
  have "chan_index ?ch \<in> {kNew, kAdded, kDeleted}" using i by (simp add: set_reading_def)
  note W = updateChannel_watch [OF ok this u]
  have ch: "chan_ptr ch = chan_ptr (ac_channel (sv_acceptor s))" "closeCallback ch = closeCallback (ac_channel (sv_acceptor s))"
    "errorCallback ch = errorCallback (ac_channel (sv_acceptor s))" "writeCallback ch = writeCallback (ac_channel (sv_acceptor s))"
    by (simp_all add: W(1) set_reading_def)
  have k: "watch_of v k = watch_of v (rx_kern s)" by (rule sock_views(4) [OF sk l])
  note D = inv [unfolded listening_def]
  have lo: "loop_at b s' = (if b = sv_loop s then Some ((rx_loop s)\<lparr>lp_poller := p\<rparr>) else loop_at b s)" for b
    using cur by (simp add: s' loop_at_def)
  have lb: "loop_at (sv_loop s) s = Some (rx_loop s)" using loop_at_cur [of s] cur by simp
  have ep: "map_option (\<lambda>l. pl_epollfd (lp_poller l)) (loop_at b s') = map_option (\<lambda>l. pl_epollfd (lp_poller l)) (loop_at b s)" for b
    using lb W(2) by (simp add: lo)
  have "b = c" if "loop_at b s' = Some lb" "loop_at c s' = Some lc" "pl_epollfd (lp_poller lb) = pl_epollfd (lp_poller lc)" for b c lb lc
    using that ep [of b] ep [of c] D by (auto simp: map_option_case split: option.splits)
  moreover have "lp_pendingFunctors l = [] \<and> (\<forall>fd q. watch_of v (rx_kern s') (pl_epollfd (lp_poller l)) fd = Some q \<longrightarrow>
      q = chan_ptr (lp_wakeupChannel l) \<or> b = sv_loop s \<and> q = chan_ptr (ac_channel (sv_acceptor s)))"
    if l: "loop_at b s' = Some l" for b l
  proof -
    obtain l0 where l0: "loop_at b s = Some l0" "lp_pendingFunctors l = lp_pendingFunctors l0"
      "pl_epollfd (lp_poller l) = pl_epollfd (lp_poller l0)" "lp_wakeupChannel l = lp_wakeupChannel l0"
      using l lb W(2) by (auto simp: lo split: if_splits)
    have "watch_of v (rx_kern s) (pl_epollfd (lp_poller l0)) fd = Some q \<or> b = sv_loop s \<and> q = chan_ptr (ac_channel (sv_acceptor s))"
      if "watch_of v (rx_kern s') (pl_epollfd (lp_poller l0)) fd = Some q" for fd q
    proof -
      have "watch_of v k' (pl_epollfd (lp_poller l0)) fd = Some q" using that by (simp add: s')
      then have "watch_of v k (pl_epollfd (lp_poller l0)) fd = Some q \<or>
          pl_epollfd (lp_poller l0) = pl_epollfd (lp_poller (rx_loop s)) \<and> q = chan_ptr ?ch"
        unfolding W(3) by (auto split: if_splits)
      then show ?thesis using k D l0(1) lb by (auto simp: set_reading_def)
    qed
    then show ?thesis using D l0 by metis
  qed
  moreover have "loop_at (sv_loop s) s' \<noteq> None" by (simp add: lo)
  ultimately show "listening v s'" using D ch unfolding listening_def Let_def by (auto simp: s')
  show "sv_pool s' = sv_pool s" "sv_ipPort s' = sv_ipPort s" by (simp_all add: s')
qed

lemma TcpServer_listening:
  assumes ok: "os_ok os v" and sk: "sock_ok os v" and ev: "EventLoop os False False tid wptr k = Inr r"
    and run: "TcpServer os obj0 (Some a) addr nm reuse aptr r = Inr s"
  shows "listening v s" "sv_cur s = sv_loop s" "lp_threadId (rx_loop s) = tid" "sv_started s = 0"
    "chan_index (ac_channel (sv_acceptor s)) = kNew"
proof -
  note E = EventLoop_watches [OF ok sk ev]
  obtain x k1 where so: "os_socket os (rx_kern r) = (x, k1)" by fastforce
  obtain y k2 where bi: "os_bind os x addr (os_setsockopt os x ''SO_REUSEPORT'' True (os_setsockopt os x ''SO_REUSEADDR'' True k1)) = (y, k2)"
    by fastforce
  have s: "rx_loop s = rx_loop r" "rx_kern s = k2" "sv_cur s = a" "sv_loop s = a" "sv_loops s = Map.empty" "sv_objects s = Map.empty"
    "sv_connections s = Map.empty" "sv_fresh s = 0" "sv_nextConnId s = 1" "sv_started s = 0"
    "ac_channel (sv_acceptor s) = (Channel aptr x)\<lparr>readCallback := Some Acceptor_handleRead\<rparr>"
    using run so bi by (auto simp: TcpServer_def Acceptor_def createNonblocking_def bindAddress_def setReusePort_def
        setReuseAddr_def elim!: res_bindE split: if_splits)
  have w: "watch_of v k2 = watch_of v (rx_kern r)"
    using sock_views(2) [OF sk so] sock_views(3) [OF sk bi] sock_views(5) [OF sk] by simp
  have ip: "length (sv_ipPort s) \<le> 21" "CHR 0x00 \<notin> set (sv_ipPort s)"
    using TcpServer_inv(1) [OF run] by (auto simp: server_inv_def tables_def)
  have lo: "loop_at b s = (if b = a then Some (rx_loop r) else None)" for b by (simp add: loop_at_def s)
  show "listening v s" unfolding listening_def lo using s ip E(2,3) w by (auto simp: Channel_def Let_def)
  show "sv_cur s = sv_loop s" "lp_threadId (rx_loop s) = tid" "sv_started s = 0"
    "chan_index (ac_channel (sv_acceptor s)) = kNew" using s E(1) by (simp_all add: Channel_def index_consts)
qed

text \<open>The first \<open>start\<close>, in the thread of the base loop: the threads, then the acceptor.\<close>

lemma start_parts:
  assumes "start os envs None tid s = Inr s'" and "sv_started s = 0"
    and same: "\<And>p s2. start_threads (startLoop envs) 0 (nat (ep_numThreads (sv_pool s))) ((sv_pool s)\<lparr>ep_started := True\<rparr>)
        (s\<lparr>sv_started := 1\<rparr>) = Inr (p, s2) \<Longrightarrow> sv_cur s2 = sv_loop s \<and> lp_threadId (rx_loop s2) = tid"
  obtains p s2 where "start_threads (startLoop envs) 0 (nat (ep_numThreads (sv_pool s))) ((sv_pool s)\<lparr>ep_started := True\<rparr>)
      (s\<lparr>sv_started := 1\<rparr>) = Inr (p, s2)" "acceptor_listen os (s2\<lparr>sv_pool := p\<rparr>) = Inr s'"
proof -
  obtain p s2 where p: "start_threads (startLoop envs) 0 (nat (ep_numThreads (sv_pool s))) ((sv_pool s)\<lparr>ep_started := True\<rparr>)
      (s\<lparr>sv_started := 1\<rparr>) = Inr (p, s2)"
    using assms(1,2) by (auto simp: start_def pool_start_def Let_def elim!: res_bindE)
  have "with_loop (sv_loop s) (runInLoop os (\<lambda>_. acceptor_listen os) tid Fn_listen) (s2\<lparr>sv_pool := p\<rparr>) = Inr s'"
    using assms(1,2) p by (simp add: start_def pool_start_def Let_def split: if_splits)
  then have "acceptor_listen os (s2\<lparr>sv_pool := p\<rparr>) = Inr s'"
    using same [OF p] by (simp add: with_loop_def runInLoop_def isInLoopThread_def)
  then show ?thesis using that p by blast
qed

lemma start_listening:
  assumes ok: "os_ok os v" and sk: "sock_ok os v" and sp: "envs_ok os room envs" and inv: "listening v s"
    and rm: "room (\<lambda>b. loop_at b s) (rx_kern s)"
    and cur: "sv_cur s = sv_loop s" and tid: "lp_threadId (rx_loop s) = tid" and st: "sv_started s = 0"
    and i: "chan_index (ac_channel (sv_acceptor s)) = kNew" and run: "start os envs None tid s = Inr s'"
  obtains p s2 where "start_threads (startLoop envs) 0 (nat (ep_numThreads (sv_pool s))) ((sv_pool s)\<lparr>ep_started := True\<rparr>)
      (s\<lparr>sv_started := 1\<rparr>) = Inr (p, s2)" "acceptor_listen os (s2\<lparr>sv_pool := p\<rparr>) = Inr s'"
    "listening v s'" "sv_ipPort s' = sv_ipPort s" "sv_pool s' = p"
proof -
  have l1: "listening v (s\<lparr>sv_started := 1\<rparr>)" "room (\<lambda>b. loop_at b (s\<lparr>sv_started := 1\<rparr>)) (rx_kern (s\<lparr>sv_started := 1\<rparr>))"
    using inv rm by simp_all
  note S = start_threads_listening [OF ok sk sp l1]
  obtain p s2 where p: "start_threads (startLoop envs) 0 (nat (ep_numThreads (sv_pool s))) ((sv_pool s)\<lparr>ep_started := True\<rparr>)
      (s\<lparr>sv_started := 1\<rparr>) = Inr (p, s2)" and a: "acceptor_listen os (s2\<lparr>sv_pool := p\<rparr>) = Inr s'"
    by (rule start_parts [OF run st]) (use S cur tid in auto)
  have "listening v (s2\<lparr>sv_pool := p\<rparr>)" "sv_cur (s2\<lparr>sv_pool := p\<rparr>) = sv_loop (s2\<lparr>sv_pool := p\<rparr>)"
    "chan_index (ac_channel (sv_acceptor (s2\<lparr>sv_pool := p\<rparr>))) = kNew" using S [OF p] cur i by simp_all
  note A = acceptor_listen_listening [OF ok sk this a]
  show ?thesis by (rule that [OF p a A(1)]) (use A S [OF p] in simp_all)
qed

subsection \<open>The address a server listens on\<close>

text \<open>
  Two more views of the kernel: the address the socket behind a descriptor was bound to, and whether it
  listens. \<open>bind(2)\<close> and \<open>listen(2)\<close>, when they return 0, bind the socket and make it listen; the other
  calls made while a server starts leave both alone (a descriptor that is not open counts as unbound).
\<close>

record 'k addresses =
  bound_to :: "'k \<Rightarrow> int \<Rightarrow> sockaddr_in option"
  listens :: "'k \<Rightarrow> int \<Rightarrow> bool"

definition same_addr :: "'k addresses \<Rightarrow> 'k \<Rightarrow> 'k \<Rightarrow> bool" where
  "same_addr d k k' \<longleftrightarrow> bound_to d k' = bound_to d k \<and> listens d k' = listens d k"

definition addresses_ok :: "'k os \<Rightarrow> 'k addresses \<Rightarrow> bool" where
  "addresses_ok os d \<longleftrightarrow>
     (\<forall>fd a k k'. os_bind os fd a k = (0, k') \<longrightarrow> bound_to d k' = (bound_to d k)(fd \<mapsto> a)) \<and>
     (\<forall>fd n k k'. os_listen os fd n k = (0, k') \<longrightarrow>
        listens d k' = (listens d k)(fd := True) \<and> bound_to d k' = bound_to d k) \<and>
     (\<forall>k r k'. os_epoll_create1 os k = (r, k') \<longrightarrow> same_addr d k k') \<and>
     (\<forall>k r k'. os_eventfd os k = (r, k') \<longrightarrow> same_addr d k k') \<and>
     (\<forall>ep op fd ev k r k'. os_epoll_ctl os ep op fd ev k = (r, k') \<longrightarrow> same_addr d k k')"

text \<open>A server that can be reached at \<open>addr\<close>: the socket of its acceptor is bound to that address and listens,
  and the epoll instance of the base loop watches it for the acceptor's channel, whose read handler
  accepts connections.\<close>

definition serves_on :: "'k view \<Rightarrow> 'k addresses \<Rightarrow> sockaddr_in \<Rightarrow> 'k server \<Rightarrow> bool" where
  "serves_on v d addr s \<longleftrightarrow>
     (let ac = sv_acceptor s; ch = ac_channel ac in
      bound_to d (rx_kern s) (ac_fd ac) = Some addr \<and> listens d (rx_kern s) (ac_fd ac) \<and> ac_listenning ac \<and>
      sv_cur s = sv_loop s \<and>
      watch_of v (rx_kern s) (pl_epollfd (lp_poller (rx_loop s))) (ac_fd ac) = Some (chan_ptr ch) \<and>
      isReading ch \<and> readCallback ch = Some Acceptor_handleRead)"

lemma same_addr_refl [simp]: "same_addr d k k"
  by (simp add: same_addr_def)

lemma same_addr_trans: "same_addr d a b \<Longrightarrow> same_addr d b c \<Longrightarrow> same_addr d a c"
  by (simp add: same_addr_def)

lemma updateChannel_addr:
  assumes "addresses_ok os d" and "updateChannel os ch p k = Inr (ch', p', k')"
  shows "same_addr d k k'"
proof -
  have ctl: "same_addr d a b" if "os_epoll_ctl os ep op fd ev a = (x, b)" for ep op fd ev a x b
    using assms(1) that unfolding addresses_ok_def by blast
  have "same_addr d a b" if "update os op c q a = Inr b" for op c q a b
    using that by (auto simp: Net_Poller.update_def Let_def split: prod.splits if_splits intro: ctl)
  then show ?thesis using assms(2) by (auto simp: updateChannel_def Let_def elim!: res_bindE split: if_splits)
qed

lemma EventLoop_addr:
  assumes "addresses_ok os d" and "EventLoop os False False tid wptr k = Inr r"
  shows "same_addr d k (rx_kern r)"
proof -
  obtain ep k1 where e: "os_epoll_create1 os k = (ep, k1)" by fastforce
  obtain fd k2 where f: "os_eventfd os k1 = (fd, k2)" by fastforce
  obtain ch p k3 ch0 p0 where u: "updateChannel os ch0 p0 k2 = Inr (ch, p, k3)" and r: "rx_kern r = k3"
    using assms(2) e f
    by (auto simp: EventLoop_def newDefaultPoller_def EPollPoller_def createEventfd_def enableReading_def loop_updateChannel_def Let_def
        elim!: res_bindE split: if_splits)
  have "same_addr d k k1" "same_addr d k1 k2" using assms(1) e f unfolding addresses_ok_def by blast+
  then show ?thesis using same_addr_trans updateChannel_addr [OF assms(1) u] r by metis
qed

lemma start_threads_addr:
  assumes ad: "addresses_ok os d" and sp: "envs_ok os room envs"
  shows "room (\<lambda>b. loop_at b s) (rx_kern s) \<Longrightarrow> start_threads (startLoop envs) i n p s = Inr (p', s') \<Longrightarrow>
    same_addr d (rx_kern s) (rx_kern s')"
proof (induction n arbitrary: i p s)
  case 0
  then show ?case by simp
next
  case (Suc n)
  let ?nm = "thread_name (ep_name p) i"
  obtain a s1 where s1: "startLoop envs ?nm s = Inr (a, s1)"
    and r: "start_threads (startLoop envs) (i + 1) n (p\<lparr>ep_threads := ep_threads p @ [?nm], ep_loops := ep_loops p @ [a]\<rparr>) s1 = Inr (p', s')"
    using Suc.prems(2) by (auto simp: Let_def elim!: res_bindE)
  obtain tid wptr l where ev: "EventLoop os False False tid wptr (rx_kern s) = Inr l"
    and e: "s1 = s\<lparr>sv_loops := (sv_loops s)(a \<mapsto> rx_loop l), rx_kern := rx_kern l\<rparr>"
    and rm: "room (\<lambda>b. loop_at b s1) (rx_kern s1)"
    by (rule startLoop_placed [OF sp Suc.prems(1) s1])
  have "same_addr d (rx_kern s) (rx_kern s1)" using EventLoop_addr [OF ad ev] by (simp add: e)
  from this Suc.IH [OF rm r] show ?case by (rule same_addr_trans)
qed

text \<open>The acceptor a server was built with.\<close>

definition bound_acceptor :: "'k addresses \<Rightarrow> sockaddr_in \<Rightarrow> 'k \<Rightarrow> acceptor \<Rightarrow> bool" where
  "bound_acceptor d addr k ac \<longleftrightarrow> bound_to d k (ac_fd ac) = Some addr \<and> chan_fd (ac_channel ac) = ac_fd ac \<and>
     chan_index (ac_channel ac) = kNew \<and> readCallback (ac_channel ac) = Some Acceptor_handleRead"

lemma TcpServer_bound:
  assumes "addresses_ok os d" and "TcpServer os obj0 (Some a) addr nm reuse aptr r = Inr s"
  shows "bound_acceptor d addr (rx_kern s) (sv_acceptor s)"
proof -
  obtain k1 k2 where b: "os_bind os (ac_fd (sv_acceptor s)) addr k1 = (0, k2)" and s: "rx_kern s = k2"
    "ac_channel (sv_acceptor s) = (Channel aptr (ac_fd (sv_acceptor s)))\<lparr>readCallback := Some Acceptor_handleRead\<rparr>"
    using assms(2) by (auto simp: TcpServer_def Acceptor_def bindAddress_def elim!: res_bindE split: if_splits prod.splits)
  have "bound_to d k2 = (bound_to d k1)(ac_fd (sv_acceptor s) \<mapsto> addr)"
    by (rule assms(1) [unfolded addresses_ok_def, THEN conjunct1, rule_format, OF b])
  then show ?thesis using s by (simp add: bound_acceptor_def Channel_def index_consts)
qed

lemma acceptor_listen_serves:
  assumes ok: "os_ok os v" and ad: "addresses_ok os d" and b: "bound_acceptor d addr (rx_kern s) (sv_acceptor s)"
    and cur: "sv_cur s = sv_loop s" and run: "acceptor_listen os s = Inr s'"
  shows "serves_on v d addr s'"
proof -
  let ?ac = "sv_acceptor s"
  let ?ch = "set_reading (ac_channel ?ac)"
  obtain x k ch p k' where l: "os_listen os (ac_fd ?ac) 1024 (rx_kern s) = (x, k)"
    and u: "updateChannel os ?ch (lp_poller (rx_loop s)) k = Inr (ch, p, k')"
    and s': "s' = s\<lparr>rx_loop := (rx_loop s)\<lparr>lp_poller := p\<rparr>, rx_kern := k',
      sv_acceptor := ?ac\<lparr>ac_listenning := True, ac_channel := ch\<rparr>\<rparr>"
    by (rule acceptor_listen_shape [OF run])
  have "x = 0" using run l by (auto simp: acceptor_listen_def socket_listen_def Let_def elim!: res_bindE split: if_splits)
  then have "os_listen os (ac_fd ?ac) 1024 (rx_kern s) = (0, k)" using l by simp
  note A = ad [unfolded addresses_ok_def, THEN conjunct2, THEN conjunct1, rule_format, OF this]
  have k: "listens d k = (listens d (rx_kern s))(ac_fd ?ac := True)" "bound_to d k = bound_to d (rx_kern s)"
    using A by simp_all
  note B = b [unfolded bound_acceptor_def]
  have i: "chan_index ?ch = kNew" "chan_fd ?ch = ac_fd ?ac" "readCallback ?ch = Some Acceptor_handleRead"
    using B by (simp_all add: set_reading_def)
  then have "chan_index ?ch \<in> {kNew, kAdded, kDeleted}" by simp
  note W = updateChannel_watch [OF ok this u]
  have n: "kNew \<noteq> kAdded" by (simp add: index_consts)
  have "isReading (ch\<lparr>chan_index := j\<rparr>) = isReading ch" for ch :: channel and j by (simp add: isReading_def)
  then have "isReading ch" "readCallback ch = Some Acceptor_handleRead" "chan_ptr ch = chan_ptr ?ch"
    using i by (simp_all add: W(1))
  then show ?thesis
    using k B i W(2,3) n updateChannel_addr [OF ad u] cur by (simp add: serves_on_def s' same_addr_def)
qed

lemma start_serves:
  assumes ok: "os_ok os v" and sk: "sock_ok os v" and ad: "addresses_ok os d" and sp: "envs_ok os room envs" and inv: "listening v s"
    and rm: "room (\<lambda>b. loop_at b s) (rx_kern s)"
    and cur: "sv_cur s = sv_loop s" and tid: "lp_threadId (rx_loop s) = tid" and st: "sv_started s = 0"
    and b: "bound_acceptor d addr (rx_kern s) (sv_acceptor s)" and run: "start os envs None tid s = Inr s'"
  shows "serves_on v d addr s'"
proof -
  have i: "chan_index (ac_channel (sv_acceptor s)) = kNew" using b by (simp add: bound_acceptor_def)
  have l1: "listening v (s\<lparr>sv_started := 1\<rparr>)" "room (\<lambda>b. loop_at b (s\<lparr>sv_started := 1\<rparr>)) (rx_kern (s\<lparr>sv_started := 1\<rparr>))"
    using inv rm by simp_all
  obtain p s2 where p: "start_threads (startLoop envs) 0 (nat (ep_numThreads (sv_pool s))) ((sv_pool s)\<lparr>ep_started := True\<rparr>)
      (s\<lparr>sv_started := 1\<rparr>) = Inr (p, s2)" and a: "acceptor_listen os (s2\<lparr>sv_pool := p\<rparr>) = Inr s'"
    by (rule start_listening [OF ok sk sp inv rm cur tid st i run])
  have "same_addr d (rx_kern s) (rx_kern s2)" using start_threads_addr [OF ad sp l1(2) p] by simp
  moreover have "sv_acceptor s2 = sv_acceptor s" "sv_cur s2 = sv_loop s2"
    using start_threads_listening [OF ok sk sp l1 p] cur by simp_all
  ultimately have "bound_acceptor d addr (rx_kern (s2\<lparr>sv_pool := p\<rparr>)) (sv_acceptor (s2\<lparr>sv_pool := p\<rparr>))"
    "sv_cur (s2\<lparr>sv_pool := p\<rparr>) = sv_loop (s2\<lparr>sv_pool := p\<rparr>)" using b by (simp_all add: bound_acceptor_def same_addr_def)
  then show ?thesis by (rule acceptor_listen_serves [OF ok ad _ _ a])
qed

definition sim_addresses :: "kernel addresses" where
  "sim_addresses = \<lparr>bound_to = k_bound, listens = k_listens\<rparr>"

lemma sim_addresses_ok: "addresses_ok sim_os sim_addresses"
  by (auto simp: addresses_ok_def same_addr_def sim_os_def sim_addresses_def sim_ctl_def split: ctl_op.splits if_splits)

text \<open>A channel of loop \<open>b\<close> at address \<open>p\<close> exists.\<close>

definition channel_exists :: "'k server \<Rightarrow> nat \<Rightarrow> event_loop \<Rightarrow> nat \<Rightarrow> bool" where
  "channel_exists s b l p \<longleftrightarrow> p = chan_ptr (lp_wakeupChannel l) \<or> b = sv_loop s \<and> p = chan_ptr (ac_channel (sv_acceptor s)) \<or>
     (\<exists>i c. sv_objects s i = Some c \<and> sv_conn_loop s i = b \<and> chan_ptr (cn_channel c) = p)"

lemma chan_of_exists: "chan_of P (life_of v s) b p \<Longrightarrow> loop_at b s = Some l \<Longrightarrow> channel_exists s b l p"
  by (auto simp: chan_of_def channel_exists_def life_of_def life_loop_of_def life_conn_of_def; blast)

lemma safe_exists:
  assumes "safe v ph s" and l: "loop_at b s = Some l"
  shows "interest v (rx_kern s) (pl_epollfd (lp_poller l)) fd = Some e \<Longrightarrow> channel_exists s b l (ev_ptr e)"
    "p \<in> set (active (ph b)) \<Longrightarrow> channel_exists s b l p"
    "f \<in> set (batch (ph b) @ lp_pendingFunctors l) \<Longrightarrow> closure_conn f = Some i \<Longrightarrow> sv_objects s i \<noteq> None \<and> sv_conn_loop s i = b"
    "sv_connections s x = Some i \<Longrightarrow> sv_objects s i \<noteq> None"
proof -
  have L: "life_inv ph (life_of v s)" and N: "names_inv s" using assms(1) by (simp_all add: safe_def)
  note I = life_invD [OF L]
  have lb: "lf_loops (life_of v s) b = Some (life_loop_of l)" using l by (simp add: life_of_def)
  show "channel_exists s b l (ev_ptr e)" if "interest v (rx_kern s) (pl_epollfd (lp_poller l)) fd = Some e"
  proof -
    have "lf_watch (life_of v s) (ll_epfd (life_loop_of l)) fd = Some (ev_ptr e)"
      using that by (simp add: life_of_def watch_of_def life_loop_of_def)
    with I(3) lb show ?thesis unfolding watch_inv_def by (blast intro: chan_of_exists l)
  qed
  show "channel_exists s b l p" if "p \<in> set (active (ph b))"
    using I(6) that unfolding active_inv_def by (blast intro: chan_of_exists l)
  show "sv_objects s i \<noteq> None \<and> sv_conn_loop s i = b"
    if "f \<in> set (batch (ph b) @ lp_pendingFunctors l)" "closure_conn f = Some i"
  proof -
    have "f \<in> set (work ph (life_of v s) b)" using that(1) lb by (simp add: work_def life_loop_of_def)
    then have "fits (life_of v s) b f" using I(7) unfolding work_inv_def by blast
    then show ?thesis using that(2) by (cases f) (auto simp: closure_conn_def life_of_def)
  qed
  show "sv_objects s i \<noteq> None" if "sv_connections s x = Some i" using N that unfolding names_inv_def by blast
qed

lemma EchoServer_listening:
  assumes ok: "os_ok os v" and sk: "sock_ok os v" and sp: "envs_ok os room envs"
    and ev: "EventLoop os False False tid wptr k = Inr r" and mk: "EchoServer os obj0 (Some a) addr nm aptr r = Inr s"
    and rm: "room (\<lambda>b. loop_at b s) (rx_kern s)" and run: "start os envs None tid s = Inr s0"
  shows "listening v s0"
proof -
  obtain s1 where s1: "TcpServer os obj0 (Some a) addr nm False aptr r = Inr s1"
    and s: "s = setThreadNum 3 (setMessageCallback (setConnectionCallback s1))"
    using mk by (auto simp: EchoServer_def elim!: res_bindE)
  note T = TcpServer_listening [OF ok sk ev s1]
  have "listening v s" using T(1) by (simp add: s setThreadNum_def setMessageCallback_def setConnectionCallback_def)
  then show ?thesis
    by (rule start_listening [OF ok sk sp _ rm _ _ _ _ run])
      (use T in \<open>simp_all add: s setThreadNum_def setMessageCallback_def setConnectionCallback_def\<close>)
qed

subsection \<open>A small instance\<close>

definition sim_envs :: "string \<Rightarrow> kernel server \<Rightarrow> kernel et_env" where
  "sim_envs nm s =
     (let n = k_next (rx_kern s) in
      \<lparr>env_os = sim_os, env_use_poll = False, env_tid = n, env_owner = 1, env_addr = nat n + 100, env_wptr = nat n + 100,
       env_cb = None, env_turn = Inr\<rparr>)"

definition sim_room :: "(nat \<Rightarrow> event_loop option) \<Rightarrow> kernel \<Rightarrow> bool" where
  "sim_room ls k \<longleftrightarrow> 0 \<le> k_next k \<and>
     (\<forall>b l. ls b = Some l \<longrightarrow> b < nat (k_next k) + 100 \<and> pl_epollfd (lp_poller l) < k_next k)"

lemma sim_sock_ok: "sock_ok sim_os sim_view"
  by (simp add: sock_ok_def sim_os_def sim_view_def)

lemma sim_EventLoop:
  assumes "0 \<le> k_next k"
  obtains r where "EventLoop sim_os False False tid wptr k = Inr r" "pl_epollfd (lp_poller (rx_loop r)) = k_next k"
    "k_next (rx_kern r) = k_next k + 2"
  using assms that
  by (simp add: EventLoop_def newDefaultPoller_def EPollPoller_def createEventfd_def enableReading_def loop_updateChannel_def
      updateChannel_def update_def Let_def sim_os_def sim_ctl_def Channel_def set_reading_def set_index_def index_consts)

lemma sim_envs_ok: "envs_ok sim_os sim_room sim_envs"
  unfolding envs_ok_def
proof (intro allI impI)
  fix nm and s :: "kernel server" assume rm: "sim_room (\<lambda>b. loop_at b s) (rx_kern s)"
  let ?E = "sim_envs nm s" and ?n = "k_next (rx_kern s)"
  have E: "env_os ?E = sim_os" "\<not> env_use_poll ?E" "env_cb ?E = None" "env_addr ?E = nat ?n + 100"
    by (simp_all add: sim_envs_def Let_def)
  have n: "0 \<le> ?n" and old: "\<And>b l. loop_at b s = Some l \<Longrightarrow> b < nat ?n + 100 \<and> pl_epollfd (lp_poller l) < ?n"
    using rm by (auto simp: sim_room_def)
  have none: "loop_at (nat ?n + 100) s = None" using old by (metis less_irrefl not_None_eq)
  have new: "sim_room ((\<lambda>b. loop_at b s)(nat ?n + 100 \<mapsto> rx_loop r)) (rx_kern r) \<and>
      (\<forall>b l. loop_at b s = Some l \<longrightarrow> pl_epollfd (lp_poller l) \<noteq> pl_epollfd (lp_poller (rx_loop r)))"
    if m: "make_loop ?E (rx_kern s) = Inr r" for r
  proof -
    have "EventLoop sim_os False False ?n (nat ?n + 100) (rx_kern s) = Inr r"
      using m by (simp add: make_loop_def sim_envs_def Let_def)
    then have r: "pl_epollfd (lp_poller (rx_loop r)) = ?n" "k_next (rx_kern r) = ?n + 2"
      by (auto intro: sim_EventLoop [OF n, of ?n "nat ?n + 100"])
    have "b < nat (?n + 2) + 100 \<and> pl_epollfd (lp_poller l) < ?n + 2" if "loop_at b s = Some l" for b l
      using old [OF that] by arith
    then show ?thesis using r n old by (fastforce simp: sim_room_def)
  qed
  show "env_os ?E = sim_os \<and> \<not> env_use_poll ?E \<and> env_cb ?E = None \<and> loop_at (env_addr ?E) s = None \<and>
      (\<forall>r. make_loop ?E (rx_kern s) = Inr r \<longrightarrow>
        sim_room ((\<lambda>b. loop_at b s)(env_addr ?E \<mapsto> rx_loop r)) (rx_kern r) \<and>
        (\<forall>b l. loop_at b s = Some l \<longrightarrow> pl_epollfd (lp_poller l) \<noteq> pl_epollfd (lp_poller (rx_loop r))))"
    using new none unfolding E(4) by (auto simp: E)
qed

definition sim_kernel :: kernel where
  "sim_kernel = kernel0\<lparr>k_ready := [\<lparr>ev_events = 1, ev_ptr = 9\<rparr>]\<rparr>"

definition sim_echo :: "kernel server" where
  "sim_echo = projr (res_bind (EventLoop sim_os False False 1 0 sim_kernel)
     (EchoServer sim_os (sim_tcp kDisconnected) (Some 50) sim_listen_addr ''echo'' 9))"

lemma sim_echo_made:
  obtains r where "EventLoop sim_os False False 1 0 sim_kernel = Inr r"
    and "EchoServer sim_os (sim_tcp kDisconnected) (Some 50) sim_listen_addr ''echo'' 9 r = Inr sim_echo"
proof -
  let ?e = "res_bind (EventLoop sim_os False False 1 0 sim_kernel)
     (EchoServer sim_os (sim_tcp kDisconnected) (Some 50) sim_listen_addr ''echo'' 9)"
  have "\<not> isl ?e" by code_simp
  then have "?e = Inr sim_echo" unfolding sim_echo_def by (cases ?e) simp_all
  then show ?thesis using that by (auto elim: res_bindE)
qed

lemma sim_echo_room: "sim_room (\<lambda>b. loop_at b sim_echo) (rx_kern sim_echo)"
proof -
  have "sv_cur sim_echo = 50" "k_next (rx_kern sim_echo) = 6" "pl_epollfd (lp_poller (rx_loop sim_echo)) = 3" by code_simp+
  moreover have "sv_loops sim_echo b = None" for b by code_simp
  ultimately show ?thesis by (simp add: sim_room_def loop_at_def)
qed

text \<open>The server is started and its base loop polls once, which reports the acceptor.\<close>

lemma sim_echo_polls:
  obtains s0 s l where "start sim_os sim_envs None 1 sim_echo = Inr s0" "with_loop 50 (server_poll sim_os) s0 = Inr s"
    "loop_at 50 s = Some l" "lp_activeChannels l = [9]"
    "s = projr (res_bind (start sim_os sim_envs None 1 sim_echo) (with_loop 50 (server_poll sim_os)))"
proof -
  let ?go = "res_bind (start sim_os sim_envs None 1 sim_echo) (with_loop 50 (server_poll sim_os))"
  have "\<not> isl ?go" "map_option lp_activeChannels (loop_at 50 (projr ?go)) = Some [9]" by code_simp+
  then show ?thesis using that by (cases "start sim_os sim_envs None 1 sim_echo"; cases ?go) auto
qed

section \<open>Properties\<close>

text \<open>C3: The echo server never follows a dangling pointer, with any number of loop threads running
  concurrently and a connection freed as soon as no shared pointer refers to it: every channel the
  kernel may report to a loop, and every channel a thread has still to handle, exists and belongs to
  that loop; every queued closure that names a connection names one that exists and lives on that
  loop; and so does every entry of the connection map.\<close>

theorem server_never_dangles:
  assumes "os_ok os v" and "sock_ok os v" and "envs_ok os room envs"
    and "EventLoop os False False tid wptr k = Inr r" and "EchoServer os obj0 (Some a) addr nm aptr r = Inr s1"
    and "room (\<lambda>b. loop_at b s1) (rx_kern s1)" and "start os envs None tid s1 = Inr s0"
    and "sl_reach os (echo_app os) v (\<lambda>_. In_poll, s0) (ph, s)" and "loop_at b s = Some l"
  shows "(\<forall>fd e. interest v (rx_kern s) (pl_epollfd (lp_poller l)) fd = Some e \<longrightarrow> channel_exists s b l (ev_ptr e)) \<and>
    (\<forall>p \<in> set (active (ph b)). channel_exists s b l p) \<and>
    (\<forall>f \<in> set (batch (ph b) @ lp_pendingFunctors l). \<forall>i. closure_conn f = Some i \<longrightarrow>
       sv_objects s i \<noteq> None \<and> sv_conn_loop s i = b) \<and>
    (\<forall>x i. sv_connections s x = Some i \<longrightarrow> sv_objects s i \<noteq> None)"
proof -
  have "safe v ph s"
    using echo.sl_reach_safe [OF assms(1,2,8)] listening_safe [OF EchoServer_listening [OF assms(1-7)]] by simp
  note S = safe_exists [OF this assms(9)]
  show ?thesis using S by blast
qed


theorem server_never_dangles_witness:
  "\<exists>s0 ph s l. start sim_os sim_envs None 1 sim_echo = Inr s0 \<and>
     sl_reach sim_os (echo_app sim_os) sim_view (\<lambda>_. In_poll, s0) (ph, s) \<and> loop_at 50 s = Some l \<and>
     active (ph 50) = [9] \<and> channel_exists s 50 l 9"
proof -
  obtain r where r: "EventLoop sim_os False False 1 0 sim_kernel = Inr r"
    "EchoServer sim_os (sim_tcp kDisconnected) (Some 50) sim_listen_addr ''echo'' 9 r = Inr sim_echo"
    by (rule sim_echo_made)
  obtain s0 s l where s0: "start sim_os sim_envs None 1 sim_echo = Inr s0"
    and s: "with_loop 50 (server_poll sim_os) s0 = Inr s" and l: "loop_at 50 s = Some l" "lp_activeChannels l = [9]"
    by (rule sim_echo_polls)
  let ?ph = "(\<lambda>_. In_poll)(50 := In_handlers (lp_activeChannels l))"
  have "sl_step sim_os (echo_app sim_os) sim_view (\<lambda>_. In_poll, s0) (?ph, s)" by (rule sl_step.polls [OF refl s l(1)])
  then have rch: "sl_reach sim_os (echo_app sim_os) sim_view (\<lambda>_. In_poll, s0) (?ph, s)" by (rule r_into_rtranclp)
  from server_never_dangles [OF sim_os_ok sim_sock_ok sim_envs_ok r sim_echo_room s0 rch l(1)] l
  have "channel_exists s 50 l 9" by simp
  then show ?thesis using s0 rch l by (intro exI [of _ s0] exI [of _ ?ph] exI [of _ s] exI [of _ l]) simp
qed

end
