(* ===== verification/Net_Sound.thy ===== *)
theory Net_Sound
  imports Net_Echo
begin

text \<open>
  The member functions of a connection never go wrong: \<open>Net_ServerLoop\<close> says what holds when a call returns; here a
  call on a connection of a \<open>sound\<close> server returns, or ends the process in one of the two announced ways
  (\<open>res_ok\<close>), and does not take the state of the connection back. The locale \<open>sound_application\<close> is what the
  callbacks of an application have to satisfy. \<open>Net_Run\<close> carries this to all threads of a server.
\<close>

section \<open>Sound states\<close>

definition conn_sound :: "tcp_connection \<Rightarrow> bool" where
  "conn_sound c \<longleftrightarrow> wf_buffer (cn_inputBuffer c) \<and> wf_buffer (cn_outputBuffer c)"

text \<open>The closures that need a callback of the application other than the two every connection has.\<close>

fun notice :: "closure \<Rightarrow> bool" where
  "notice (Fn_writeComplete i) \<longleftrightarrow> True"
| "notice (Fn_highWaterMark i n) \<longleftrightarrow> True"
| "notice _ \<longleftrightarrow> False"

text \<open>What is followed of the queues: these, and the connections that wait to be established.\<close>

definition marks :: "'k server \<Rightarrow> nat \<Rightarrow> closure list option" where
  "marks s b = map_option (\<lambda>l. filter (\<lambda>f. notice f \<or> is_est f) (lp_pendingFunctors l)) (loop_at b s)"

definition awaits :: "'k server \<Rightarrow> nat \<Rightarrow> bool" where
  "awaits s i \<longleftrightarrow> (\<exists>b q. marks s b = Some q \<and> Fn_connectEstablished i \<in> set q)"

definition sound :: "cb_flags \<Rightarrow> 'k server \<Rightarrow> bool" where
  "sound fl s \<longleftrightarrow>
     (\<forall>i c. sv_objects s i = Some c \<longrightarrow> conn_sound c \<and> sv_conn_cbs s i = fl) \<and> sv_cbs s = fl \<and>
     next_ok (sv_pool s) \<and> (\<forall>a \<in> set (getAllLoops (sv_pool s)). marks s a \<noteq> None) \<and>
     (\<forall>b q. marks s b = Some q \<longrightarrow> filter notice q = [])"

text \<open>What a member function of a connection leaves alone: the other objects, the pool, the set of loops and
  these closures in their queues. Its own state only moves forward.\<close>

definition tidy :: "'k server \<Rightarrow> 'k server \<Rightarrow> bool" where
  "tidy s s' \<longleftrightarrow> sv_objects s' = sv_objects s \<and> sv_fresh s' = sv_fresh s \<and> sv_conn_cbs s' = sv_conn_cbs s \<and>
     sv_cbs s' = sv_cbs s \<and> sv_pool s' = sv_pool s \<and> sv_cur s' = sv_cur s \<and> marks s' = marks s"

abbreviation state_of :: "'k server \<Rightarrow> StateE" where
  "state_of s \<equiv> cn_state (cs_conn s)"

definition fine :: "'k server \<Rightarrow> 'k server res \<Rightarrow> bool" where
  "fine s r \<longleftrightarrow> res_ok (\<lambda>s'. tidy s s' \<and> conn_sound (cs_conn s') \<and> state_of s \<le> state_of s') r"

lemma tidy_refl [simp]: "tidy s s"
  by (simp add: tidy_def)

lemma tidy_trans: "tidy s t \<Longrightarrow> tidy t u \<Longrightarrow> tidy s u"
  by (simp add: tidy_def)

lemma fine_Inr [simp]: "fine s (Inr s') \<longleftrightarrow> tidy s s' \<and> conn_sound (cs_conn s') \<and> state_of s \<le> state_of s'"
  by (simp add: fine_def)

lemma fine_trans: "tidy s t \<Longrightarrow> state_of s \<le> state_of t \<Longrightarrow> fine t r \<Longrightarrow> fine s r"
  unfolding fine_def by (erule res_ok_mono) (auto intro: tidy_trans)

lemma fine_bind:
  assumes "fine s m" and "\<And>t. m = Inr t \<Longrightarrow> conn_sound (cs_conn t) \<Longrightarrow> fine t (f t)"
  shows "fine s (res_bind m f)"
  unfolding fine_def
  by (rule res_ok_bind [OF assms(1) [unfolded fine_def]])
    (use assms(2) fine_trans in \<open>auto simp: fine_def\<close>)

lemma marks_simps [simp]:
  "marks (s\<lparr>rx_kern := k\<rparr>) = marks s" "marks (s\<lparr>cs_conn := c\<rparr>) = marks s" "marks (s\<lparr>sv_objects := ob\<rparr>) = marks s"
  "marks (s\<lparr>sv_connections := cs\<rparr>) = marks s" "marks (s\<lparr>sv_acceptor := ac\<rparr>) = marks s"
  "marks (s\<lparr>rx_loop := l\<rparr>) = (marks s)(sv_cur s \<mapsto> filter (\<lambda>f. notice f \<or> is_est f) (lp_pendingFunctors l))"
  by (auto simp: marks_def loop_at_def fun_eq_iff)

lemma marks_cur: "marks s (sv_cur s) = Some (filter (\<lambda>f. notice f \<or> is_est f) (lp_pendingFunctors (rx_loop s)))"
  by (simp add: marks_def)

lemma filter_notice [simp]: "filter (\<lambda>f. (notice f \<or> is_est f) \<and> notice f) q = filter notice q"
  by (induction q) auto

lemma marks_None: "marks s b = None \<longleftrightarrow> loop_at b s = None"
  by (simp add: marks_def)

text \<open>A change of the running loop, the kernel and the connection.\<close>

lemma tidy_upd:
  assumes "lp_pendingFunctors l = lp_pendingFunctors (rx_loop s)"
  shows "tidy s (s\<lparr>rx_loop := l, rx_kern := k, cs_conn := c\<rparr>)"
  using assms marks_cur [of s] by (auto simp: tidy_def fun_eq_iff)

lemma tidy_plain [simp]: "tidy s (s\<lparr>rx_kern := k\<rparr>)" "tidy s (s\<lparr>cs_conn := c\<rparr>)" "tidy s (s\<lparr>rx_kern := k, cs_conn := c\<rparr>)"
  by (simp_all add: tidy_def)

lemma tidy_queue: "\<not> notice f \<Longrightarrow> \<not> is_est f \<Longrightarrow> tidy s (queueInLoop os tid f s)"
proof -
  assume "\<not> notice f" "\<not> is_est f"
  then have "marks (queueInLoop os tid f s) b = marks s b" for b by (simp add: marks_def loop_at_def)
  then show ?thesis by (simp add: tidy_def fun_eq_iff queueInLoop_def wakeup_def Let_def split: prod.splits)
qed

section \<open>Member functions of a connection\<close>

lemma fine_update:
  assumes "conn_sound (cs_conn s)" and f: "\<And>ch. f ch = (\<lambda>s. loop_updateChannel os (g ch) s)"
  shows "fine s (on_channel f s)"
proof -
  have "tidy s s' \<and> conn_sound (cs_conn s') \<and> state_of s \<le> state_of s'" if r: "on_channel f s = Inr s'" for s'
  proof -
    obtain ch p k where "s' = s\<lparr>rx_loop := (rx_loop s)\<lparr>lp_poller := p\<rparr>, rx_kern := k, cs_conn := (cs_conn s)\<lparr>cn_channel := ch\<rparr>\<rparr>"
      using r unfolding on_channel_def f by (auto elim!: res_bindE dest!: loop_updateChannel_shape)
    then show ?thesis using assms(1) tidy_upd [of "(rx_loop s)\<lparr>lp_poller := p\<rparr>" s] by (simp add: conn_sound_def)
  qed
  moreover have "e = Fatal_Exit" if "on_channel f s = Inl e" for e
    using that unfolding on_channel_def f by (auto simp: res_bind_eq_Inl dest: loop_updateChannel_fault)
  ultimately show ?thesis unfolding fine_def res_ok_iff by blast
qed

lemma fine_members:
  assumes "conn_sound (cs_conn s)"
  shows "fine s (on_channel (enableReading os) s)" "fine s (on_channel (enableWriting os) s)"
    "fine s (on_channel (disableWriting os) s)" "fine s (on_channel (disableAll os) s)"
  unfolding chan_members by (rule fine_update [OF assms], rule refl)+

lemma fine_remove:
  assumes "conn_sound (cs_conn s)"
  shows "fine s (on_channel (chan_remove os) s)"
proof -
  let ?ch = "cn_channel (cs_conn s)"
  have "\<exists>k'. update os EPOLL_CTL_DEL ch p k = Inr k'" for ch p k
    by (simp add: Net_Poller.update_def Let_def split: prod.splits)
  then have "\<exists>x. removeChannel os ?ch (lp_poller (rx_loop s)) (rx_kern s) = Inr x"
    by (simp add: removeChannel_def Let_def) (metis res_bind_Inr)
  then obtain ch p k where "removeChannel os ?ch (lp_poller (rx_loop s)) (rx_kern s) = Inr (ch, p, k)"
    by (metis prod_cases3)
  then have "on_channel (chan_remove os) s =
      Inr (s\<lparr>rx_loop := (rx_loop s)\<lparr>lp_poller := p\<rparr>, rx_kern := k, cs_conn := (cs_conn s)\<lparr>cn_channel := ch\<rparr>\<rparr>)"
    by (simp add: on_channel_def chan_remove_def loop_removeChannel_def)
  then show ?thesis using assms tidy_upd [of "(rx_loop s)\<lparr>lp_poller := p\<rparr>" s] by (simp add: conn_sound_def)
qed

text \<open>Connections that carry no write-complete and no high-water-mark callback.\<close>

abbreviation silent :: "'s conn_callbacks \<Rightarrow> bool" where
  "silent cbs \<equiv> writeCompleteCallback cbs = None \<and> highWaterMarkCallback cbs = None"

lemma conn_sound_out: "conn_sound c \<Longrightarrow> wf_buffer b \<Longrightarrow> conn_sound (c\<lparr>cn_outputBuffer := b\<rparr>)"
  by (simp add: conn_sound_def)

lemma append_buf_ok: "wf_buffer b \<Longrightarrow> length ds \<le> vector_max \<Longrightarrow> res_ok wf_buffer (append_buf b ds)"
  using append_buf_cases [of b ds] by auto

lemma readFd_ok:
  assumes "wf_buffer b" and "\<And>ds. r = Inr ds \<Longrightarrow> length ds \<le> sum_list (readFd_blocks b)"
  shows "res_ok (\<lambda>(n, e, b'). wf_buffer b') (readFd (\<lambda>_. r) b)"
proof (cases r)
  case (Inl e)
  then show ?thesis using assms(1) by (simp add: readFd_def)
next
  case (Inr ds)
  let ?readv = "\<lambda>iov. if iov = readFd_blocks b then r else Inl 0"
  have "readv_ok ?readv" using assms(2) by (auto simp: readv_ok_def)
  from readFd_cases [OF assms(1) this, of ds] have "res_ok (\<lambda>(n, e, b'). wf_buffer b') (readFd ?readv b)"
    using Inr by auto
  moreover have "readFd (\<lambda>_. r) b = readFd ?readv b" by (simp add: readFd_def)
  ultimately show ?thesis by simp
qed

lemma send_rest_fine:
  assumes "conn_sound (cs_conn s)" and "silent cbs" and "length data \<le> vector_max"
  shows "fine s (send_rest os cbs tid data nwrote remaining fault s)"
proof (cases "\<not> fault \<and> 0 < remaining")
  case True
  let ?b = "cn_outputBuffer (cs_conn s)" and ?s = "\<lambda>b. s\<lparr>cs_conn := (cs_conn s)\<lparr>cn_outputBuffer := b\<rparr>\<rparr>"
  have "send_rest os cbs tid data nwrote remaining fault s =
      res_bind (append_buf ?b (drop nwrote data)) (\<lambda>b.
        if \<not> isWriting (cn_channel (cs_conn s)) then on_channel (enableWriting os) (?s b) else Inr (?s b))"
    using True assms(2) by (simp add: send_rest_def Let_def)
  moreover have "res_ok wf_buffer (append_buf ?b (drop nwrote data))"
    by (rule append_buf_ok) (use assms(1,3) in \<open>auto simp: conn_sound_def\<close>)
  moreover have "fine s (on_channel (enableWriting os) (?s b))" "fine s (Inr (?s b))" if "wf_buffer b" for b
    using fine_trans [OF _ _ fine_members(2), of s "?s b"] that assms(1) by (simp_all add: conn_sound_def)
  ultimately show ?thesis unfolding fine_def by (simp add: res_ok_bind)
next
  case False
  then show ?thesis using assms(1) by (auto simp: send_rest_def)
qed

lemma sendInLoop_fine:
  assumes "conn_sound (cs_conn s)" and "silent cbs" and "length data \<le> vector_max"
  shows "fine s (sendInLoop os cbs tid data s)"
proof -
  obtain r k where w: "os_write os (chan_fd (cn_channel (cs_conn s))) data (rx_kern s) = (r, k)" by fastforce
  have "fine s (send_rest os cbs tid data n m f (s\<lparr>rx_kern := k\<rparr>))" for n m f
    by (rule fine_trans [OF _ _ send_rest_fine]) (use assms in simp_all)
  then show ?thesis using w assms send_rest_fine [OF assms] by (auto simp: sendInLoop_def Let_def split: sum.splits)
qed

lemma send_fine:
  assumes "conn_sound (cs_conn s)" and "silent cbs" and "length data \<le> vector_max"
  shows "fine s (send os cbs tid sptr data s)"
  using sendInLoop_fine [OF assms] assms(1) by (simp add: send_def tidy_queue)

lemma shutdownInLoop_fine: "conn_sound (cs_conn s) \<Longrightarrow> fine s (Inr (shutdownInLoop os s))"
  by (simp add: shutdownInLoop_def shutdownWrite_def split: prod.splits)

lemma shutdown_fine:
  assumes "conn_sound (cs_conn s)"
  shows "fine s (Inr (shutdown os tid s))"
proof (cases "cn_state (cs_conn s) = kConnected")
  case True
  let ?s = "setState kDisconnecting s"
  have c: "conn_sound (cs_conn ?s)" and t: "tidy s ?s" and l: "state_of s \<le> state_of ?s"
    using assms True by (simp_all add: setState_def conn_sound_def)
  have "fine s (Inr (shutdownInLoop os ?s))" by (rule fine_trans [OF t l shutdownInLoop_fine [OF c]])
  moreover have "fine s (Inr (queueInLoop os tid (Fn_shutdownInLoop n) ?s))" for n
    by (rule fine_trans [OF t l]) (use c in \<open>simp add: tidy_queue\<close>)
  ultimately show ?thesis using True by (simp add: shutdown_def Let_def)
qed (use assms in \<open>simp add: shutdown_def\<close>)

lemma last_write_fine:
  "conn_sound (cs_conn s) \<Longrightarrow> fine s (Inr (if cn_state (cs_conn s) = kDisconnecting then shutdownInLoop os s else s))"
  using shutdownInLoop_fine [of s os] by auto

lemma handleWrite_fine:
  assumes "conn_sound (cs_conn s)" and "silent cbs"
  shows "fine s (handleWrite os cbs tid s)"
proof -
  let ?b = "cn_outputBuffer (cs_conn s)"
  have wf: "wf_buffer ?b" using assms(1) by (simp add: conn_sound_def)
  obtain r k where w: "os_write os (chan_fd (cn_channel (cs_conn s))) (contents ?b) (rx_kern s) = (r, k)" by fastforce
  let ?s1 = "\<lambda>n. s\<lparr>rx_kern := k, cs_conn := (cs_conn s)\<lparr>cn_outputBuffer := retrieve ?b n\<rparr>\<rparr>"
  have c1: "conn_sound (cs_conn (?s1 n))" for n using assms(1) wf_retrieve [OF wf] by (simp add: conn_sound_def)
  have "fine (?s1 n) (res_bind (on_channel (disableWriting os) (?s1 n)) (\<lambda>s2.
      Inr (if cn_state (cs_conn s2) = kDisconnecting then shutdownInLoop os s2 else s2)))" for n
    by (rule fine_bind [OF fine_members(3) [OF c1]]) (rule last_write_fine)
  then have "fine s (res_bind (on_channel (disableWriting os) (?s1 n)) (\<lambda>s2.
      Inr (if cn_state (cs_conn s2) = kDisconnecting then shutdownInLoop os s2 else s2)))" for n
    by (rule fine_trans [rotated 2]) simp_all
  then show ?thesis
    using w assms c1 by (auto simp: handleWrite_def Let_def writeFd_wf [OF wf] split: sum.splits)
qed

section \<open>Other loops\<close>

lemma marks_same: "same_server s t \<Longrightarrow> marks t = marks s"
  by (simp add: marks_def same_server_fields(1) fun_eq_iff)

text \<open>Work on a loop that exists, and back to the loop the thread came from.\<close>

lemma with_loop_ok:
  assumes a: "marks s a \<noteq> None"
    and f: "\<And>t. same_server s t \<Longrightarrow> sv_cur t = a \<Longrightarrow> loop_at a s = Some (rx_loop t) \<Longrightarrow>
      res_ok (\<lambda>t'. Q t' \<and> sv_cur t' = a \<and> dom (marks s) \<subseteq> dom (marks t')) (f t)"
    and Q: "\<And>t' s'. Q t' \<Longrightarrow> same_server t' s' \<Longrightarrow> sv_cur s' = sv_cur s \<Longrightarrow> P s'"
  shows "res_ok P (with_loop a f s)"
proof (cases "a = sv_cur s")
  case True
  have "res_ok (\<lambda>t'. Q t' \<and> sv_cur t' = a \<and> dom (marks s) \<subseteq> dom (marks t')) (f s)"
    by (rule f [OF same_server_refl]) (use True in simp_all)
  then have "res_ok P (f s)" by (rule res_ok_mono) (use Q [OF _ same_server_refl] True in auto)
  then show ?thesis using True by (simp add: with_loop_def)
next
  case False
  then obtain lp where lp: "sv_loops s a = Some lp" using a by (auto simp: marks_def loop_at_def split: if_splits)
  let ?t = "s\<lparr>rx_loop := lp, sv_cur := a, sv_loops := (sv_loops s)(sv_cur s := Some (rx_loop s))\<rparr>"
  have t: "same_server s ?t" using False lp unfolding same_server_def by (auto simp: loop_at_def)
  have ok: "res_ok (\<lambda>t'. Q t' \<and> sv_cur t' = a \<and> dom (marks s) \<subseteq> dom (marks t')) (f ?t)"
    by (rule f [OF t]) (use False lp in \<open>simp_all add: loop_at_def\<close>)
  have "res_ok P (case sv_loops t' (sv_cur s) of None \<Rightarrow> Inl Undefined_Behaviour
      | Some bk \<Rightarrow> Inr (t'\<lparr>rx_loop := bk, sv_cur := sv_cur s, sv_loops := (sv_loops t')(sv_cur s := None, a := Some (rx_loop t'))\<rparr>))"
    if q: "Q t'" and ct: "sv_cur t' = a" and d: "dom (marks s) \<subseteq> dom (marks t')" for t'
  proof -
    have "sv_cur s \<in> dom (marks t')" using d marks_cur [of s] by blast
    then obtain bk where bk: "sv_loops t' (sv_cur s) = Some bk"
      using False ct by (auto simp: marks_def loop_at_def)
    let ?s' = "t'\<lparr>rx_loop := bk, sv_cur := sv_cur s, sv_loops := (sv_loops t')(sv_cur s := None, a := Some (rx_loop t'))\<rparr>"
    have "same_server t' ?s'" using False bk ct unfolding same_server_def by (auto simp: loop_at_def)
    then show ?thesis using Q [OF q] bk by simp
  qed
  then show ?thesis using False lp ok by (simp add: with_loop_def res_ok_bind)
qed

text \<open>The two ways to tell another loop about a connection that is closed.\<close>

definition passed :: "'k server \<Rightarrow> 'k server \<Rightarrow> bool" where
  "passed s s' \<longleftrightarrow> tidy s s' \<and> cs_conn s' = cs_conn s"

lemma tidy_same:
  assumes "same_server s t" and "tidy t t'" and "same_server t' s'" and "sv_cur s' = sv_cur s"
  shows "tidy s s'"
  using assms(2,4) marks_same [OF assms(1)] marks_same [OF assms(3)]
  by (simp add: tidy_def same_server_fields [OF assms(1)] same_server_fields [OF assms(3)])

lemma with_loop_passed:
  assumes "marks s a \<noteq> None" and f: "\<And>t. same_server s t \<Longrightarrow> sv_cur t = a \<Longrightarrow> res_ok (passed t) (f t)"
  shows "res_ok (passed s) (with_loop a f s)"
proof (rule with_loop_ok [OF assms(1)])
  fix t assume t: "same_server s t" "sv_cur t = a"
  show "res_ok (\<lambda>t'. (\<exists>t. same_server s t \<and> passed t t') \<and> sv_cur t' = a \<and> dom (marks s) \<subseteq> dom (marks t')) (f t)"
    by (rule res_ok_mono [OF f [OF t]]) (use t marks_same [OF t(1)] in \<open>auto simp: passed_def tidy_def\<close>)
next
  fix t' s' assume "\<exists>t. same_server s t \<and> passed t t'" "same_server t' s'" "sv_cur s' = sv_cur s"
  then show "passed s s'" using tidy_same same_server_fields(3) unfolding passed_def by (metis (no_types))
qed

lemma queue_passed: "\<not> notice f \<Longrightarrow> \<not> is_est f \<Longrightarrow> passed s (queueInLoop os tid f s)"
  by (simp add: passed_def tidy_queue)

lemma removeConnectionInLoop_ok:
  assumes "sv_objects s i \<noteq> None" and "marks s (sv_conn_loop s i) \<noteq> None"
  shows "res_ok (passed s) (removeConnectionInLoop os tid i s)"
proof -
  obtain c where c: "sv_objects s i = Some c" using assms(1) by blast
  let ?s = "s\<lparr>sv_connections := (sv_connections s)(cn_name c := None)\<rparr>"
  have "res_ok (passed ?s) (with_loop (sv_conn_loop s i) (\<lambda>s1. Inr (queueInLoop os tid (Fn_connectDestroyed i) s1)) ?s)"
    by (rule with_loop_passed) (use assms in \<open>auto simp: queue_passed\<close>)
  then show ?thesis unfolding removeConnectionInLoop_def c option.case
    by (rule res_ok_mono) (simp add: passed_def tidy_def)
qed

lemma removeConnection_ok:
  assumes "sv_objects s i \<noteq> None" and "marks s (sv_conn_loop s i) \<noteq> None" and "marks s (sv_loop s) \<noteq> None"
  shows "res_ok (passed s) (removeConnection os tid i s)"
  unfolding removeConnection_def
proof (rule with_loop_passed [OF assms(3)])
  fix t assume t: "same_server s t"
  have "res_ok (passed t) (removeConnectionInLoop os tid i t)"
    by (rule removeConnectionInLoop_ok) (use assms marks_same [OF t] same_server_fields [OF t] in simp_all)
  then show "res_ok (passed t) (runInLoop os (\<lambda>_. removeConnectionInLoop os tid i) tid (Fn_removeConnectionInLoop i) t)"
    by (simp add: runInLoop_def queue_passed)
qed

section \<open>Applications\<close>

lemma loaded_ready:
  assumes "loaded v ph tid i s"
  shows "sv_objects s i \<noteq> None" "marks s (sv_conn_loop s i) \<noteq> None" "marks s (sv_loop s) \<noteq> None"
proof -
  have "loops_inv (life_of v (stored i s))" using life_invD(1) [OF loadedD(1) [OF assms]] .
  then show "marks s (sv_loop s) \<noteq> None" by (simp add: loops_inv_def marks_None)
  show "sv_objects s i \<noteq> None" "marks s (sv_conn_loop s i) \<noteq> None"
    using assms loadedD(3) [OF assms] marks_cur [of s] by (auto simp: loaded_def)
qed

lemma handleEvent_ok:
  assumes "P s" and run: "\<And>f t. P t \<Longrightarrow> res_ok P (run f t)"
  shows "res_ok P (handleEvent lock run chan s)"
proof -
  have c: "res_ok P (call_if run b cb t)" if "P t" for b cb t
    using that run by (simp add: call_if_def split: option.splits)
  have "res_ok P (handleEventWithGuard run chan s)"
    unfolding handleEventWithGuard_def by (intro res_ok_bind [OF c] c assms(1))
  then show ?thesis using assms(1) by (simp add: handleEvent_def split: option.splits)
qed

locale sound_application = application app
  for app :: "'k os \<Rightarrow> int \<Rightarrow> 'k server conn_callbacks" +
  fixes fl :: cb_flags
  assumes flags: "has_connectionCallback fl" "has_messageCallback fl" "\<not> has_writeCompleteCallback fl"
    and installed: "connectionCallback (app os tid) \<noteq> None" "messageCallback (app os tid) \<noteq> None"
    and callback_fine: "os_ok os v \<Longrightarrow> g \<in> app_callbacks (app os tid) \<Longrightarrow> loaded v ph tid i s \<Longrightarrow>
      conn_sound (cs_conn s) \<Longrightarrow> fine s (g s)"
begin

lemma cbs_silent [simp]:
  "writeCompleteCallback (conn_cbs os (app os tid) tid fl i) = None"
  "highWaterMarkCallback (conn_cbs os (app os tid) tid fl i) = None"
  "closeCallback_conn (conn_cbs os (app os tid) tid fl i) = Some (removeConnection os tid i)"
  using flags by (simp_all add: conn_cbs_def)

lemma call_fine:
  assumes "os_ok os v" and "loaded v ph tid i s" and "conn_sound (cs_conn s)"
  shows "fine s (call (connectionCallback (conn_cbs os (app os tid) tid fl i)) s)"
    "fine s (call (messageCallback (conn_cbs os (app os tid) tid fl i)) s)"
  using callback_fine [OF assms(1) _ assms(2,3)] flags installed [of os tid]
  by (auto simp: call_def conn_cbs_def app_callbacks_def split: option.splits)

lemma handleClose_fine:
  assumes ok: "os_ok os v" and ld: "loaded v ph tid i s" and ix: "idx s \<noteq> kNew" and c: "conn_sound (cs_conn s)"
  shows "fine s (handleClose os (conn_cbs os (app os tid) tid fl i) s)"
  unfolding handleClose_def cbs_silent
proof (rule fine_bind)
  have "conn_sound (cs_conn (setState kDisconnected s))" "tidy s (setState kDisconnected s)"
    "state_of s \<le> state_of (setState kDisconnected s)"
    using c by (simp_all add: setState_def conn_sound_def)
  then show "fine s (on_channel (disableAll os) (setState kDisconnected s))" by (blast intro: fine_trans fine_members)
next
  fix s1 assume s1: "on_channel (disableAll os) (setState kDisconnected s) = Inr s1" and c1: "conn_sound (cs_conn s1)"
  have k1: "kept v ph tid i s s1" by (rule closing_kept [OF ok ld ix s1])
  show "fine s1 (res_bind (call (connectionCallback (conn_cbs os (app os tid) tid fl i)) s1) (call (Some (removeConnection os tid i))))"
  proof (rule fine_bind [OF call_fine(1) [OF ok kept_loaded [OF k1] c1]])
    fix s2 assume s2: "call (connectionCallback (conn_cbs os (app os tid) tid fl i)) s1 = Inr s2" and c2: "conn_sound (cs_conn s2)"
    have "loaded v ph tid i s2"
      by (rule kept_loaded [OF call_kept [where fl = fl, OF ok kept_loaded [OF k1] s2]]) simp
    from removeConnection_ok [OF loaded_ready [OF this]] have "res_ok (passed s2) (removeConnection os tid i s2)" .
    then show "fine s2 (call (Some (removeConnection os tid i)) s2)" unfolding fine_def call_def option.case
      by (rule res_ok_mono) (use c2 in \<open>simp add: passed_def\<close>)
  qed
qed

lemma handleError_fine: "conn_sound (cs_conn s) \<Longrightarrow> fine s (handleError os s)"
  by (simp add: handleError_def split: prod.splits)

lemma handleRead_fine:
  assumes ok: "os_ok os v" and ld: "loaded v ph tid i s" and ix: "idx s \<noteq> kNew" and c: "conn_sound (cs_conn s)"
  shows "fine s (handleRead os (conn_cbs os (app os tid) tid fl i) s)"
proof -
  let ?cbs = "conn_cbs os (app os tid) tid fl i" and ?b = "cn_inputBuffer (cs_conn s)"
  obtain r k where r: "os_readv os (chan_fd (cn_channel (cs_conn s))) (readFd_blocks ?b) (rx_kern s) = (r, k)" by fastforce
  let ?s1 = "\<lambda>b. s\<lparr>rx_kern := k, cs_conn := (cs_conn s)\<lparr>cn_inputBuffer := b\<rparr>\<rparr>"
  have read: "res_ok (\<lambda>(n, e, b'). wf_buffer b') (readFd (\<lambda>_. r) ?b)"
    by (rule readFd_ok) (use c readv_views(5) [OF ok r] in \<open>auto simp: conn_sound_def\<close>)
  have "fine s (if 0 < n then call (messageCallback ?cbs) (?s1 b)
      else if n = 0 then handleClose os ?cbs (?s1 b) else handleError os (?s1 b))" if "wf_buffer b" for n :: int and b
  proof -
    have k1: "kept v ph tid i s (?s1 b)" by (rule kept_plain [OF ld]) (use readv_views(1) [OF ok r] in simp_all)
    have c1: "conn_sound (cs_conn (?s1 b))" using c that by (simp add: conn_sound_def)
    note F = call_fine(2) [OF ok kept_loaded [OF k1] c1] handleClose_fine [OF ok kept_loaded [OF k1] kept_idx [OF k1 ix] c1]
    have "tidy s (?s1 b)" "state_of s \<le> state_of (?s1 b)" by simp_all
    then show ?thesis using fine_trans [OF _ _ F(1)] fine_trans [OF _ _ F(2)] fine_trans [OF _ _ handleError_fine [OF c1]] by simp
  qed
  then show ?thesis using r read unfolding fine_def
    by (auto simp: handleRead_def Let_def intro!: res_ok_bind [OF read])
qed

lemma run_callback_fine:
  assumes "os_ok os v" and "loaded v ph tid i s" and "idx s \<noteq> kNew" and "conn_sound (cs_conn s)"
  shows "fine s (run_callback os (conn_cbs os (app os tid) tid fl i) tid f s)"
  using handleRead_fine [OF assms] handleClose_fine [OF assms] handleWrite_fine [OF assms(4)] handleError_fine [OF assms(4)] assms(4)
  by (cases f) (simp_all add: run_callback_def)

lemma handleEvent_fine:
  assumes ok: "os_ok os v" and ld: "loaded v ph tid i s" and ix: "idx s \<noteq> kNew" and c: "conn_sound (cs_conn s)"
  shows "fine s (handleEvent lock (run_callback os (conn_cbs os (app os tid) tid fl i) tid) (\<lambda>s. cn_channel (cs_conn s)) s)"
proof -
  let ?P = "\<lambda>t. kept v ph tid i s t \<and> tidy s t \<and> conn_sound (cs_conn t) \<and> state_of s \<le> state_of t" and ?cbs = "conn_cbs os (app os tid) tid fl i"
  have "res_ok ?P (run_callback os ?cbs tid f t)" if t: "?P t" for f t
  proof -
    have ld: "loaded v ph tid i t" and ix: "idx t \<noteq> kNew" using t ix by (auto simp: kept_def)
    have "fine s (run_callback os ?cbs tid f t)" using fine_trans run_callback_fine [OF ok ld ix] t by blast
    then show ?thesis unfolding fine_def
      by (rule res_ok_mono) (use t kept_trans run_callback_kept [OF ok ld ix] in blast)
  qed
  then have "res_ok ?P (handleEvent lock (run_callback os ?cbs tid) (\<lambda>s. cn_channel (cs_conn s)) s)"
    by (intro handleEvent_ok) (use kept_refl [OF ld] c in simp_all)
  then show ?thesis unfolding fine_def by (rule res_ok_mono) simp
qed

lemma connectEstablished_fine:
  assumes ok: "os_ok os v" and ld: "loaded v ph tid i s" and h: "held ph (life_of v (stored i s)) i"
    and e: "\<And>b. Fn_connectEstablished i \<notin> set (work ph (life_of v (stored i s)) b)" and c: "conn_sound (cs_conn s)"
    and st: "cn_state (cs_conn s) = kConnecting"
  shows "fine s (connectEstablished os (conn_cbs os (app os tid) tid fl i) s)"
proof -
  let ?c = "(cs_conn s)\<lparr>cn_state := kConnected, cn_channel := tie (cn_id (cs_conn s)) (cn_channel (cs_conn s))\<rparr>"
  have "fine s (on_channel (enableReading os) (s\<lparr>cs_conn := ?c\<rparr>))"
    by (rule fine_trans [OF _ _ fine_members(1)]) (use c st in \<open>simp_all add: conn_sound_def\<close>)
  then have "fine s (res_bind (on_channel (enableReading os) (s\<lparr>cs_conn := ?c\<rparr>))
      (call (connectionCallback (conn_cbs os (app os tid) tid fl i))))"
  proof (rule fine_bind)
    fix s1 assume "on_channel (enableReading os) (s\<lparr>cs_conn := ?c\<rparr>) = Inr s1" and c1: "conn_sound (cs_conn s1)"
    then have "on_channel (\<lambda>ch. loop_updateChannel os (set_reading ch)) (s\<lparr>cs_conn := ?c\<rparr>) = Inr s1" by (simp add: chan_members)
    from on_channel_update(1) [OF ok ld event_setters(1) _ _ _ _ _ _ _ this] h e have "loaded v ph tid i s1" by (simp add: tie_def)
    then show "fine s1 (call (connectionCallback (conn_cbs os (app os tid) tid fl i)) s1)" by (rule call_fine(1) [OF ok _ c1])
  qed
  then show ?thesis by (simp add: connectEstablished_def Let_def setState_def)
qed

lemma connectDestroyed_fine:
  assumes ok: "os_ok os v" and ld: "loaded v ph tid i s" and c: "conn_sound (cs_conn s)"
  shows "fine s (connectDestroyed os (conn_cbs os (app os tid) tid fl i) s)"
  unfolding connectDestroyed_def
proof (rule fine_bind [OF _ fine_remove])
  have "fine s (on_channel (disableAll os) (setState kDisconnected s))"
    by (rule fine_trans [OF _ _ fine_members(4)]) (use c in \<open>simp_all add: setState_def conn_sound_def\<close>)
  moreover have "fine s1 (call (connectionCallback (conn_cbs os (app os tid) tid fl i)) s1)"
    if up: "up s" and s1: "on_channel (disableAll os) (setState kDisconnected s) = Inr s1" and c1: "conn_sound (cs_conn s1)" for s1
  proof -
    have "idx s \<noteq> kNew" using loaded_index(2) [OF ld] up by blast
    from closing_kept(1) [OF ok ld this s1] show ?thesis by (intro call_fine(1) [OF ok _ c1] kept_loaded)
  qed
  ultimately show "fine s (if up s then res_bind (on_channel (disableAll os) (setState kDisconnected s))
      (call (connectionCallback (conn_cbs os (app os tid) tid fl i))) else Inr s)"
    using c by (simp add: fine_bind)
qed

end

end
