(* ===== verification/Net_Run.thy ===== *)
theory Net_Run
  imports Net_Sound
begin

text \<open>
  The threads of a running server, step by step. Every step leads from a \<open>sound\<close> state to a sound state or ends
  the process in an announced way, and the state of every connection only moves forward, from connecting over
  connected and disconnecting to disconnected. The hard case is \<open>connectEstablished\<close>, which sets the state without
  looking at it: a connection whose establishment is still queued has not been touched.
\<close>

section \<open>Steps of the server\<close>

definition connecting :: "'k server \<Rightarrow> nat \<Rightarrow> bool" where
  "connecting s i \<longleftrightarrow> (\<exists>c. sv_objects s i = Some c \<and> cn_state c = kConnecting)"

text \<open>A later state: numbers of objects are not used again, and connections have moved forward.\<close>

definition later :: "'k server \<Rightarrow> 'k server \<Rightarrow> bool" where
  "later s s' \<longleftrightarrow> sv_fresh s \<le> sv_fresh s' \<and>
     (\<forall>i c'. i < sv_fresh s \<longrightarrow> sv_objects s' i = Some c' \<longrightarrow> (\<exists>c. sv_objects s i = Some c \<and> cn_state c \<le> cn_state c'))"

lemma later_refl [simp]: "later s s"
  by (simp add: later_def)

lemma later_trans: "later s t \<Longrightarrow> later t u \<Longrightarrow> later s u"
  unfolding later_def by (meson order_trans less_le_trans)

text \<open>A step of one thread from a sound state. Connections that satisfy \<open>P\<close> may leave the state in which they
  were made, and a new establishment is queued only for a connection in that state.\<close>

definition moves :: "cb_flags \<Rightarrow> (nat \<Rightarrow> bool) \<Rightarrow> 'k server \<Rightarrow> 'k server \<Rightarrow> bool" where
  "moves fl P s s' \<longleftrightarrow> sound fl s' \<and> dom (marks s') = dom (marks s) \<and> later s s' \<and>
     (\<forall>i. awaits s' i \<longrightarrow> awaits s i \<or> connecting s' i) \<and> (\<forall>i. connecting s i \<longrightarrow> connecting s' i \<or> P i)"

definition going :: "cb_flags \<Rightarrow> (nat \<Rightarrow> bool) \<Rightarrow> 'k server \<Rightarrow> 'k server \<Rightarrow> bool" where
  "going fl P s s' \<longleftrightarrow> moves fl P s s' \<and> sv_cur s' = sv_cur s"

lemma soundD:
  assumes "sound fl s"
  shows "sv_objects s i = Some c \<Longrightarrow> conn_sound c" "sv_objects s i = Some c \<Longrightarrow> sv_conn_cbs s i = fl" "sv_cbs s = fl"
    "next_ok (sv_pool s)" "a \<in> set (getAllLoops (sv_pool s)) \<Longrightarrow> marks s a \<noteq> None" "marks s b = Some q \<Longrightarrow> filter notice q = []"
  using assms unfolding sound_def by blast+

lemma tidy_views:
  assumes "tidy s t"
  shows "connecting t = connecting s" "awaits t = awaits s" "sound fl t = sound fl s" "later u t = later u s" "later t u = later s u"
  using assms by (simp_all add: tidy_def connecting_def awaits_def sound_def later_def fun_eq_iff)

lemma same_views:
  assumes "same_server s t"
  shows "connecting t = connecting s" "awaits t = awaits s" "sound fl t = sound fl s" "later u t = later u s" "later t u = later s u"
  using marks_same [OF assms]
  by (simp_all add: same_server_fields [OF assms] connecting_def awaits_def sound_def later_def fun_eq_iff)

lemma going_tidy: "sound fl s \<Longrightarrow> tidy s t \<Longrightarrow> going fl P s t"
  using tidy_views [of s t] by (simp add: going_def moves_def) (simp add: tidy_def)

lemma going_refl: "sound fl s \<Longrightarrow> going fl P s s"
  by (simp add: going_tidy)

lemma going_after: "going fl P s t \<Longrightarrow> tidy t u \<Longrightarrow> going fl P s u"
  using tidy_views [of t u] by (simp add: going_def moves_def) (simp add: tidy_def)

text \<open>A first step that establishes nothing and queues nothing.\<close>

lemma going_first:
  assumes "later s t" and "marks t = marks s" and "sv_cur t = sv_cur s" and "\<And>i. connecting s i \<Longrightarrow> connecting t i"
    and "going fl P t u"
  shows "going fl P s u"
proof -
  have "awaits t = awaits s" using assms(2) by (simp add: awaits_def fun_eq_iff)
  then show ?thesis using assms later_trans [of s t u] by (auto simp: going_def moves_def)
qed

lemma moves_same:
  assumes "same_server s t" and "moves fl P t t'" and "same_server t' s'"
  shows "moves fl P s s'"
  using assms(2) unfolding moves_def same_views [OF assms(1)] same_views [OF assms(3)] marks_same [OF assms(1)] marks_same [OF assms(3)] .

lemma with_conn_ok:
  assumes S: "sound fl s" and c: "sv_objects s i = Some c" and f: "fine (s\<lparr>cs_conn := c\<rparr>) (f (s\<lparr>cs_conn := c\<rparr>))"
    and P: "P i \<or> (\<forall>t. f (s\<lparr>cs_conn := c\<rparr>) = Inr t \<longrightarrow> state_of t = cn_state c)"
  shows "res_ok (going fl P s) (with_conn i f s)"
proof -
  have "res_ok (going fl P s) (res_bind (f (s\<lparr>cs_conn := c\<rparr>)) (\<lambda>s'. Inr (s'\<lparr>sv_objects := (sv_objects s')(i \<mapsto> cs_conn s')\<rparr>)))"
  proof (rule res_ok_bind [OF f [unfolded fine_def]])
    fix t assume ft: "f (s\<lparr>cs_conn := c\<rparr>) = Inr t"
      and "tidy (s\<lparr>cs_conn := c\<rparr>) t \<and> conn_sound (cs_conn t) \<and> state_of (s\<lparr>cs_conn := c\<rparr>) \<le> state_of t"
    then have t: "sv_objects t = sv_objects s" "sv_fresh t = sv_fresh s" "sv_conn_cbs t = sv_conn_cbs s" "sv_cbs t = sv_cbs s"
      "sv_pool t = sv_pool s" "sv_cur t = sv_cur s" "marks t = marks s" "conn_sound (cs_conn t)" "cn_state c \<le> state_of t"
      by (simp_all add: tidy_def)
    let ?t = "t\<lparr>sv_objects := (sv_objects t)(i \<mapsto> cs_conn t)\<rparr>"
    have "sound fl ?t" using S c t unfolding sound_def by auto
    moreover have "later s ?t" using c t by (auto simp: later_def)
    moreover have "connecting s j \<Longrightarrow> connecting ?t j \<or> P j" for j using c t P ft by (auto simp: connecting_def)
    ultimately show "res_ok (going fl P s) (Inr ?t)" using t by (simp add: going_def moves_def awaits_def)
  qed
  then show ?thesis by (simp add: with_conn_def c)
qed

lemma with_loop_going:
  fixes s :: "'k server"
  assumes a: "marks s a \<noteq> None"
    and f: "\<And>t. same_server s t \<Longrightarrow> sv_cur t = a \<Longrightarrow> loop_at a s = Some (rx_loop t) \<Longrightarrow> res_ok (going fl P t) (f t)"
  shows "res_ok (going fl P s) (with_loop a f s)"
proof (rule with_loop_ok [where Q = "\<lambda>t'. \<exists>t. same_server s t \<and> moves fl P t t'", OF a])
  fix t assume t: "same_server s t" "sv_cur t = a" "loop_at a s = Some (rx_loop t)"
  show "res_ok (\<lambda>t'. (\<exists>t. same_server s t \<and> moves fl P t t') \<and> sv_cur t' = a \<and> dom (marks s) \<subseteq> dom (marks t')) (f t)"
    by (rule res_ok_mono [OF f [OF t]]) (use t marks_same [OF t(1)] in \<open>auto simp: going_def moves_def\<close>)
next
  fix t' s' :: "'k server" assume "\<exists>t. same_server s t \<and> moves fl P t t'" "same_server t' s'" "sv_cur s' = sv_cur s"
  then show "going fl P s s'" using moves_same by (auto simp: going_def)
qed

lemma passed_going: "sound fl s \<Longrightarrow> passed s s' \<Longrightarrow> going fl P s s'"
  by (simp add: passed_def going_tidy)

lemma queue_est_going:
  assumes S: "sound fl s" and i: "connecting s i"
  shows "going fl P s (queueInLoop os tid (Fn_connectEstablished i) s)"
proof -
  let ?s = "queueInLoop os tid (Fn_connectEstablished i) s"
  obtain q where q: "marks s (sv_cur s) = Some q" using marks_cur by blast
  have m: "marks ?s = (marks s)(sv_cur s \<mapsto> q @ [Fn_connectEstablished i])"
    using q by (auto simp: marks_def loop_at_def fun_eq_iff)
  have f: "sv_objects ?s = sv_objects s" "sv_fresh ?s = sv_fresh s" "sv_conn_cbs ?s = sv_conn_cbs s" "sv_cbs ?s = sv_cbs s"
    "sv_pool ?s = sv_pool s" "sv_cur ?s = sv_cur s"
    by (simp_all add: queueInLoop_def wakeup_def Let_def split: prod.splits)
  have "sound fl ?s" using S soundD(6) [OF S q] unfolding sound_def m f by auto
  moreover have "awaits ?s j \<Longrightarrow> awaits s j \<or> j = i" for j using q by (auto simp: awaits_def m split: if_splits)
  ultimately show ?thesis using i q by (auto simp: going_def moves_def later_def connecting_def f m)
qed

lemma getNextLoop_ok:
  assumes "next_ok p"
  obtains a p' where "getNextLoop p = Inr (a, p')" "a \<in> set (getAllLoops p)" "next_ok p'" "getAllLoops p' = getAllLoops p"
proof (cases "ep_loops p = []")
  case True
  then show ?thesis using that assms by (simp add: getNextLoop_def getAllLoops_def)
next
  case False
  then show ?thesis
    using that getNextLoop_step [OF assms False] next_ok_mod [of p "nat (ep_next p) + 1"] assms
    by (auto simp: getAllLoops_def next_ok_def)
qed

lemma added_conn_sound:
  assumes S: "sound fl s" and q: "next_ok q" "getAllLoops q = getAllLoops (sv_pool s)" and c: "conn_sound c"
  shows "sound fl (added_conn io q c k s)" "marks (added_conn io q c k s) = marks s"
proof -
  show n: "marks (added_conn io q c k s) = marks s" by (simp add: marks_def fun_eq_iff)
  have f: "sv_cbs (added_conn io q c k s) = sv_cbs s" "sv_conn_cbs (added_conn io q c k s) = (sv_conn_cbs s)(sv_fresh s := sv_cbs s)"
    by (simp_all add: added_conn_def)
  show "sound fl (added_conn io q c k s)"
    using S q c unfolding sound_def n f by auto
qed

lemma added_conn_later:
  assumes "sv_objects s (sv_fresh s) = None"
  shows "later s (added_conn io q c k s)" "connecting s i \<Longrightarrow> connecting (added_conn io q c k s) i" "sv_cur (added_conn io q c k s) = sv_cur s"
  using assms by (auto simp: later_def connecting_def added_conn_def)

lemma accept_handle_ok:
  assumes "safe v ph s" and "P s" and one: "\<And>f. res_ok P (run f s)"
    and w: "\<And>f t. run f s = Inr t \<Longrightarrow> writeCallback (ac_channel (sv_acceptor t)) = None"
  shows "res_ok P (handleEvent lock run (\<lambda>s. ac_channel (sv_acceptor s)) s)"
proof -
  have rd: "res_ok (\<lambda>t. P t \<and> writeCallback (ac_channel (sv_acceptor t)) = None) (call_if run b (readCallback (ac_channel (sv_acceptor s))) s)" for b
    using res_ok_mono [OF one] w assms(2) accept_callbacks(3) [OF assms(1)] by (auto simp: call_if_def split: option.splits)
  have none: "call_if run b None t = Inr t" for b t by (simp add: call_if_def)
  have "res_ok P (handleEventWithGuard run (\<lambda>s. ac_channel (sv_acceptor s)) s)"
    unfolding handleEventWithGuard_def accept_callbacks [OF assms(1)] none res_bind_Inr
    by (rule res_ok_bind [OF rd]) (simp add: none)
  then show ?thesis using assms(2) by (simp add: handleEvent_def split: option.splits)
qed

section \<open>Connections that wait to be established\<close>

definition pend :: "(nat \<Rightarrow> loop_phase) \<Rightarrow> 'k server \<Rightarrow> nat \<Rightarrow> bool" where
  "pend ph s i \<longleftrightarrow> (\<exists>b. Fn_connectEstablished i \<in> set (batch (ph b))) \<or> awaits s i"

lemma pend_work: "pend ph s i \<longleftrightarrow> (\<exists>b. Fn_connectEstablished i \<in> set (work ph (life_of v s) b))"
proof -
  have "awaits s i \<longleftrightarrow> (\<exists>b l. loop_at b s = Some l \<and> Fn_connectEstablished i \<in> set (lp_pendingFunctors l))"
    by (fastforce simp: awaits_def marks_def)
  moreover have "Fn_connectEstablished i \<in> set (work ph (life_of v s) b) \<longleftrightarrow> Fn_connectEstablished i \<in> set (batch (ph b)) \<or>
      (\<exists>l. loop_at b s = Some l \<and> Fn_connectEstablished i \<in> set (lp_pendingFunctors l))" for b
    by (auto simp: work_def life_of_def life_loop_of_def split: option.splits)
  ultimately show ?thesis by (auto simp: pend_def)
qed

lemma pend_same: "same_server s t \<Longrightarrow> pend ph t = pend ph s"
  by (simp add: pend_def same_views fun_eq_iff)

lemma pend_object:
  assumes "safe v ph s" and "pend ph s i"
  obtains c where "sv_objects s i = Some c" and "chan_index (cn_channel c) = kNew" and "i < sv_fresh s"
proof -
  have L: "life_inv ph (life_of v s)" using assms(1) by (simp add: safe_def)
  obtain b where b: "Fn_connectEstablished i \<in> set (work ph (life_of v s) b)" using assms(2) pend_work by blast
  then have "fits (life_of v s) b (Fn_connectEstablished i)" using life_invD(7) [OF L] unfolding work_inv_def by blast
  then obtain c where c: "sv_objects s i = Some c" by (auto simp: life_of_def)
  then have d: "lf_conns (life_of v s) i = Some (life_conn_of c)" by (simp add: life_of_def)
  have "lc_index (life_conn_of c) = kNew" using life_invD(5) [OF L] b d unfolding est_inv_def by blast
  moreover have "i < lf_fresh (life_of v s)" using life_invD(2) [OF L] d unfolding conns_inv_def by blast
  ultimately show ?thesis using that c by (simp add: life_conn_of_def life_of_def)
qed

lemma pend_pop: "pend (ph(b := In_functors fs)) s i \<Longrightarrow> ph b = In_functors (f # fs) \<Longrightarrow> pend ph s i"
  unfolding pend_def by (metis batch_simps(3) fun_upd_apply list.set_intros(2))

lemma destroyed_keeps:
  assumes inv: "safe v ph s" and ld: "loaded v ph' tid i (s\<lparr>cs_conn := c\<rparr>)" and c: "sv_objects s i = Some c" and pe: "pend ph s i"
    and run: "connectDestroyed os cbs (s\<lparr>cs_conn := c\<rparr>) = Inr t"
  shows "state_of t = cn_state c"
proof -
  have "idx (s\<lparr>cs_conn := c\<rparr>) = kNew" using pend_object [OF inv pe] c by auto
  then have "\<not> up (s\<lparr>cs_conn := c\<rparr>)" using loaded_index(2) [OF ld] by blast
  then have "on_channel (chan_remove os) (s\<lparr>cs_conn := c\<rparr>) = Inr t" using run by (simp add: connectDestroyed_def)
  then show ?thesis by (auto simp: on_channel_def chan_remove_def loop_removeChannel_def elim!: res_bindE)
qed

context sound_application
begin

lemma newConnection_ok:
  assumes ok: "os_ok os v" and sk: "sock_ok os v" and inv: "safe v ph s" and S: "sound fl s"
    and p: "free_ptr (life_of v s) (cptr (sv_fresh s))" and n: "sv_nextConnId s \<noteq> 2 ^ 31 - 1" and P: "P (sv_fresh s)"
  shows "res_ok (going fl P s) (newConnection os (app os tid) tid cptr fd peer s)"
proof -
  let ?i = "sv_fresh s" and ?cbs = "conn_cbs os (app os tid) tid fl (sv_fresh s)"
  let ?k = "os_setsockopt os fd ''SO_KEEPALIVE'' True (snd (os_getsockname os fd (rx_kern s)))"
  obtain io q where g: "getNextLoop (sv_pool s) = Inr (io, q)" "io \<in> set (getAllLoops (sv_pool s))"
    and q: "next_ok q" "getAllLoops q = getAllLoops (sv_pool s)" by (rule getNextLoop_ok [OF soundD(4) [OF S]])
  obtain c where r: "newConnection os (app os tid) tid cptr fd peer s = with_loop io (runInLoop os
        (\<lambda>_. with_conn ?i (connectEstablished os ?cbs)) tid (Fn_connectEstablished ?i)) (added_conn io q c ?k s)"
    and c: "made_conn ?i (conn_name (sv_name s) (sv_ipPort s) (sv_nextConnId s)) fd (cptr ?i) peer c"
    using newConnection_eq [OF g(1) n refl] unfolding soundD(3) [OF S] by metis
  let ?s1 = "added_conn io q c ?k s"
  have cs: "conn_sound c" "cn_state c = kConnecting" using c by (simp_all add: made_conn_def conn_sound_def)
  note A = added_conn_sound [OF S q cs(1), of io ?k]
  have io: "loop_at io s \<noteq> None" using soundD(5) [OF S g(2)] by (simp add: marks_None)
  note N = added_conn_new [where q = q, OF sk inv n io p c]
  have "sv_objects s ?i = None" using object_bound inv by (fastforce simp: safe_def)
  note L = added_conn_later [where io = io and q = q and c = c and k = ?k, OF this]
  have "res_ok (going fl P ?s1) (with_loop io (runInLoop os (\<lambda>_. with_conn ?i (connectEstablished os ?cbs)) tid (Fn_connectEstablished ?i)) ?s1)"
  proof (rule with_loop_going)
    show "marks ?s1 io \<noteq> None" using io by (simp add: A(2) marks_None)
  next
    fix t assume t: "same_server ?s1 t" "sv_cur t = io"
    have d: "sv_objects t ?i = Some c" by (simp add: same_server_fields [OF t(1)])
    have St: "sound fl t" using A(1) same_views(3) [OF t(1)] by simp
    have "res_ok (going fl P t) (with_conn ?i (connectEstablished os ?cbs) t)" if "lp_threadId (rx_loop t) = tid"
    proof (rule with_conn_ok [OF St d _ disjI1])
      show "P ?i" by (rule P)
      show "fine (t\<lparr>cs_conn := c\<rparr>) (connectEstablished os ?cbs (t\<lparr>cs_conn := c\<rparr>))"
        by (rule connectEstablished_fine [OF ok added_conn_loaded [OF N t that d]]) (use cs in simp_all)
    qed
    moreover have "going fl P t (queueInLoop os tid (Fn_connectEstablished ?i) t)"
      by (rule queue_est_going [OF St]) (use d cs(2) in \<open>simp add: connecting_def\<close>)
    ultimately show "res_ok (going fl P t) (runInLoop os (\<lambda>_. with_conn ?i (connectEstablished os ?cbs)) tid (Fn_connectEstablished ?i) t)"
      by (simp add: runInLoop_def isInLoopThread_def)
  qed
  then show ?thesis unfolding r by (rule res_ok_mono) (rule going_first [OF L(1) A(2) L(3,2)])
qed

lemma acceptor_handleRead_ok:
  assumes ok: "os_ok os v" and sk: "sock_ok os v" and inv: "safe v ph s" and S: "sound fl s"
    and p: "free_ptr (life_of v s) (cptr (sv_fresh s))" and n: "sv_nextConnId s \<noteq> 2 ^ 31 - 1" and P: "P (sv_fresh s)"
  shows "res_ok (going fl P s) (acceptor_handleRead os (app os tid) tid cptr peer0 s)"
proof -
  obtain fd peer k where a: "socket_accept os (ac_fd (sv_acceptor s)) peer0 (rx_kern s) = (fd, peer, k)" by (metis prod_cases3)
  then have "k = snd (os_accept4 os (ac_fd (sv_acceptor s)) (rx_kern s))"
    by (auto simp: socket_accept_def split: prod.splits sum.splits)
  then have k: "interest v k = interest v (rx_kern s)" using sock_interest(1) [OF sk] by simp
  let ?s1 = "s\<lparr>rx_kern := k\<rparr>"
  have g: "tidy s ?s1" by simp
  have g1: "going fl P s ?s1" by (rule going_tidy [OF S g])
  have lo: "loop_at b ?s1 = loop_at b s" for b by (simp add: loop_at_def)
  have "free_ptr (life_of v ?s1) (cptr (sv_fresh ?s1))" using p by (simp add: free_ptr_def life_of_def lo)
  then have "res_ok (going fl P ?s1) (newConnection os (app os tid) tid cptr fd peer ?s1)"
    by (intro newConnection_ok [OF ok sk safe_kernel [OF inv k]]) (use S n P tidy_views(3) [OF g] in simp_all)
  then have "res_ok (going fl P s) (newConnection os (app os tid) tid cptr fd peer ?s1)"
    by (rule res_ok_mono) (rule going_first, simp_all add: later_def connecting_def)
  then show ?thesis using a g1 going_tidy [OF S] by (simp add: acceptor_handleRead_def Let_def)
qed

subsection \<open>Steps of a thread\<close>

lemma server_handle_ok:
  assumes ok: "os_ok os v" and sk: "sock_ok os v" and inv: "safe v ph s" and S: "sound fl s"
    and tid: "lp_threadId (rx_loop s) = tid" and ch: "chan_of (\<lambda>fd ix. ix \<noteq> kNew) (life_of v s) (sv_cur s) p"
    and fp: "free_ptr (life_of v s) (cptr (sv_fresh s))"
    and n: "sv_nextConnId s \<noteq> 2 ^ 31 - 1 \<or> p = chan_ptr (lp_wakeupChannel (rx_loop s)) \<or> p \<noteq> chan_ptr (ac_channel (sv_acceptor s))"
    and P: "\<And>i. \<not> pend ph s i \<Longrightarrow> P i"
  shows "res_ok (going fl P s) (server_handle os (app os tid) tid cptr peer0 p s)"
proof -
  have refl: "going fl P s s" by (rule going_refl [OF S])
  have new: "P (sv_fresh s)" by (rule P) (use pend_object [OF inv, of "sv_fresh s"] in auto)
  consider (wake) "p = chan_ptr (lp_wakeupChannel (rx_loop s))"
    | (acc) "p \<noteq> chan_ptr (lp_wakeupChannel (rx_loop s))" "p = chan_ptr (ac_channel (sv_acceptor s))"
    | (conn) "p \<noteq> chan_ptr (lp_wakeupChannel (rx_loop s))" "p \<noteq> chan_ptr (ac_channel (sv_acceptor s))" by blast
  then show ?thesis
  proof cases
    case wake
    have "going fl P s (loop_handleRead os t)" if "going fl P s t" for t
      using going_after [OF that] by (simp add: loop_handleRead_def split: prod.splits)
    then show ?thesis using wake refl by (auto simp: server_handle_def split: callback.splits intro!: handleEvent_ok)
  next
    case acc
    let ?acc = "\<lambda>f s. case f of Acceptor_handleRead \<Rightarrow> acceptor_handleRead os (app os tid) tid cptr peer0 s | _ \<Rightarrow> Inr s"
    have n: "sv_nextConnId s \<noteq> 2 ^ 31 - 1" using n acc by blast
    have one: "res_ok (going fl P s) (?acc f s)" for f
      using acceptor_handleRead_ok [where cptr = cptr and P = P, OF ok sk inv S fp n new] refl by (auto split: callback.splits)
    have w: "writeCallback (ac_channel (sv_acceptor t)) = None" if "?acc f s = Inr t" for f t
    proof -
      have "safe v ph t"
        using that acceptor_handleRead_safe [where cptr = cptr, OF ok sk inv fp, of tid peer0 t] inv by (auto split: callback.splits)
      then show ?thesis by (rule accept_callbacks(3))
    qed
    have "res_ok (going fl P s) (handleEvent (\<lambda>_. True) ?acc (\<lambda>s. ac_channel (sv_acceptor s)) s)"
      by (rule accept_handle_ok [where P = "going fl P s", OF inv refl]) (use one w in blast)+
    then show ?thesis using acc by (simp add: server_handle_def)
  next
    case conn
    obtain i c where i: "sv_objects s i = Some c" "owner_of p s = Some i" "chan_index (cn_channel c) \<noteq> kNew"
      and ld: "loaded v ph tid i (s\<lparr>cs_conn := c\<rparr>)"
      by (rule handler_ready [OF inv tid ch conn])
    have "sv_conn_cbs s i = fl" by (rule soundD(2) [OF S i(1)])
    then have "server_handle os (app os tid) tid cptr peer0 p s =
        with_conn i (handleEvent (\<lambda>obj. sv_objects s obj \<noteq> None)
          (run_callback os (conn_cbs os (app os tid) tid fl i) tid) (\<lambda>s. cn_channel (cs_conn s))) s"
      using conn i(2) by (simp add: server_handle_def)
    moreover have "res_ok (going fl P s) \<dots>"
      by (rule with_conn_ok [OF S i(1) _ disjI1], rule handleEvent_fine [OF ok ld])
        (use i soundD(1) [OF S] P [of i] pend_object [OF inv, of i] in auto)
    ultimately show ?thesis by simp
  qed
qed

text \<open>A step that has been made is a step to a sound state, also when no number is left for a new connection.\<close>

lemma acceptor_handleRead_going:
  assumes S: "sound fl s" and n: "sv_nextConnId s = 2 ^ 31 - 1"
    and run: "acceptor_handleRead os (app os tid) tid cptr peer0 s = Inr s'"
  shows "going fl P s s'"
proof -
  obtain fd peer k where a: "socket_accept os (ac_fd (sv_acceptor s)) peer0 (rx_kern s) = (fd, peer, k)" by (metis prod_cases3)
  have "newConnection os (app os tid) tid cptr fd peer (s\<lparr>rx_kern := k\<rparr>) \<noteq> Inr s'"
    using n by (auto simp: newConnection_def elim!: res_bindE)
  then show ?thesis using run a going_tidy [OF S, of "s\<lparr>rx_kern := k\<rparr>"] going_tidy [OF S, of "s\<lparr>rx_kern := _\<rparr>"] by (auto simp: acceptor_handleRead_def Let_def split: if_splits)
qed

lemma server_handle_going:
  assumes ok: "os_ok os v" and sk: "sock_ok os v" and inv: "safe v ph s" and S: "sound fl s"
    and tid: "lp_threadId (rx_loop s) = tid" and ch: "chan_of (\<lambda>fd ix. ix \<noteq> kNew) (life_of v s) (sv_cur s) p"
    and fp: "free_ptr (life_of v s) (cptr (sv_fresh s))"
    and P: "\<And>i. \<not> pend ph s i \<Longrightarrow> P i" and run: "server_handle os (app os tid) tid cptr peer0 p s = Inr s'"
  shows "going fl P s s'"
proof (cases "sv_nextConnId s \<noteq> 2 ^ 31 - 1 \<or> p = chan_ptr (lp_wakeupChannel (rx_loop s)) \<or> p \<noteq> chan_ptr (ac_channel (sv_acceptor s))")
  case True
  from server_handle_ok [where cptr = cptr and P = P, OF ok sk inv S tid ch fp this P, of peer0] run show ?thesis by simp
next
  case False
  then have n: "sv_nextConnId s = 2 ^ 31 - 1" by blast
  let ?acc = "\<lambda>f s. case f of Acceptor_handleRead \<Rightarrow> acceptor_handleRead os (app os tid) tid cptr peer0 s | _ \<Rightarrow> Inr s"
  have one: "safe v ph t" if "?acc f s = Inr t" for f t
    using that inv acceptor_handleRead_safe [where cptr = cptr, OF ok sk inv fp, of tid peer0 t] by (auto split: callback.splits)
  have e: "handleEvent (\<lambda>_. True) ?acc (\<lambda>s. ac_channel (sv_acceptor s)) s = Inr s'"
    using run False by (simp add: server_handle_def)
  have refl: "going fl P s s" by (rule going_refl [OF S])
  have "going fl P s s'" if "?acc f s = Inr s'" for f
    using that acceptor_handleRead_going [OF S n, of os tid cptr peer0 s'] refl by (cases f) simp_all
  moreover have "s' = s \<or> (\<exists>f. ?acc f s = Inr s')" by (rule accept_handle_cases [OF inv _ e]) (use one in blast)
  ultimately show ?thesis using refl by blast
qed

lemma server_exec_ok:
  assumes ok: "os_ok os v" and inv: "safe v ph s" and S: "sound fl s" and tid: "lp_threadId (rx_loop s) = tid"
    and ph: "ph (sv_cur s) = In_functors (f # fs)" and nt: "\<not> notice f"
    and P: "\<And>i. \<not> pend (ph(sv_cur s := In_functors fs)) s i \<Longrightarrow> P i" and W: "\<And>i. pend ph s i \<Longrightarrow> connecting s i"
  shows "res_ok (going fl P s) (server_exec os (app os tid) tid mem user f s)"
proof -
  let ?ph = "ph(sv_cur s := In_functors fs)"
  note F = functor_fits [OF inv ph]
  have conn: "res_ok (going fl P s) (server_exec os (app os tid) tid mem user f s)"
    if "closure_conn f = Some i" "sv_objects s i = Some c"
      "fine (s\<lparr>cs_conn := c\<rparr>) (conn_exec os (conn_cbs os (app os tid) tid fl i) tid mem f (s\<lparr>cs_conn := c\<rparr>))"
      "P i \<or> (\<forall>t. conn_exec os (conn_cbs os (app os tid) tid fl i) tid mem f (s\<lparr>cs_conn := c\<rparr>) = Inr t \<longrightarrow> state_of t = cn_state c)" for i c
    using with_conn_ok [where f = "conn_exec os (conn_cbs os (app os tid) tid fl i) tid mem f" and P = P, OF S that(2-4)] that(1)
      soundD(2) [OF S that(2)] by (simp add: server_exec_def)
  show ?thesis
  proof (cases f)
    case (Fn_connectEstablished i)
    obtain c where c: "sv_objects s i = Some c" and R: "loaded v ?ph tid i (s\<lparr>cs_conn := c\<rparr>)"
      "held ?ph (life_of v (stored i (s\<lparr>cs_conn := c\<rparr>))) i"
      "\<And>b. Fn_connectEstablished i \<notin> set (work ?ph (life_of v (stored i (s\<lparr>cs_conn := c\<rparr>))) b)"
      by (rule est_ready [OF inv tid ph [unfolded Fn_connectEstablished]]) blast
    have "stored i (s\<lparr>cs_conn := c\<rparr>) = s\<lparr>cs_conn := c\<rparr>" using c by (simp add: stored_def fun_upd_idem)
    then have "\<not> pend ?ph s i" using R(3) by (simp add: pend_work [where v = v])
    then have "P i" by (rule P)
    moreover have "pend ph s i" using ph Fn_connectEstablished unfolding pend_def by (metis batch_simps(3) list.set_intros(1))
    then have "cn_state c = kConnecting" using W [of i] c by (auto simp: connecting_def)
    ultimately show ?thesis
      by (intro conn [OF _ c])
        (use connectEstablished_fine [OF ok R] soundD(1) [OF S c] Fn_connectEstablished in \<open>simp_all add: closure_conn_def conn_exec_def\<close>)
  next
    case (Fn_connectDestroyed i)
    obtain c where c: "sv_objects s i = Some c" and ld: "loaded v ph tid i (s\<lparr>cs_conn := c\<rparr>)"
      using functor_ready [OF inv tid F(2), of i] Fn_connectDestroyed by (auto simp: closure_conn_def)
    have "P i \<or> (\<forall>t. connectDestroyed os (conn_cbs os (app os tid) tid fl i) (s\<lparr>cs_conn := c\<rparr>) = Inr t \<longrightarrow> state_of t = cn_state c)"
      using destroyed_keeps [OF inv ld c] P [of i] pend_pop [of ph "sv_cur s" fs s i f] ph by blast
    then show ?thesis
      by (intro conn [OF _ c])
        (use connectDestroyed_fine [OF ok ld] soundD(1) [OF S c] Fn_connectDestroyed in \<open>simp_all add: closure_conn_def conn_exec_def\<close>)
  next
    case (Fn_removeConnectionInLoop i)
    obtain c where c: "sv_objects s i = Some c" using F(2) Fn_removeConnectionInLoop by (auto simp: life_of_def)
    have "life_inv ph (life_of v s)" using inv by (simp add: safe_def)
    then have "conns_inv (life_of v s)" by (rule life_invD(2))
    moreover have "lf_conns (life_of v s) i = Some (life_conn_of c)" using c by (simp add: life_of_def)
    ultimately have "lf_loops (life_of v s) (lf_home (life_of v s) i) \<noteq> None" unfolding conns_inv_def by blast
    then have "marks s (sv_conn_loop s i) \<noteq> None" by (simp add: life_of_def marks_None)
    then have "res_ok (passed s) (removeConnectionInLoop os tid i s)" using c by (intro removeConnectionInLoop_ok) simp_all
    then have "res_ok (going fl P s) (removeConnectionInLoop os tid i s)" by (rule res_ok_mono) (rule passed_going [OF S])
    then show ?thesis using Fn_removeConnectionInLoop by (simp add: server_exec_def closure_conn_def)
  qed (use F(2) nt in simp_all)
qed

end

text \<open>\<open>poll\<close> finds the channel behind every pointer the kernel may report.\<close>

lemma server_chans_total:
  assumes inv: "safe v ph s" and ch: "chan_of P (life_of v s) (sv_cur s) p"
  shows "server_chans s p \<noteq> None"
proof -
  have L: "life_inv ph (life_of v s)" using inv by (simp add: safe_def)
  consider "p = chan_ptr (lp_wakeupChannel (rx_loop s))" | "p = chan_ptr (ac_channel (sv_acceptor s))"
    | i c where "sv_objects s i = Some c" "chan_ptr (cn_channel c) = p"
    using chan_of_exists [OF ch loop_at_cur] unfolding channel_exists_def by blast
  then show ?thesis
  proof cases
    case (3 i c)
    then obtain j where j: "owner_of p s = Some j" using owner_of_total [OF 3 object_bound [OF L]] by auto
    then have "sv_objects s j \<noteq> None" by (auto simp: owner_of_def find_Some_iff split: option.splits)
    then show ?thesis by (auto simp: server_chans_def j)
  qed (simp_all add: server_chans_def)
qed

lemma server_poll_ok:
  assumes ok: "os_ok os v" and inv: "safe v ph s" and S: "sound fl s"
  shows "\<exists>s'. server_poll os s = Inr s' \<and> going fl P s s'"
proof -
  let ?l = "rx_loop s"
  obtain r k where w: "os_epoll_wait os (pl_epollfd (lp_poller ?l)) (to_int32 (int (pl_events_size (lp_poller ?l)))) kPollTimeMs (rx_kern s) = (r, k)"
    by fastforce
  have "life_inv ph (life_of v s)" using inv by (simp add: safe_def)
  then have "watch_inv (life_of v s)" by (rule life_invD(3))
  then have watch: "chan_of (\<lambda>fd' ix. fd' = fd \<and> ix = kAdded) (life_of v s) (sv_cur s) (ev_ptr e)"
    if "interest v (rx_kern s) (pl_epollfd (lp_poller ?l)) fd = Some e" for fd e
    using that loop_at_cur [of s] unfolding watch_inv_def by (auto simp: life_of_def life_loop_of_def watch_of_def)
  have found: "server_chans s (ev_ptr e) \<noteq> None" if re: "r = Inr evs" "e \<in> set evs" for evs e
  proof -
    obtain fd ev where "interest v (rx_kern s) (pl_epollfd (lp_poller ?l)) fd = Some ev" "ev_ptr ev = ev_ptr e"
      using epoll_wait_views(6) [OF ok w re] by blast
    with watch have "chan_of (\<lambda>fd' ix. fd' = fd \<and> ix = kAdded) (life_of v s) (sv_cur s) (ev_ptr e)" by metis
    then show ?thesis by (rule server_chans_total [OF inv])
  qed
  have "\<exists>x. poll os kPollTimeMs (lp_poller ?l) (server_chans s) (rx_kern s) = Inr x"
  proof (cases r)
    case (Inr evs)
    obtain st ac where "fillActiveChannels evs (server_chans s) [] = Inr (st, ac)"
      using fillActiveChannels_total [of evs "server_chans s" "[]"] found [OF Inr] by blast
    then show ?thesis using w Inr poll_slots(2) [OF ok w [unfolded Inr]] by (simp add: poll_def)
  qed (use w in \<open>simp add: poll_def\<close>)
  then obtain act store q k' where "poll os kPollTimeMs (lp_poller ?l) (server_chans s) (rx_kern s) = Inr (act, store, q, k')"
    by (metis prod_cases4)
  then have p: "server_poll os s = Inr (server_put store (s\<lparr>rx_loop := ?l\<lparr>lp_poller := q, lp_activeChannels := act\<rparr>, rx_kern := k'\<rparr>))"
    by (simp add: server_poll_def)
  let ?s = "server_put store (s\<lparr>rx_loop := ?l\<lparr>lp_poller := q, lp_activeChannels := act\<rparr>, rx_kern := k'\<rparr>)"
  have m: "marks ?s = marks s" using marks_cur [of s] by (auto simp: server_put_def fun_eq_iff)
  have f: "sv_fresh ?s = sv_fresh s" "sv_cur ?s = sv_cur s" "sv_conn_cbs ?s = sv_conn_cbs s" "sv_cbs ?s = sv_cbs s" "sv_pool ?s = sv_pool s"
    by (simp_all add: server_put_def)
  have c: "sv_objects ?s i = Some c' \<longleftrightarrow> (\<exists>c. sv_objects s i = Some c \<and> c' = c\<lparr>cn_channel := pick store (cn_channel c)\<rparr>)" for i c'
    by (auto simp: server_put_def)
  have "sound fl ?s" using S unfolding sound_def m f c by (auto simp: conn_sound_def)
  moreover have "later s ?s" unfolding later_def f c by auto
  moreover have "connecting ?s = connecting s" unfolding connecting_def c by (auto simp: fun_eq_iff)
  ultimately show ?thesis unfolding p by (simp add: going_def moves_def m f awaits_def)
qed

section \<open>All threads\<close>

lemma with_loop_going_Inr:
  assumes run: "with_loop a f s = Inr s'"
    and f: "\<And>t t'. same_server s t \<Longrightarrow> sv_cur t = a \<Longrightarrow> loop_at a s = Some (rx_loop t) \<Longrightarrow> f t = Inr t' \<Longrightarrow> going fl P t t'"
  shows "going fl P s s'"
proof -
  have l: "loop_at a s = Some (rx_loop t)" if "same_server s t" "sv_cur t = a" for t
    using same_server_fields(1) [OF that(1), of a] loop_at_cur [of t] that(2) by simp
  obtain t t' where t: "same_server s t" "sv_cur t = a" "loop_at a s = Some (rx_loop t)" "f t = Inr t'"
    and s': "same_server t' s'" "sv_cur s' = sv_cur s"
    by (rule with_loop_same [OF run]) (use f l in \<open>auto simp: going_def\<close>)
  from f [OF t] show ?thesis using s'(2) moves_same [OF t(1) _ s'(1)] by (simp add: going_def)
qed

text \<open>What the threads keep: the protocol of \<open>Net_Lifetime\<close>, soundness, and that a connection that waits to be
  established is as it was made.\<close>

definition running :: "'k view \<Rightarrow> cb_flags \<Rightarrow> (nat \<Rightarrow> loop_phase) \<Rightarrow> 'k server \<Rightarrow> bool" where
  "running v fl ph s \<longleftrightarrow> safe v ph s \<and> sound fl s \<and> (\<forall>b. filter notice (batch (ph b)) = []) \<and>
     (\<forall>i. pend ph s i \<longrightarrow> connecting s i)"

lemma safe_same: "same_server s t \<Longrightarrow> safe v ph t = safe v ph s"
  by (simp add: safe_def same_server_life)

lemma with_loop_Inl:
  assumes "with_loop a f s = Inl e" and "loop_at a s \<noteq> None" and "e \<noteq> Undefined_Behaviour"
  shows "\<exists>t. same_server s t \<and> sv_cur t = a \<and> f t = Inl e"
proof (cases "a = sv_cur s")
  case True
  then show ?thesis using assms(1) same_server_refl [of s] by (auto simp: with_loop_def)
next
  case False
  then obtain lp where lp: "sv_loops s a = Some lp" using assms(2) by (auto simp: loop_at_def split: if_splits)
  let ?t = "s\<lparr>rx_loop := lp, sv_cur := a, sv_loops := (sv_loops s)(sv_cur s := Some (rx_loop s))\<rparr>"
  have "same_server s ?t" using False lp unfolding same_server_def by (auto simp: loop_at_def)
  moreover have "f ?t = Inl e" using assms(1,3) False lp by (auto simp: with_loop_def res_bind_eq_Inl split: option.splits)
  ultimately show ?thesis by fastforce
qed

lemma polls_succeed:
  assumes ok: "os_ok os v" and inv: "safe v ph s" and S: "sound fl s" and b: "marks s b \<noteq> None"
  shows "\<exists>s'. with_loop b (server_poll os) s = Inr s'"
proof -
  have p: "\<exists>t'. server_poll os t = Inr t' \<and> going fl P t t'" if "same_server s t" for t
    by (rule server_poll_ok [OF ok]) (use inv S safe_same [OF that] same_views(3) [OF that] in simp_all)
  have r: "res_ok (going fl P s) (with_loop b (server_poll os) s)" by (rule with_loop_going [OF b]) (use p in fastforce)
  show ?thesis
  proof (cases "with_loop b (server_poll os) s")
    case (Inl e)
    then have "e \<noteq> Undefined_Behaviour" using r by auto
    then obtain t where "same_server s t" "server_poll os t = Inl e" using with_loop_Inl [OF Inl] b by (auto simp: marks_None)
    with p show ?thesis by fastforce
  qed simp
qed

lemma going_swap:
  assumes S: "sound fl s"
  shows "going fl P s (snd (swap_pending s))" "going fl P s (end_pending s)"
proof -
  have "marks (end_pending s) = marks s" using marks_cur [of s] by (auto simp: end_pending_def fun_eq_iff)
  then have "tidy s (end_pending s)" by (simp add: tidy_def end_pending_def)
  then show "going fl P s (end_pending s)" by (rule going_tidy [OF S])
  show "going fl P s (snd (swap_pending s))"
    using S marks_cur [of s] by (auto simp: going_def moves_def swap_pending_def sound_def later_def connecting_def
        awaits_def split: if_splits)
qed

context sound_application
begin

text \<open>The steps of one thread, from a state the threads can reach.\<close>

lemma handles_ok:
  assumes ok: "os_ok os v" and sk: "sock_ok os v" and inv: "safe v ph s" and S: "sound fl s" and l: "loop_at b s = Some l"
    and ph: "ph b = In_handlers (p # ps)" and fp: "free_ptr (life_of v s) (cptr (sv_fresh s))"
    and n: "sv_nextConnId s \<noteq> 2 ^ 31 - 1" and P: "\<And>i. \<not> pend ph s i \<Longrightarrow> P i"
  shows "res_ok (going fl P s) (with_loop b (server_handle os (app os (lp_threadId l)) (lp_threadId l) cptr peer0 p) s)"
proof (rule with_loop_going)
  fix t assume t: "same_server s t" "sv_cur t = b" "loop_at b s = Some (rx_loop t)"
  show "res_ok (going fl P t) (server_handle os (app os (lp_threadId l)) (lp_threadId l) cptr peer0 p t)"
    by (rule server_handle_ok [where cptr = cptr, OF ok sk])
      (use t l inv S n fp P next_channel(2) [OF inv ph] same_server_life [OF t(1)] same_server_fields [OF t(1)]
        safe_same [OF t(1)] same_views(3) [OF t(1)] pend_same [OF t(1)] in auto)
qed (simp add: marks_None l)

lemma functors_ok:
  assumes ok: "os_ok os v" and inv: "safe v ph s" and S: "sound fl s" and l: "loop_at b s = Some l"
    and ph: "ph b = In_functors (f # fs)" and nt: "\<not> notice f"
    and P: "\<And>i. \<not> pend (ph(b := In_functors fs)) s i \<Longrightarrow> P i" and W: "\<And>i. pend ph s i \<Longrightarrow> connecting s i"
  shows "res_ok (going fl P s) (with_loop b (server_exec os (app os (lp_threadId l)) (lp_threadId l) mem user f) s)"
proof (rule with_loop_going)
  fix t assume t: "same_server s t" "sv_cur t = b" "loop_at b s = Some (rx_loop t)"
  show "res_ok (going fl P t) (server_exec os (app os (lp_threadId l)) (lp_threadId l) mem user f t)"
    by (rule server_exec_ok [where ph = ph and fs = fs, OF ok])
      (use t l inv S ph nt P W safe_same [OF t(1)] same_views(1,3) [OF t(1)] pend_same [OF t(1)] in auto)
qed (simp add: marks_None l)

text \<open>A step keeps what is required of the connections that wait: \<open>ph'\<close> are the phases after the step.\<close>

lemma going_waits:
  assumes "going fl (\<lambda>i. \<not> pend ph' s i) s s'" and "\<And>i. pend ph' s i \<Longrightarrow> connecting s i" and "pend ph' s' i"
  shows "connecting s' i"
proof -
  have "connecting s' i" if "pend ph' s i" using assms(1) assms(2) [OF that] that by (auto simp: going_def moves_def)
  then show ?thesis using assms(1,3) by (auto simp: going_def moves_def pend_def)
qed

lemma sl_step_kept:
  assumes ok: "os_ok os v" and sk: "sock_ok os v" and step: "sl_step os (app os) v (ph, s) (ph', s')" and R: "running v fl ph s"
  shows "going fl (\<lambda>i. \<not> pend ph' s i) s s' \<and> (\<forall>i. pend ph' s i \<longrightarrow> pend ph s i) \<and> (\<forall>b. filter notice (batch (ph' b)) = []) \<or>
    (\<exists>i c. sv_objects s i = Some c \<and> ph' = ph \<and> s' = free_object os i c s)"
proof -
  let ?G = "\<lambda>t t'. going fl (\<lambda>i. \<not> pend ph' s i) t t'"
  have inv: "safe v ph s" and S: "sound fl s" and q: "\<And>b. filter notice (batch (ph b)) = []"
    and W: "\<And>i. pend ph s i \<Longrightarrow> connecting s i" using R by (simp_all add: running_def)
  have St: "sound fl t" if "same_server s t" for t using S same_views(3) [OF that] by simp
  show ?thesis
    using step
  proof (cases rule: sl_step.cases)
    case (polls b l)
    have "?G s s'"
      by (rule with_loop_going_Inr [OF polls(3)])
        (use server_poll_ok [OF ok, of ph _ fl] inv S safe_same same_views(3) in fastforce)
    then show ?thesis using q polls by (auto simp: pend_def split: if_splits)
  next
    case (handles b p ps l cptr peer0)
    have "?G s s'"
    proof (rule with_loop_going_Inr [OF handles(5)])
      fix t t' assume t: "same_server s t" "sv_cur t = b" "loop_at b s = Some (rx_loop t)"
        and r: "server_handle os (app os (lp_threadId l)) (lp_threadId l) cptr peer0 p t = Inr t'"
      have pe: "\<not> pend ph t i \<Longrightarrow> \<not> pend ph' s i" for i
        using handles(1,2) pend_same [OF t(1)] by (auto simp: pend_def split: if_splits)
      show "?G t t'"
        by (rule server_handle_going [where cptr = cptr, OF ok sk _ _ _ _ _ pe r])
          (use t inv S handles next_channel(2) [OF inv handles(2)] same_server_life [OF t(1)] same_server_fields [OF t(1)]
            safe_same [OF t(1)] same_views(3) [OF t(1)] in auto)
    qed
    then show ?thesis using q handles by (auto simp: pend_def split: if_splits)
  next
    case (swaps b l)
    have "?G s s'" by (rule with_loop_going_Inr [OF swaps(4)]) (auto intro: going_swap St)
    moreover have "filter notice (lp_pendingFunctors l) = []" using soundD(6) [OF S, of b] swaps by (simp add: marks_def)
    moreover have "awaits s i" if "Fn_connectEstablished i \<in> set (lp_pendingFunctors l)" for i
      using that swaps(3) by (fastforce simp: awaits_def marks_def)
    ultimately show ?thesis using q swaps by (auto simp: pend_def split: if_splits)
  next
    case (runs b f fs l mem user)
    have nt: "\<not> notice f" "filter notice fs = []" using q [of b] runs(2) by (auto split: if_splits)
    have "?G s s'"
      by (rule res_ok_Inr [OF functors_ok [OF ok inv S runs(3,2) nt(1)] runs(4)]) (use W runs(1) in auto)
    then show ?thesis using q runs nt(2) pend_pop [of ph b fs s _ f] by auto
  next
    case (ends b)
    have "?G s s'" by (rule with_loop_going_Inr [OF ends(3)]) (auto intro: going_swap St)
    then show ?thesis using q ends by (auto simp: pend_def split: if_splits)
  next
    case (frees i c)
    then show ?thesis by blast
  qed
qed

lemma sl_step_running:
  assumes ok: "os_ok os v" and sk: "sock_ok os v" and step: "sl_step os (app os) v (ph, s) (ph', s')" and R: "running v fl ph s"
  shows "running v fl ph' s'" "later s s'"
proof -
  have inv: "safe v ph s" and S: "sound fl s" and q: "\<And>b. filter notice (batch (ph b)) = []"
    and W: "\<And>i. pend ph s i \<Longrightarrow> connecting s i" using R by (simp_all add: running_def)
  have inv': "safe v ph' s'" using sl_step_safe [OF ok sk step] inv by simp
  consider (goes) "going fl (\<lambda>i. \<not> pend ph' s i) s s'" "\<And>i. pend ph' s i \<Longrightarrow> pend ph s i" "\<And>b. filter notice (batch (ph' b)) = []"
    | (frees) i c where "sv_objects s i = Some c" "ph' = ph" "s' = free_object os i c s"
    using sl_step_kept [OF assms] by blast
  then have "running v fl ph' s' \<and> later s s'"
  proof cases
    case goes
    then show ?thesis using inv' W going_waits [OF goes(1)] by (auto simp: running_def going_def moves_def)
  next
    case (frees i c)
    then have m: "marks s' = marks s" and f: "sv_fresh s' = sv_fresh s" "sv_objects s' = (sv_objects s)(i := None)"
      by (simp_all add: free_object_def)
    have "sound fl s'" using S frees(3) by (simp add: free_object_def sound_def)
    moreover have "connecting s' j" if pe: "pend ph' s' j" for j
    proof -
      obtain d where "sv_objects s' j = Some d" by (rule pend_object [OF inv' pe])
      moreover have "connecting s j" using W [of j] pe frees(2) m by (simp add: pend_def awaits_def)
      ultimately show ?thesis using f(2) by (auto simp: connecting_def split: if_splits)
    qed
    ultimately show ?thesis using inv' q frees(2) f by (auto simp: running_def later_def)
  qed
  then show "running v fl ph' s'" "later s s'" by blast+
qed

lemma sl_reach_running:
  assumes "os_ok os v" and "sock_ok os v" and "sl_reach os (app os) v (ph, s) (ph', s')" and "running v fl ph s"
  shows "running v fl ph' s'" "later s s'"
proof -
  have "running v fl (fst y) (snd y) \<and> later (snd x) (snd y)"
    if "sl_reach os (app os) v x y" "running v fl (fst x) (snd x)" for x y
    using that
  proof (induction rule: rtranclp_induct)
    case (step y z)
    then show ?case using sl_step_running [OF assms(1,2), of "fst y" "snd y" "fst z" "snd z"] later_trans by auto
  qed simp
  from this [OF assms(3)] assms(4) show "running v fl ph' s'" "later s s'" by simp_all
qed

end

section \<open>The echo server\<close>

definition echo_flags :: cb_flags where
  "echo_flags = \<lparr>has_connectionCallback = True, has_messageCallback = True, has_writeCompleteCallback = False\<rparr>"

lemma echo_onMessage_fine:
  assumes "conn_sound (cs_conn s)" and "silent cbs"
  shows "fine s (echo_onMessage os cbs tid sptr s)"
proof -
  let ?b = "cn_inputBuffer (cs_conn s)"
  let ?s1 = "s\<lparr>cs_conn := (cs_conn s)\<lparr>cn_inputBuffer := retrieveAll ?b\<rparr>\<rparr>"
  have wf: "wf_buffer ?b" using assms(1) by (simp add: conn_sound_def)
  have "length (contents ?b) \<le> vector_max" using wf by (auto simp: wf_buffer_def)
  then have "fine s (send os cbs tid sptr (contents ?b) ?s1)"
    by (intro fine_trans [OF _ _ send_fine]) (use assms wf_retrieveAll [OF wf] in \<open>simp_all add: conn_sound_def\<close>)
  then have "fine s (res_bind (send os cbs tid sptr (contents ?b) ?s1) (\<lambda>s1. Inr (shutdown os tid s1)))"
    by (rule fine_bind) (rule shutdown_fine)
  then show ?thesis by (simp add: echo_onMessage_def retrieveAllAsString_wf [OF wf])
qed

interpretation echo_sound: sound_application echo_app echo_flags
proof (unfold_locales, goal_cases)
  case (6 os v g tid ph i s)
  then show ?case using echo_onMessage_fine [OF 6(4)]
    by (auto simp: echo_app_def app_callbacks_def echo_onConnection_def)
qed (simp_all add: echo_flags_def echo_app_def)

subsection \<open>From the constructors\<close>

lemma startLoop_marks:
  fixes s :: "'k server"
  assumes "envs_ok os room envs" and "room (\<lambda>b. loop_at b s) (rx_kern s)" and "startLoop envs nm s = Inr (a, s')"
  shows "dom (marks s') = insert a (dom (marks s))" "sv_cbs s' = sv_cbs s" "room (\<lambda>b. loop_at b s') (rx_kern s')"
proof -
  obtain r :: "'k reactor" where s': "s' = s\<lparr>sv_loops := (sv_loops s)(a \<mapsto> rx_loop r), rx_kern := rx_kern r\<rparr>" and a: "loop_at a s = None"
    and "room (\<lambda>b. loop_at b s') (rx_kern s')"
    by (rule startLoop_placed [OF assms]) blast
  then show "room (\<lambda>b. loop_at b s') (rx_kern s')" by blast
  have lo: "loop_at b s' = (if b = a then Some (rx_loop r) else loop_at b s)" for b
    using a by (auto simp: s' loop_at_def split: if_splits)
  show "dom (marks s') = insert a (dom (marks s))" by (auto simp: dom_def marks_def lo)
  show "sv_cbs s' = sv_cbs s" by (simp add: s')
qed

lemma start_threads_loops:
  assumes sp: "envs_ok os room envs"
  shows "room (\<lambda>b. loop_at b s) (rx_kern s) \<Longrightarrow> start_threads (startLoop envs) i n p s = Inr (p', s') \<Longrightarrow>
    set (ep_loops p) \<subseteq> dom (marks s) \<Longrightarrow>
    set (ep_loops p') \<subseteq> dom (marks s') \<and> dom (marks s) \<subseteq> dom (marks s') \<and> sv_cbs s' = sv_cbs s \<and>
    ep_next p' = ep_next p \<and> ep_baseLoop p' = ep_baseLoop p"
proof (induction n arbitrary: i p s)
  case 0
  then show ?case by simp
next
  case (Suc n)
  let ?nm = "thread_name (ep_name p) i"
  obtain a s1 where s1: "startLoop envs ?nm s = Inr (a, s1)"
    and r: "start_threads (startLoop envs) (i + 1) n (p\<lparr>ep_threads := ep_threads p @ [?nm], ep_loops := ep_loops p @ [a]\<rparr>) s1 = Inr (p', s')"
    using Suc.prems(2) by (auto simp: Let_def elim!: res_bindE)
  note N = startLoop_marks [OF sp Suc.prems(1) s1]
  show ?case using Suc.IH [OF N(3) r] Suc.prems(3) N(1,2) by auto
qed

lemma EchoServer_running:
  assumes ok: "os_ok os v" and sk: "sock_ok os v" and sp: "envs_ok os room envs"
    and ev: "EventLoop os False False tid wptr k = Inr r" and mk: "EchoServer os obj0 (Some a) addr nm aptr r = Inr s"
    and rm: "room (\<lambda>b. loop_at b s) (rx_kern s)" and run: "start os envs None tid s = Inr s0"
  shows "running v echo_flags (\<lambda>_. In_poll) s0"
proof -
  obtain s1 where s1: "TcpServer os obj0 (Some a) addr nm False aptr r = Inr s1"
    and s: "s = setThreadNum 3 (setMessageCallback (setConnectionCallback s1))"
    using mk by (auto simp: EchoServer_def elim!: res_bindE)
  note up = s setThreadNum_def setMessageCallback_def setConnectionCallback_def pool_setThreadNum_def
  note T = TcpServer_listening [OF ok sk ev s1]
  have s1f: "sv_cbs s1 = \<lparr>has_connectionCallback = False, has_messageCallback = False, has_writeCompleteCallback = False\<rparr>"
    "sv_pool s1 = EventLoopThreadPool (sv_cur s1) nm"
    using s1 by (auto simp: TcpServer_def elim!: res_bindE split: if_splits)
  have sf: "listening v s" "sv_cur s = sv_loop s" "lp_threadId (rx_loop s) = tid" "sv_started s = 0"
    "chan_index (ac_channel (sv_acceptor s)) = kNew" using T by (simp_all add: up)
  have pool: "sv_cbs s = echo_flags" "ep_loops (sv_pool s) = []" "ep_next (sv_pool s) = 0" "ep_baseLoop (sv_pool s) = sv_cur s"
    using s1f by (simp_all add: up EventLoopThreadPool_def echo_flags_def)
  obtain p s2 where st: "start_threads (startLoop envs) 0 (nat (ep_numThreads (sv_pool s))) ((sv_pool s)\<lparr>ep_started := True\<rparr>)
      (s\<lparr>sv_started := 1\<rparr>) = Inr (p, s2)" and ac: "acceptor_listen os (s2\<lparr>sv_pool := p\<rparr>) = Inr s0"
    and l0: "listening v s0" and p: "sv_pool s0 = p"
    by (rule start_listening [OF ok sk sp sf(1) rm sf(2-5) run])
  have n1: "marks (s\<lparr>sv_started := 1\<rparr>) = marks s" by (simp add: marks_def fun_eq_iff)
  have "set (ep_loops p) \<subseteq> dom (marks s2) \<and> dom (marks (s\<lparr>sv_started := 1\<rparr>)) \<subseteq> dom (marks s2) \<and>
      sv_cbs s2 = sv_cbs s \<and> ep_next p = 0 \<and> ep_baseLoop p = sv_cur s"
    using start_threads_loops [OF sp _ st] rm pool by simp
  then have L: "set (getAllLoops p) \<subseteq> dom (marks s2)" "sv_cbs s2 = sv_cbs s" "next_ok p"
    using marks_cur [of s] by (auto simp: getAllLoops_def next_ok_def n1)
  have n2: "marks (s2\<lparr>sv_pool := p\<rparr>) = marks s2" by (simp add: marks_def fun_eq_iff)
  obtain q k' acc where s0: "s0 = (s2\<lparr>sv_pool := p\<rparr>)\<lparr>rx_loop := (rx_loop s2)\<lparr>lp_poller := q\<rparr>, rx_kern := k', sv_acceptor := acc\<rparr>"
    by (rule acceptor_listen_shape [OF ac]) simp
  have n0: "marks s0 = marks s2" "sv_cbs s0 = sv_cbs s2"
    using marks_cur [of s2] n2 unfolding s0 by (auto simp: fun_eq_iff)
  have "marks s0 b = Some q \<Longrightarrow> filter notice q = []" for b q
    using l0 by (auto simp: listening_def marks_def)
  moreover have "sv_objects s0 = Map.empty" using l0 by (simp add: listening_def)
  ultimately have "sound echo_flags s0" using L n0 p pool(1) unfolding sound_def by auto
  moreover have "\<not> pend (\<lambda>_. In_poll) s0 i" for i using l0 by (auto simp: pend_def awaits_def marks_def listening_def)
  ultimately show ?thesis using listening_safe [OF l0] by (simp add: running_def)
qed

subsection \<open>A connection of the small instance\<close>

text \<open>The server of \<open>Net_Echo\<close> accepts a connection and hands it to the loop at address 106, which
  establishes it. The buffers and the mark of the connection are left open.\<close>

definition sim_polled :: "kernel server" where
  "sim_polled = projr (res_bind (start sim_os sim_envs None 1 sim_echo) (with_loop 50 (server_poll sim_os)))"

definition sim_peer :: sockaddr_in where
  "sim_peer = \<lparr>sin_family = 2, sin_port = 0, sin_addr = (127, 0, 0, 1)\<rparr>"

definition sim_conn :: "nat \<Rightarrow> buffer \<Rightarrow> tcp_connection" where
  "sim_conn h b =
     \<lparr>cn_id = 0, cn_name = conn_name (sv_name sim_polled) (sv_ipPort sim_polled) 1, cn_state = kConnecting, cn_reading = True,
      cn_sockfd = 12, cn_channel = (Channel 300 12)\<lparr>readCallback := Some Conn_handleRead,
        writeCallback := Some Conn_handleWrite, closeCallback := Some Conn_handleClose, errorCallback := Some Conn_handleError\<rparr>,
      cn_localAddr = sim_peer, cn_peerAddr = sim_peer, cn_highWaterMark = h, cn_inputBuffer = b, cn_outputBuffer = b\<rparr>"

definition sim_handed :: "nat \<Rightarrow> buffer \<Rightarrow> kernel server res" where
  "sim_handed h b =
     with_loop 106 (runInLoop sim_os
         (\<lambda>_. with_conn 0 (connectEstablished sim_os (conn_cbs sim_os (echo_app sim_os 1) 1 (sv_cbs sim_polled) 0)))
         1 (Fn_connectEstablished 0))
       (added_conn 106 ((sv_pool sim_polled)\<lparr>ep_next := 1\<rparr>) (sim_conn h b) ((rx_kern sim_polled)\<lparr>k_next := 13,
         k_accepted := (k_accepted (rx_kern sim_polled))(12 := []), k_delivered := (k_delivered (rx_kern sim_polled))(12 := [])\<rparr>) sim_polled)"

definition sim_asked :: "nat \<Rightarrow> buffer \<Rightarrow> kernel server res" where
  "sim_asked h b = res_bind (sim_handed h b) (with_loop 106 (server_poll sim_os))"

definition sim_turned :: "nat \<Rightarrow> buffer \<Rightarrow> kernel server res" where
  "sim_turned h b =
     res_bind (sim_asked h b) (\<lambda>s. res_bind (with_loop 106 (\<lambda>s. Inr (snd (swap_pending s))) s)
       (with_loop 106 (server_exec sim_os (echo_app sim_os 6) 6 (\<lambda>_ _. None) (\<lambda>_. Inr) (Fn_connectEstablished 0))))"

lemma sim_polled_eval:
  "(getNextLoop (sv_pool sim_polled), sv_nextConnId sim_polled, sv_fresh sim_polled, sv_cur sim_polled, k_next (rx_kern sim_polled),
    lp_threadId (rx_loop sim_polled), chan_ptr (lp_wakeupChannel (rx_loop sim_polled)), sv_acceptor sim_polled) =
   (Inr (106, (sv_pool sim_polled)\<lparr>ep_next := 1\<rparr>), 1, 0, 50, 12, 1, 0,
    (sv_acceptor sim_polled)\<lparr>ac_newConnectionCallback := True, ac_channel := (ac_channel (sv_acceptor sim_polled))\<lparr>chan_ptr := 9,
      chan_revents := 1, chan_tied := False, readCallback := Some Acceptor_handleRead, closeCallback := None, errorCallback := None\<rparr>\<rparr>)"
  by code_simp

lemma sim_polled_facts:
  "getNextLoop (sv_pool sim_polled) = Inr (106, (sv_pool sim_polled)\<lparr>ep_next := 1\<rparr>)"
  "sv_nextConnId sim_polled = 1" "sv_fresh sim_polled = 0" "sv_cur sim_polled = 50"
  "k_next (rx_kern sim_polled) = 12" "lp_threadId (rx_loop sim_polled) = 1" "chan_ptr (lp_wakeupChannel (rx_loop sim_polled)) = 0"
  using sim_polled_eval by simp_all

lemma sim_polled_acceptor:
  "ac_newConnectionCallback (sv_acceptor sim_polled)" "chan_ptr (ac_channel (sv_acceptor sim_polled)) = 9"
  "chan_revents (ac_channel (sv_acceptor sim_polled)) = 1" "\<not> chan_tied (ac_channel (sv_acceptor sim_polled))"
  "readCallback (ac_channel (sv_acceptor sim_polled)) = Some Acceptor_handleRead"
  "closeCallback (ac_channel (sv_acceptor sim_polled)) = None" "errorCallback (ac_channel (sv_acceptor sim_polled)) = None"
proof -
  obtain ac ch where e: "sv_acceptor sim_polled = ac\<lparr>ac_newConnectionCallback := True, ac_channel := ch\<lparr>chan_ptr := 9,
      chan_revents := 1, chan_tied := False, readCallback := Some Acceptor_handleRead, closeCallback := None, errorCallback := None\<rparr>\<rparr>"
    using sim_polled_eval by blast
  show "ac_newConnectionCallback (sv_acceptor sim_polled)" "chan_ptr (ac_channel (sv_acceptor sim_polled)) = 9"
    "chan_revents (ac_channel (sv_acceptor sim_polled)) = 1" "\<not> chan_tied (ac_channel (sv_acceptor sim_polled))"
    "readCallback (ac_channel (sv_acceptor sim_polled)) = Some Acceptor_handleRead"
    "closeCallback (ac_channel (sv_acceptor sim_polled)) = None" "errorCallback (ac_channel (sv_acceptor sim_polled)) = None"
    unfolding e by simp_all
qed

lemma sim_polled_free: "free_ptr (life_of sim_view sim_polled) 300"
proof -
  have "case loop_at b sim_polled of None \<Rightarrow> True | Some l \<Rightarrow> chan_ptr (lp_wakeupChannel l) < 300" for b
    by code_simp (simp add: loop_at_def)
  moreover have "sv_objects sim_polled i = None" for i by code_simp
  ultimately show ?thesis
    using sim_polled_acceptor(2) by (fastforce simp: free_ptr_def life_of_def life_loop_of_def split: option.splits)
qed

lemma sim_calls:
  "os_accept4 sim_os fd k = (Inr (k_next k, sim_peer), k\<lparr>k_next := k_next k + 1,
     k_accepted := (k_accepted k)(k_next k := []), k_delivered := (k_delivered k)(k_next k := [])\<rparr>)" "os_getsockname sim_os fd k = (Inr sim_peer, k)"
  "os_setsockopt sim_os fd opt on k = k"
  by (simp_all add: sim_os_def sim_peer_def)

lemma sim_handed_eval:
  "(isl (sim_handed h b), writeCallback (ac_channel (sv_acceptor (projr (sim_handed h b)))),
    map_option cn_state (sv_objects (projr (sim_handed h b)) 0)) = (False, None, Some kConnecting)"
  by code_simp

lemmas sim_handed_facts = sim_handed_eval [unfolded prod.inject, THEN conjunct1] sim_handed_eval [unfolded prod.inject, THEN conjunct2, THEN conjunct1]
  sim_handed_eval [unfolded prod.inject, THEN conjunct2, THEN conjunct2]

lemma sim_asked_eval:
  "(isl (sim_asked h b), map_option (\<lambda>l. (lp_activeChannels l, lp_pendingFunctors l, lp_threadId l)) (loop_at 106 (projr (sim_asked h b)))) =
   (False, Some ([], [Fn_connectEstablished 0], 6))"
  by code_simp

lemma sim_turned_eval:
  "(isl (sim_turned h b), map_option cn_state (sv_objects (projr (sim_turned h b)) 0)) = (False, Some kConnected)"
  by code_simp

lemma sim_swapped_thread:
  "map_option lp_threadId (loop_at 106 (projr (res_bind (sim_asked h b) (with_loop 106 (\<lambda>s. Inr (snd (swap_pending s))))))) = Some 6"
  by code_simp

lemma sim_handles:
  assumes "Buffer kInitialSize = Inr b"
  shows "with_loop 50 (server_handle sim_os (echo_app sim_os 1) 1 (\<lambda>_. 300) zero_addr 9) sim_polled = sim_handed (64 * 1024 * 1024) b"
proof -
  have "acceptor_handleRead sim_os (echo_app sim_os 1) 1 (\<lambda>_. 300) zero_addr sim_polled = sim_handed (64 * 1024 * 1024) b"
    using assms by (simp add: acceptor_handleRead_def socket_accept_def newConnection_def TcpConnection_def sim_handed_def
        added_conn_def sim_conn_def sim_calls Let_def sim_polled_facts sim_polled_acceptor)
  then show ?thesis
    using sim_handed_facts(1,2) [of "64 * 1024 * 1024" b]
    by (cases "sim_handed (64 * 1024 * 1024) b")
      (simp_all add: with_loop_def server_handle_def handleEvent_def handleEventWithGuard_def call_if_def
        sim_polled_facts sim_polled_acceptor EPOLLIN_def EPOLLPRI_def EPOLLHUP_def EPOLLERR_def)
qed

lemma sim_starts:
  obtains s0 where "start sim_os sim_envs None 1 sim_echo = Inr s0"
    "sl_reach sim_os (echo_app sim_os) sim_view (\<lambda>_. In_poll, s0) ((\<lambda>_. In_poll)(50 := In_handlers [9]), sim_polled)"
    "loop_at 50 sim_polled = Some (rx_loop sim_polled)"
proof -
  obtain s0 s l where s0: "start sim_os sim_envs None 1 sim_echo = Inr s0"
    and s: "with_loop 50 (server_poll sim_os) s0 = Inr s" and l: "loop_at 50 s = Some l" "lp_activeChannels l = [9]"
    and go: "s = projr (res_bind (start sim_os sim_envs None 1 sim_echo) (with_loop 50 (server_poll sim_os)))"
    by (rule sim_echo_polls)
  have e: "s = sim_polled" using go by (simp add: sim_polled_def)
  have "sl_reach sim_os (echo_app sim_os) sim_view (\<lambda>_. In_poll, s0) ((\<lambda>_. In_poll)(50 := In_handlers (lp_activeChannels l)), s)"
    by (rule r_into_rtranclp, rule sl_step.polls [OF _ s l(1)]) simp
  then show ?thesis using that s0 l e loop_at_cur [of sim_polled] sim_polled_facts(4) by simp
qed

text \<open>The base loop accepts; the other loop polls, swaps its queue and runs the closure.\<close>

lemma sim_connects:
  obtains s ph s' where
    "sl_step sim_os (echo_app sim_os) sim_view ((\<lambda>_. In_poll)(50 := In_handlers [9]), sim_polled) ((\<lambda>_. In_poll)(50 := In_handlers []), s)"
    "sl_reach sim_os (echo_app sim_os) sim_view ((\<lambda>_. In_poll)(50 := In_handlers []), s) (ph, s')"
    "map_option cn_state (sv_objects s 0) = Some kConnecting" "map_option cn_state (sv_objects s' 0) = Some kConnected"
proof -
  obtain b where b: "Buffer kInitialSize = Inr b" using Buffer_wf [of kInitialSize] by (auto simp: buffer_consts)
  let ?h = "64 * 1024 * 1024" and ?ph = "(\<lambda>_. In_poll)(50 := In_handlers [])"
  obtain s where s: "sim_handed ?h b = Inr s" using sim_handed_facts(1) [of ?h b] by (cases "sim_handed ?h b") auto
  obtain t where t: "with_loop 106 (server_poll sim_os) s = Inr t"
    using sim_asked_eval [of ?h b] s by (cases "with_loop 106 (server_poll sim_os) s") (auto simp: sim_asked_def)
  obtain l where l: "loop_at 106 t = Some l" "lp_activeChannels l = []" "lp_pendingFunctors l = [Fn_connectEstablished 0]"
    using sim_asked_eval [of ?h b] s t by (auto simp: sim_asked_def)
  obtain u where u: "with_loop 106 (\<lambda>s. Inr (snd (swap_pending s))) t = Inr u"
    using sim_turned_eval [of ?h b] s t
    by (cases "with_loop 106 (\<lambda>s. Inr (snd (swap_pending s))) t") (auto simp: sim_turned_def sim_asked_def)
  obtain m where m: "loop_at 106 u = Some m" "lp_threadId m = 6"
    using sim_swapped_thread [of ?h b] s t u by (auto simp: sim_asked_def)
  let ?ex = "with_loop 106 (server_exec sim_os (echo_app sim_os 6) 6 (\<lambda>_ _. None) (\<lambda>_. Inr) (Fn_connectEstablished 0)) u"
  obtain w where w: "?ex = Inr w"
    using sim_turned_eval [of ?h b] s t u by (cases ?ex) (auto simp: sim_turned_def sim_asked_def)
  have base: "sl_step sim_os (echo_app sim_os) sim_view ((\<lambda>_. In_poll)(50 := In_handlers [9]), sim_polled) (?ph, s)"
    using sl_step.handles [of "(\<lambda>_. In_poll)(50 := In_handlers [9])" 50 9 "[]" sim_polled "rx_loop sim_polled" sim_view "\<lambda>_. 300"
        sim_os "echo_app sim_os" zero_addr s] sim_handles [OF b] s sim_polled_free sim_polled_facts loop_at_cur [of sim_polled]
    by (simp add: fun_upd_idem)
  have 1: "sl_step sim_os (echo_app sim_os) sim_view (?ph, s) (?ph(106 := In_handlers []), t)"
    using sl_step.polls [of ?ph 106 sim_os s t l] t l by simp
  have 2: "sl_step sim_os (echo_app sim_os) sim_view (?ph(106 := In_handlers []), t) (?ph(106 := In_functors [Fn_connectEstablished 0]), u)"
    using sl_step.swaps [of "?ph(106 := In_handlers [])" 106 t l u] u l by simp
  have 3: "sl_step sim_os (echo_app sim_os) sim_view (?ph(106 := In_functors [Fn_connectEstablished 0]), u) (?ph(106 := In_functors []), w)"
    using sl_step.runs [of "?ph(106 := In_functors [Fn_connectEstablished 0])" 106 "Fn_connectEstablished 0" "[]" u m sim_os "echo_app sim_os"] w m
    by simp
  have "sl_reach sim_os (echo_app sim_os) sim_view (?ph, s) (?ph(106 := In_functors []), w)"
    using 1 2 3 by (meson converse_rtranclp_into_rtranclp rtranclp.rtrancl_refl)
  moreover have "map_option cn_state (sv_objects s 0) = Some kConnecting" using sim_handed_facts(3) [of ?h b] s by simp
  moreover have "map_option cn_state (sv_objects w 0) = Some kConnected"
    using sim_turned_eval [of ?h b] s t u w by (simp add: sim_turned_def sim_asked_def)
  ultimately show ?thesis using that base by blast
qed

section \<open>Properties\<close>

text \<open>C4: A running echo server never goes wrong. In every state its threads can reach, for every loop: the next
  call of \<open>poll\<close> returns; the next event handler and the next queued closure return, or end the process on
  purpose, or report that a buffer would exceed the largest size of a vector. They never are undefined behaviour
  and never call an empty \<open>std::function\<close>, with one exception: a handler may after \<open>2 ^ 31 - 2\<close> connections,
  when \<open>nextConnId_\<close> overflows.\<close>

theorem echo_server_never_undefined:
  assumes "os_ok os v" and "sock_ok os v" and "envs_ok os room envs"
    and "EventLoop os False False tid wptr k = Inr r" and "EchoServer os obj0 (Some a) addr nm aptr r = Inr s1"
    and "room (\<lambda>b. loop_at b s1) (rx_kern s1)" and "start os envs None tid s1 = Inr s0"
    and "sl_reach os (echo_app os) v (\<lambda>_. In_poll, s0) (ph, s)" and "loop_at b s = Some l"
  shows "(\<exists>s'. with_loop b (server_poll os) s = Inr s') \<and>
    (\<forall>p ps cptr peer0 e. ph b = In_handlers (p # ps) \<longrightarrow> free_ptr (life_of v s) (cptr (sv_fresh s)) \<longrightarrow>
       with_loop b (server_handle os (echo_app os (lp_threadId l)) (lp_threadId l) cptr peer0 p) s = Inl e \<longrightarrow>
       e = Fatal_Exit \<or> e = Length_Error \<or> sv_nextConnId s = 2 ^ 31 - 1) \<and>
    (\<forall>f fs mem user e. ph b = In_functors (f # fs) \<longrightarrow>
       with_loop b (server_exec os (echo_app os (lp_threadId l)) (lp_threadId l) mem user f) s = Inl e \<longrightarrow>
       e = Fatal_Exit \<or> e = Length_Error)"
proof (intro conjI allI impI)
  have R: "running v echo_flags ph s"
    by (rule echo_sound.sl_reach_running(1) [OF assms(1,2,8) EchoServer_running [OF assms(1-7)]])
  then have inv: "safe v ph s" and S: "sound echo_flags s" and q: "\<And>b. filter notice (batch (ph b)) = []"
    and W: "\<And>i. pend ph s i \<Longrightarrow> connecting s i" by (simp_all add: running_def)
  have nb: "marks s b \<noteq> None" using assms(9) by (simp add: marks_None)
  show "\<exists>s'. with_loop b (server_poll os) s = Inr s'" by (rule polls_succeed [OF assms(1) inv S nb])
  show "e = Fatal_Exit \<or> e = Length_Error \<or> sv_nextConnId s = 2 ^ 31 - 1"
    if ph: "ph b = In_handlers (p # ps)" and fp: "free_ptr (life_of v s) (cptr (sv_fresh s))"
      and run: "with_loop b (server_handle os (echo_app os (lp_threadId l)) (lp_threadId l) cptr peer0 p) s = Inl e"
    for p ps cptr peer0 e
    using res_ok_Inl [OF echo_sound.handles_ok [where cptr = cptr and P = "\<lambda>_. True", OF assms(1,2) inv S assms(9) ph fp] run] by blast
  show "e = Fatal_Exit \<or> e = Length_Error"
    if ph: "ph b = In_functors (f # fs)"
      and run: "with_loop b (server_exec os (echo_app os (lp_threadId l)) (lp_threadId l) mem user f) s = Inl e" for f fs mem user e
    by (rule res_ok_Inl [OF echo_sound.functors_ok [where P = "\<lambda>_. True", OF assms(1) inv S assms(9) ph] run]) (use q [of b] ph W in \<open>auto split: if_splits\<close>)
qed

theorem echo_server_never_undefined_witness:
  "\<exists>s0 ph s l. start sim_os sim_envs None 1 sim_echo = Inr s0 \<and>
     sl_reach sim_os (echo_app sim_os) sim_view (\<lambda>_. In_poll, s0) (ph, s) \<and> loop_at 50 s = Some l \<and> ph 50 = In_handlers [9] \<and>
     with_loop 50 (server_handle sim_os (echo_app sim_os (lp_threadId l)) (lp_threadId l) (\<lambda>_. 300) zero_addr 9) s \<noteq>
       Inl Undefined_Behaviour"
proof -
  obtain r where r: "EventLoop sim_os False False 1 0 sim_kernel = Inr r"
    "EchoServer sim_os (sim_tcp kDisconnected) (Some 50) sim_listen_addr ''echo'' 9 r = Inr sim_echo"
    by (rule sim_echo_made)
  let ?ph = "(\<lambda>_. In_poll)(50 := In_handlers [9])" and ?l = "rx_loop sim_polled"
  obtain s0 where s0: "start sim_os sim_envs None 1 sim_echo = Inr s0"
    and rch: "sl_reach sim_os (echo_app sim_os) sim_view (\<lambda>_. In_poll, s0) (?ph, sim_polled)"
    and l: "loop_at 50 sim_polled = Some ?l"
    by (rule sim_starts)
  have "e = Fatal_Exit \<or> e = Length_Error"
    if "with_loop 50 (server_handle sim_os (echo_app sim_os (lp_threadId ?l)) (lp_threadId ?l) (\<lambda>_. 300) zero_addr 9) sim_polled = Inl e" for e
    using echo_server_never_undefined [OF sim_os_ok sim_sock_ok sim_envs_ok r sim_echo_room s0 rch l] that sim_polled_free
      sim_polled_facts(2) by auto
  then have "with_loop 50 (server_handle sim_os (echo_app sim_os (lp_threadId ?l)) (lp_threadId ?l) (\<lambda>_. 300) zero_addr 9) sim_polled \<noteq>
      Inl Undefined_Behaviour" by fastforce
  then show ?thesis using s0 rch l by (intro exI [of _ s0] exI [of _ ?ph] exI [of _ sim_polled] exI [of _ ?l]) simp
qed

text \<open>C5: The state of a connection only moves forward, from connecting over connected and disconnecting to
  disconnected. Between any two states the threads of a running echo server can reach, an object that exists in
  both has not gone back, and an object that was freed does not exist again.\<close>

theorem connection_states_move_forward:
  assumes "os_ok os v" and "sock_ok os v" and "envs_ok os room envs"
    and "EventLoop os False False tid wptr k = Inr r" and "EchoServer os obj0 (Some a) addr nm aptr r = Inr s1"
    and "room (\<lambda>b. loop_at b s1) (rx_kern s1)" and "start os envs None tid s1 = Inr s0"
    and "sl_reach os (echo_app os) v (\<lambda>_. In_poll, s0) (ph, s)" and "sl_reach os (echo_app os) v (ph, s) (ph', s')"
  shows "(\<forall>i c c'. sv_objects s i = Some c \<longrightarrow> sv_objects s' i = Some c' \<longrightarrow> cn_state c \<le> cn_state c') \<and>
    (\<forall>i < sv_fresh s. sv_objects s i = None \<longrightarrow> sv_objects s' i = None)"
proof -
  have R: "running v echo_flags ph s"
    by (rule echo_sound.sl_reach_running(1) [OF assms(1,2,8) EchoServer_running [OF assms(1-7)]])
  then have "life_inv ph (life_of v s)" by (simp add: running_def safe_def)
  then have "i < sv_fresh s" if "sv_objects s i \<noteq> None" for i using object_bound that by blast
  moreover have "later s s'" by (rule echo_sound.sl_reach_running(2) [OF assms(1,2,9) R])
  ultimately show ?thesis unfolding later_def by (metis not_None_eq option.inject)
qed

theorem connection_states_move_forward_witness:
  "\<exists>s0 ph s ph' s' c c'. start sim_os sim_envs None 1 sim_echo = Inr s0 \<and>
     sl_reach sim_os (echo_app sim_os) sim_view (\<lambda>_. In_poll, s0) (ph, s) \<and>
     sl_reach sim_os (echo_app sim_os) sim_view (ph, s) (ph', s') \<and> sv_objects s 0 = Some c \<and> sv_objects s' 0 = Some c' \<and>
     cn_state c = kConnecting \<and> cn_state c' = kConnected \<and> cn_state c \<le> cn_state c'"
proof -
  obtain r where r: "EventLoop sim_os False False 1 0 sim_kernel = Inr r"
    "EchoServer sim_os (sim_tcp kDisconnected) (Some 50) sim_listen_addr ''echo'' 9 r = Inr sim_echo"
    by (rule sim_echo_made)
  let ?ph = "(\<lambda>_. In_poll)(50 := In_handlers [])"
  obtain s0 where s0: "start sim_os sim_envs None 1 sim_echo = Inr s0"
    and r1: "sl_reach sim_os (echo_app sim_os) sim_view (\<lambda>_. In_poll, s0) ((\<lambda>_. In_poll)(50 := In_handlers [9]), sim_polled)"
    by (rule sim_starts)
  obtain s ph' s' where st: "sl_step sim_os (echo_app sim_os) sim_view ((\<lambda>_. In_poll)(50 := In_handlers [9]), sim_polled) (?ph, s)"
    and r2: "sl_reach sim_os (echo_app sim_os) sim_view (?ph, s) (ph', s')"
    and c: "map_option cn_state (sv_objects s 0) = Some kConnecting" "map_option cn_state (sv_objects s' 0) = Some kConnected"
    by (rule sim_connects)
  have r0: "sl_reach sim_os (echo_app sim_os) sim_view (\<lambda>_. In_poll, s0) (?ph, s)" using r1 st by simp
  obtain c c' where cc: "sv_objects s 0 = Some c" "sv_objects s' 0 = Some c'" "cn_state c = kConnecting" "cn_state c' = kConnected"
    using c by auto
  have "cn_state c \<le> cn_state c'"
    using connection_states_move_forward [OF sim_os_ok sim_sock_ok sim_envs_ok r sim_echo_room s0 r0 r2] cc(1,2) by blast
  then show ?thesis using s0 r0 r2 cc by blast
qed

end
