(* ===== verification/Net_Stream.thy ===== *)
theory Net_Stream
  imports Net_Run "HOL-Library.Sublist"
begin

text \<open>
  The bytes on the sockets of a running echo server. Two more views of the kernel say which descriptors are open
  and what was read from a descriptor (\<open>sockets_ok\<close>). A member function of a connection writes to the socket of this
  connection and to wake-up descriptors and to nothing else (\<open>spares\<close>), and it keeps the relation between what was
  read and what was written (\<open>flows\<close>). Since the sockets of two connections are never the same descriptor, this gives
  the property of the whole server: a client only gets back what it sent.
\<close>

section \<open>Descriptors\<close>

record 'k sockets =
  delivered :: "'k \<Rightarrow> int \<Rightarrow> bytes"
  opens :: "'k \<Rightarrow> int set"

definition quiet :: "'k view \<Rightarrow> 'k sockets \<Rightarrow> 'k \<Rightarrow> 'k \<Rightarrow> bool" where
  "quiet v w k k' \<longleftrightarrow> accepted v k' = accepted v k \<and> delivered w k' = delivered w k \<and> opens w k' = opens w k"

text \<open>A call that makes a descriptor returns one that was not open (a negative number never is).\<close>

definition new_fd :: "'k view \<Rightarrow> 'k sockets \<Rightarrow> 'k \<Rightarrow> int \<Rightarrow> 'k \<Rightarrow> bool" where
  "new_fd v w k fd k' \<longleftrightarrow>
     (\<forall>x. x \<noteq> fd \<longrightarrow> accepted v k' x = accepted v k x \<and> delivered w k' x = delivered w k x) \<and>
     fd \<notin> opens w k \<and> opens w k \<subseteq> opens w k' \<and> (0 \<le> fd \<longrightarrow> fd \<in> opens w k')"

definition accept_ok :: "'k os \<Rightarrow> 'k view \<Rightarrow> 'k sockets \<Rightarrow> bool" where
  "accept_ok os v w \<longleftrightarrow> (\<forall>fd k.
     case os_accept4 os fd k of
       (Inl e, k') \<Rightarrow> quiet v w k k'
     | (Inr (c, a), k') \<Rightarrow> new_fd v w k c k' \<and> accepted v k' c = [] \<and> delivered w k' c = [])"

definition transfer_ok :: "'k os \<Rightarrow> 'k view \<Rightarrow> 'k sockets \<Rightarrow> bool" where
  "transfer_ok os v w \<longleftrightarrow>
     (\<forall>fd ds k r k'. os_write os fd ds k = (r, k') \<longrightarrow> delivered w k' = delivered w k \<and> opens w k' = opens w k) \<and>
     (\<forall>fd iov k r k'. os_readv os fd iov k = (r, k') \<longrightarrow> opens w k' = opens w k \<and>
        delivered w k' = (case r of Inl e \<Rightarrow> delivered w k | Inr ds \<Rightarrow> (delivered w k)(fd := delivered w k fd @ ds))) \<and>
     (\<forall>fd n k r k'. os_read os fd n k = (r, k') \<longrightarrow> opens w k' = opens w k \<and>
        (\<forall>x. x \<noteq> fd \<longrightarrow> delivered w k' x = delivered w k x)) \<and>
     (\<forall>fd k. opens w k - {fd} \<subseteq> opens w (os_close os fd k) \<and> (\<forall>x. x \<noteq> fd \<longrightarrow>
        accepted v (os_close os fd k) x = accepted v k x \<and> delivered w (os_close os fd k) x = delivered w k x))"

definition make_ok :: "'k os \<Rightarrow> 'k view \<Rightarrow> 'k sockets \<Rightarrow> bool" where
  "make_ok os v w \<longleftrightarrow>
     (\<forall>k r k'. os_eventfd os k = (r, k') \<longrightarrow> new_fd v w k r k') \<and>
     (\<forall>k r k'. os_epoll_create1 os k = (r, k') \<longrightarrow> new_fd v w k r k') \<and>
     (\<forall>k r k'. os_socket os k = (r, k') \<longrightarrow> new_fd v w k r k')"

text \<open>The calls that neither transfer bytes nor make or close a descriptor.\<close>

definition quiet_ok :: "'k os \<Rightarrow> 'k view \<Rightarrow> 'k sockets \<Rightarrow> bool" where
  "quiet_ok os v w \<longleftrightarrow>
     (\<forall>ep op fd ev k r k'. os_epoll_ctl os ep op fd ev k = (r, k') \<longrightarrow> quiet v w k k') \<and>
     (\<forall>ep n t k r k'. os_epoll_wait os ep n t k = (r, k') \<longrightarrow> quiet v w k k') \<and>
     (\<forall>fd k r k'. os_shutdown os fd k = (r, k') \<longrightarrow> quiet v w k k') \<and>
     (\<forall>fd a k r k'. os_bind os fd a k = (r, k') \<longrightarrow> quiet v w k k') \<and>
     (\<forall>fd n k r k'. os_listen os fd n k = (r, k') \<longrightarrow> quiet v w k k') \<and>
     (\<forall>fd k r k'. os_getsockname os fd k = (r, k') \<longrightarrow> quiet v w k k') \<and>
     (\<forall>fd opt on k. quiet v w k (os_setsockopt os fd opt on k)) \<and>
     (\<forall>fd k r k'. os_getsockopt os fd k = (r, k') \<longrightarrow> quiet v w k k')"

definition sockets_ok :: "'k os \<Rightarrow> 'k view \<Rightarrow> 'k sockets \<Rightarrow> bool" where
  "sockets_ok os v w \<longleftrightarrow> accept_ok os v w \<and> transfer_ok os v w \<and> make_ok os v w \<and> quiet_ok os v w"

definition sim_sockets :: "kernel sockets" where
  "sim_sockets = \<lparr>delivered = k_delivered, opens = (\<lambda>k. {x. 0 \<le> x \<and> x < k_next k})\<rparr>"

lemma sim_sockets_ok: "sockets_ok sim_os sim_view sim_sockets"
proof -
  have "accept_ok sim_os sim_view sim_sockets"
    by (auto simp: accept_ok_def new_fd_def sim_os_def sim_view_def sim_sockets_def)
  moreover have "transfer_ok sim_os sim_view sim_sockets"
    by (auto simp: transfer_ok_def sim_os_def sim_view_def sim_sockets_def sim_write_def split: if_splits)
  moreover have "make_ok sim_os sim_view sim_sockets"
    by (auto simp: make_ok_def new_fd_def sim_os_def sim_view_def sim_sockets_def)
  moreover have "quiet_ok sim_os sim_view sim_sockets"
    by (auto simp: quiet_ok_def quiet_def sim_os_def sim_view_def sim_sockets_def sim_ctl_def split: ctl_op.splits if_splits)
  ultimately show ?thesis by (simp add: sockets_ok_def)
qed

lemma quiet_refl [simp]: "quiet v w k k"
  by (simp add: quiet_def)

lemma quiet_trans: "quiet v w a b \<Longrightarrow> quiet v w b c \<Longrightarrow> quiet v w a c"
  by (simp add: quiet_def)

lemma write_sockets:
  assumes "sockets_ok os v w" and "os_write os fd ds k = (r, k')"
  shows "delivered w k' = delivered w k" "opens w k' = opens w k"
  using assms by (auto simp: sockets_ok_def transfer_ok_def)

lemma readv_sockets:
  assumes "sockets_ok os v w" and "os_readv os fd iov k = (r, k')"
  shows "opens w k' = opens w k" "r = Inl e \<Longrightarrow> delivered w k' = delivered w k"
    "r = Inr ds \<Longrightarrow> delivered w k' = (delivered w k)(fd := delivered w k fd @ ds)"
proof -
  have "opens w k' = opens w k \<and>
      delivered w k' = (case r of Inl e \<Rightarrow> delivered w k | Inr ds \<Rightarrow> (delivered w k)(fd := delivered w k fd @ ds))"
    using assms unfolding sockets_ok_def transfer_ok_def by blast
  then show "opens w k' = opens w k" "r = Inl e \<Longrightarrow> delivered w k' = delivered w k"
    "r = Inr ds \<Longrightarrow> delivered w k' = (delivered w k)(fd := delivered w k fd @ ds)" by simp_all
qed

lemma read_sockets:
  assumes "sockets_ok os v w" and "os_read os fd n k = (r, k')"
  shows "opens w k' = opens w k" "x \<noteq> fd \<Longrightarrow> delivered w k' x = delivered w k x"
  using assms unfolding sockets_ok_def transfer_ok_def by blast+

lemma close_sockets:
  assumes "sockets_ok os v w"
  shows "opens w k - {fd} \<subseteq> opens w (os_close os fd k)" "x \<noteq> fd \<Longrightarrow> accepted v (os_close os fd k) x = accepted v k x"
    "x \<noteq> fd \<Longrightarrow> delivered w (os_close os fd k) x = delivered w k x"
  using assms unfolding sockets_ok_def transfer_ok_def by blast+

lemma make_sockets:
  assumes "sockets_ok os v w"
  shows "os_eventfd os k = (r, k') \<Longrightarrow> new_fd v w k r k'" "os_epoll_create1 os k = (r, k') \<Longrightarrow> new_fd v w k r k'"
    "os_socket os k = (r, k') \<Longrightarrow> new_fd v w k r k'"
  using assms unfolding sockets_ok_def make_ok_def by blast+

lemma quiet_sockets:
  assumes "sockets_ok os v w"
  shows "os_epoll_ctl os ep op fd ev k = (r, k') \<Longrightarrow> quiet v w k k'" "os_epoll_wait os ep m t k = (r', k') \<Longrightarrow> quiet v w k k'"
    "os_shutdown os fd k = (r, k') \<Longrightarrow> quiet v w k k'" "os_bind os fd a k = (r, k') \<Longrightarrow> quiet v w k k'"
    "os_listen os fd n k = (r, k') \<Longrightarrow> quiet v w k k'" "os_getsockname os fd k = (r'', k') \<Longrightarrow> quiet v w k k'"
    "quiet v w k (os_setsockopt os fd opt on k)" "os_getsockopt os fd k = (e, k') \<Longrightarrow> quiet v w k k'"
  using assms by (auto simp: sockets_ok_def quiet_ok_def)

lemma accept_sockets:
  assumes "sockets_ok os v w" and "os_accept4 os fd k = (r, k')"
  shows "r = Inl e \<Longrightarrow> quiet v w k k'"
    "r = Inr (c, a) \<Longrightarrow> new_fd v w k c k' \<and> accepted v k' c = [] \<and> delivered w k' c = []"
proof -
  have "case (r, k') of (Inl e, k') \<Rightarrow> quiet v w k k'
      | (Inr (c, a), k') \<Rightarrow> new_fd v w k c k' \<and> accepted v k' c = [] \<and> delivered w k' c = []"
    using spec [OF spec [OF assms(1) [unfolded sockets_ok_def accept_ok_def, THEN conjunct1], of fd], of k] unfolding assms(2) .
  then show "r = Inl e \<Longrightarrow> quiet v w k k'" "r = Inr (c, a) \<Longrightarrow> new_fd v w k c k' \<and> accepted v k' c = [] \<and> delivered w k' c = []"
    by simp_all
qed

lemma poller_quiet:
  assumes "sockets_ok os v w"
  shows "updateChannel os ch p k = Inr (ch', p', k') \<Longrightarrow> quiet v w k k'"
    "removeChannel os ch p k = Inr (ch', p', k') \<Longrightarrow> quiet v w k k'"
proof -
  have u: "quiet v w k k'" if "update os op ch p k = Inr k'" for op ch p k k'
    using that quiet_sockets(1) [OF assms] by (auto simp: Net_Poller.update_def Let_def split: prod.splits if_splits)
  show "updateChannel os ch p k = Inr (ch', p', k') \<Longrightarrow> quiet v w k k'"
    by (auto simp: updateChannel_def Let_def elim!: res_bindE split: if_splits intro: u)
  show "removeChannel os ch p k = Inr (ch', p', k') \<Longrightarrow> quiet v w k k'"
    by (auto simp: removeChannel_def Let_def elim!: res_bindE split: if_splits intro: u)
qed

section \<open>What a connection leaves alone\<close>

definition wakes :: "'k server \<Rightarrow> int set" where
  "wakes s = {x. \<exists>b l. loop_at b s = Some l \<and> lp_wakeupFd l = x}"

text \<open>Bytes are read from and written to the descriptors \<open>X\<close> and wake-up descriptors only, and nothing is closed.\<close>

definition spares :: "'k view \<Rightarrow> 'k sockets \<Rightarrow> int set \<Rightarrow> 'k server \<Rightarrow> 'k server \<Rightarrow> bool" where
  "spares v w X s s' \<longleftrightarrow> sv_objects s' = sv_objects s \<and> sv_cur s' = sv_cur s \<and> wakes s' = wakes s \<and> opens w (rx_kern s) \<subseteq> opens w (rx_kern s') \<and>
     (\<forall>x. x \<notin> X \<longrightarrow> x \<notin> wakes s \<longrightarrow>
        accepted v (rx_kern s') x = accepted v (rx_kern s) x \<and> delivered w (rx_kern s') x = delivered w (rx_kern s) x)"

lemma spares_refl [simp]: "spares v w X s s"
  by (simp add: spares_def)

lemma spares_trans: "spares v w X s t \<Longrightarrow> spares v w X t u \<Longrightarrow> spares v w X s u"
  by (auto simp: spares_def)

lemma wakes_same: "same_server s t \<Longrightarrow> wakes t = wakes s"
  by (simp add: wakes_def same_server_fields(1))

lemma spares_same:
  assumes "same_server s t" and "spares v w X t t'" and "same_server t' s'" and "sv_cur s' = sv_cur s"
  shows "spares v w X s s'"
  using assms(2,4) by (simp add: same_server_fields(4) [OF assms(1)] same_server_fields(4) [OF assms(3)] spares_def wakes_same [OF assms(1)] wakes_same [OF assms(3)]
      same_server_fields(2) [OF assms(1)] same_server_fields(2) [OF assms(3)])

lemma wakes_cur: "lp_wakeupFd (rx_loop s) \<in> wakes s"
  unfolding wakes_def using loop_at_cur by blast

lemma wakes_upd:
  fixes s s' :: "'k server"
  assumes "\<And>b. map_option lp_wakeupFd (loop_at b s') = map_option lp_wakeupFd (loop_at b s)"
  shows "wakes s' = wakes s"
proof -
  have w: "wakes s = {x. \<exists>b. map_option lp_wakeupFd (loop_at b s) = Some x}" for s :: "'k server" by (auto simp: wakes_def)
  show ?thesis unfolding w assms ..
qed

lemma wakes_plain [simp]:
  "wakes (s\<lparr>rx_kern := k\<rparr>) = wakes s" "wakes (s\<lparr>cs_conn := c\<rparr>) = wakes s" "wakes (s\<lparr>sv_objects := ob\<rparr>) = wakes s"
  "wakes (s\<lparr>sv_connections := cs\<rparr>) = wakes s" "wakes (s\<lparr>sv_acceptor := ac\<rparr>) = wakes s"
  by (auto intro!: wakes_upd simp: loop_at_def)

lemma wakes_loop: "lp_wakeupFd l = lp_wakeupFd (rx_loop s) \<Longrightarrow> wakes (s\<lparr>rx_loop := l\<rparr>) = wakes s"
  by (auto intro!: wakes_upd simp: loop_at_def)

lemma spares_quiet:
  "quiet v w (rx_kern s) (rx_kern s') \<Longrightarrow> wakes s' = wakes s \<Longrightarrow> sv_objects s' = sv_objects s \<Longrightarrow> sv_cur s' = sv_cur s \<Longrightarrow>
   spares v w X s s'"
  by (simp add: spares_def quiet_def)

lemma spares_queue:
  fixes s :: "'k server"
  assumes ok: "os_ok os v" and so: "sockets_ok os v w"
  shows "spares v w X s (queueInLoop os tid f s)"
    "delivered w (rx_kern (queueInLoop os tid f s)) = delivered w (rx_kern s)"
proof -
  let ?s = "queueInLoop os tid f s"
  have "wakes ?s = wakes s" by (rule wakes_upd) (simp add: loop_at_def)
  moreover have o: "opens w (rx_kern ?s) = opens w (rx_kern s)" and d: "delivered w (rx_kern ?s) = delivered w (rx_kern s)"
    using write_sockets [OF so] by (auto simp: queueInLoop_def wakeup_def Let_def split: prod.splits)
  moreover have "accepted v (rx_kern ?s) x = accepted v (rx_kern s) x" if "x \<notin> wakes s" for x
    using queueInLoop_views(3) [OF ok] wakes_cur [of s] that by metis
  ultimately show "spares v w X s ?s" "delivered w (rx_kern ?s) = delivered w (rx_kern s)" by (simp_all add: spares_def)
qed

section \<open>The stream of a connection\<close>

text \<open>What was sent: the bytes the kernel took and those that wait in the output buffer.\<close>

definition sent :: "'k view \<Rightarrow> 'k \<Rightarrow> tcp_connection \<Rightarrow> bytes" where
  "sent v k c = accepted v k (chan_fd (cn_channel c)) @ contents (cn_outputBuffer c)"

text \<open>What was sent is a prefix of what was read; until the connection shuts down nothing was sent and everything
  that was read waits in the input buffer.\<close>

definition echoes :: "'k view \<Rightarrow> 'k sockets \<Rightarrow> 'k \<Rightarrow> tcp_connection \<Rightarrow> bool" where
  "echoes v w k c \<longleftrightarrow> conn_sound c \<and> prefix (sent v k c) (delivered w k (chan_fd (cn_channel c))) \<and>
     (cn_state c \<le> kConnected \<longrightarrow> sent v k c = [] \<and> delivered w k (chan_fd (cn_channel c)) = contents (cn_inputBuffer c)) \<and>
     (cn_state c = kConnecting \<longrightarrow> chan_index (cn_channel c) = kNew)"

abbreviation fd_of :: "'k server \<Rightarrow> int" where
  "fd_of s \<equiv> chan_fd (cn_channel (cs_conn s))"

definition busy :: "'k view \<Rightarrow> 'k sockets \<Rightarrow> 'k server \<Rightarrow> bool" where
  "busy v w s \<longleftrightarrow> echoes v w (rx_kern s) (cs_conn s) \<and> state_of s \<noteq> kConnecting \<and> fd_of s \<notin> wakes s"

definition flows :: "'k view \<Rightarrow> 'k sockets \<Rightarrow> 'k server \<Rightarrow> 'k server \<Rightarrow> bool" where
  "flows v w s s' \<longleftrightarrow> (busy v w s \<longrightarrow> spares v w {fd_of s} s s' \<and> fd_of s' = fd_of s \<and> busy v w s')"

lemma flows_refl [simp]: "flows v w s s"
  by (simp add: flows_def)

lemma flows_trans: "flows v w s t \<Longrightarrow> flows v w t u \<Longrightarrow> flows v w s u"
  unfolding flows_def by (metis spares_trans)

text \<open>A change that touches neither buffers nor bytes.\<close>

definition idle :: "'k view \<Rightarrow> 'k sockets \<Rightarrow> 'k server \<Rightarrow> 'k server \<Rightarrow> bool" where
  "idle v w s s' \<longleftrightarrow> sv_objects s' = sv_objects s \<and> sv_cur s' = sv_cur s \<and> wakes s' = wakes s \<and> quiet v w (rx_kern s) (rx_kern s') \<and> fd_of s' = fd_of s \<and>
     cn_inputBuffer (cs_conn s') = cn_inputBuffer (cs_conn s) \<and> cn_outputBuffer (cs_conn s') = cn_outputBuffer (cs_conn s)"

lemma flows_idle:
  assumes "idle v w s s'" and "state_of s \<le> state_of s'"
  shows "flows v w s s'"
proof -
  have "state_of s \<noteq> kConnecting \<Longrightarrow> state_of s' \<noteq> kConnecting" using assms(2) StateE_le(1) [of "state_of s"] by (metis antisym)
  moreover have "spares v w {fd_of s} s s'" using assms(1) by (auto simp: idle_def intro: spares_quiet)
  ultimately show ?thesis
    using assms order_trans [OF assms(2), of kConnected]
    by (auto simp: flows_def idle_def busy_def echoes_def sent_def conn_sound_def quiet_def)
qed

lemma flows_kern: "quiet v w (rx_kern s) k \<Longrightarrow> flows v w s (s\<lparr>rx_kern := k\<rparr>)"
  by (rule flows_idle) (simp_all add: idle_def)

lemma flows_state: "state_of s \<le> st \<Longrightarrow> flows v w s (setState st s)"
  by (rule flows_idle) (simp_all add: idle_def setState_def)

lemma flows_queue:
  assumes "os_ok os v" and "sockets_ok os v w"
  shows "flows v w s (queueInLoop os tid f s)"
proof -
  note Q = spares_queue [OF assms]
  have "wakes (queueInLoop os tid f s) = wakes s" using Q(1) by (simp add: spares_def)
  moreover have "accepted v (rx_kern (queueInLoop os tid f s)) (fd_of s) = accepted v (rx_kern s) (fd_of s)" if "fd_of s \<notin> wakes s"
    using Q(1) [of "{}"] that by (simp add: spares_def)
  ultimately show ?thesis using Q by (auto simp: flows_def busy_def echoes_def sent_def)
qed

lemma on_channel_idle:
  assumes "sockets_ok os v w"
    and "f (cn_channel (cs_conn s)) s = loop_updateChannel os ch s \<or> f (cn_channel (cs_conn s)) s = loop_removeChannel os ch s"
    and "chan_fd ch = fd_of s" and "on_channel f s = Inr s'"
  shows "idle v w s s' \<and> state_of s' = state_of s"
proof -
  obtain ch' p k where s': "s' = s\<lparr>rx_loop := (rx_loop s)\<lparr>lp_poller := p\<rparr>, rx_kern := k, cs_conn := (cs_conn s)\<lparr>cn_channel := ch'\<rparr>\<rparr>"
    and r: "updateChannel os ch (lp_poller (rx_loop s)) (rx_kern s) = Inr (ch', p, k) \<or>
      removeChannel os ch (lp_poller (rx_loop s)) (rx_kern s) = Inr (ch', p, k)"
    using assms(2,4) by (auto simp: on_channel_def loop_updateChannel_def loop_removeChannel_def elim!: res_bindE)
  have "chan_fd ch' = chan_fd ch"
    using r by (auto simp: updateChannel_def removeChannel_def set_index_def Let_def elim!: res_bindE split: if_splits)
  then show ?thesis
    using r poller_quiet [OF assms(1)] assms(3) by (auto simp: s' idle_def wakes_loop)
qed

lemma members_idle:
  assumes "sockets_ok os v w"
    and "on_channel (enableReading os) s = Inr s' \<or> on_channel (enableWriting os) s = Inr s' \<or>
      on_channel (disableWriting os) s = Inr s' \<or> on_channel (disableAll os) s = Inr s' \<or> on_channel (chan_remove os) s = Inr s'"
  shows "idle v w s s' \<and> state_of s' = state_of s"
  using assms(2) unfolding chan_members
  by (elim disjE) (auto dest!: on_channel_idle [OF assms(1), rotated 2] simp: channel_simps chan_remove_def)

lemma flows_members:
  assumes "sockets_ok os v w"
    and "on_channel (enableReading os) s = Inr s' \<or> on_channel (enableWriting os) s = Inr s' \<or>
      on_channel (disableWriting os) s = Inr s' \<or> on_channel (disableAll os) s = Inr s' \<or> on_channel (chan_remove os) s = Inr s'"
  shows "flows v w s s'"
  using members_idle [OF assms] by (auto intro: flows_idle)

section \<open>Sending and receiving\<close>

text \<open>A send that wrote \<open>ds\<close> of the data.\<close>

definition sends_out :: "'k view \<Rightarrow> 'k sockets \<Rightarrow> bytes \<Rightarrow> 'k server \<Rightarrow> 'k server \<Rightarrow> bool" where
  "sends_out v w ds s s' \<longleftrightarrow> spares v w {fd_of s} s s' \<and> fd_of s' = fd_of s \<and> state_of s' = state_of s \<and>
     cn_inputBuffer (cs_conn s') = cn_inputBuffer (cs_conn s) \<and> conn_sound (cs_conn s') \<and>
     delivered w (rx_kern s') = delivered w (rx_kern s) \<and>
     sent v (rx_kern s') (cs_conn s') = sent v (rx_kern s) (cs_conn s) @ ds"

lemma sends_refl: "conn_sound (cs_conn s) \<Longrightarrow> sends_out v w [] s s"
  by (simp add: sends_out_def)

lemma sends_trans: "sends_out v w a s t \<Longrightarrow> sends_out v w b t u \<Longrightarrow> sends_out v w (a @ b) s u"
  unfolding sends_out_def by (metis append.assoc spares_trans)

lemma sends_idle: "conn_sound (cs_conn s) \<Longrightarrow> idle v w s s' \<Longrightarrow> state_of s' = state_of s \<Longrightarrow> sends_out v w [] s s'"
  by (simp add: sends_out_def idle_def spares_quiet quiet_def sent_def conn_sound_def)

lemma send_rest_sends:
  assumes so: "sockets_ok os v w" and c: "conn_sound (cs_conn s)" and cb: "silent cbs" and len: "length data \<le> vector_max"
    and run: "send_rest os cbs tid data n remaining False s = Inr s'" and r: "0 < remaining \<or> drop n data = []"
  shows "sends_out v w (drop n data) s s'"
proof (cases "0 < remaining")
  case True
  have m: "mark_notice os cbs tid remaining s = s" using cb by (simp add: mark_notice_def crosses_mark_def)
  obtain b where b: "append_buf (cn_outputBuffer (cs_conn s)) (drop n data) = Inr b"
    and rest: "if isWriting (cn_channel (cs_conn s)) then s' = s\<lparr>cs_conn := (cs_conn s)\<lparr>cn_outputBuffer := b\<rparr>\<rparr>
      else on_channel (enableWriting os) (s\<lparr>cs_conn := (cs_conn s)\<lparr>cn_outputBuffer := b\<rparr>\<rparr>) = Inr s'"
    by (rule send_rest_shape [OF run True, unfolded m])
  let ?s = "s\<lparr>cs_conn := (cs_conn s)\<lparr>cn_outputBuffer := b\<rparr>\<rparr>"
  have "wf_buffer b" "contents b = contents (cn_outputBuffer (cs_conn s)) @ drop n data"
    using append_buf_cases [of "cn_outputBuffer (cs_conn s)" "drop n data"] b c len by (auto simp: conn_sound_def)
  then have s: "sends_out v w (drop n data) s ?s" using c by (simp add: sends_out_def spares_def conn_sound_def sent_def)
  then have "conn_sound (cs_conn ?s)" by (simp add: sends_out_def)
  then have "sends_out v w [] ?s s'"
    using rest members_idle [OF so, of ?s s'] sends_refl [of ?s] sends_idle [of ?s v w s'] by (auto split: if_splits)
  then show ?thesis using sends_trans [OF s] by fastforce
qed (use run r c in \<open>simp add: send_rest_def sends_refl\<close>)

lemma write_sends:
  assumes ok: "os_ok os v" and so: "sockets_ok os v w" and c: "conn_sound (cs_conn s)" and e: "contents (cn_outputBuffer (cs_conn s)) = []"
    and w: "os_write os (fd_of s) data (rx_kern s) = (r, k)"
  shows "sends_out v w (case r of Inl e \<Rightarrow> [] | Inr n \<Rightarrow> take n data) s (s\<lparr>rx_kern := k\<rparr>)"
  using write_views(5,6) [OF ok w] write_sockets [OF so w] c e
  by (auto simp: sends_out_def spares_def sent_def split: sum.splits)

lemma sendInLoop_sends:
  assumes ok: "os_ok os v" and so: "sockets_ok os v w" and c: "conn_sound (cs_conn s)" and cb: "silent cbs"
    and len: "length data \<le> vector_max" and run: "sendInLoop os cbs tid data s = Inr s'"
  shows "sends_out v w [] s s' \<or> sends_out v w data s s'"
proof -
  let ?b = "cn_outputBuffer (cs_conn s)"
  obtain r k where w: "os_write os (fd_of s) data (rx_kern s) = (r, k)" by fastforce
  have e: "contents ?b = []" if "readableBytes ?b = 0" using that c contents_eq_Nil [of ?b] by (simp add: conn_sound_def)
  note R = send_rest_sends [OF so _ cb len]
  show ?thesis
  proof (cases "state_of s = kDisconnected")
    case True
    then show ?thesis using run sends_refl [OF c] by (simp add: sendInLoop_def)
  next
    case up: False
    show ?thesis
    proof (cases "\<not> isWriting (cn_channel (cs_conn s)) \<and> readableBytes ?b = 0")
      case False
      then have "send_rest os cbs tid data 0 (length data) False s = Inr s'" using run up by (auto simp: sendInLoop_def Let_def)
      from R [OF c this] show ?thesis by (cases data) simp_all
    next
      case True
      note W = write_sends [OF ok so c e w]
      show ?thesis
      proof (cases r)
        case (Inl x)
        let ?f = "x \<noteq> EWOULDBLOCK \<and> (x = EPIPE \<or> x = ECONNRESET)"
        have r: "send_rest os cbs tid data 0 (length data) ?f (s\<lparr>rx_kern := k\<rparr>) = Inr s'"
          using run up True w Inl by (simp add: sendInLoop_def Let_def)
        have "s' = s\<lparr>rx_kern := k\<rparr>" if ?f using r that by (auto simp: send_rest_def)
        moreover have "sends_out v w data (s\<lparr>rx_kern := k\<rparr>) s'" if "\<not> ?f"
          using R [of "s\<lparr>rx_kern := k\<rparr>" tid 0 "length data" s'] r that c by (cases data) simp_all
        ultimately show ?thesis using W True Inl sends_trans [OF W, of data s'] by auto
      next
        case (Inr n)
        have n: "n \<le> length data" using write_views(6) [OF ok w] Inr by blast
        then have "size_sub (length data) n = length data - n" using len by (simp add: size_sub_le vector_max_def)
        then have "send_rest os cbs tid data n (length data - n) False (s\<lparr>rx_kern := k\<rparr>) = Inr s'"
          using run up True w Inr cb by (simp add: sendInLoop_def Let_def)
        moreover have "0 < length data - n \<or> drop n data = []" by auto
        ultimately have "sends_out v w (drop n data) (s\<lparr>rx_kern := k\<rparr>) s'" using R [of "s\<lparr>rx_kern := k\<rparr>"] c by simp
        then show ?thesis using sends_trans [OF W] True Inr by fastforce
      qed
    qed
  qed
qed

lemma shutdownInLoop_flows: "sockets_ok os v w \<Longrightarrow> flows v w s (shutdownInLoop os s)"
  using quiet_sockets(3) [of os v w] by (auto simp: shutdownInLoop_def shutdownWrite_def intro!: flows_kern split: prod.splits)

lemma sends_queue:
  assumes "os_ok os v" and "sockets_ok os v w" and "conn_sound (cs_conn s)" and "fd_of s \<notin> wakes s"
  shows "sends_out v w [] s (queueInLoop os tid f s)"
proof -
  note Q = spares_queue(2) [OF assms(1,2), of tid f s]
  have "spares v w {} s (queueInLoop os tid f s)" "spares v w {fd_of s} s (queueInLoop os tid f s)" by (rule spares_queue(1) [OF assms(1,2)])+
  then show ?thesis using Q assms(3,4) by (simp add: sends_out_def sent_def) (simp add: spares_def)
qed

text \<open>\<open>onMessage\<close> as a whole: what the input buffer held is sent, and the connection shuts down.\<close>

lemma StateE_le_connected: "st \<le> kConnected \<longleftrightarrow> st = kConnecting \<or> st = kConnected"
  by (cases st) (simp_all add: less_eq_StateE_def stage_def)

lemma echo_turns:
  assumes b: "busy v w s" and u: "up s" and s1: "s1 = s\<lparr>cs_conn := (cs_conn s)\<lparr>cn_inputBuffer := retrieveAll (cn_inputBuffer (cs_conn s))\<rparr>\<rparr>"
    and s2: "sends_out v w ds s1 s2" and ds: "ds = [] \<or> ds = contents (cn_inputBuffer (cs_conn s))"
  shows "flows v w s (setState kDisconnecting s2)"
proof -
  have B: "sent v (rx_kern s) (cs_conn s) = []" "delivered w (rx_kern s) (fd_of s) = contents (cn_inputBuffer (cs_conn s))"
    "fd_of s \<notin> wakes s" using b u by (simp_all add: busy_def echoes_def)
  have "sent v (rx_kern s1) (cs_conn s1) = []" using B(1) by (simp add: s1 sent_def)
  then have "sent v (rx_kern s2) (cs_conn s2) = ds" using s2 by (simp add: sends_out_def)
  moreover have "delivered w (rx_kern s2) = delivered w (rx_kern s)" "fd_of s2 = fd_of s" "conn_sound (cs_conn s2)" "wakes s2 = wakes s"
    using s2 by (simp_all add: s1 sends_out_def spares_def)
  moreover have "spares v w {fd_of s} s (setState kDisconnecting s2)" using s2 by (simp add: s1 sends_out_def spares_def setState_def)
  moreover have "prefix ds (contents (cn_inputBuffer (cs_conn s)))" using ds by auto
  ultimately show ?thesis
    using B(2,3) by (simp add: flows_def busy_def echoes_def setState_def sent_def conn_sound_def StateE_le_connected)
qed

lemma echo_onMessage_flows:
  assumes ok: "os_ok os v" and so: "sockets_ok os v w" and cb: "silent cbs" and run: "echo_onMessage os cbs tid sptr s = Inr s'"
  shows "flows v w s s'"
proof (cases "busy v w s")
  case b: True
  let ?b = "cn_inputBuffer (cs_conn s)"
  let ?s1 = "s\<lparr>cs_conn := (cs_conn s)\<lparr>cn_inputBuffer := retrieveAll ?b\<rparr>\<rparr>"
  have c: "conn_sound (cs_conn s)" and fd: "fd_of s \<notin> wakes s" using b by (simp_all add: busy_def echoes_def)
  then have wf: "wf_buffer ?b" and c1: "conn_sound (cs_conn ?s1)" using wf_retrieveAll [of ?b] by (simp_all add: conn_sound_def)
  have len: "length (contents ?b) \<le> vector_max" using wf by (auto simp: wf_buffer_def)
  obtain s2 where s2: "send os cbs tid sptr (contents ?b) ?s1 = Inr s2" and s': "s' = shutdown os tid s2"
    using run by (auto simp: echo_onMessage_def retrieveAllAsString_wf [OF wf] elim!: res_bindE)
  show ?thesis
  proof (cases "up s")
    case True
    have "sends_out v w [] ?s1 s2 \<or> sends_out v w (contents ?b) ?s1 s2"
      using s2 True sendInLoop_sends [OF ok so c1 cb len, of tid s2] sends_queue [OF ok so c1] fd by (auto simp: send_def split: if_splits)
    then have f: "flows v w s (setState kDisconnecting s2)" and "up s2"
      using echo_turns [OF b True refl] True by (auto simp: sends_out_def)
    then show ?thesis
      using flows_trans [OF f flows_queue [OF ok so]] flows_trans [OF f shutdownInLoop_flows [OF so]] by (simp add: s' shutdown_def Let_def)
  next
    case False
    then have "s' = ?s1" using s2 by (auto simp: s' send_def shutdown_def)
    then show ?thesis
      using b False c1 by (auto simp: flows_def busy_def echoes_def sent_def spares_def StateE_le_connected)
  qed
qed (simp add: flows_def)

lemma handleWrite_flows:
  assumes ok: "os_ok os v" and so: "sockets_ok os v w" and cb: "silent cbs" and run: "handleWrite os cbs tid s = Inr s'"
  shows "flows v w s s'"
proof (cases "busy v w s \<and> isWriting (cn_channel (cs_conn s))")
  case True
  let ?b = "cn_outputBuffer (cs_conn s)"
  have wf: "wf_buffer ?b" and b: "busy v w s" using True by (simp_all add: busy_def echoes_def conn_sound_def)
  obtain r k where w: "os_write os (fd_of s) (contents ?b) (rx_kern s) = (r, k)" by fastforce
  note W = write_sockets [OF so w] write_views(5,6) [OF ok w]
  let ?s1 = "\<lambda>n. s\<lparr>rx_kern := k, cs_conn := (cs_conn s)\<lparr>cn_outputBuffer := retrieve ?b n\<rparr>\<rparr>"
  have "flows v w s s'" if "r = Inl x" for x
    using that run True w W by (auto simp: handleWrite_def writeFd_wf [OF wf] intro!: flows_kern simp: quiet_def)
  moreover have "flows v w s s'" if r: "r = Inr n" for n
  proof -
    have n: "n \<le> length (contents ?b)" "accepted v k = (accepted v (rx_kern s))(fd_of s := accepted v (rx_kern s) (fd_of s) @ take n (contents ?b))"
      using W(4) r by auto
    have "sent v k (cs_conn (?s1 n)) = sent v (rx_kern s) (cs_conn s)"
      using n(2) by (simp add: sent_def contents_retrieve [OF wf])
    then have f: "flows v w s (?s1 n)"
      using b n(2) W(1,2) wf_retrieve [OF wf] by (simp add: flows_def busy_def echoes_def conn_sound_def spares_def)
    consider "s' = ?s1 n" | "n = 0" "s' = s\<lparr>rx_kern := k\<rparr>" | s2 where "on_channel (disableWriting os) (?s1 n) = Inr s2"
        "s' = s2 \<or> s' = shutdownInLoop os s2"
      using run True w r cb by (auto simp: handleWrite_def Let_def writeFd_wf [OF wf] elim!: res_bindE split: if_splits)
    then show ?thesis
    proof cases
      case 2
      then show ?thesis using n W by (auto intro!: flows_kern simp: quiet_def)
    next
      case (3 s2)
      then have "flows v w s s2" using flows_members [OF so, of "?s1 n" s2] flows_trans [OF f] by blast
      then show ?thesis using 3(2) flows_trans [OF _ shutdownInLoop_flows [OF so]] by blast
    qed (use f in simp)
  qed
  ultimately show ?thesis by (cases r) simp_all
next
  case False
  then show ?thesis using run by (auto simp: handleWrite_def flows_def)
qed

section \<open>Handlers\<close>

text \<open>Telling the base loop that a connection is closed.\<close>

lemma flows_passed: "spares v w {} s s' \<Longrightarrow> cs_conn s' = cs_conn s \<Longrightarrow> flows v w s s'"
  by (auto simp: flows_def busy_def echoes_def sent_def spares_def)

text \<open>A change that writes to wake-up descriptors at most.\<close>

definition calm :: "'k view \<Rightarrow> 'k sockets \<Rightarrow> 'k server \<Rightarrow> 'k server \<Rightarrow> bool" where
  "calm v w s s' \<longleftrightarrow> spares v w {} s s' \<and> cs_conn s' = cs_conn s"

lemma calm_queue:
  assumes "os_ok os v" and "sockets_ok os v w"
  shows "calm v w s (queueInLoop os tid f s)"
  using spares_queue(1) [OF assms, of "{}" s tid f]
  by (simp add: calm_def)

lemma calm_with_loop:
  assumes run: "with_loop a f s = Inr s'" and f: "\<And>t t'. f t = Inr t' \<Longrightarrow> calm v w t t'"
  shows "calm v w s s'"
proof -
  obtain t t' where t: "same_server s t" "f t = Inr t'" "same_server t' s'" "sv_cur s' = sv_cur s"
    by (rule with_loop_same [OF run]) (use f in \<open>auto simp: calm_def spares_def\<close>)
  from f [OF t(2)] show ?thesis
    using spares_same [OF t(1) _ t(3,4)] by (auto simp: calm_def same_server_fields [OF t(1)] same_server_fields [OF t(3)])
qed

lemma removeConnectionInLoop_calm:
  assumes "os_ok os v" and "sockets_ok os v w" and "removeConnectionInLoop os tid i s = Inr s'"
  shows "calm v w s s'"
proof -
  obtain c :: tcp_connection where c: "with_loop (sv_conn_loop s i) (\<lambda>s1. Inr (queueInLoop os tid (Fn_connectDestroyed i) s1))
      (s\<lparr>sv_connections := (sv_connections s)(cn_name c := None)\<rparr>) = Inr s'"
    using assms(3) by (auto simp: removeConnectionInLoop_def split: option.splits)
  have "calm v w (s\<lparr>sv_connections := (sv_connections s)(cn_name c := None)\<rparr>) s'"
    by (rule calm_with_loop [OF c]) (use calm_queue [OF assms(1,2)] in auto)
  then show ?thesis by (simp add: calm_def spares_def)
qed

lemma removeConnection_calm:
  assumes "os_ok os v" and "sockets_ok os v w" and "removeConnection os tid i s = Inr s'"
  shows "calm v w s s'"
  by (rule calm_with_loop [OF assms(3) [unfolded removeConnection_def]])
    (use removeConnectionInLoop_calm [OF assms(1,2)] calm_queue [OF assms(1,2)] in \<open>auto simp: runInLoop_def split: if_splits\<close>)

abbreviation echo_cbs :: "'k os \<Rightarrow> int \<Rightarrow> nat \<Rightarrow> 'k server conn_callbacks" where
  "echo_cbs os tid i \<equiv> conn_cbs os (echo_app os tid) tid echo_flags i"

lemma echo_cbs_simps:
  "call (connectionCallback (echo_cbs os tid i)) s = Inr s" "silent (echo_cbs os tid i)"
  "closeCallback_conn (echo_cbs os tid i) = Some (removeConnection os tid i)"
  by (simp_all add: conn_cbs_def echo_flags_def echo_app_def echo_onConnection_def call_def)

lemma echo_message_flows:
  assumes "os_ok os v" and "sockets_ok os v w" and "call (messageCallback (echo_cbs os tid i)) s = Inr s'"
  shows "flows v w s s'"
  by (rule echo_onMessage_flows [OF assms(1,2)]) (use assms(3) in \<open>auto simp: conn_cbs_def echo_flags_def echo_app_def call_def\<close>)

lemma handleClose_flows:
  assumes ok: "os_ok os v" and so: "sockets_ok os v w" and run: "handleClose os (echo_cbs os tid i) s = Inr s'"
  shows "flows v w s s'"
proof -
  obtain s1 where s1: "on_channel (disableAll os) (setState kDisconnected s) = Inr s1" and s': "removeConnection os tid i s1 = Inr s'"
    using run echo_cbs_simps(1,3) [of os tid i] by (auto simp: handleClose_def call_def elim!: res_bindE)
  have "flows v w s s1" by (rule flows_trans [OF flows_state [where st = kDisconnected] flows_members [OF so]]) (use s1 in auto)
  moreover have "flows v w s1 s'" using removeConnection_calm [OF ok so s'] by (simp add: calm_def flows_passed)
  ultimately show ?thesis by (rule flows_trans)
qed

lemma readFd_delivers:
  assumes wf: "wf_buffer b" and r: "readFd (\<lambda>_. r) b = Inr (n, e, b')"
    and len: "\<And>ds. r = Inr ds \<Longrightarrow> length ds \<le> sum_list (readFd_blocks b)"
  shows "wf_buffer b' \<and> contents b' = contents b @ (case r of Inl _ \<Rightarrow> [] | Inr ds \<Rightarrow> ds)"
proof (cases r)
  case (Inl e)
  then show ?thesis using r wf by (auto simp: readFd_def)
next
  case (Inr ds)
  let ?readv = "\<lambda>iov. if iov = readFd_blocks b then r else Inl 0"
  have "readv_ok ?readv" using len by (auto simp: readv_ok_def)
  moreover have "readFd (\<lambda>_. r) b = readFd ?readv b" by (simp add: readFd_def)
  ultimately show ?thesis using readFd_cases [OF wf, of ?readv ds] Inr r by auto
qed

lemma handleError_flows:
  assumes so: "sockets_ok os v w" and run: "handleError os s = Inr s'"
  shows "flows v w s s'"
proof -
  obtain r k where k: "os_getsockopt os (fd_of s) (rx_kern s) = (r, k)" by fastforce
  have "s' = s\<lparr>rx_kern := k\<rparr>" using run k by (simp add: handleError_def)
  moreover have "quiet v w (rx_kern s) k" by (rule quiet_sockets(8) [OF so k])
  ultimately show ?thesis by (auto simp: flows_def busy_def echoes_def sent_def conn_sound_def spares_def quiet_def)
qed

lemma handleRead_flows:
  assumes ok: "os_ok os v" and so: "sockets_ok os v w" and run: "handleRead os (echo_cbs os tid i) s = Inr s'"
  shows "flows v w s s'"
proof (cases "busy v w s")
  case True
  let ?b = "cn_inputBuffer (cs_conn s)"
  obtain r k where w: "os_readv os (fd_of s) (readFd_blocks ?b) (rx_kern s) = (r, k)" by fastforce
  let ?s1 = "\<lambda>b. s\<lparr>rx_kern := k, cs_conn := (cs_conn s)\<lparr>cn_inputBuffer := b\<rparr>\<rparr>"
  obtain n e b where rd: "readFd (\<lambda>_. r) ?b = Inr (n, e, b)" and
    c: "(if 0 < n then call (messageCallback (echo_cbs os tid i)) (?s1 b)
      else if n = 0 then handleClose os (echo_cbs os tid i) (?s1 b) else handleError os (?s1 b)) = Inr s'"
    using run w by (auto simp: handleRead_def Let_def elim!: res_bindE)
  let ?ds = "case r of Inl _ \<Rightarrow> [] | Inr ds \<Rightarrow> ds"
  have b: "wf_buffer b \<and> contents b = contents ?b @ ?ds"
    by (rule readFd_delivers [OF _ rd]) (use True readv_views(5) [OF ok w] in \<open>auto simp: busy_def echoes_def conn_sound_def\<close>)
  have k: "accepted v k = accepted v (rx_kern s)" "opens w k = opens w (rx_kern s)"
    "delivered w k = (delivered w (rx_kern s))(fd_of s := delivered w (rx_kern s) (fd_of s) @ ?ds)"
    using readv_views(2) [OF ok w] readv_sockets [OF so w] by (auto split: sum.splits)
  have "flows v w s (?s1 b)"
    using True b k by (auto simp: flows_def busy_def echoes_def sent_def conn_sound_def spares_def)
  moreover have "flows v w (?s1 b) s'"
    using c echo_message_flows [OF ok so, of tid i "?s1 b" s'] handleClose_flows [OF ok so, of tid i "?s1 b" s']
      handleError_flows [OF so, of "?s1 b" s']
    by (auto split: if_splits)
  ultimately show ?thesis by (rule flows_trans)
qed (simp add: flows_def)

lemma handleEvent_flows:
  assumes ok: "os_ok os v" and so: "sockets_ok os v w"
    and run: "handleEvent lock (run_callback os (echo_cbs os tid i) tid) (\<lambda>s. cn_channel (cs_conn s)) s = Inr s'"
  shows "flows v w s s'"
proof -
  have one: "flows v w t t'" if "run_callback os (echo_cbs os tid i) tid f t = Inr t'" for f t t'
    using that handleRead_flows [OF ok so, of tid i t t'] handleClose_flows [OF ok so, of tid i t t']
      handleWrite_flows [where cbs = "echo_cbs os tid i", OF ok so echo_cbs_simps(2), of tid t t']
      handleError_flows [OF so, of t t']
    by (cases f) (simp_all add: run_callback_def)
  have if1: "flows v w t t'" if "call_if (run_callback os (echo_cbs os tid i) tid) b f t = Inr t'" for b f t t'
    using that one by (auto simp: call_if_def split: if_splits option.splits)
  have "flows v w s s'" if "handleEventWithGuard (run_callback os (echo_cbs os tid i) tid) (\<lambda>s. cn_channel (cs_conn s)) s = Inr s'"
    using that unfolding handleEventWithGuard_def by (elim res_bindE) (meson if1 flows_trans)
  then show ?thesis using run by (auto simp: handleEvent_def split: if_splits option.splits)
qed

lemma connectEstablished_flows:
  assumes so: "sockets_ok os v w" and run: "connectEstablished os (echo_cbs os tid i) s = Inr s'"
    and e: "echoes v w (rx_kern s) (cs_conn s)" and st: "state_of s = kConnecting" and fd: "fd_of s \<notin> wakes s"
  shows "spares v w {fd_of s} s s' \<and> fd_of s' = fd_of s \<and> busy v w s'"
proof -
  let ?c = "(cs_conn s)\<lparr>cn_state := kConnected, cn_channel := tie (cn_id (cs_conn s)) (cn_channel (cs_conn s))\<rparr>"
  have b: "busy v w (s\<lparr>cs_conn := ?c\<rparr>)"
    using e st fd by (auto simp: busy_def echoes_def sent_def conn_sound_def tie_def)
  have "on_channel (enableReading os) (s\<lparr>cs_conn := ?c\<rparr>) = Inr s'"
    using run by (auto simp: connectEstablished_def Let_def setState_def echo_cbs_simps(1) elim!: res_bindE)
  then have "flows v w (s\<lparr>cs_conn := ?c\<rparr>) s'" by (intro flows_members [OF so]) blast
  then show ?thesis using b by (simp add: flows_def) (simp add: spares_def tie_def)
qed

lemma removed_index: "on_channel (chan_remove os) s = Inr s' \<Longrightarrow> idx s' = kNew"
  by (auto simp: on_channel_def chan_remove_def loop_removeChannel_def removeChannel_def set_index_def Let_def elim!: res_bindE)

lemma connectDestroyed_flows:
  assumes so: "sockets_ok os v w" and run: "connectDestroyed os (echo_cbs os tid i) s = Inr s'"
    and e: "echoes v w (rx_kern s) (cs_conn s)" and fd: "fd_of s \<notin> wakes s"
  shows "spares v w {fd_of s} s s' \<and> fd_of s' = fd_of s \<and> echoes v w (rx_kern s') (cs_conn s')"
proof -
  obtain s1 where s1: "if up s then on_channel (disableAll os) (setState kDisconnected s) = Inr s1 else s1 = s"
    and s': "on_channel (chan_remove os) s1 = Inr s'"
    using run by (auto simp: connectDestroyed_def echo_cbs_simps(1) elim!: res_bindE split: if_splits)
  have i: "idle v w s1 s'" "state_of s' = state_of s1" using members_idle [OF so, of s1 s'] s' by blast+
  show ?thesis
  proof (cases "state_of s = kConnecting")
    case True
    then have "s1 = s" using s1 by simp
    moreover have "spares v w {fd_of s} s s'" using i calculation by (auto simp: idle_def intro: spares_quiet)
    ultimately show ?thesis using e i removed_index [OF s'] by (auto simp: idle_def echoes_def sent_def conn_sound_def quiet_def)
  next
    case False
    have "flows v w s s1"
      using s1 flows_trans [OF flows_state flows_members [OF so], of s kDisconnected s1] by (auto split: if_splits)
    moreover have "flows v w s1 s'" by (rule flows_idle) (use i in simp_all)
    ultimately have "flows v w s s'" by (rule flows_trans)
    then show ?thesis using e fd False by (simp add: flows_def busy_def)
  qed
qed

section \<open>All sockets of the server\<close>

text \<open>Every connection has a descriptor of its own, which is open and not one that wakes a loop.\<close>

definition wired :: "'k view \<Rightarrow> 'k sockets \<Rightarrow> 'k server \<Rightarrow> bool" where
  "wired v w s \<longleftrightarrow> wakes s \<subseteq> opens w (rx_kern s) \<and>
     (\<forall>i c. sv_objects s i = Some c \<longrightarrow> echoes v w (rx_kern s) c \<and>
        chan_fd (cn_channel c) \<in> opens w (rx_kern s) \<and> chan_fd (cn_channel c) \<notin> wakes s) \<and>
     (\<forall>i j c d. sv_objects s i = Some c \<longrightarrow> sv_objects s j = Some d \<longrightarrow> i \<noteq> j \<longrightarrow>
        chan_fd (cn_channel c) \<noteq> chan_fd (cn_channel d))"

lemma wired_same: "same_server s t \<Longrightarrow> wired v w t = wired v w s"
  by (simp add: wired_def wakes_same same_server_fields)

lemma echoes_spared:
  assumes "spares v w X s s'" and "chan_fd (cn_channel c) \<notin> X" and "chan_fd (cn_channel c) \<notin> wakes s"
  shows "echoes v w (rx_kern s') c = echoes v w (rx_kern s) c"
  using assms by (simp add: echoes_def sent_def spares_def)

text \<open>A member function of connection \<open>i\<close>, and what is stored afterwards.\<close>

lemma wired_conn:
  assumes W: "wired v w s" and c: "sv_objects s i = Some c"
    and sp: "spares v w {chan_fd (cn_channel c)} s t" and fd: "fd_of t = chan_fd (cn_channel c)"
    and e: "echoes v w (rx_kern t) (cs_conn t)"
  shows "wired v w (t\<lparr>sv_objects := (sv_objects t)(i \<mapsto> cs_conn t)\<rparr>)"
proof -
  have w: "wakes t = wakes s" "opens w (rx_kern s) \<subseteq> opens w (rx_kern t)" and o: "sv_objects t = sv_objects s" using sp by (simp_all add: spares_def)
  have other: "echoes v w (rx_kern t) d \<and> chan_fd (cn_channel d) \<in> opens w (rx_kern t) \<and> chan_fd (cn_channel d) \<notin> wakes s"
    if "sv_objects s j = Some d" "j \<noteq> i" for j d
    using that W c echoes_spared [OF sp, of d] w(2) unfolding wired_def by (metis singletonD subsetD)
  have "chan_fd (cn_channel c) \<in> opens w (rx_kern t)" "chan_fd (cn_channel c) \<notin> wakes s" using W c w(2) unfolding wired_def by blast+
  then show ?thesis
    using W c w other e fd unfolding wired_def by (auto simp: o split: if_splits)
qed

lemma wired_calm: "wired v w s \<Longrightarrow> calm v w s s' \<Longrightarrow> wired v w s'"
  using echoes_spared [of v w "{}" s s'] unfolding wired_def calm_def by (auto simp: spares_def)

subsection \<open>The steps\<close>

lemma with_conn_wired:
  assumes W: "wired v w s" and run: "with_conn i f s = Inr s'"
    and f: "\<And>c t. sv_objects s i = Some c \<Longrightarrow> f (s\<lparr>cs_conn := c\<rparr>) = Inr t \<Longrightarrow>
      spares v w {chan_fd (cn_channel c)} (s\<lparr>cs_conn := c\<rparr>) t \<and> fd_of t = chan_fd (cn_channel c) \<and> echoes v w (rx_kern t) (cs_conn t)"
  shows "wired v w s' \<and> sv_cur s' = sv_cur s"
proof -
  obtain c t where c: "sv_objects s i = Some c" and t: "f (s\<lparr>cs_conn := c\<rparr>) = Inr t"
    and s': "s' = t\<lparr>sv_objects := (sv_objects t)(i \<mapsto> cs_conn t)\<rparr>"
    using run by (auto simp: with_conn_def elim!: res_bindE split: option.splits)
  have "spares v w {chan_fd (cn_channel c)} s t" using f [OF c t] by (simp add: spares_def)
  then show ?thesis using wired_conn [OF W c] f [OF c t] unfolding s' by (simp add: spares_def)
qed

lemma wiredD:
  assumes "wired v w s" and "sv_objects s i = Some c"
  shows "echoes v w (rx_kern s) c" "chan_fd (cn_channel c) \<in> opens w (rx_kern s)" "chan_fd (cn_channel c) \<notin> wakes s"
  using assms unfolding wired_def by blast+

lemma handle_conn_wired:
  assumes ok: "os_ok os v" and so: "sockets_ok os v w" and W: "wired v w s" and i: "sv_objects s i = Some c" "chan_index (cn_channel c) \<noteq> kNew"
    and run: "with_conn i (handleEvent lock (run_callback os (echo_cbs os tid i) tid) (\<lambda>s. cn_channel (cs_conn s))) s = Inr s'"
  shows "wired v w s' \<and> sv_cur s' = sv_cur s"
proof (rule with_conn_wired [OF W run])
  fix d t assume d: "sv_objects s i = Some d"
    and t: "handleEvent lock (run_callback os (echo_cbs os tid i) tid) (\<lambda>s. cn_channel (cs_conn s)) (s\<lparr>cs_conn := d\<rparr>) = Inr t"
  have "busy v w (s\<lparr>cs_conn := d\<rparr>)" using wiredD [OF W d] i d by (auto simp: busy_def echoes_def)
  with handleEvent_flows [OF ok so t] show "spares v w {chan_fd (cn_channel d)} (s\<lparr>cs_conn := d\<rparr>) t \<and>
      fd_of t = chan_fd (cn_channel d) \<and> echoes v w (rx_kern t) (cs_conn t)"
    by (simp add: flows_def busy_def)
qed

lemma handleEvent_inv:
  assumes "P s" and run: "\<And>f t t'. P t \<Longrightarrow> run f t = Inr t' \<Longrightarrow> P t'" and e: "handleEvent lock run chan s = Inr s'"
  shows "P s'"
proof -
  have c: "P t'" if "P t" "call_if run b f t = Inr t'" for b f t t'
    using that run by (auto simp: call_if_def split: if_splits option.splits)
  have "P s'" if "handleEventWithGuard run chan s = Inr s'"
    using that assms(1) unfolding handleEventWithGuard_def by (elim res_bindE) (meson c)
  then show ?thesis using e assms(1) by (auto simp: handleEvent_def split: if_splits option.splits)
qed

lemma loop_handleRead_calm:
  assumes ok: "os_ok os v" and so: "sockets_ok os v w"
  shows "calm v w s (loop_handleRead os s)"
proof -
  obtain r k where r: "os_read os (lp_wakeupFd (rx_loop s)) 8 (rx_kern s) = (r, k)" by fastforce
  have "accepted v k = accepted v (rx_kern s)" using os_okD(5) [OF ok] r unfolding read_ok_def by blast
  moreover have "delivered w k x = delivered w (rx_kern s) x" if "x \<notin> wakes s" for x
    using read_sockets(2) [OF so r, of x] wakes_cur [of s] that by metis
  ultimately show ?thesis using r read_sockets(1) [OF so r] by (simp add: loop_handleRead_def calm_def spares_def)
qed

lemma calm_trans: "calm v w s t \<Longrightarrow> calm v w t u \<Longrightarrow> calm v w s u"
  by (auto simp: calm_def intro: spares_trans)

lemma calm_refl [simp]: "calm v w s s"
  by (simp add: calm_def)

text \<open>A new connection.\<close>

lemma added_wired:
  assumes W: "wired v w s" and q: "quiet v w (rx_kern s) k" and fd: "fd \<notin> wakes s" "fd \<in> opens w (rx_kern s)"
    and new: "\<forall>i c. sv_objects s i = Some c \<longrightarrow> chan_fd (cn_channel c) \<noteq> fd"
    and e: "accepted v (rx_kern s) fd = []" "delivered w (rx_kern s) fd = []" and c: "made_conn i nm fd ptr peer c"
  shows "wired v w (added_conn io p c k s)"
proof -
  let ?s = "added_conn io p c k s"
  have s: "rx_kern ?s = k" "sv_objects ?s = (sv_objects s)(sv_fresh s \<mapsto> c)" by (simp_all add: added_conn_def)
  have w: "wakes ?s = wakes s" by (rule wakes_upd) (simp add: added_conn_def loop_at_def)
  have "echoes v w k c" using c q e by (simp add: made_conn_def echoes_def sent_def conn_sound_def quiet_def)
  moreover have "echoes v w k d" if "sv_objects s j = Some d" for j d
    using wiredD(1) [OF W that] q by (simp add: echoes_def sent_def quiet_def)
  moreover have "chan_fd (cn_channel d) \<noteq> chan_fd (cn_channel c)" if "sv_objects s j = Some d" for j d
    using new that c by (auto simp: made_conn_def)
  moreover have "chan_fd (cn_channel c) = fd" "opens w k = opens w (rx_kern s)" using c q by (simp_all add: made_conn_def quiet_def)
  ultimately show ?thesis using W fd unfolding wired_def s w by simp metis
qed

text \<open>A kernel in which the descriptors that are used look the same; \<open>Y\<close> are descriptors that are not used.\<close>

lemma wired_kern:
  assumes W: "wired v w s" and Y: "Y \<inter> wakes s = {}" "\<forall>i c. sv_objects s i = Some c \<longrightarrow> chan_fd (cn_channel c) \<notin> Y"
    and k: "\<And>x. x \<in> opens w (rx_kern s) - Y \<Longrightarrow>
      x \<in> opens w k \<and> accepted v k x = accepted v (rx_kern s) x \<and> delivered w k x = delivered w (rx_kern s) x"
  shows "wired v w (s\<lparr>rx_kern := k\<rparr>)"
proof -
  have "echoes v w k c" "chan_fd (cn_channel c) \<in> opens w k" if "sv_objects s i = Some c" for i c
    using wiredD(1,2) [OF W that] Y(2) that k [of "chan_fd (cn_channel c)"] by (auto simp: echoes_def sent_def)
  moreover have "wakes s \<subseteq> opens w k" using W Y(1) k unfolding wired_def by blast
  ultimately show ?thesis using W unfolding wired_def by simp
qed

lemma accept_wired:
  assumes so: "sockets_ok os v w" and W: "wired v w s" and a: "socket_accept os lfd peer0 (rx_kern s) = (fd, peer, k)"
  shows "wired v w (s\<lparr>rx_kern := k\<rparr>)"
    "0 \<le> fd \<Longrightarrow> fd \<notin> wakes s \<and> fd \<in> opens w k \<and> accepted v k fd = [] \<and> delivered w k fd = [] \<and>
       (\<forall>i c. sv_objects s i = Some c \<longrightarrow> chan_fd (cn_channel c) \<noteq> fd)"
proof -
  obtain r where r: "os_accept4 os lfd (rx_kern s) = (r, k)" "case r of Inl e \<Rightarrow> fd = -1 | Inr (x, ad) \<Rightarrow> fd = x"
    using a by (auto simp: socket_accept_def split: prod.splits sum.splits)
  have N: "quiet v w (rx_kern s) k \<and> fd = -1 \<or> new_fd v w (rx_kern s) fd k \<and> accepted v k fd = [] \<and> delivered w k fd = []"
    using accept_sockets [OF so r(1)] r(2) by (auto split: sum.splits)
  then show "wired v w (s\<lparr>rx_kern := k\<rparr>)"
  proof
    assume "quiet v w (rx_kern s) k \<and> fd = -1"
    then show ?thesis by (intro wired_kern [OF W, of "{}"]) (auto simp: quiet_def)
  next
    assume "new_fd v w (rx_kern s) fd k \<and> accepted v k fd = [] \<and> delivered w k fd = []"
    then show ?thesis by (intro wired_kern [OF W, of "{}"]) (auto simp: new_fd_def)
  qed
  show "fd \<notin> wakes s \<and> fd \<in> opens w k \<and> accepted v k fd = [] \<and> delivered w k fd = [] \<and>
      (\<forall>i c. sv_objects s i = Some c \<longrightarrow> chan_fd (cn_channel c) \<noteq> fd)" if "0 \<le> fd"
    using N that W wiredD(2) [OF W] unfolding wired_def new_fd_def by auto
qed

lemma with_loop_wired:
  assumes run: "with_loop a f s = Inr s'" and W: "wired v w s"
    and f: "\<And>t t'. same_server s t \<Longrightarrow> sv_cur t = a \<Longrightarrow> loop_at a s = Some (rx_loop t) \<Longrightarrow> wired v w t \<Longrightarrow> f t = Inr t' \<Longrightarrow>
      wired v w t' \<and> sv_cur t' = sv_cur t"
  shows "wired v w s' \<and> sv_cur s' = sv_cur s"
proof -
  have l: "loop_at a s = Some (rx_loop t)" if "same_server s t" "sv_cur t = a" for t
    using same_server_fields(1) [OF that(1), of a] loop_at_cur [of t] that(2) by simp
  obtain t t' where t: "same_server s t" "sv_cur t = a" "loop_at a s = Some (rx_loop t)" "f t = Inr t'"
    and s': "same_server t' s'" "sv_cur s' = sv_cur s"
    by (rule with_loop_same [OF run]) (use f l W wired_same in metis)
  from f [OF t(1-3) _ t(4)] show ?thesis using W wired_same [OF t(1)] wired_same [OF s'(1)] s'(2) by simp
qed

lemma calm_wired: "calm v w s s' \<Longrightarrow> wired v w s \<Longrightarrow> wired v w s' \<and> sv_cur s' = sv_cur s"
  using wired_calm by (auto simp: calm_def spares_def)

lemma newConnection_wired:
  assumes ok: "os_ok os v" and so: "sockets_ok os v w" and S: "sv_cbs s = echo_flags" and W: "wired v w s"
    and fd: "fd \<notin> wakes s" "fd \<in> opens w (rx_kern s)" "\<forall>i c. sv_objects s i = Some c \<longrightarrow> chan_fd (cn_channel c) \<noteq> fd"
      "accepted v (rx_kern s) fd = []" "delivered w (rx_kern s) fd = []"
    and run: "newConnection os (echo_app os tid) tid cptr fd peer s = Inr s'"
  shows "wired v w s' \<and> sv_cur s' = sv_cur s"
proof -
  let ?i = "sv_fresh s" and ?k = "os_setsockopt os fd ''SO_KEEPALIVE'' True (snd (os_getsockname os fd (rx_kern s)))"
  obtain io q where g: "getNextLoop (sv_pool s) = Inr (io, q)" and n: "sv_nextConnId s \<noteq> 2 ^ 31 - 1"
    using run by (auto simp: newConnection_def elim!: res_bindE split: if_splits)
  obtain c where r: "with_loop io (runInLoop os (\<lambda>_. with_conn ?i (connectEstablished os (echo_cbs os tid ?i))) tid
        (Fn_connectEstablished ?i)) (added_conn io q c ?k s) = Inr s'"
    and c: "made_conn ?i (conn_name (sv_name s) (sv_ipPort s) (sv_nextConnId s)) fd (cptr ?i) peer c"
    using newConnection_eq [OF g n refl] run unfolding S by metis
  have "quiet v w (rx_kern s) (snd (os_getsockname os fd (rx_kern s)))" by (rule quiet_sockets(6) [OF so surjective_pairing])
  then have k: "quiet v w (rx_kern s) ?k" using quiet_sockets(7) [OF so] by (rule quiet_trans)
  have W1: "wired v w (added_conn io q c ?k s)" by (rule added_wired [OF W k fd c])
  have "wired v w s' \<and> sv_cur s' = sv_cur (added_conn io q c ?k s)"
  proof (rule with_loop_wired [OF r W1])
    fix t t' assume t: "same_server (added_conn io q c ?k s) t" and Wt: "wired v w t"
      and t': "runInLoop os (\<lambda>_. with_conn ?i (connectEstablished os (echo_cbs os tid ?i))) tid (Fn_connectEstablished ?i) t = Inr t'"
    have i: "sv_objects t ?i = Some c" using same_server_fields(4) [OF t] by (simp add: added_conn_def)
    have "wired v w t' \<and> sv_cur t' = sv_cur t" if "with_conn ?i (connectEstablished os (echo_cbs os tid ?i)) t = Inr t'"
    proof (rule with_conn_wired [OF Wt that])
      fix d u assume d: "sv_objects t ?i = Some d" and u: "connectEstablished os (echo_cbs os tid ?i) (t\<lparr>cs_conn := d\<rparr>) = Inr u"
      show "spares v w {chan_fd (cn_channel d)} (t\<lparr>cs_conn := d\<rparr>) u \<and> fd_of u = chan_fd (cn_channel d) \<and> echoes v w (rx_kern u) (cs_conn u)"
        using connectEstablished_flows [OF so u] wiredD [OF Wt d] c d i by (simp add: busy_def made_conn_def)
    qed
    then show "wired v w t' \<and> sv_cur t' = sv_cur t"
      using t' calm_wired [OF calm_queue [OF ok so] Wt] by (auto simp: runInLoop_def split: if_splits)
  qed
  then show ?thesis by (simp add: added_conn_def)
qed

lemma acceptor_handleRead_wired:
  assumes ok: "os_ok os v" and so: "sockets_ok os v w" and S: "sv_cbs s = echo_flags" and W: "wired v w s"
    and run: "acceptor_handleRead os (echo_app os tid) tid cptr peer0 s = Inr s'"
  shows "wired v w s' \<and> sv_cur s' = sv_cur s"
proof -
  obtain fd peer k where a: "socket_accept os (ac_fd (sv_acceptor s)) peer0 (rx_kern s) = (fd, peer, k)" by (metis prod_cases3)
  note A = accept_wired [OF so W a]
  let ?s = "s\<lparr>rx_kern := k\<rparr>"
  consider "s' = ?s" | "0 \<le> fd" "newConnection os (echo_app os tid) tid cptr fd peer ?s = Inr s'"
    | "0 \<le> fd" "s' = s\<lparr>rx_kern := os_close os fd k\<rparr>"
    using run a by (auto simp: acceptor_handleRead_def Let_def split: if_splits)
  then show ?thesis
  proof cases
    case 1
    then show ?thesis using A(1) by simp
  next
    case 2
    have "wired v w s' \<and> sv_cur s' = sv_cur ?s"
      by (rule newConnection_wired [OF ok so _ A(1) _ _ _ _ _ 2(2)]) (use S A(2) [OF 2(1)] in simp_all)
    then show ?thesis by simp
  next
    case 3
    have "wired v w (?s\<lparr>rx_kern := os_close os fd k\<rparr>)"
      by (rule wired_kern [OF A(1), of "{fd}"]) (use A(2) [OF 3(1)] close_sockets [OF so] in auto)
    then show ?thesis using 3(2) by simp
  qed
qed

lemma free_object_wired:
  assumes so: "sockets_ok os v w" and W: "wired v w s" and c: "sv_objects s i = Some c" and fd: "cn_sockfd c = chan_fd (cn_channel c)"
  shows "wired v w (free_object os i c s)"
proof -
  let ?s = "s\<lparr>sv_objects := (sv_objects s)(i := None)\<rparr>"
  have W1: "wired v w ?s" using W unfolding wired_def by auto
  have "wired v w (?s\<lparr>rx_kern := os_close os (cn_sockfd c) (rx_kern s)\<rparr>)"
  proof (rule wired_kern [OF W1, of "{cn_sockfd c}"])
    show "{cn_sockfd c} \<inter> wakes ?s = {}" using wiredD(3) [OF W c] fd by simp
    show "\<forall>j d. sv_objects ?s j = Some d \<longrightarrow> chan_fd (cn_channel d) \<notin> {cn_sockfd c}" using W c fd unfolding wired_def by auto
  qed (use close_sockets [OF so] in auto)
  then show ?thesis by (simp add: free_object_def)
qed

lemma server_poll_wired:
  assumes so: "sockets_ok os v w" and W: "wired v w s" and run: "server_poll os s = Inr s'"
  shows "wired v w s' \<and> sv_cur s' = sv_cur s"
proof -
  obtain act store q k where p: "poll os kPollTimeMs (lp_poller (rx_loop s)) (server_chans s) (rx_kern s) = Inr (act, store, q, k)"
    and s': "s' = server_put store (s\<lparr>rx_loop := (rx_loop s)\<lparr>lp_poller := q, lp_activeChannels := act\<rparr>, rx_kern := k\<rparr>)"
    using run by (auto simp: server_poll_def elim!: res_bindE)
  have k: "quiet v w (rx_kern s) k"
    using p quiet_sockets(2) [OF so] by (auto simp: poll_def elim!: res_bindE split: prod.splits sum.splits if_splits)
  have w: "wakes s' = wakes s" unfolding s' server_put_def by (rule wakes_upd) (simp add: loop_at_def)
  have pk: "chan_fd (pick store ch) = chan_fd ch" "chan_index (pick store ch) = chan_index ch" for ch
    by (simp_all add: pick_def set_revents_def split: option.splits)
  have e: "echoes v w k (c\<lparr>cn_channel := pick store (cn_channel c)\<rparr>) = echoes v w (rx_kern s) c" for c
    using k by (simp add: echoes_def sent_def conn_sound_def quiet_def pk)
  have F: "rx_kern s' = k" "sv_objects s' i = map_option (\<lambda>c. c\<lparr>cn_channel := pick store (cn_channel c)\<rparr>) (sv_objects s i)"
    "sv_cur s' = sv_cur s" for i by (simp_all add: s' server_put_def)
  have o: "opens w k = opens w (rx_kern s)" using k by (simp add: quiet_def)
  show ?thesis using W unfolding wired_def w F o by (auto simp: e pk)
qed

lemma server_handle_wired:
  assumes ok: "os_ok os v" and sk: "sock_ok os v" and so: "sockets_ok os v w" and inv: "safe v ph s" and S: "sound echo_flags s" and W: "wired v w s"
    and tid: "lp_threadId (rx_loop s) = tid" and ch: "chan_of (\<lambda>fd ix. ix \<noteq> kNew) (life_of v s) (sv_cur s) p"
    and fp: "free_ptr (life_of v s) (cptr (sv_fresh s))"
    and run: "server_handle os (echo_app os tid) tid cptr peer0 p s = Inr s'"
  shows "wired v w s' \<and> sv_cur s' = sv_cur s"
proof -
  consider (wake) "p = chan_ptr (lp_wakeupChannel (rx_loop s))"
    | (acc) "p \<noteq> chan_ptr (lp_wakeupChannel (rx_loop s))" "p = chan_ptr (ac_channel (sv_acceptor s))"
    | (conn) "p \<noteq> chan_ptr (lp_wakeupChannel (rx_loop s))" "p \<noteq> chan_ptr (ac_channel (sv_acceptor s))" by blast
  then show ?thesis
  proof cases
    case wake
    then have e: "handleEvent (\<lambda>_. True) (\<lambda>f s. Inr (case f of Loop_handleRead \<Rightarrow> loop_handleRead os s | _ \<Rightarrow> s))
        (\<lambda>s. lp_wakeupChannel (rx_loop s)) s = Inr s'" using run by (simp add: server_handle_def)
    have "calm v w s s'"
      by (rule handleEvent_inv [OF _ _ e]) (auto split: callback.splits intro: calm_trans loop_handleRead_calm [OF ok so])
    then show ?thesis using W by (rule calm_wired)
  next
    case acc
    let ?acc = "\<lambda>f s. case f of Acceptor_handleRead \<Rightarrow> acceptor_handleRead os (echo_app os tid) tid cptr peer0 s | _ \<Rightarrow> Inr s"
    have e: "handleEvent (\<lambda>_. True) ?acc (\<lambda>s. ac_channel (sv_acceptor s)) s = Inr s'" using run acc by (simp add: server_handle_def)
    have one: "safe v ph t" if "?acc f s = Inr t" for f t
      using that inv echo.acceptor_handleRead_safe [where cptr = cptr, OF ok sk inv fp, of tid peer0 t] by (auto split: callback.splits)
    have "wired v w s' \<and> sv_cur s' = sv_cur s" if "?acc f s = Inr s'" for f
      using that acceptor_handleRead_wired [OF ok so soundD(3) [OF S] W, of tid cptr peer0 s'] W by (cases f) simp_all
    moreover have "s' = s \<or> (\<exists>f. ?acc f s = Inr s')" by (rule accept_handle_cases [OF inv _ e]) (use one in blast)
    ultimately show ?thesis using W by blast
  next
    case conn
    obtain i c where i: "sv_objects s i = Some c" "owner_of p s = Some i" "chan_index (cn_channel c) \<noteq> kNew"
      by (rule handler_ready [OF inv tid ch conn])
    have "with_conn i (handleEvent (\<lambda>obj. sv_objects s obj \<noteq> None) (run_callback os (echo_cbs os tid i) tid) (\<lambda>s. cn_channel (cs_conn s))) s = Inr s'"
      using run conn i(2) soundD(2) [OF S i(1)] by (simp add: server_handle_def)
    then show ?thesis by (rule handle_conn_wired [OF ok so W i(1,3)])
  qed
qed

lemma server_exec_wired:
  assumes ok: "os_ok os v" and so: "sockets_ok os v w" and inv: "safe v ph s" and S: "sound echo_flags s" and W: "wired v w s"
    and ph: "ph (sv_cur s) = In_functors (f # fs)" and nt: "\<not> notice f" and P: "\<And>i. pend ph s i \<Longrightarrow> connecting s i"
    and run: "server_exec os (echo_app os tid) tid mem user f s = Inr s'"
  shows "wired v w s' \<and> sv_cur s' = sv_cur s"
proof -
  note F = functor_fits [OF inv ph]
  have conn: "wired v w s' \<and> sv_cur s' = sv_cur s"
    if cl: "closure_conn f = Some i" and X: "\<And>c t. sv_objects s i = Some c \<Longrightarrow> conn_exec os (echo_cbs os tid i) tid mem f (s\<lparr>cs_conn := c\<rparr>) = Inr t \<Longrightarrow>
      spares v w {chan_fd (cn_channel c)} (s\<lparr>cs_conn := c\<rparr>) t \<and> fd_of t = chan_fd (cn_channel c) \<and> echoes v w (rx_kern t) (cs_conn t)" for i
  proof -
    have r: "with_conn i (conn_exec os (conn_cbs os (echo_app os tid) tid (sv_conn_cbs s i) i) tid mem f) s = Inr s'"
      using run cl by (simp add: server_exec_def)
    then obtain c where "sv_objects s i = Some c" by (auto simp: with_conn_def split: option.splits)
    with r have "with_conn i (conn_exec os (echo_cbs os tid i) tid mem f) s = Inr s'" using soundD(2) [OF S] by simp
    then show ?thesis by (rule with_conn_wired [OF W _ X])
  qed
  show ?thesis
  proof (cases f)
    case (Fn_connectEstablished i)
    have "pend ph s i" using ph Fn_connectEstablished unfolding pend_def by (metis batch_simps(3) list.set_intros(1))
    then have "cn_state c = kConnecting" if "sv_objects s i = Some c" for c using P [of i] that by (auto simp: connecting_def)
    then show ?thesis
      using Fn_connectEstablished wiredD [OF W, of i] connectEstablished_flows [OF so, of tid i "s\<lparr>cs_conn := _\<rparr>"]
      by (intro conn [of i]) (simp_all add: closure_conn_def conn_exec_def busy_def)
  next
    case (Fn_connectDestroyed i)
    then show ?thesis
      using wiredD [OF W, of i] connectDestroyed_flows [OF so, of tid i "s\<lparr>cs_conn := _\<rparr>"]
      by (intro conn [of i]) (simp_all add: closure_conn_def conn_exec_def)
  next
    case (Fn_removeConnectionInLoop i)
    then have "calm v w s s'" using run by (intro removeConnectionInLoop_calm [OF ok so]) (simp add: server_exec_def closure_conn_def)
    then show ?thesis using W by (rule calm_wired)
  qed (use F(2) nt in simp_all)
qed

lemma pending_calm: "calm v w s (snd (swap_pending s))" "calm v w s (end_pending s)"
  by (simp_all add: calm_def spares_def swap_pending_def end_pending_def wakes_loop)

lemma handles_wired:
  assumes ok: "os_ok os v" and sk: "sock_ok os v" and so: "sockets_ok os v w" and R: "running v echo_flags ph s" and W: "wired v w s"
    and ph: "ph b = In_handlers (p # ps)" and l: "loop_at b s = Some l" and fp: "free_ptr (life_of v s) (cptr (sv_fresh s))"
    and run: "with_loop b (server_handle os (echo_app os (lp_threadId l)) (lp_threadId l) cptr peer0 p) s = Inr s'"
  shows "wired v w s' \<and> sv_cur s' = sv_cur s"
proof (rule with_loop_wired [OF run W])
  fix t t' assume t: "same_server s t" "sv_cur t = b" "loop_at b s = Some (rx_loop t)" "wired v w t"
    and r: "server_handle os (echo_app os (lp_threadId l)) (lp_threadId l) cptr peer0 p t = Inr t'"
  have inv: "safe v ph s" and S: "sound echo_flags s" using R by (simp_all add: running_def)
  show "wired v w t' \<and> sv_cur t' = sv_cur t"
    by (rule server_handle_wired [where cptr = cptr, OF ok sk so _ _ t(4) _ _ _ r])
      (use t inv S l fp next_channel(2) [OF inv ph] same_server_life [OF t(1)] same_server_fields [OF t(1)]
        safe_same [OF t(1)] same_views(3) [OF t(1)] in auto)
qed

lemma functors_wired:
  assumes ok: "os_ok os v" and so: "sockets_ok os v w" and R: "running v echo_flags ph s" and W: "wired v w s"
    and ph: "ph b = In_functors (f # fs)" and l: "loop_at b s = Some l"
    and run: "with_loop b (server_exec os (echo_app os (lp_threadId l)) (lp_threadId l) mem user f) s = Inr s'"
  shows "wired v w s' \<and> sv_cur s' = sv_cur s"
proof (rule with_loop_wired [OF run W])
  fix t t' assume t: "same_server s t" "sv_cur t = b" "loop_at b s = Some (rx_loop t)" "wired v w t"
    and r: "server_exec os (echo_app os (lp_threadId l)) (lp_threadId l) mem user f t = Inr t'"
  have inv: "safe v ph s" and S: "sound echo_flags s" and P: "\<And>i. pend ph s i \<Longrightarrow> connecting s i"
    and "filter notice (batch (ph b)) = []" using R by (simp_all add: running_def)
  then have nt: "\<not> notice f" using ph by (auto split: if_splits)
  show "wired v w t' \<and> sv_cur t' = sv_cur t"
    by (rule server_exec_wired [where ph = ph and fs = fs, OF ok so _ _ t(4) _ nt _ r])
      (use t inv S ph P safe_same [OF t(1)] same_views(1,3) [OF t(1)] pend_same [OF t(1)] in auto)
qed

lemma sl_step_wired:
  assumes ok: "os_ok os v" and sk: "sock_ok os v" and so: "sockets_ok os v w"
    and step: "sl_step os (echo_app os) v (ph, s) (ph', s')" and R: "running v echo_flags ph s" and W: "wired v w s"
  shows "wired v w s'"
  using step
proof (cases rule: sl_step.cases)
  case (polls b l)
  have "wired v w s' \<and> sv_cur s' = sv_cur s" by (rule with_loop_wired [OF polls(3) W]) (rule server_poll_wired [OF so])
  then show ?thesis ..
next
  case (handles b p ps l cptr peer0)
  then show ?thesis using handles_wired [where cptr = cptr, OF ok sk so R W] by blast
next
  case (swaps b l)
  have "wired v w s' \<and> sv_cur s' = sv_cur s" by (rule with_loop_wired [OF swaps(4) W]) (use calm_wired pending_calm(1) in fastforce)
  then show ?thesis ..
next
  case (runs b f fs l mem user)
  then show ?thesis using functors_wired [OF ok so R W] by blast
next
  case (ends b)
  have "wired v w s' \<and> sv_cur s' = sv_cur s" by (rule with_loop_wired [OF ends(3) W]) (use calm_wired pending_calm(2) in fastforce)
  then show ?thesis ..
next
  case (frees i c)
  then have "cn_sockfd c = chan_fd (cn_channel c)" using R unfolding running_def safe_def names_inv_def by blast
  with frees show ?thesis using free_object_wired [OF so W] by simp
qed

lemma sl_reach_wired:
  assumes "os_ok os v" and "sock_ok os v" and "sockets_ok os v w" and "sl_reach os (echo_app os) v (ph, s) (ph', s')"
    and "running v echo_flags ph s" and "wired v w s"
  shows "running v echo_flags ph' s' \<and> wired v w s'"
proof -
  have "running v echo_flags (fst y) (snd y) \<and> wired v w (snd y)"
    if "sl_reach os (echo_app os) v x y" "running v echo_flags (fst x) (snd x)" "wired v w (snd x)" for x y
    using that
  proof (induction rule: rtranclp_induct)
    case (step y z)
    then show ?case
      using echo_sound.sl_step_running(1) [OF assms(1,2), of "fst y" "snd y" "fst z" "snd z"]
        sl_step_wired [OF assms(1-3), of "fst y" "snd y" "fst z" "snd z"] by simp
  qed simp
  from this [OF assms(4)] assms(5,6) show ?thesis by simp
qed

subsection \<open>The start\<close>

lemma EventLoop_opens:
  assumes so: "sockets_ok os v w" and run: "EventLoop os False False tid wptr k = Inr r"
  shows "lp_wakeupFd (rx_loop r) \<in> opens w (rx_kern r)" "opens w k \<subseteq> opens w (rx_kern r)"
proof -
  obtain ep k1 where e: "os_epoll_create1 os k = (ep, k1)" by fastforce
  obtain fd k2 where f: "os_eventfd os k1 = (fd, k2)" by fastforce
  obtain ch p k3 ch0 p0 where u: "updateChannel os ch0 p0 k2 = Inr (ch, p, k3)" and r: "rx_kern r = k3" "lp_wakeupFd (rx_loop r) = fd" "0 \<le> fd"
    using run e f
    by (auto simp: EventLoop_def newDefaultPoller_def EPollPoller_def createEventfd_def enableReading_def loop_updateChannel_def Let_def
        elim!: res_bindE split: if_splits)
  have "new_fd v w k ep k1" "new_fd v w k1 fd k2" "quiet v w k2 k3"
    using make_sockets(2) [OF so e] make_sockets(1) [OF so f] poller_quiet(1) [OF so u] .
  then show "lp_wakeupFd (rx_loop r) \<in> opens w (rx_kern r)" "opens w k \<subseteq> opens w (rx_kern r)"
    using r by (auto simp: new_fd_def quiet_def)
qed

lemma start_threads_opens:
  assumes so: "sockets_ok os v w" and sp: "envs_ok os room envs"
  shows "room (\<lambda>b. loop_at b s) (rx_kern s) \<Longrightarrow> start_threads (startLoop envs) i n p s = Inr (p', s') \<Longrightarrow>
    wakes s \<subseteq> opens w (rx_kern s) \<Longrightarrow> wakes s' \<subseteq> opens w (rx_kern s')"
proof (induction n arbitrary: i p s)
  case 0
  then show ?case by simp
next
  case (Suc n)
  let ?nm = "thread_name (ep_name p) i"
  obtain a s1 where s1: "startLoop envs ?nm s = Inr (a, s1)"
    and r: "start_threads (startLoop envs) (i + 1) n (p\<lparr>ep_threads := ep_threads p @ [?nm], ep_loops := ep_loops p @ [a]\<rparr>) s1 = Inr (p', s')"
    using Suc.prems(2) by (auto simp: Let_def elim!: res_bindE)
  obtain tid wptr l where a: "loop_at a s = None" and ev: "EventLoop os False False tid wptr (rx_kern s) = Inr l"
    and e: "s1 = s\<lparr>sv_loops := (sv_loops s)(a \<mapsto> rx_loop l), rx_kern := rx_kern l\<rparr>"
    and rm: "room (\<lambda>b. loop_at b s1) (rx_kern s1)"
    by (rule startLoop_placed [OF sp Suc.prems(1) s1])
  have "loop_at b s1 = (if b = a then Some (rx_loop l) else loop_at b s)" for b
    using a by (auto simp: e loop_at_def split: if_splits)
  then have "wakes s1 \<subseteq> insert (lp_wakeupFd (rx_loop l)) (wakes s)" by (auto simp: wakes_def)
  moreover have "rx_kern s1 = rx_kern l" by (simp add: e)
  ultimately have "wakes s1 \<subseteq> opens w (rx_kern s1)" using EventLoop_opens [OF so ev] Suc.prems(3) by auto
  then show ?case by (rule Suc.IH [OF rm r])
qed

lemma TcpServer_opens:
  assumes so: "sockets_ok os v w" and ev: "EventLoop os False False tid wptr k = Inr r"
    and run: "TcpServer os obj0 (Some a) addr nm reuse aptr r = Inr s"
  shows "wakes s \<subseteq> opens w (rx_kern s)"
proof -
  obtain fd k1 where f: "os_socket os (rx_kern r) = (fd, k1)" by fastforce
  obtain y k2 where b: "os_bind os fd addr (os_setsockopt os fd ''SO_REUSEPORT'' True (os_setsockopt os fd ''SO_REUSEADDR'' True k1)) = (y, k2)"
    by fastforce
  have "new_fd v w (rx_kern r) fd k1" by (rule make_sockets(3) [OF so f])
  moreover have "quiet v w k1 k2"
    by (rule quiet_trans [OF quiet_trans [OF quiet_sockets(7) [OF so] quiet_sockets(7) [OF so]] quiet_sockets(4) [OF so b]])
  ultimately have k2: "opens w (rx_kern r) \<subseteq> opens w k2" by (auto simp: new_fd_def quiet_def)
  have "rx_kern s = k2" "rx_loop s = rx_loop r" "sv_loops s = Map.empty" "sv_cur s = a"
    using run f b by (auto simp: TcpServer_def Acceptor_def createNonblocking_def bindAddress_def setReuseAddr_def setReusePort_def
        elim!: res_bindE split: if_splits)
  then show ?thesis using EventLoop_opens(1) [OF so ev] k2 by (auto simp: wakes_def loop_at_def split: if_splits)
qed

lemma EchoServer_wired:
  assumes ok: "os_ok os v" and sk: "sock_ok os v" and so: "sockets_ok os v w" and sp: "envs_ok os room envs"
    and ev: "EventLoop os False False tid wptr k = Inr r" and mk: "EchoServer os obj0 (Some a) addr nm aptr r = Inr s"
    and rm: "room (\<lambda>b. loop_at b s) (rx_kern s)" and run: "start os envs None tid s = Inr s0"
  shows "wired v w s0"
proof -
  obtain s1 where s1: "TcpServer os obj0 (Some a) addr nm False aptr r = Inr s1"
    and s: "s = setThreadNum 3 (setMessageCallback (setConnectionCallback s1))"
    using mk by (auto simp: EchoServer_def elim!: res_bindE)
  note up = s setThreadNum_def setMessageCallback_def setConnectionCallback_def pool_setThreadNum_def
  note T = TcpServer_listening [OF ok sk ev s1]
  have sf: "listening v s" "sv_cur s = sv_loop s" "lp_threadId (rx_loop s) = tid" "sv_started s = 0"
    "chan_index (ac_channel (sv_acceptor s)) = kNew" using T by (simp_all add: up)
  obtain p s2 where st: "start_threads (startLoop envs) 0 (nat (ep_numThreads (sv_pool s))) ((sv_pool s)\<lparr>ep_started := True\<rparr>)
      (s\<lparr>sv_started := 1\<rparr>) = Inr (p, s2)" and ac: "acceptor_listen os (s2\<lparr>sv_pool := p\<rparr>) = Inr s0" and l0: "listening v s0"
    by (rule start_listening [OF ok sk sp sf(1) rm sf(2-5) run])
  have "wakes (s\<lparr>sv_started := 1\<rparr>) = wakes s1" by (rule wakes_upd) (simp add: up loop_at_def)
  then have "wakes (s\<lparr>sv_started := 1\<rparr>) \<subseteq> opens w (rx_kern (s\<lparr>sv_started := 1\<rparr>))"
    using TcpServer_opens [OF so ev s1] by (simp add: up)
  then have w2: "wakes s2 \<subseteq> opens w (rx_kern s2)" by (rule start_threads_opens [OF so sp _ st, rotated]) (use rm in simp)
  obtain x k3 ch q k4 where l: "os_listen os (ac_fd (sv_acceptor s2)) 1024 (rx_kern s2) = (x, k3)"
    "updateChannel os (set_reading (ac_channel (sv_acceptor s2))) (lp_poller (rx_loop s2)) k3 = Inr (ch, q, k4)"
    and s0: "s0 = (s2\<lparr>sv_pool := p\<rparr>)\<lparr>rx_loop := (rx_loop s2)\<lparr>lp_poller := q\<rparr>, rx_kern := k4,
       sv_acceptor := (sv_acceptor s2)\<lparr>ac_listenning := True, ac_channel := ch\<rparr>\<rparr>"
    by (rule acceptor_listen_shape [OF ac]) simp
  have "opens w k4 = opens w (rx_kern s2)" using quiet_sockets(5) [OF so l(1)] poller_quiet(1) [OF so l(2)] by (simp add: quiet_def)
  moreover have "wakes s0 = wakes s2" unfolding s0 by (rule wakes_upd) (simp add: loop_at_def)
  ultimately have "wakes s0 \<subseteq> opens w (rx_kern s0)" using w2 by (simp add: s0)
  then show ?thesis using l0 by (simp add: wired_def listening_def)
qed

section \<open>Properties\<close>

text \<open>C6: A client of a running echo server gets back what it sent and nothing else. In every state the threads can
  reach, the bytes written to the socket of a connection, followed by those that wait in its output buffer, are a
  prefix of the bytes read from this socket, and no other connection has the same socket. As long as the connection
  has not been shut down or closed, no byte that was read is lost: all of them are in its input buffer.\<close>

theorem echo_server_returns_own_bytes:
  assumes "os_ok os v" and "sock_ok os v" and "sockets_ok os v w" and "envs_ok os room envs"
    and "EventLoop os False False tid wptr k = Inr r" and "EchoServer os obj0 (Some a) addr nm aptr r = Inr s1"
    and "room (\<lambda>b. loop_at b s1) (rx_kern s1)" and "start os envs None tid s1 = Inr s0"
    and "sl_reach os (echo_app os) v (\<lambda>_. In_poll, s0) (ph, s)" and "sv_objects s i = Some c"
  shows "prefix (accepted v (rx_kern s) (cn_sockfd c) @ contents (cn_outputBuffer c)) (delivered w (rx_kern s) (cn_sockfd c)) \<and>
    (\<forall>j d. sv_objects s j = Some d \<longrightarrow> j \<noteq> i \<longrightarrow> cn_sockfd d \<noteq> cn_sockfd c) \<and>
    (cn_state c \<le> kConnected \<longrightarrow> delivered w (rx_kern s) (cn_sockfd c) = contents (cn_inputBuffer c))"
proof -
  have "running v echo_flags ph s \<and> wired v w s"
    by (rule sl_reach_wired [OF assms(1-3,9) EchoServer_running [OF assms(1,2,4-8)] EchoServer_wired [OF assms(1-8)]])
  then have W: "wired v w s" and "names_inv s" by (simp_all add: running_def safe_def)
  then have fd: "cn_sockfd d = chan_fd (cn_channel d)" if "sv_objects s j = Some d" for j d
    using that unfolding names_inv_def by blast
  show ?thesis
    using W wiredD(1) [OF W assms(10)] fd [OF assms(10)] fd assms(10) unfolding wired_def echoes_def sent_def by auto
qed

theorem echo_server_returns_own_bytes_witness:
  "\<exists>s0 ph s c. start sim_os sim_envs None 1 sim_echo = Inr s0 \<and>
     sl_reach sim_os (echo_app sim_os) sim_view (\<lambda>_. In_poll, s0) (ph, s) \<and> sv_objects s 0 = Some c \<and> cn_state c = kConnected \<and>
     prefix (accepted sim_view (rx_kern s) (cn_sockfd c) @ contents (cn_outputBuffer c)) (delivered sim_sockets (rx_kern s) (cn_sockfd c)) \<and>
     delivered sim_sockets (rx_kern s) (cn_sockfd c) = contents (cn_inputBuffer c)"
proof -
  obtain r where r: "EventLoop sim_os False False 1 0 sim_kernel = Inr r"
    "EchoServer sim_os (sim_tcp kDisconnected) (Some 50) sim_listen_addr ''echo'' 9 r = Inr sim_echo"
    by (rule sim_echo_made)
  obtain s0 where s0: "start sim_os sim_envs None 1 sim_echo = Inr s0"
    and r1: "sl_reach sim_os (echo_app sim_os) sim_view (\<lambda>_. In_poll, s0) ((\<lambda>_. In_poll)(50 := In_handlers [9]), sim_polled)"
    by (rule sim_starts)
  obtain s ph s' where "sl_step sim_os (echo_app sim_os) sim_view ((\<lambda>_. In_poll)(50 := In_handlers [9]), sim_polled)
      ((\<lambda>_. In_poll)(50 := In_handlers []), s)"
    and "sl_reach sim_os (echo_app sim_os) sim_view ((\<lambda>_. In_poll)(50 := In_handlers []), s) (ph, s')"
    and c: "map_option cn_state (sv_objects s' 0) = Some kConnected"
    by (rule sim_connects)
  then have r2: "sl_reach sim_os (echo_app sim_os) sim_view (\<lambda>_. In_poll, s0) (ph, s')"
    using r1 by (meson rtranclp.rtrancl_into_rtrancl rtranclp_trans)
  obtain d where d: "sv_objects s' 0 = Some d" "cn_state d = kConnected" using c by auto
  have "prefix (accepted sim_view (rx_kern s') (cn_sockfd d) @ contents (cn_outputBuffer d)) (delivered sim_sockets (rx_kern s') (cn_sockfd d)) \<and>
      delivered sim_sockets (rx_kern s') (cn_sockfd d) = contents (cn_inputBuffer d)"
    using echo_server_returns_own_bytes [OF sim_os_ok sim_sock_ok sim_sockets_ok sim_envs_ok r sim_echo_room s0 r2 d(1)] d(2) by auto
  then show ?thesis using s0 r2 d by blast
qed

end
