(* ===== verification/Msg_Server.thy ===== *)
theory Msg_Server
  imports Net_ServerLoop
begin

text \<open>
  The callbacks of the message server (\<open>msg_server/msgserver.cpp\<close>) and the session of the database proxy
  (\<open>db_proxy_server/TcpSession.h\<close>). The constructor of the message server does not compile (it calls
  \<open>server_->\<close> on an object and leaves that object without arguments), so only the callbacks are modelled; they
  interpret the locale \<open>application\<close>, so a server that installed them would be safe. \<open>json::parse\<close> is the argument
  \<open>parse\<close>: \<open>None\<close> is the exception it throws for a text that is no JSON, which nothing catches.
\<close>

section \<open>The callbacks\<close>

definition msg_onConnection :: "'k os \<Rightarrow> int \<Rightarrow> ('k, 'a) conn_state_scheme \<Rightarrow> ('k, 'a) conn_state_scheme res" where
  "msg_onConnection os tid s = Inr (if \<not> connected (cs_conn s) then shutdown os tid s else s)"

definition msg_onMessage ::
    "(bytes \<Rightarrow> 'j option) \<Rightarrow> ('k, 'a) conn_state_scheme \<Rightarrow> ('k, 'a) conn_state_scheme res" where
  "msg_onMessage parse s =
     res_bind (retrieveAllAsString (cn_inputBuffer (cs_conn s))) (\<lambda>(buf, b).
       case parse buf of
         None \<Rightarrow> Inl Uncaught_Exception
       | Some js \<Rightarrow> Inr (s\<lparr>cs_conn := (cs_conn s)\<lparr>cn_inputBuffer := b\<rparr>\<rparr>))"

definition msg_app :: "(bytes \<Rightarrow> 'j option) \<Rightarrow> 'k os \<Rightarrow> int \<Rightarrow> 'k server conn_callbacks" where
  "msg_app parse os tid =
     \<lparr>connectionCallback = Some (msg_onConnection os tid), messageCallback = Some (msg_onMessage parse),
      writeCompleteCallback = None, highWaterMarkCallback = None, closeCallback_conn = None\<rparr>"

text \<open>The guard is the wrong way round: \<open>shutdown\<close> acts on a connected connection only.\<close>

lemma msg_onConnection_idle: "msg_onConnection os tid s = Inr s"
  by (simp add: msg_onConnection_def shutdown_def connected_def)

text \<open>All that was received is taken as one text, whatever part of a message it is.\<close>

lemma msg_onMessage_takes_all:
  assumes "wf_buffer (cn_inputBuffer (cs_conn s))"
  shows "msg_onMessage parse s =
    (case parse (contents (cn_inputBuffer (cs_conn s))) of
       None \<Rightarrow> Inl Uncaught_Exception
     | Some js \<Rightarrow> Inr (s\<lparr>cs_conn := (cs_conn s)\<lparr>cn_inputBuffer := retrieveAll (cn_inputBuffer (cs_conn s))\<rparr>\<rparr>))"
  using assms by (simp add: msg_onMessage_def retrieveAllAsString_wf)

interpretation msg: application "msg_app parse"
proof (unfold_locales, goal_cases)
  case (1 os v g tid ph i s s')
  consider "s' = s" | b where "s' = s\<lparr>cs_conn := (cs_conn s)\<lparr>cn_inputBuffer := b\<rparr>\<rparr>"
    using 1(2,4) by (auto simp: msg_app_def app_callbacks_def msg_onConnection_idle msg_onMessage_def
        elim!: res_bindE split: option.splits)
  then show ?case using kept_refl [OF 1(3)] kept_buffers [OF 1(3)] by cases auto
qed

section \<open>Sessions\<close>

text \<open>A session keeps a \<open>weak_ptr\<close>: the number of a connection object, which expires when the object is freed.
  Other threads may run between the test and \<open>lock()\<close>, so these read two states.\<close>

record tcp_session =
  ts_tmpConn :: nat

definition expired :: "'k server \<Rightarrow> nat \<Rightarrow> bool" where
  "expired s i \<longleftrightarrow> sv_objects s i = None"

definition getConnectionPtr :: "tcp_session \<Rightarrow> 'k server \<Rightarrow> 'k server \<Rightarrow> nat option" where
  "getConnectionPtr ss s s' =
     (if expired s (ts_tmpConn ss) then None
      else if expired s' (ts_tmpConn ss) then None else Some (ts_tmpConn ss))"

lemma getConnectionPtr_alive:
  assumes "getConnectionPtr ss s s' = Some i"
  obtains c where "i = ts_tmpConn ss" and "sv_objects s' i = Some c"
  using assms by (auto simp: getConnectionPtr_def expired_def split: if_splits)

end
