(* ===== verification/Base_Thread.thy ===== *)
theory Base_Thread
  imports Talk_Prelude
begin

text \<open>
  \<open>common/base/Thread.cc\<close>, \<open>CurrentThread.cc\<close>, \<open>Any.h\<close>, \<open>Semaphore.h\<close> and \<open>Task.cc\<close>: thread objects and
  their numbers, the cached thread number of the kernel, values of any type, the counting semaphore,
  and the result of a task. A call that would block answers \<open>None\<close>. The type a value of class \<open>Any\<close>
  was stored with is a tag. The text printed by destructors is left out.
\<close>

section \<open>Threads\<close>

record thread =
  th_started :: bool
  th_joined :: bool
  th_handle :: bool
  th_tid :: int
  th_func :: bool
  th_name :: string
  th_threadId :: int

text \<open>\<open>numCreated_\<close> is an atomic \<open>int\<close>, whose increment wraps.\<close>

definition numCreated0 :: int where
  "numCreated0 = - 1"

definition setDefaultName :: "int \<Rightarrow> thread \<Rightarrow> thread \<times> int" where
  "setDefaultName numCreated t =
     (let num = to_int32 (numCreated + 1);
          t1 = t\<lparr>th_threadId := num\<rparr>
      in (if th_name t1 = [] then t1\<lparr>th_name := snprintf 32 (''Thread'' @ show_int num)\<rparr> else t1, num))"

definition Thread :: "bool \<Rightarrow> string \<Rightarrow> int \<Rightarrow> thread \<times> int" where
  "Thread func nm numCreated =
     setDefaultName numCreated
       \<lparr>th_started = False, th_joined = False, th_handle = False, th_tid = 0, th_func = func, th_name = nm,
        th_threadId = 0\<rparr>"

text \<open>The cached kernel number of the calling thread: \<open>gettid\<close> is called once per thread.\<close>

definition cacheTid :: "int \<Rightarrow> int \<Rightarrow> int" where
  "cacheTid gettid cached = (if cached = 0 then gettid else cached)"

definition current_tid :: "int \<Rightarrow> int \<Rightarrow> int \<times> int" where
  "current_tid gettid cached =
     (let cached' = (if cached = 0 then cacheTid gettid cached else cached) in (cached', cached'))"

text \<open>\<open>start\<close> returns after the new thread has stored its kernel number; the second component is what
  the new thread then calls its function with, \<open>None\<close> when there is no function.\<close>

definition thread_start :: "int \<Rightarrow> thread \<Rightarrow> thread \<times> int option" where
  "thread_start gettid t =
     (let t1 = t\<lparr>th_started := True, th_handle := True, th_tid := fst (current_tid gettid 0)\<rparr>
      in (t1, if th_func t1 then Some (th_threadId t1) else None))"

text \<open>\<open>join\<close> follows the null pointer of a thread that was never started.\<close>

definition thread_join :: "thread \<Rightarrow> thread res" where
  "thread_join t =
     (let t1 = t\<lparr>th_joined := True\<rparr> in if th_handle t1 then Inr t1 else Inl Undefined_Behaviour)"

text \<open>The destructor detaches a thread that runs and was not joined.\<close>

definition thread_dtor :: "thread \<Rightarrow> bool res" where
  "thread_dtor t =
     (if th_started t \<and> \<not> th_joined t then
        if th_handle t then Inr True else Inl Undefined_Behaviour
      else Inr False)"

text \<open>Threads constructed one after the other.\<close>

fun make_threads :: "nat \<Rightarrow> int \<Rightarrow> thread list \<times> int" where
  "make_threads 0 c = ([], c)"
| "make_threads (Suc n) c =
     (case Thread True [] c of (t, c1) \<Rightarrow> case make_threads n c1 of (ts, c2) \<Rightarrow> (t # ts, c2))"

section \<open>Values of any type\<close>

record 'v any =
  any_base :: "(nat \<times> 'v) option"

datatype any_error = Type_is_unmatch

definition Any0 :: "'v any" where
  "Any0 = \<lparr>any_base = None\<rparr>"

definition Any :: "nat \<Rightarrow> 'v \<Rightarrow> 'v any" where
  "Any T data = \<lparr>any_base = Some (T, data)\<rparr>"

definition any_cast :: "nat \<Rightarrow> 'v any \<Rightarrow> any_error + 'v" where
  "any_cast T a =
     (case any_base a of
        None \<Rightarrow> Inl Type_is_unmatch
      | Some (T', data) \<Rightarrow> if T' = T then Inr data else Inl Type_is_unmatch)"

text \<open>Moving from an \<open>Any\<close> leaves it empty.\<close>

definition any_move :: "'v any \<Rightarrow> 'v any \<times> 'v any" where
  "any_move a = (a, Any0)"

section \<open>The semaphore\<close>

record semaphore =
  resLimit :: int

definition Semaphore :: "int \<Rightarrow> semaphore" where
  "Semaphore limit = \<lparr>resLimit = limit\<rparr>"

definition sem_wait :: "semaphore \<Rightarrow> semaphore option" where
  "sem_wait s = (if 0 < resLimit s then Some (s\<lparr>resLimit := resLimit s - 1\<rparr>) else None)"

definition sem_post :: "semaphore \<Rightarrow> semaphore res" where
  "sem_post s =
     (if resLimit s = 2 ^ 31 - 1 then Inl Undefined_Behaviour else Inr (s\<lparr>resLimit := resLimit s + 1\<rparr>))"

section \<open>Tasks and their results\<close>

text \<open>A task points to its result and the result to its task; both are objects at an address.\<close>

record 'v result =
  rs_any :: "'v any"
  rs_sem :: semaphore
  rs_task :: nat
  rs_isValid :: bool

record task =
  tk_result :: "nat option"

record 'v task_heap =
  hp_results :: "nat \<Rightarrow> 'v result option"
  hp_tasks :: "nat \<Rightarrow> task option"

definition Task :: task where
  "Task = \<lparr>tk_result = None\<rparr>"

definition setResult :: "nat \<Rightarrow> nat \<Rightarrow> 'v task_heap \<Rightarrow> 'v task_heap res" where
  "setResult t res h =
     (case hp_tasks h t of
        None \<Rightarrow> Inl Undefined_Behaviour
      | Some tk \<Rightarrow> Inr (h\<lparr>hp_tasks := (hp_tasks h)(t \<mapsto> tk\<lparr>tk_result := Some res\<rparr>)\<rparr>))"

definition Result :: "nat \<Rightarrow> nat \<Rightarrow> bool \<Rightarrow> 'v task_heap \<Rightarrow> 'v task_heap res" where
  "Result r t isValid h =
     setResult t r (h\<lparr>hp_results := (hp_results h)(r \<mapsto>
       \<lparr>rs_any = Any0, rs_sem = Semaphore 0, rs_task = t, rs_isValid = isValid\<rparr>)\<rparr>)"

definition setVal :: "nat \<Rightarrow> 'v any \<Rightarrow> 'v task_heap \<Rightarrow> 'v task_heap res" where
  "setVal r a h =
     (case hp_results h r of
        None \<Rightarrow> Inl Undefined_Behaviour
      | Some rs \<Rightarrow>
          res_bind (sem_post (rs_sem rs)) (\<lambda>sem.
            Inr (h\<lparr>hp_results := (hp_results h)(r \<mapsto> rs\<lparr>rs_any := fst (any_move a), rs_sem := sem\<rparr>)\<rparr>)))"

text \<open>\<open>get\<close> answers an empty text for an invalid result, blocks (\<open>None\<close>) while the task has not run,
  and otherwise moves the value out. \<open>dflt\<close> is the \<open>Any\<close> built from the literal.\<close>

definition result_get :: "'v any \<Rightarrow> nat \<Rightarrow> 'v task_heap \<Rightarrow> ('v any \<times> 'v task_heap) option res" where
  "result_get dflt r h =
     (case hp_results h r of
        None \<Rightarrow> Inl Undefined_Behaviour
      | Some rs \<Rightarrow>
          if \<not> rs_isValid rs then Inr (Some (dflt, h))
          else case sem_wait (rs_sem rs) of
            None \<Rightarrow> Inr None
          | Some sem \<Rightarrow>
              (case any_move (rs_any rs) of (a, rest) \<Rightarrow>
                 Inr (Some (a, h\<lparr>hp_results := (hp_results h)(r \<mapsto> rs\<lparr>rs_any := rest, rs_sem := sem\<rparr>)\<rparr>))))"

text \<open>\<open>exec\<close> runs the task only when it has a result to store into; \<open>run\<close> is the virtual function of
  the task.\<close>

definition task_exec :: "'v any \<Rightarrow> nat \<Rightarrow> 'v task_heap \<Rightarrow> 'v task_heap res" where
  "task_exec run t h =
     (case hp_tasks h t of
        None \<Rightarrow> Inl Undefined_Behaviour
      | Some tk \<Rightarrow> (case tk_result tk of None \<Rightarrow> Inr h | Some r \<Rightarrow> setVal r run h))"

section \<open>Numbers of threads\<close>

lemma Thread_number:
  assumes "- 1 \<le> c" and "c < 2 ^ 31 - 1"
  shows "Thread f [] c = (\<lparr>th_started = False, th_joined = False, th_handle = False, th_tid = 0, th_func = f,
      th_name = ''Thread'' @ show_nat (nat (c + 1)), th_threadId = c + 1\<rparr>, c + 1)"
proof -
  have i: "to_int32 (c + 1) = c + 1" using assms by (intro to_int32_id) auto
  have "nat (c + 1) < 10 ^ 10" using assms by simp
  then have "length (show_nat (nat (c + 1))) \<le> 10" by (rule length_show_nat_le) simp
  then show ?thesis
    using assms by (simp add: Thread_def setDefaultName_def Let_def i snprintf_def show_int_nonneg)
qed

text \<open>The threads made from counter \<open>c\<close> on are numbered \<open>c + 1\<close>, \<open>c + 2\<close>, and so on.\<close>

lemma make_threads_numbers:
  assumes "- 1 \<le> c" and "c + int n < 2 ^ 31"
  shows "map th_threadId (fst (make_threads n c)) = map (\<lambda>i. c + 1 + int i) [0..<n] \<and>
    snd (make_threads n c) = c + int n \<and> length (fst (make_threads n c)) = n \<and>
    (\<forall>t \<in> set (fst (make_threads n c)). th_func t \<and> \<not> th_started t)"
  using assms
proof (induction n arbitrary: c)
  case 0
  then show ?case by simp
next
  case (Suc n)
  have t: "Thread True [] c = (\<lparr>th_started = False, th_joined = False, th_handle = False, th_tid = 0, th_func = True,
      th_name = ''Thread'' @ show_nat (nat (c + 1)), th_threadId = c + 1\<rparr>, c + 1)"
    using Suc.prems by (intro Thread_number) auto
  have "map (\<lambda>i. c + 1 + int i) [0..<Suc n] = (c + 1) # map (\<lambda>i. c + 1 + 1 + int i) [0..<n]"
    by (simp add: upt_conv_Cons map_Suc_upt [symmetric] del: upt_Suc)
  then show ?case
    using Suc.IH [of "c + 1"] Suc.prems by (simp add: t case_prod_beta del: upt_Suc)
qed

lemma current_tid_stable:
  "g \<noteq> 0 \<Longrightarrow> current_tid g c = (t, c') \<Longrightarrow> t = (if c = 0 then g else c) \<and> current_tid g' c' = (t, c')"
  by (auto simp: current_tid_def cacheTid_def Let_def split: if_splits)

lemma join_needs_start: "thread_join (fst (Thread f nm c)) = Inl Undefined_Behaviour"
  by (simp add: thread_join_def Thread_def setDefaultName_def Let_def)

section \<open>Properties\<close>

lemma any_cast_Any: "any_cast T' (Any T x) = (if T' = T then Inr x else Inl Type_is_unmatch)"
  by (auto simp: any_cast_def Any_def)

text \<open>The result of a task is handed over once. Between the construction of the result and the
  execution of its task \<open>get\<close> blocks; the first \<open>get\<close> after it answers the value the task returned,
  which \<open>cast\<close> gives back at the type it was stored with and refuses at any other; a second \<open>get\<close>
  blocks. The result of a task that was refused answers at once with an empty text.\<close>

lemma result_handed_over_once:
  assumes "hp_tasks h t = Some tk"
  shows "\<exists>h1 h2 h3. Result r t True h = Inr h1 \<and> result_get dflt r h1 = Inr None \<and>
    task_exec (Any T x) t h1 = Inr h2 \<and> result_get dflt r h2 = Inr (Some (Any T x, h3)) \<and>
    (\<forall>T'. any_cast T' (Any T x) = (if T' = T then Inr x else Inl Type_is_unmatch)) \<and>
    result_get dflt r h3 = Inr None \<and>
    (\<exists>h4. Result r t False h = Inr h4 \<and> result_get dflt r h4 = Inr (Some (dflt, h4)))"
  using assms
  by (simp add: Result_def setResult_def result_get_def sem_wait_def Semaphore_def task_exec_def setVal_def
      sem_post_def any_move_def any_cast_Any)

end
