(* ===== verification/Base_ThreadPool.thy ===== *)
theory Base_ThreadPool
  imports Base_Thread
begin

text \<open>
  \<open>common/base/ThreadPool.h\<close> and \<open>ThreadPool.cc\<close>: a pool of threads that take tasks from one queue.
  The members of the class are the record \<open>thread_pool\<close>; \<open>pool_state\<close> adds where every worker and the
  destructor are, who holds the mutex between two waits, and, for the statements only, the tasks
  accepted, started and finished. Everything the code does under the mutex is one step, except that
  a worker holds it from its test of \<open>isPoolRunning_\<close> to its wait, because the destructor clears the flag
  without the mutex. A timed wait that has timed out is a place of its own: such a worker misses
  notifications until it has the mutex again. Spurious wake-ups are not steps.
\<close>

section \<open>The model\<close>

datatype PoolMode = MODE_FIXED | MODE_CACHED

record 't thread_pool =
  tp_threads :: "int \<Rightarrow> thread option"
  tp_initThreadSize :: int
  tp_threadSizeThreshHold :: int
  tp_curThreadSize :: int
  tp_idleThreadSize :: int
  tp_taskQue :: "'t list"
  tp_taskSize :: int
  tp_taskQueMaxThreshHold :: int
  tp_poolMode :: PoolMode
  tp_isPoolRunning :: bool
  tp_numCreated :: int

text \<open>A worker is about to lock the mutex, has found the queue empty and the pool running, sleeps on
  \<open>notEmpty_\<close>, has timed out of that sleep, runs a task (with its place in the order of the queue), or
  has returned.\<close>

datatype 't wpc = W_none | W_loop | W_checked | W_wait | W_timeout | W_run nat 't | W_done

datatype dpc = D_none | D_flagged | D_wait | D_check | D_done

record 't pool_state = "'t thread_pool" +
  ps_pc :: "int \<Rightarrow> 't wpc"
  ps_lock :: "int option"
  ps_dtor :: dpc
  ps_accepted :: "'t list"
  ps_started :: "'t list"
  ps_finished :: "nat list"

definition TASK_MAX_THRESHHOLD :: int where
  "TASK_MAX_THRESHHOLD = 2 ^ 31 - 1"

definition THREAD_MAX_THRESHHOLD :: int where
  "THREAD_MAX_THRESHHOLD = 1024"

definition ThreadPool :: "int \<Rightarrow> 't pool_state" where
  "ThreadPool numCreated =
     \<lparr>tp_threads = Map.empty, tp_initThreadSize = 0, tp_threadSizeThreshHold = THREAD_MAX_THRESHHOLD,
      tp_curThreadSize = 0, tp_idleThreadSize = 0, tp_taskQue = [], tp_taskSize = 0,
      tp_taskQueMaxThreshHold = TASK_MAX_THRESHHOLD, tp_poolMode = MODE_FIXED, tp_isPoolRunning = False,
      tp_numCreated = numCreated, ps_pc = (\<lambda>_. W_none), ps_lock = None, ps_dtor = D_none,
      ps_accepted = [], ps_started = [], ps_finished = []\<rparr>"

definition checkRunningState :: "('t, 'a) thread_pool_scheme \<Rightarrow> bool" where
  "checkRunningState s = tp_isPoolRunning s"

definition setMode :: "PoolMode \<Rightarrow> ('t, 'a) thread_pool_scheme \<Rightarrow> ('t, 'a) thread_pool_scheme" where
  "setMode m s = (if checkRunningState s then s else s\<lparr>tp_poolMode := m\<rparr>)"

definition setTaskQueMaxThreshHold :: "int \<Rightarrow> ('t, 'a) thread_pool_scheme \<Rightarrow> ('t, 'a) thread_pool_scheme" where
  "setTaskQueMaxThreshHold n s = (if checkRunningState s then s else s\<lparr>tp_taskQueMaxThreshHold := n\<rparr>)"

definition setThreadSizeThreshHold :: "int \<Rightarrow> ('t, 'a) thread_pool_scheme \<Rightarrow> ('t, 'a) thread_pool_scheme" where
  "setThreadSizeThreshHold n s =
     (if checkRunningState s then s
      else if tp_poolMode s = MODE_CACHED then s\<lparr>tp_threadSizeThreshHold := n\<rparr> else s)"

text \<open>\<open>unordered_map::emplace\<close> keeps an existing entry.\<close>

definition emplace :: "int \<Rightarrow> thread \<Rightarrow> (int \<Rightarrow> thread option) \<Rightarrow> int \<Rightarrow> thread option" where
  "emplace k v m = (if m k = None then m(k \<mapsto> v) else m)"

text \<open>\<open>threads_[key]->start()\<close>: a missing key is a null pointer. The new thread calls \<open>threadFunc\<close> with
  its own number.\<close>

definition launch :: "int \<Rightarrow> int \<Rightarrow> 't pool_state \<Rightarrow> 't pool_state res" where
  "launch gettid key s =
     (case tp_threads s key of
        None \<Rightarrow> Inl Undefined_Behaviour
      | Some th \<Rightarrow>
          (case thread_start gettid th of (th', call) \<Rightarrow>
             Inr (s\<lparr>tp_threads := (tp_threads s)(key \<mapsto> th'),
                    ps_pc := (case call of None \<Rightarrow> ps_pc s | Some i \<Rightarrow> (ps_pc s)(i := W_loop))\<rparr>)))"

definition start :: "(nat \<Rightarrow> int) \<Rightarrow> int \<Rightarrow> 't pool_state \<Rightarrow> 't pool_state res" where
  "start gettid initThreadSize s =
     (let s1 = s\<lparr>tp_isPoolRunning := True, tp_initThreadSize := initThreadSize, tp_curThreadSize := initThreadSize\<rparr>
      in case make_threads (nat initThreadSize) (tp_numCreated s1) of (ts, c) \<Rightarrow>
           fold_res (\<lambda>i s2. res_bind (launch (gettid i) (int i) s2) (\<lambda>s3.
                        Inr (s3\<lparr>tp_idleThreadSize := tp_idleThreadSize s3 + 1\<rparr>)))
             [0..<nat initThreadSize]
             (s1\<lparr>tp_numCreated := c, tp_threads := fold (\<lambda>t. emplace (th_threadId t) t) ts (tp_threads s1)\<rparr>))"

text \<open>The queue is measured against the limit converted to \<open>size_t\<close>.\<close>

definition queue_limit :: "int \<Rightarrow> nat" where
  "queue_limit n = nat (n mod 2 ^ 64)"

definition notEmpty_notify_all :: "'t pool_state \<Rightarrow> 't pool_state" where
  "notEmpty_notify_all s = s\<lparr>ps_pc := (\<lambda>i. if ps_pc s i = W_wait then W_loop else ps_pc s i)\<rparr>"

definition exitCond_notify_all :: "'t pool_state \<Rightarrow> 't pool_state" where
  "exitCond_notify_all s = s\<lparr>ps_dtor := (if ps_dtor s = D_wait then D_check else ps_dtor s)\<rparr>"

text \<open>\<open>submitTask\<close>. When the queue stays full for a second the task is refused and a default value is
  answered (\<open>None\<close> here); otherwise the task is queued, every sleeping worker is notified, and in
  cached mode a thread is added when there are more tasks than idle threads.\<close>

definition submit_grow :: "int \<Rightarrow> 't pool_state \<Rightarrow> 't pool_state res" where
  "submit_grow gettid s =
     (if tp_poolMode s = MODE_CACHED \<and> tp_idleThreadSize s < tp_taskSize s \<and>
         tp_curThreadSize s < tp_threadSizeThreshHold s then
        (case Thread True [] (tp_numCreated s) of (th, c) \<Rightarrow>
           res_bind (launch gettid c (s\<lparr>tp_numCreated := c, tp_threads := emplace c th (tp_threads s)\<rparr>)) (\<lambda>s1.
             Inr (s1\<lparr>tp_curThreadSize := tp_curThreadSize s1 + 1, tp_idleThreadSize := tp_idleThreadSize s1 + 1\<rparr>)))
      else Inr s)"

definition submitTask :: "int \<Rightarrow> 't \<Rightarrow> 't pool_state \<Rightarrow> 't pool_state option res" where
  "submitTask gettid t s =
     (if \<not> length (tp_taskQue s) < queue_limit (tp_taskQueMaxThreshHold s) then Inr None
      else
        res_bind (submit_grow gettid (notEmpty_notify_all
          (s\<lparr>tp_taskQue := tp_taskQue s @ [t], tp_taskSize := tp_taskSize s + 1,
             ps_accepted := ps_accepted s @ [t]\<rparr>))) (\<lambda>s1. Inr (Some s1)))"

text \<open>The parts of \<open>threadFunc\<close>: taking the first task, leaving because the pool ends, being reclaimed
  after a long idle time (without a notification), and the end of a task.\<close>

definition take_task :: "int \<Rightarrow> 't \<Rightarrow> 't list \<Rightarrow> 't pool_state \<Rightarrow> 't pool_state" where
  "take_task i t q s =
     (let s1 = s\<lparr>tp_idleThreadSize := tp_idleThreadSize s - 1, tp_taskQue := q, tp_taskSize := tp_taskSize s - 1,
                 ps_pc := (ps_pc s)(i := W_run (length (ps_started s)) t), ps_started := ps_started s @ [t]\<rparr>
      in if q \<noteq> [] then notEmpty_notify_all s1 else s1)"

definition worker_exit :: "int \<Rightarrow> 't pool_state \<Rightarrow> 't pool_state" where
  "worker_exit i s =
     exitCond_notify_all (s\<lparr>tp_threads := (tp_threads s)(i := None), ps_pc := (ps_pc s)(i := W_done)\<rparr>)"

definition worker_reclaim :: "int \<Rightarrow> 't pool_state \<Rightarrow> 't pool_state" where
  "worker_reclaim i s =
     s\<lparr>tp_threads := (tp_threads s)(i := None), tp_curThreadSize := tp_curThreadSize s - 1,
       tp_idleThreadSize := tp_idleThreadSize s - 1, ps_pc := (ps_pc s)(i := W_done)\<rparr>"

definition finish_task :: "int \<Rightarrow> nat \<Rightarrow> 't pool_state \<Rightarrow> 't pool_state" where
  "finish_task i k s =
     s\<lparr>tp_idleThreadSize := tp_idleThreadSize s + 1, ps_finished := ps_finished s @ [k],
       ps_pc := (ps_pc s)(i := W_loop)\<rparr>"

text \<open>The destructor: the flag is cleared without the mutex; then, with it, everyone is notified and
  the destructor waits on \<open>exitCond_\<close> until no thread is left.\<close>

definition dtor_flag :: "'t pool_state \<Rightarrow> 't pool_state" where
  "dtor_flag s = s\<lparr>tp_isPoolRunning := False, ps_dtor := D_flagged\<rparr>"

definition dtor_test :: "'t pool_state \<Rightarrow> 't pool_state" where
  "dtor_test s = s\<lparr>ps_dtor := (if dom (tp_threads s) = {} then D_done else D_wait)\<rparr>"

inductive tp_step :: "'t pool_state \<Rightarrow> 't pool_state \<Rightarrow> bool" where
  submit: "ps_dtor s = D_none \<Longrightarrow> ps_lock s = None \<Longrightarrow> tp_numCreated s < 2 ^ 31 - 1 \<Longrightarrow>
    submitTask g t s = Inr (Some s') \<Longrightarrow> tp_step s s'"
| get: "ps_pc s i = W_loop \<Longrightarrow> ps_lock s = None \<Longrightarrow> tp_taskQue s = t # q \<Longrightarrow> tp_step s (take_task i t q s)"
| exit: "ps_pc s i = W_loop \<Longrightarrow> ps_lock s = None \<Longrightarrow> tp_taskQue s = [] \<Longrightarrow> \<not> tp_isPoolRunning s \<Longrightarrow>
    tp_step s (worker_exit i s)"
| check: "ps_pc s i = W_loop \<Longrightarrow> ps_lock s = None \<Longrightarrow> tp_taskQue s = [] \<Longrightarrow> tp_isPoolRunning s \<Longrightarrow>
    tp_step s (s\<lparr>ps_pc := (ps_pc s)(i := W_checked), ps_lock := Some i\<rparr>)"
| sleep: "ps_pc s i = W_checked \<Longrightarrow> tp_step s (s\<lparr>ps_pc := (ps_pc s)(i := W_wait), ps_lock := None\<rparr>)"
| timeout: "ps_pc s i = W_wait \<Longrightarrow> tp_poolMode s = MODE_CACHED \<Longrightarrow>
    tp_step s (s\<lparr>ps_pc := (ps_pc s)(i := W_timeout)\<rparr>)"
| again: "ps_pc s i = W_timeout \<Longrightarrow> ps_lock s = None \<Longrightarrow> tp_step s (s\<lparr>ps_pc := (ps_pc s)(i := W_loop)\<rparr>)"
| reclaim: "ps_pc s i = W_timeout \<Longrightarrow> ps_lock s = None \<Longrightarrow> tp_initThreadSize s < tp_curThreadSize s \<Longrightarrow>
    tp_step s (worker_reclaim i s)"
| finish: "ps_pc s i = W_run k t \<Longrightarrow> tp_step s (finish_task i k s)"
| dtor_begins: "ps_dtor s = D_none \<Longrightarrow> tp_step s (dtor_flag s)"
| dtor_notifies: "ps_dtor s = D_flagged \<Longrightarrow> ps_lock s = None \<Longrightarrow> tp_step s (dtor_test (notEmpty_notify_all s))"
| dtor_wakes: "ps_dtor s = D_check \<Longrightarrow> ps_lock s = None \<Longrightarrow> tp_step s (dtor_test s)"

inductive_cases tp_stepE: "tp_step s t"

abbreviation tp_reach :: "'t pool_state \<Rightarrow> 't pool_state \<Rightarrow> bool" where
  "tp_reach \<equiv> tp_step\<^sup>*\<^sup>*"

section \<open>The invariant\<close>

text \<open>Every task is started in the order of submission and run by one worker.\<close>

definition tasks_inv :: "'t pool_state \<Rightarrow> bool" where
  "tasks_inv s \<longleftrightarrow>
     ps_started s @ tp_taskQue s = ps_accepted s \<and> tp_taskSize s = int (length (tp_taskQue s)) \<and>
     length (tp_taskQue s) \<le> queue_limit (tp_taskQueMaxThreshHold s) \<and>
     distinct (ps_finished s) \<and> set (ps_finished s) \<subseteq> {..<length (ps_started s)} \<and>
     (\<forall>i k t. ps_pc s i = W_run k t \<longrightarrow>
        k < length (ps_started s) \<and> k \<notin> set (ps_finished s) \<and> ps_started s ! k = t) \<and>
     (\<forall>i j k t u. ps_pc s i = W_run k t \<longrightarrow> ps_pc s j = W_run k u \<longrightarrow> i = j) \<and>
     (\<forall>k < length (ps_started s). k \<in> set (ps_finished s) \<or> (\<exists>i t. ps_pc s i = W_run k t))"

text \<open>Nobody sleeps while there is work; the mutex is held by the worker that is about to sleep; once
  the destructor has notified, nobody goes to sleep.\<close>

definition sync_inv :: "'t pool_state \<Rightarrow> bool" where
  "sync_inv s \<longleftrightarrow>
     (tp_taskQue s \<noteq> [] \<longrightarrow> (\<forall>i. ps_pc s i \<noteq> W_wait \<and> ps_pc s i \<noteq> W_checked)) \<and>
     (\<forall>i. ps_pc s i = W_checked \<longleftrightarrow> ps_lock s = Some i) \<and>
     (tp_isPoolRunning s \<longleftrightarrow> ps_dtor s = D_none) \<and>
     (ps_dtor s \<in> {D_wait, D_check, D_done} \<longrightarrow> (\<forall>i. ps_pc s i \<noteq> W_wait \<and> ps_pc s i \<noteq> W_checked)) \<and>
     (tp_poolMode s = MODE_FIXED \<longrightarrow> (\<forall>i. ps_pc s i \<noteq> W_timeout))"

text \<open>\<open>threads_\<close> holds exactly the threads that have not returned.\<close>

definition alive :: "'t wpc \<Rightarrow> bool" where
  "alive w \<longleftrightarrow> w \<noteq> W_none \<and> w \<noteq> W_done"

definition threads_inv :: "'t pool_state \<Rightarrow> bool" where
  "threads_inv s \<longleftrightarrow>
     finite (dom (tp_threads s)) \<and> (\<forall>i. tp_threads s i \<noteq> None \<longleftrightarrow> alive (ps_pc s i)) \<and>
     (\<forall>i. tp_numCreated s < i \<longrightarrow> ps_pc s i = W_none) \<and> - 1 \<le> tp_numCreated s \<and>
     (ps_dtor s = D_done \<longrightarrow> dom (tp_threads s) = {})"

text \<open>Without reclaiming, the last thread to leave wakes the destructor and leaves no task behind.\<close>

definition drain_inv :: "'t pool_state \<Rightarrow> bool" where
  "drain_inv s \<longleftrightarrow>
     (dom (tp_threads s) = {} \<longrightarrow> tp_taskQue s = [] \<and> ps_dtor s \<noteq> D_none) \<and>
     (ps_dtor s = D_wait \<longrightarrow> dom (tp_threads s) \<noteq> {})"

lemma alive_simps [simp]:
  "alive W_loop" "alive W_checked" "alive W_wait" "alive W_timeout" "alive (W_run k t)" "\<not> alive W_done"
  "\<not> alive W_none"
  by (simp_all add: alive_def)

lemma notify_fields [simp]:
  "tp_threads (notEmpty_notify_all s) = tp_threads s" "tp_taskQue (notEmpty_notify_all s) = tp_taskQue s"
  "tp_taskSize (notEmpty_notify_all s) = tp_taskSize s" "tp_numCreated (notEmpty_notify_all s) = tp_numCreated s"
  "tp_poolMode (notEmpty_notify_all s) = tp_poolMode s" "tp_isPoolRunning (notEmpty_notify_all s) = tp_isPoolRunning s"
  "tp_taskQueMaxThreshHold (notEmpty_notify_all s) = tp_taskQueMaxThreshHold s"
  "ps_lock (notEmpty_notify_all s) = ps_lock s" "ps_dtor (notEmpty_notify_all s) = ps_dtor s"
  "ps_accepted (notEmpty_notify_all s) = ps_accepted s" "ps_started (notEmpty_notify_all s) = ps_started s"
  "ps_finished (notEmpty_notify_all s) = ps_finished s"
  "ps_pc (notEmpty_notify_all s) i = (if ps_pc s i = W_wait then W_loop else ps_pc s i)"
  by (simp_all add: notEmpty_notify_all_def)

lemma notify_pc_cases:
  "ps_pc (notEmpty_notify_all s) i = W_run k t \<longleftrightarrow> ps_pc s i = W_run k t"
  "ps_pc (notEmpty_notify_all s) i = W_checked \<longleftrightarrow> ps_pc s i = W_checked"
  "ps_pc (notEmpty_notify_all s) i = W_timeout \<longleftrightarrow> ps_pc s i = W_timeout"
  "ps_pc (notEmpty_notify_all s) i = W_none \<longleftrightarrow> ps_pc s i = W_none"
  "ps_pc (notEmpty_notify_all s) i \<noteq> W_wait"
  "alive (ps_pc (notEmpty_notify_all s) i) \<longleftrightarrow> alive (ps_pc s i)"
  by auto

text \<open>What an accepted task changes: the queue, perhaps with one new thread of a fresh number.\<close>

definition enqueued :: "'t \<Rightarrow> 't pool_state \<Rightarrow> 't pool_state" where
  "enqueued t s = notEmpty_notify_all
     (s\<lparr>tp_taskQue := tp_taskQue s @ [t], tp_taskSize := tp_taskSize s + 1, ps_accepted := ps_accepted s @ [t]\<rparr>)"

lemma enqueued_fields [simp]:
  "tp_threads (enqueued t s) = tp_threads s" "tp_taskQue (enqueued t s) = tp_taskQue s @ [t]"
  "tp_taskSize (enqueued t s) = tp_taskSize s + 1" "tp_numCreated (enqueued t s) = tp_numCreated s"
  "tp_poolMode (enqueued t s) = tp_poolMode s" "tp_isPoolRunning (enqueued t s) = tp_isPoolRunning s"
  "tp_taskQueMaxThreshHold (enqueued t s) = tp_taskQueMaxThreshHold s"
  "ps_lock (enqueued t s) = ps_lock s" "ps_dtor (enqueued t s) = ps_dtor s"
  "ps_accepted (enqueued t s) = ps_accepted s @ [t]" "ps_started (enqueued t s) = ps_started s"
  "ps_finished (enqueued t s) = ps_finished s"
  "ps_pc (enqueued t s) i = (if ps_pc s i = W_wait then W_loop else ps_pc s i)"
  by (simp_all add: enqueued_def)

lemma submit_cases:
  assumes "submitTask g t s = Inr (Some s')" and "threads_inv s" and "tp_numCreated s < 2 ^ 31 - 1"
  obtains (plain) "s' = enqueued t s" "length (tp_taskQue s) < queue_limit (tp_taskQueMaxThreshHold s)"
  | (grown) th c m n where "length (tp_taskQue s) < queue_limit (tp_taskQueMaxThreshHold s)"
      "c = tp_numCreated s + 1" "tp_poolMode s = MODE_CACHED"
      "s' = (enqueued t s)\<lparr>tp_threads := (tp_threads s)(c \<mapsto> th), tp_numCreated := c,
        ps_pc := (ps_pc (enqueued t s))(c := W_loop), tp_curThreadSize := m, tp_idleThreadSize := n\<rparr>"
proof -
  have room: "length (tp_taskQue s) < queue_limit (tp_taskQueMaxThreshHold s)"
    and g: "submit_grow g (enqueued t s) = Inr s'"
    using assms(1) by (auto simp: submitTask_def enqueued_def split: if_splits elim!: res_bindE)
  show ?thesis
  proof (cases "tp_poolMode s = MODE_CACHED \<and> tp_idleThreadSize (enqueued t s) < tp_taskSize (enqueued t s) \<and>
      tp_curThreadSize (enqueued t s) < tp_threadSizeThreshHold (enqueued t s)")
    case False
    then have "s' = enqueued t s" using g by (auto simp: submit_grow_def)
    then show ?thesis using room by (rule plain)
  next
    case True
    let ?c = "tp_numCreated s + 1"
    have "ps_pc s ?c = W_none" using assms(2) by (simp add: threads_inv_def)
    then have inv: "- 1 \<le> tp_numCreated s" "tp_threads s ?c = None"
      using assms(2) unfolding threads_inv_def by (blast, metis alive_simps(7))
    note th = Thread_number [OF inv(1) assms(3), of True]
    let ?th = "fst (thread_start g (fst (Thread True [] (tp_numCreated s))))"
    have "s' = (enqueued t s)\<lparr>tp_threads := (tp_threads s)(?c \<mapsto> ?th), tp_numCreated := ?c,
        ps_pc := (ps_pc (enqueued t s))(?c := W_loop), tp_curThreadSize := tp_curThreadSize (enqueued t s) + 1,
        tp_idleThreadSize := tp_idleThreadSize (enqueued t s) + 1\<rparr>"
      using True g inv(2) by (auto simp: submit_grow_def emplace_def launch_def thread_start_def Let_def th)
    with True show ?thesis by (intro grown [OF room refl]) auto
  qed
qed

lemma take_task_fields [simp]:
  "tp_threads (take_task i t q s) = tp_threads s" "tp_taskQue (take_task i t q s) = q"
  "tp_taskSize (take_task i t q s) = tp_taskSize s - 1" "tp_numCreated (take_task i t q s) = tp_numCreated s"
  "tp_poolMode (take_task i t q s) = tp_poolMode s" "tp_isPoolRunning (take_task i t q s) = tp_isPoolRunning s"
  "tp_taskQueMaxThreshHold (take_task i t q s) = tp_taskQueMaxThreshHold s"
  "ps_lock (take_task i t q s) = ps_lock s" "ps_dtor (take_task i t q s) = ps_dtor s"
  "ps_accepted (take_task i t q s) = ps_accepted s" "ps_started (take_task i t q s) = ps_started s @ [t]"
  "ps_finished (take_task i t q s) = ps_finished s"
  "ps_pc (take_task i t q s) j =
     (if j = i then W_run (length (ps_started s)) t
      else if q \<noteq> [] \<and> ps_pc s j = W_wait then W_loop else ps_pc s j)"
  by (simp_all add: take_task_def Let_def)

lemma worker_exit_fields [simp]:
  "tp_threads (worker_exit i s) = (tp_threads s)(i := None)" "tp_taskQue (worker_exit i s) = tp_taskQue s"
  "tp_taskSize (worker_exit i s) = tp_taskSize s" "tp_numCreated (worker_exit i s) = tp_numCreated s"
  "tp_poolMode (worker_exit i s) = tp_poolMode s" "tp_isPoolRunning (worker_exit i s) = tp_isPoolRunning s"
  "tp_taskQueMaxThreshHold (worker_exit i s) = tp_taskQueMaxThreshHold s"
  "ps_lock (worker_exit i s) = ps_lock s"
  "ps_dtor (worker_exit i s) = (if ps_dtor s = D_wait then D_check else ps_dtor s)"
  "ps_accepted (worker_exit i s) = ps_accepted s" "ps_started (worker_exit i s) = ps_started s"
  "ps_finished (worker_exit i s) = ps_finished s" "ps_pc (worker_exit i s) = (ps_pc s)(i := W_done)"
  by (simp_all add: worker_exit_def exitCond_notify_all_def)

lemmas step_defs = worker_reclaim_def finish_task_def dtor_flag_def dtor_test_def

section \<open>The invariant is kept\<close>

lemma threads_inv_step:
  assumes "tp_step s s'" and "threads_inv s"
  shows "threads_inv s'"
  using assms(1)
proof (cases rule: tp_step.cases)
  case (submit g t)
  from submit(4) assms(2) submit(3) show ?thesis
    by (cases rule: submit_cases) (use assms(2) submit(1) in \<open>simp_all add: threads_inv_def\<close>)
qed (use assms(2) in \<open>auto simp: threads_inv_def step_defs split: if_splits\<close>)

lemma not_holder: "sync_inv s \<Longrightarrow> ps_pc s i \<noteq> W_checked \<Longrightarrow> ps_lock s \<noteq> Some i"
  unfolding sync_inv_def by blast

lemma sync_inv_step:
  assumes "tp_step s s'" and "sync_inv s" and "threads_inv s"
  shows "sync_inv s'"
  using assms(1)
proof (cases rule: tp_step.cases)
  case (submit g t)
  from submit(4) assms(3) submit(3) show ?thesis
    by (cases rule: submit_cases) (use assms(2) submit(1,2) in \<open>auto simp: sync_inv_def\<close>)
next
  case (get i t q)
  then show ?thesis using assms(2) by (auto simp: sync_inv_def)
next
  case (exit i)
  then show ?thesis using assms(2) by (auto simp: sync_inv_def)
next
  case (dtor_notifies)
  then show ?thesis using assms(2) by (auto simp: sync_inv_def dtor_test_def)
next
  case (dtor_wakes)
  then show ?thesis using assms(2) by (auto simp: sync_inv_def dtor_test_def)
next
  case (check i)
  then show ?thesis using assms(2) by (simp add: sync_inv_def)
next
  case (sleep i)
  then show ?thesis using assms(2) by (fastforce simp: sync_inv_def)
next
  case (timeout i)
  have "ps_lock s \<noteq> Some i" using not_holder [OF assms(2), of i] timeout(2) by simp
  then show ?thesis using assms(2) timeout by (auto simp: sync_inv_def)
next
  case (again i)
  then show ?thesis using assms(2) by (simp add: sync_inv_def)
next
  case (reclaim i)
  then show ?thesis using assms(2) by (simp add: sync_inv_def worker_reclaim_def)
next
  case (finish i k t)
  have "ps_lock s \<noteq> Some i" using not_holder [OF assms(2), of i] finish(2) by simp
  then show ?thesis using assms(2) finish by (auto simp: sync_inv_def finish_task_def)
next
  case dtor_begins
  then show ?thesis using assms(2) by (auto simp: sync_inv_def dtor_flag_def)
qed

lemma drain_inv_step:
  assumes "tp_step s s'" and "drain_inv s" and "threads_inv s" and "sync_inv s" and "tp_poolMode s = MODE_FIXED"
  shows "drain_inv s' \<and> tp_poolMode s' = MODE_FIXED"
  using assms(1)
proof (cases rule: tp_step.cases)
  case (submit g t)
  from submit(4) assms(3) submit(3) show ?thesis
    by (cases rule: submit_cases) (use assms(2,5) submit(1) in \<open>auto simp: drain_inv_def\<close>)
qed (use assms(2-5) in \<open>auto simp: drain_inv_def sync_inv_def step_defs split: if_splits\<close>)

lemma tasks_inv_get:
  assumes "tasks_inv s" and "tp_taskQue s = t # q" and "ps_pc s i = W_loop"
  shows "tasks_inv (take_task i t q s)"
proof -
  let ?n = "length (ps_started s)"
  note I = assms(1) [unfolded tasks_inv_def]
  have pc: "ps_pc (take_task i t q s) j = W_run k u \<longleftrightarrow> (if j = i then k = ?n \<and> u = t else ps_pc s j = W_run k u)" for j k u
    by auto
  have run: "k < ?n \<and> k \<notin> set (ps_finished s) \<and> ps_started s ! k = u" if "ps_pc s j = W_run k u" for j k u
    using I that by blast
  have one: "j = j'" if "ps_pc s j = W_run k u" "ps_pc s j' = W_run k u'" for j j' k u u'
    using I that by blast
  have all: "k \<in> set (ps_finished s) \<or> (\<exists>j u. ps_pc s j = W_run k u)" if "k < ?n" for k
    using I that by blast
  have fresh: "?n \<notin> set (ps_finished s)" using I by auto
  have A: "k < length (ps_started s @ [t]) \<and> k \<notin> set (ps_finished s) \<and> (ps_started s @ [t]) ! k = u"
    if "ps_pc (take_task i t q s) j = W_run k u" for j k u
    using that run [of j k u] fresh unfolding pc by (auto simp: nth_append split: if_splits)
  have B: "j = j'" if "ps_pc (take_task i t q s) j = W_run k u" "ps_pc (take_task i t q s) j' = W_run k u'" for j j' k u u'
    using that one [of j k u j' u'] run [of j ?n u] run [of j' ?n u'] unfolding pc by (auto split: if_splits)
  have C: "k \<in> set (ps_finished s) \<or> (\<exists>j u. ps_pc (take_task i t q s) j = W_run k u)"
    if "k < length (ps_started s @ [t])" for k
  proof (cases "k = ?n")
    case True
    then have "ps_pc (take_task i t q s) i = W_run k t" by (simp only: pc) simp
    then show ?thesis by blast
  next
    case False
    then have "k < ?n" using that by simp
    with all consider "k \<in> set (ps_finished s)" | j u where "ps_pc s j = W_run k u" by blast
    then show ?thesis
    proof cases
      case (2 j u)
      then have "j \<noteq> i" using assms(3) by auto
      with 2 have "ps_pc (take_task i t q s) j = W_run k u" by (simp only: pc) simp
      then show ?thesis by blast
    qed simp
  qed
  have D: "(ps_started s @ [t]) @ q = ps_accepted s" "tp_taskSize s - 1 = int (length q)"
    "length q \<le> queue_limit (tp_taskQueMaxThreshHold s)" "distinct (ps_finished s)"
    "set (ps_finished s) \<subseteq> {..<length (ps_started s @ [t])}"
    using I assms(2) by auto
  show ?thesis unfolding tasks_inv_def take_task_fields(2,3,7,10-12)
    by (intro conjI D) (use A B C in blast)+
qed

lemma tasks_inv_finish:
  assumes "tasks_inv s" and "ps_pc s i = W_run k t"
  shows "tasks_inv (finish_task i k s)"
proof -
  note I = assms(1) [unfolded tasks_inv_def]
  have k: "k < length (ps_started s)" "k \<notin> set (ps_finished s)" using I assms(2) by blast+
  have one: "j = i" if "ps_pc s j = W_run k u" for j u using I that assms(2) by blast
  have "m \<in> set (ps_finished s @ [k]) \<or> (\<exists>j u. ((ps_pc s)(i := W_loop)) j = W_run m u)"
    if "m < length (ps_started s)" for m
  proof (cases "m = k")
    case False
    from I that consider "m \<in> set (ps_finished s)" | j u where "ps_pc s j = W_run m u" by blast
    then show ?thesis
    proof cases
      case (2 j u)
      then have "j \<noteq> i" using assms(2) False by auto
      with 2 show ?thesis by auto
    qed simp
  qed simp
  moreover have "j < length (ps_started s) \<and> j \<notin> set (ps_finished s @ [k]) \<and> ps_started s ! j = u"
    if "((ps_pc s)(i := W_loop)) m = W_run j u" for m j u
    using that I one [of m u] by (auto split: if_splits)
  moreover have "distinct (ps_finished s @ [k])" "set (ps_finished s @ [k]) \<subseteq> {..<length (ps_started s)}"
    using I k by auto
  ultimately show ?thesis using I unfolding tasks_inv_def finish_task_def by (simp split: if_splits)
qed

text \<open>Steps that leave the tasks alone.\<close>

lemma tasks_inv_same:
  assumes "tasks_inv s" and "\<And>i k t. ps_pc s' i = W_run k t \<longleftrightarrow> ps_pc s i = W_run k t"
    and "ps_started s' = ps_started s" "ps_finished s' = ps_finished s" "ps_accepted s' = ps_accepted s"
      "tp_taskQue s' = tp_taskQue s" "tp_taskSize s' = tp_taskSize s"
      "tp_taskQueMaxThreshHold s' = tp_taskQueMaxThreshHold s"
  shows "tasks_inv s'"
  using assms(1) unfolding tasks_inv_def assms(2-8) .

lemma tasks_inv_enqueue:
  assumes "tasks_inv s" and "length (tp_taskQue s) < queue_limit (tp_taskQueMaxThreshHold s)"
    and "\<And>i k u. ps_pc s' i = W_run k u \<longleftrightarrow> ps_pc s i = W_run k u"
    and "ps_started s' = ps_started s" "ps_finished s' = ps_finished s" "ps_accepted s' = ps_accepted s @ [t]"
      "tp_taskQue s' = tp_taskQue s @ [t]" "tp_taskSize s' = tp_taskSize s + 1"
      "tp_taskQueMaxThreshHold s' = tp_taskQueMaxThreshHold s"
  shows "tasks_inv s'"
  using assms(1,2) unfolding tasks_inv_def assms(3-9) by simp

lemma tasks_inv_step:
  assumes "tp_step s s'" and "tasks_inv s" and "threads_inv s"
  shows "tasks_inv s'"
  using assms(1)
proof (cases rule: tp_step.cases)
  case (submit g t)
  from submit(4) assms(3) submit(3) show ?thesis
  proof (cases rule: submit_cases)
    case plain
    then show ?thesis by (intro tasks_inv_enqueue [OF assms(2) plain(2)]) auto
  next
    case (grown th c m n)
    have "ps_pc s c = W_none" using assms(3) grown(2) by (simp add: threads_inv_def)
    then show ?thesis using grown by (intro tasks_inv_enqueue [OF assms(2) grown(1)]) auto
  qed
next
  case (get i t q)
  then show ?thesis using tasks_inv_get [OF assms(2)] by simp
next
  case (finish i k t)
  then show ?thesis using tasks_inv_finish [OF assms(2)] by simp
qed (rule tasks_inv_same [OF assms(2)]; auto simp: step_defs split: if_splits)+

definition pool_inv :: "'t pool_state \<Rightarrow> bool" where
  "pool_inv s \<longleftrightarrow> tasks_inv s \<and> sync_inv s \<and> threads_inv s"

lemma pool_inv_reach: "tp_reach s s' \<Longrightarrow> pool_inv s \<Longrightarrow> pool_inv s'"
  by (induction rule: rtranclp_induct)
    (auto simp: pool_inv_def intro: tasks_inv_step sync_inv_step threads_inv_step)

lemma drain_inv_reach:
  "tp_reach s s' \<Longrightarrow> pool_inv s \<Longrightarrow> drain_inv s \<Longrightarrow> tp_poolMode s = MODE_FIXED \<Longrightarrow>
     drain_inv s' \<and> tp_poolMode s' = MODE_FIXED"
proof (induction rule: rtranclp_induct)
  case (step y z)
  have "pool_inv y" using pool_inv_reach [OF step.hyps(1) step.prems(1)] .
  then show ?case using drain_inv_step [OF step.hyps(2)] step by (simp add: pool_inv_def)
qed simp

section \<open>Starting a pool\<close>

lemma fold_emplace:
  assumes "distinct (map th_threadId ts)" and "\<forall>t \<in> set ts. m (th_threadId t) = None"
  shows "fold (\<lambda>t. emplace (th_threadId t) t) ts m = m ++ map_of (map (\<lambda>t. (th_threadId t, t)) ts)"
  using assms
proof (induction ts arbitrary: m)
  case Nil
  then show ?case by simp
next
  case (Cons t ts)
  have e: "emplace (th_threadId t) t m = m(th_threadId t \<mapsto> t)" using Cons.prems by (simp add: emplace_def)
  let ?M = "map_of (map (\<lambda>t. (th_threadId t, t)) ts)"
  have "?M (th_threadId t) = None"
    using Cons.prems(1) by (auto simp: map_of_eq_None_iff)
  then have add: "m(th_threadId t \<mapsto> t) ++ ?M = m ++ ?M(th_threadId t \<mapsto> t)"
    by (auto simp: map_add_def fun_eq_iff split: option.splits)
  have "\<forall>u \<in> set ts. (m(th_threadId t \<mapsto> t)) (th_threadId u) = None"
    using Cons.prems by (auto simp: image_iff)
  then have "fold (\<lambda>t. emplace (th_threadId t) t) ts (m(th_threadId t \<mapsto> t)) = m(th_threadId t \<mapsto> t) ++ ?M"
    using Cons.prems(1) by (intro Cons.IH) simp_all
  then have "fold (\<lambda>t. emplace (th_threadId t) t) (t # ts) m = m ++ ?M(th_threadId t \<mapsto> t)"
    unfolding fold_Cons o_apply e add .
  then show ?case unfolding list.map map_of.simps fst_conv snd_conv .
qed

text \<open>The numbers of \<open>n\<close> threads made from counter \<open>c\<close> are the keys \<open>c + 1\<close> to \<open>c + n\<close>.\<close>

lemma threads_of_start:
  assumes "- 1 \<le> c" and "c + int n < 2 ^ 31" and "make_threads n c = (ts, c')"
  shows "c' = c + int n"
    "fold (\<lambda>t. emplace (th_threadId t) t) ts Map.empty k =
       (if c < k \<and> k \<le> c + int n then Some (ts ! nat (k - c - 1)) else None)"
    "i < n \<Longrightarrow> th_func (ts ! i) \<and> th_threadId (ts ! i) = c + 1 + int i"
proof -
  have ids: "map th_threadId ts = map (\<lambda>i. c + 1 + int i) [0..<n]" and len: "length ts = n"
    and fn: "\<forall>t \<in> set ts. th_func t" and c': "c' = c + int n"
    using make_threads_numbers [OF assms(1,2)] assms(3) by auto
  show "c' = c + int n" by (rule c')
  have nth: "th_threadId (ts ! i) = c + 1 + int i" if "i < n" for i
    using arg_cong [OF ids, of "\<lambda>l. l ! i"] that len by simp
  then show "i < n \<Longrightarrow> th_func (ts ! i) \<and> th_threadId (ts ! i) = c + 1 + int i" using fn len by auto
  have d: "distinct (map th_threadId ts)" unfolding ids by (simp add: distinct_map inj_on_def)
  let ?al = "map (\<lambda>t. (th_threadId t, t)) ts"
  have al: "distinct (map fst ?al)" using d by (simp add: comp_def)
  have "map_of ?al k = (if c < k \<and> k \<le> c + int n then Some (ts ! nat (k - c - 1)) else None)"
  proof (cases "c < k \<and> k \<le> c + int n")
    case True
    then have i: "nat (k - c - 1) < n" by auto
    have "th_threadId (ts ! nat (k - c - 1)) = k" using nth [OF i] True by simp
    moreover have "ts ! nat (k - c - 1) \<in> set ts" using i len by simp
    ultimately have "(k, ts ! nat (k - c - 1)) \<in> set ?al" by (force simp: image_iff)
    then show ?thesis using True map_of_is_SomeI [OF al] by simp
  next
    case False
    have "th_threadId ` set ts = (\<lambda>i. c + 1 + int i) ` {0..<n}" using arg_cong [OF ids, of set] by simp
    then have "k \<notin> th_threadId ` set ts" using False by auto
    then show ?thesis using False by (auto simp: map_of_eq_None_iff)
  qed
  then show "fold (\<lambda>t. emplace (th_threadId t) t) ts Map.empty k =
      (if c < k \<and> k \<le> c + int n then Some (ts ! nat (k - c - 1)) else None)"
    using fold_emplace [OF d, of Map.empty] by simp
qed

text \<open>The loop that starts the threads of a fresh program.\<close>

definition launched :: "(nat \<Rightarrow> int) \<Rightarrow> thread list \<Rightarrow> nat \<Rightarrow> 't pool_state \<Rightarrow> 't pool_state" where
  "launched g ts m s =
     s\<lparr>tp_threads := (\<lambda>k. if 0 \<le> k \<and> k < int m then Some (fst (thread_start (g (nat k)) (ts ! nat k))) else tp_threads s k),
       ps_pc := (\<lambda>k. if 0 \<le> k \<and> k < int m then W_loop else ps_pc s k),
       tp_idleThreadSize := tp_idleThreadSize s + int m\<rparr>"

lemma launch_loop:
  assumes "\<And>i. i < n \<Longrightarrow> tp_threads s (int i) = Some (ts ! i) \<and> th_func (ts ! i) \<and> th_threadId (ts ! i) = int i"
    and "m \<le> n"
  shows "fold_res (\<lambda>i s2. res_bind (launch (g i) (int i) s2) (\<lambda>s3.
            Inr (s3\<lparr>tp_idleThreadSize := tp_idleThreadSize s3 + 1\<rparr>))) [0..<m] s = Inr (launched g ts m s)"
  using assms(2)
proof (induction m)
  case 0
  have "\<And>k. (0 \<le> k \<and> k < int 0) = False" by auto
  then show ?case by (simp only: launched_def if_False) simp
next
  case (Suc m)
  have m: "tp_threads s (int m) = Some (ts ! m)" "th_func (ts ! m)" "th_threadId (ts ! m) = int m"
    using assms(1) [of m] Suc.prems by auto
  have "res_bind (launch (g m) (int m) (launched g ts m s)) (\<lambda>s3.
      Inr (s3\<lparr>tp_idleThreadSize := tp_idleThreadSize s3 + 1\<rparr>)) = Inr (launched g ts (Suc m) s)"
    using m by (auto simp: launch_def launched_def thread_start_def Let_def fun_eq_iff less_le)
  then show ?case using Suc by (simp add: fold_res_append)
qed

lemma start_fresh:
  fixes s :: "'t pool_state"
  assumes "0 \<le> n" and "n < 2 ^ 31" and "tp_numCreated s = numCreated0" and "tp_threads s = Map.empty"
  obtains ts where "start g n s = Inr (launched g ts (nat n)
      (s\<lparr>tp_isPoolRunning := True, tp_initThreadSize := n, tp_curThreadSize := n, tp_numCreated := n - 1,
         tp_threads := (\<lambda>k. if 0 \<le> k \<and> k < n then Some (ts ! nat k) else None)\<rparr>))"
proof -
  obtain ts c where mk: "make_threads (nat n) (- 1) = (ts, c)" by fastforce
  have b: "- 1 + int (nat n) < 2 ^ 31" using assms(1,2) by simp
  note th = threads_of_start [OF _ b mk]
  let ?s1 = "s\<lparr>tp_isPoolRunning := True, tp_initThreadSize := n, tp_curThreadSize := n, tp_numCreated := n - 1,
         tp_threads := (\<lambda>k. if 0 \<le> k \<and> k < n then Some (ts ! nat k) else None)\<rparr>"
  have T: "fold (\<lambda>t. emplace (th_threadId t) t) ts Map.empty = (\<lambda>k. if 0 \<le> k \<and> k < n then Some (ts ! nat k) else None)"
    using th(2) assms(1) by (auto simp: fun_eq_iff)
  have c: "c = n - 1" using th(1) assms(1) by simp
  have "fold_res (\<lambda>i s2. res_bind (launch (g i) (int i) s2) (\<lambda>s3.
            Inr (s3\<lparr>tp_idleThreadSize := tp_idleThreadSize s3 + 1\<rparr>))) [0..<nat n] ?s1 = Inr (launched g ts (nat n) ?s1)"
    using th(3) by (intro launch_loop [where n = "nat n"]) auto
  moreover have "start g n s = fold_res (\<lambda>i s2. res_bind (launch (g i) (int i) s2) (\<lambda>s3.
            Inr (s3\<lparr>tp_idleThreadSize := tp_idleThreadSize s3 + 1\<rparr>))) [0..<nat n] ?s1"
    using assms(3,4) mk by (simp add: start_def numCreated0_def Let_def T c)
  ultimately show ?thesis using that by simp
qed

text \<open>A pool that has not been started: the constructor and the setters.\<close>

definition unstarted :: "'t pool_state \<Rightarrow> bool" where
  "unstarted s \<longleftrightarrow> tp_numCreated s = numCreated0 \<and> tp_threads s = Map.empty \<and> tp_taskQue s = [] \<and>
     tp_taskSize s = 0 \<and> \<not> tp_isPoolRunning s \<and> ps_pc s = (\<lambda>_. W_none) \<and> ps_lock s = None \<and>
     ps_dtor s = D_none \<and> ps_accepted s = [] \<and> ps_started s = [] \<and> ps_finished s = []"

lemma unstarted_ThreadPool: "unstarted (ThreadPool numCreated0)"
  by (simp add: unstarted_def ThreadPool_def)

lemma unstarted_setters:
  "unstarted s \<Longrightarrow> unstarted (setMode m s)" "unstarted s \<Longrightarrow> unstarted (setTaskQueMaxThreshHold n s)"
  "unstarted s \<Longrightarrow> unstarted (setThreadSizeThreshHold n s)"
  by (auto simp: unstarted_def setMode_def setTaskQueMaxThreshHold_def setThreadSizeThreshHold_def)

lemma start_inv:
  fixes s :: "'t pool_state"
  assumes "unstarted s" and "0 \<le> n" and "n < 2 ^ 31"
  obtains s' where "start g n s = Inr s'" and "pool_inv s'" and "0 < n \<longrightarrow> drain_inv s'"
    and "tp_poolMode s' = tp_poolMode s" and "ps_dtor s' = D_none" and "ps_lock s' = None"
    and "tp_taskQue s' = []" and "ps_accepted s' = []" and "tp_numCreated s' = n - 1"
    and "tp_taskQueMaxThreshHold s' = tp_taskQueMaxThreshHold s"
proof -
  note u = assms(1) [unfolded unstarted_def]
  obtain ts where st: "start g n s = Inr (launched g ts (nat n)
      (s\<lparr>tp_isPoolRunning := True, tp_initThreadSize := n, tp_curThreadSize := n, tp_numCreated := n - 1,
         tp_threads := (\<lambda>k. if 0 \<le> k \<and> k < n then Some (ts ! nat k) else None)\<rparr>))"
    using u by (auto elim: start_fresh [OF assms(2,3)])
  let ?s = "launched g ts (nat n)
      (s\<lparr>tp_isPoolRunning := True, tp_initThreadSize := n, tp_curThreadSize := n, tp_numCreated := n - 1,
         tp_threads := (\<lambda>k. if 0 \<le> k \<and> k < n then Some (ts ! nat k) else None)\<rparr>)"
  have dom: "dom (tp_threads ?s) = {0..<n}" using assms(2) by (auto simp: launched_def split: if_splits)
  have "tasks_inv ?s" using u by (simp add: tasks_inv_def launched_def)
  moreover have "sync_inv ?s" using u by (simp add: sync_inv_def launched_def)
  moreover have "threads_inv ?s"
    using u assms(2) dom by (auto simp: threads_inv_def launched_def)
  ultimately have "pool_inv ?s" by (simp add: pool_inv_def)
  moreover have "drain_inv ?s" if "0 < n" using u dom that by (simp add: drain_inv_def launched_def)
  moreover have "tp_poolMode ?s = tp_poolMode s" "ps_dtor ?s = D_none" "ps_lock ?s = None" "tp_taskQue ?s = []"
    "ps_accepted ?s = []" "tp_numCreated ?s = n - 1" "tp_taskQueMaxThreshHold ?s = tp_taskQueMaxThreshHold s"
    using u by (simp_all add: launched_def)
  ultimately show ?thesis using st that by blast
qed

text \<open>\<open>start\<close> takes for granted that its threads are numbered from 0: when any thread object was created
  before in the program, the first one is looked up in vain.\<close>

lemma start_needs_fresh_counter:
  assumes "0 \<le> tp_numCreated s" and "0 < n" and "tp_numCreated s + n < 2 ^ 31" and "tp_threads s = Map.empty"
  shows "start g n s = Inl Undefined_Behaviour"
proof -
  obtain ts c where mk: "make_threads (nat n) (tp_numCreated s) = (ts, c)" by fastforce
  have b: "- 1 \<le> tp_numCreated s" "tp_numCreated s + int (nat n) < 2 ^ 31" using assms by auto
  have "fold (\<lambda>t. emplace (th_threadId t) t) ts Map.empty 0 = None"
    using threads_of_start(2) [OF b mk, of 0] assms(1) by simp
  moreover have "[0..<nat n] = 0 # [1..<nat n]" using assms(2) by (simp add: upt_conv_Cons)
  ultimately show ?thesis using mk assms(4) by (simp add: start_def Let_def launch_def)
qed

section \<open>The end of a pool\<close>

fun weight :: "'t wpc \<Rightarrow> nat" where
  "weight W_loop = 2" | "weight (W_run k t) = 3" | "weight W_timeout = 3" | "weight W_wait = 3"
| "weight W_checked = 3" | "weight W_none = 0" | "weight W_done = 0"

definition shutdown_measure :: "'t pool_state \<Rightarrow> nat" where
  "shutdown_measure s =
     3 * length (tp_taskQue s) + (\<Sum>i \<in> dom (tp_threads s). weight (ps_pc s i)) +
     (if ps_dtor s = D_check then 1 else 0)"

lemma sum_upd:
  fixes f :: "'b \<Rightarrow> nat"
  assumes "finite A" and "i \<in> A"
  shows "(\<Sum>j \<in> A. f ((p(i := x)) j)) + f (p i) = (\<Sum>j \<in> A. f (p j)) + f x"
    "(\<Sum>j \<in> A - {i}. f ((p(i := x)) j)) + f (p i) = (\<Sum>j \<in> A. f (p j))"
proof -
  have "(\<Sum>j \<in> A - {i}. f ((p(i := x)) j)) = (\<Sum>j \<in> A - {i}. f (p j))" by (intro sum.cong) auto
  then show "(\<Sum>j \<in> A. f ((p(i := x)) j)) + f (p i) = (\<Sum>j \<in> A. f (p j)) + f x"
    "(\<Sum>j \<in> A - {i}. f ((p(i := x)) j)) + f (p i) = (\<Sum>j \<in> A. f (p j))"
    using assms by (simp_all add: sum.remove [of A i])
qed

lemma shutdown_decreases:
  assumes inv: "pool_inv s" and d: "ps_dtor s = D_wait \<or> ps_dtor s = D_check" and st: "tp_step s s'"
  shows "shutdown_measure s' < shutdown_measure s"
proof -
  have awake: "ps_pc s i \<noteq> W_wait \<and> ps_pc s i \<noteq> W_checked" for i
    using inv d by (auto simp: pool_inv_def sync_inv_def)
  have run: "\<not> tp_isPoolRunning s" and fin: "finite (dom (tp_threads s))"
    using inv d by (auto simp: pool_inv_def sync_inv_def threads_inv_def)
  have al: "alive (ps_pc s i) \<Longrightarrow> i \<in> dom (tp_threads s)" for i
    using inv by (auto simp: pool_inv_def threads_inv_def)
  note upd = sum_upd [OF fin, where f = weight and p = "ps_pc s"]
  have sum_pc: "p = ps_pc s' \<Longrightarrow> (\<Sum>j \<in> A. weight (ps_pc s' j)) = (\<Sum>j \<in> A. weight (p j))" for A p by simp
  from st show ?thesis
  proof (cases rule: tp_step.cases)
    case (get i t q)
    have "ps_pc s' = (ps_pc s)(i := W_run (length (ps_started s)) t)" using get awake by (auto simp: fun_eq_iff)
    from sum_pc [OF this [symmetric]] upd(1) [OF al [of i], of "W_run (length (ps_started s)) t"] get show ?thesis
      by (simp add: shutdown_measure_def)
  next
    case (exit i)
    have "ps_pc s' = (ps_pc s)(i := W_done)" using exit by simp
    from sum_pc [OF this [symmetric]] upd(2) [OF al [of i], of W_done] exit d show ?thesis
      by (auto simp: shutdown_measure_def)
  next
    case (again i)
    have "ps_pc s' = (ps_pc s)(i := W_loop)" using again by simp
    from sum_pc [OF this [symmetric]] upd(1) [OF al [of i], of W_loop] again show ?thesis
      by (simp add: shutdown_measure_def)
  next
    case (reclaim i)
    have "ps_pc s' = (ps_pc s)(i := W_done)" using reclaim by (simp add: worker_reclaim_def)
    from sum_pc [OF this [symmetric]] upd(2) [OF al [of i], of W_done] reclaim show ?thesis
      by (simp add: shutdown_measure_def worker_reclaim_def)
  next
    case (finish i k t)
    have "ps_pc s' = (ps_pc s)(i := W_loop)" using finish by (simp add: finish_task_def)
    from sum_pc [OF this [symmetric]] upd(1) [OF al [of i], of W_loop] finish show ?thesis
      by (simp add: shutdown_measure_def finish_task_def)
  next
    case dtor_wakes
    then show ?thesis by (simp add: shutdown_measure_def dtor_test_def)
  qed (use d run awake in auto)
qed

lemma shutdown_progress:
  assumes inv: "pool_inv s" and dr: "drain_inv s" and m: "tp_poolMode s = MODE_FIXED"
    and d: "ps_dtor s = D_wait \<or> ps_dtor s = D_check"
  shows "\<exists>s'. tp_step s s'"
proof -
  have awake: "ps_pc s i \<noteq> W_wait \<and> ps_pc s i \<noteq> W_checked \<and> ps_pc s i \<noteq> W_timeout" for i
    using inv d m by (auto simp: pool_inv_def sync_inv_def)
  have run: "\<not> tp_isPoolRunning s"
    using inv d by (auto simp: pool_inv_def sync_inv_def)
  have lock: "ps_lock s = None"
  proof (rule ccontr)
    assume "ps_lock s \<noteq> None"
    then obtain i where "ps_lock s = Some i" by blast
    then have "ps_pc s i = W_checked" using inv by (simp add: pool_inv_def sync_inv_def)
    then show False using awake by blast
  qed
  show ?thesis
  proof (cases "ps_dtor s = D_check")
    case True
    then show ?thesis using tp_step.dtor_wakes [OF True lock] by blast
  next
    case False
    then have "dom (tp_threads s) \<noteq> {}" using d dr by (auto simp: drain_inv_def)
    then obtain i where "tp_threads s i \<noteq> None" by blast
    then have "alive (ps_pc s i)" using inv by (simp add: pool_inv_def threads_inv_def)
    then consider "ps_pc s i = W_loop" | k t where "ps_pc s i = W_run k t"
      using awake [of i] by (cases "ps_pc s i") auto
    then show ?thesis
    proof cases
      case 1
      then show ?thesis
        using tp_step.get [OF 1 lock] tp_step.exit [OF 1 lock _ run] by (cases "tp_taskQue s") blast+
    next
      case (2 k t)
      then show ?thesis using tp_step.finish [OF 2] by blast
    qed
  qed
qed

section \<open>A reclaimed thread and the destructor\<close>

text \<open>A cached pool of two threads, of which the second was added: where the two are, where the
  destructor is, and what is queued and was accepted.\<close>

definition snap :: "'t list \<Rightarrow> 't pool_state \<Rightarrow> 't wpc \<Rightarrow> 't wpc \<Rightarrow> dpc \<Rightarrow> 't list \<Rightarrow> bool" where
  "snap acc s p0 p1 d q \<longleftrightarrow>
     pool_inv s \<and> ps_pc s 0 = p0 \<and> ps_pc s 1 = p1 \<and> (\<forall>i. i \<noteq> 0 \<longrightarrow> i \<noteq> 1 \<longrightarrow> ps_pc s i = W_none) \<and>
     ps_dtor s = d \<and> tp_taskQue s = q \<and> tp_poolMode s = MODE_CACHED \<and> tp_initThreadSize s = 1 \<and>
     tp_curThreadSize s = 2 \<and> ps_accepted s = acc"

lemma snap_lock:
  assumes "snap acc s p0 p1 d q" and "p0 \<noteq> W_checked" and "p1 \<noteq> W_checked"
  shows "ps_lock s = None"
proof (rule ccontr)
  assume "ps_lock s \<noteq> None"
  then obtain i where "ps_lock s = Some i" by blast
  then have "ps_pc s i = W_checked" using assms(1) by (simp add: snap_def pool_inv_def sync_inv_def)
  then show False using assms by (cases "i = 0"; cases "i = 1") (auto simp: snap_def)
qed

lemma snap_running: "snap acc s p0 p1 d q \<Longrightarrow> tp_isPoolRunning s \<longleftrightarrow> d = D_none"
  by (simp add: snap_def pool_inv_def sync_inv_def)

lemma snap_dom: "snap acc s p0 p1 d q \<Longrightarrow> dom (tp_threads s) = {} \<longleftrightarrow> \<not> alive p0 \<and> \<not> alive p1"
proof -
  assume s: "snap acc s p0 p1 d q"
  then have "dom (tp_threads s) = {i. alive (ps_pc s i)}" by (auto simp: snap_def pool_inv_def threads_inv_def)
  moreover have "alive (ps_pc s i) \<longleftrightarrow> (i = 0 \<and> alive p0) \<or> (i = 1 \<and> alive p1)" for i
    using s by (cases "i = 0"; cases "i = 1") (auto simp: snap_def)
  ultimately show ?thesis by auto
qed

lemma snap_step:
  assumes "snap acc s p0 p1 d q" and "tp_step s s'" and "ps_pc s' 0 = p0'" and "ps_pc s' 1 = p1'"
    and "\<And>i. i \<noteq> 0 \<Longrightarrow> i \<noteq> 1 \<Longrightarrow> ps_pc s' i = ps_pc s i" and "ps_dtor s' = d'" and "tp_taskQue s' = q'"
    and "tp_poolMode s' = tp_poolMode s" "tp_initThreadSize s' = tp_initThreadSize s"
      "tp_curThreadSize s' = tp_curThreadSize s" "ps_accepted s' = ps_accepted s"
  shows "snap acc s' p0' p1' d' q'"
proof -
  have "tp_reach s s'" using assms(2) by (rule r_into_rtranclp)
  then have "pool_inv s'" using assms(1) by (auto simp: snap_def intro: pool_inv_reach)
  then show ?thesis using assms by (simp add: snap_def)
qed

lemma take_task_sizes [simp]:
  "tp_initThreadSize (take_task i t q s) = tp_initThreadSize s"
  "tp_curThreadSize (take_task i t q s) = tp_curThreadSize s"
  by (simp_all add: take_task_def notEmpty_notify_all_def Let_def)

lemma worker_exit_sizes [simp]:
  "tp_initThreadSize (worker_exit i s) = tp_initThreadSize s"
  "tp_curThreadSize (worker_exit i s) = tp_curThreadSize s"
  by (simp_all add: worker_exit_def exitCond_notify_all_def)

lemma notify_sizes [simp]:
  "tp_initThreadSize (notEmpty_notify_all s) = tp_initThreadSize s"
  "tp_curThreadSize (notEmpty_notify_all s) = tp_curThreadSize s"
  "tp_idleThreadSize (notEmpty_notify_all s) = tp_idleThreadSize s"
  "tp_threadSizeThreshHold (notEmpty_notify_all s) = tp_threadSizeThreshHold s"
  by (simp_all add: notEmpty_notify_all_def)

text \<open>The first thread runs the first task until the destructor has begun; the second one runs the
  second task, falls asleep and times out.\<close>

lemma run_to_timeout:
  assumes "snap acc s W_loop W_loop D_none [a, b]"
  shows "\<exists>s' k. tp_reach s s' \<and> snap acc s' (W_run k a) W_timeout D_none []"
proof -
  let ?n = "length (ps_started s)"
  note lock = snap_lock [OF assms]
  have 1: "tp_step s (take_task 0 a [b] s)" using assms lock by (intro tp_step.get) (auto simp: snap_def)
  then have s1: "snap acc (take_task 0 a [b] s) (W_run ?n a) W_loop D_none [b]"
    using assms by (intro snap_step [OF assms 1]) (auto simp: snap_def)
  let ?s1 = "take_task 0 a [b] s"
  have 2: "tp_step ?s1 (take_task 1 b [] ?s1)" using s1 lock by (intro tp_step.get) (auto simp: snap_def)
  let ?s2 = "take_task 1 b [] ?s1" and ?m = "length (ps_started ?s1)"
  have s2: "snap acc ?s2 (W_run ?n a) (W_run ?m b) D_none []"
    using s1 by (intro snap_step [OF s1 2]) (auto simp: snap_def simp del: take_task_fields(11))
  have 3: "tp_step ?s2 (finish_task 1 ?m ?s2)" using s2 by (intro tp_step.finish) (simp add: snap_def)
  let ?s3 = "finish_task 1 ?m ?s2"
  have s3: "snap acc ?s3 (W_run ?n a) W_loop D_none []"
    using s2 by (intro snap_step [OF s2 3]) (auto simp: snap_def finish_task_def)
  let ?s4 = "?s3\<lparr>ps_pc := (ps_pc ?s3)(1 := W_checked), ps_lock := Some 1\<rparr>"
  have 4: "tp_step ?s3 ?s4"
    using s3 snap_lock [OF s3] snap_running [OF s3] by (intro tp_step.check) (auto simp: snap_def)
  have s4: "snap acc ?s4 (W_run ?n a) W_checked D_none []"
    using s3 by (intro snap_step [OF s3 4]) (auto simp: snap_def)
  let ?s5 = "?s4\<lparr>ps_pc := (ps_pc ?s4)(1 := W_wait), ps_lock := None\<rparr>"
  have 5: "tp_step ?s4 ?s5" by (intro tp_step.sleep) simp
  have s5: "snap acc ?s5 (W_run ?n a) W_wait D_none []"
    using s4 by (intro snap_step [OF s4 5]) (auto simp: snap_def)
  let ?s6 = "?s5\<lparr>ps_pc := (ps_pc ?s5)(1 := W_timeout)\<rparr>"
  have 6: "tp_step ?s5 ?s6" using s5 by (intro tp_step.timeout) (auto simp: snap_def)
  have "snap acc ?s6 (W_run ?n a) W_timeout D_none []"
    using s5 by (intro snap_step [OF s5 6]) (auto simp: snap_def)
  moreover have "tp_reach s ?s6"
    using 1 2 3 4 5 6 by (meson converse_rtranclp_into_rtranclp rtranclp.rtrancl_refl)
  ultimately show ?thesis by blast
qed

text \<open>Then the first thread leaves and wakes the destructor; the second one is reclaimed and does not.\<close>

lemma run_to_deadlock:
  assumes "snap acc s (W_run k a) W_timeout D_none []"
  shows "\<exists>s'. tp_reach s s' \<and> ps_pc s' 0 = W_done \<and> ps_pc s' 1 = W_done \<and>
    (\<forall>i. i \<noteq> 0 \<longrightarrow> i \<noteq> 1 \<longrightarrow> ps_pc s' i = W_none) \<and> ps_dtor s' = D_wait \<and> dom (tp_threads s') = {} \<and>
    ps_accepted s' = acc"
proof -
  have 1: "tp_step s (dtor_flag s)" using assms by (intro tp_step.dtor_begins) (simp add: snap_def)
  let ?s1 = "dtor_flag s"
  have s1: "snap acc ?s1 (W_run k a) W_timeout D_flagged []"
    using assms by (intro snap_step [OF assms 1]) (auto simp: snap_def dtor_flag_def)
  have 2: "tp_step ?s1 (finish_task 0 k ?s1)" using s1 by (intro tp_step.finish) (simp add: snap_def)
  let ?s2 = "finish_task 0 k ?s1"
  have s2: "snap acc ?s2 W_loop W_timeout D_flagged []"
    using s1 by (intro snap_step [OF s1 2]) (auto simp: snap_def finish_task_def)
  let ?s3 = "dtor_test (notEmpty_notify_all ?s2)"
  have 3: "tp_step ?s2 ?s3" using s2 snap_lock [OF s2] by (intro tp_step.dtor_notifies) (auto simp: snap_def)
  have s3: "snap acc ?s3 W_loop W_timeout D_wait []"
    using s2 snap_dom [OF s2] by (intro snap_step [OF s2 3]) (auto simp: snap_def dtor_test_def)
  let ?s4 = "worker_exit 0 ?s3"
  have 4: "tp_step ?s3 ?s4"
    using s3 snap_lock [OF s3] snap_running [OF s3] by (intro tp_step.exit) (auto simp: snap_def)
  have s4: "snap acc ?s4 W_done W_timeout D_check []"
    using s3 by (intro snap_step [OF s3 4]) (auto simp: snap_def)
  let ?s5 = "dtor_test ?s4"
  have 5: "tp_step ?s4 ?s5" using s4 snap_lock [OF s4] by (intro tp_step.dtor_wakes) (auto simp: snap_def)
  have s5: "snap acc ?s5 W_done W_timeout D_wait []"
    using s4 snap_dom [OF s4] by (intro snap_step [OF s4 5]) (auto simp: snap_def dtor_test_def)
  let ?s6 = "worker_reclaim 1 ?s5"
  have 6: "tp_step ?s5 ?s6" using s5 snap_lock [OF s5] by (intro tp_step.reclaim) (auto simp: snap_def)
  have "tp_reach s ?s6"
    using 1 2 3 4 5 6 by (meson converse_rtranclp_into_rtranclp rtranclp.rtrancl_refl)
  moreover have pc: "ps_pc ?s6 0 = W_done" "ps_pc ?s6 1 = W_done" "\<forall>i. i \<noteq> 0 \<longrightarrow> i \<noteq> 1 \<longrightarrow> ps_pc ?s6 i = W_none"
    using s5 by (simp_all add: snap_def worker_reclaim_def)
  moreover have "ps_dtor ?s6 = D_wait" "ps_accepted ?s6 = acc" using s5 by (simp_all add: snap_def worker_reclaim_def)
  moreover have "dom (tp_threads ?s6) = {}"
  proof -
    have "threads_inv ?s5" using s5 by (simp add: snap_def pool_inv_def)
    then have "threads_inv ?s6" using threads_inv_step [OF 6] by blast
    then have "tp_threads ?s6 i \<noteq> None \<longleftrightarrow> alive (ps_pc ?s6 i)" for i unfolding threads_inv_def by blast
    moreover have "\<not> alive (ps_pc ?s6 i)" for i using pc by (metis alive_simps(6,7))
    ultimately show ?thesis by auto
  qed
  ultimately show ?thesis by blast
qed

text \<open>Two submissions in a row to a cached pool of one thread add the second thread.\<close>

lemma snap_grown:
  fixes a b :: 't
  assumes "start g 1 (setMode MODE_CACHED (ThreadPool numCreated0)) = Inr s0"
  shows "\<exists>s. tp_reach s0 s \<and> snap [a, b] s W_loop W_loop D_none [a, b]"
proof -
  let ?u = "setMode MODE_CACHED (ThreadPool numCreated0) :: 't pool_state"
  have u: "unstarted ?u" by (intro unstarted_setters unstarted_ThreadPool)
  obtain s1 where "start g 1 ?u = Inr s1" "pool_inv s1" by (rule start_inv [OF u, of 1 g]) auto
  then have inv: "pool_inv s0" using assms by simp
  obtain ts where "s0 = launched g ts (nat 1) (?u\<lparr>tp_isPoolRunning := True, tp_initThreadSize := 1,
      tp_curThreadSize := 1, tp_numCreated := 1 - 1,
      tp_threads := (\<lambda>k. if 0 \<le> k \<and> k < 1 then Some (ts ! nat k) else None)\<rparr>)"
    using start_fresh [of 1 ?u g] assms u by (auto simp: unstarted_def)
  then have f: "ps_pc s0 i = (if i = 0 then W_loop else W_none)" "tp_threads s0 1 = None" "tp_taskQue s0 = []"
    "tp_taskSize s0 = 0" "tp_idleThreadSize s0 = 1" "tp_curThreadSize s0 = 1" "tp_initThreadSize s0 = 1"
    "tp_poolMode s0 = MODE_CACHED" "tp_threadSizeThreshHold s0 = 1024" "tp_numCreated s0 = 0"
    "ps_accepted s0 = []" "ps_lock s0 = None" "ps_dtor s0 = D_none"
    "tp_taskQueMaxThreshHold s0 = 2 ^ 31 - 1" for i
    by (auto simp: launched_def setMode_def ThreadPool_def checkRunningState_def numCreated0_def
        THREAD_MAX_THRESHHOLD_def TASK_MAX_THRESHHOLD_def)
  have lim: "queue_limit (2 ^ 31 - 1) = 2147483647" by (simp add: queue_limit_def)
  let ?s1 = "enqueued a s0"
  have "submitTask g0 a s0 = Inr (Some ?s1)" for g0
    using f lim by (simp add: submitTask_def submit_grow_def enqueued_def)
  then have 1: "tp_step s0 ?s1" using f by (intro tp_step.submit [where g = 0 and t = a]) auto
  have sizes: "tp_idleThreadSize (enqueued t r) = tp_idleThreadSize r" "tp_curThreadSize (enqueued t r) = tp_curThreadSize r"
    "tp_initThreadSize (enqueued t r) = tp_initThreadSize r"
    "tp_threadSizeThreshHold (enqueued t r) = tp_threadSizeThreshHold r" for t and r :: "'t pool_state"
    by (simp_all add: enqueued_def)
  obtain th where th: "Thread True [] 0 = (th, 1)" "th_func th" "th_threadId th = 1"
    using Thread_number [of 0 True] by simp
  let ?s2 = "(enqueued b ?s1)\<lparr>tp_numCreated := 1, tp_threads := (tp_threads s0)(1 \<mapsto> fst (thread_start 0 th)),
      ps_pc := (ps_pc (enqueued b ?s1))(1 := W_loop), tp_curThreadSize := 2, tp_idleThreadSize := 2\<rparr>"
  have "submit_grow 0 (enqueued b ?s1) = Inr ?s2"
    using f th by (simp add: submit_grow_def sizes emplace_def launch_def thread_start_def Let_def)
  then have "submitTask 0 b ?s1 = Inr (Some ?s2)"
    using f lim by (simp add: submitTask_def enqueued_def)
  then have 2: "tp_step ?s1 ?s2" using f by (intro tp_step.submit [where g = 0 and t = b]) auto
  have r: "tp_reach s0 ?s2" using 1 2 by (meson converse_rtranclp_into_rtranclp rtranclp.rtrancl_refl)
  then have "pool_inv ?s2" using inv by (rule pool_inv_reach)
  then have "snap [a, b] ?s2 W_loop W_loop D_none [a, b]"
    using f by (simp add: snap_def sizes)
  with r show ?thesis by blast
qed

section \<open>Properties\<close>

text \<open>C37: In every interleaving of the workers, of threads that submit and of the destructor, the
  accepted tasks are taken from the queue in the order of submission and each one exactly once: a
  started task is finished or run by exactly one worker, never both. The queue never exceeds its
  limit, the task counter is its length, and no worker sleeps while a task is queued.\<close>

theorem tasks_run_once_in_order:
  assumes "unstarted s" and "0 \<le> n" and "n < 2 ^ 31" and "start g n s = Inr s0" and "tp_reach s0 s'"
  shows "ps_started s' @ tp_taskQue s' = ps_accepted s' \<and> distinct (ps_finished s') \<and>
    (\<forall>k < length (ps_started s').
       if k \<in> set (ps_finished s') then \<not> (\<exists>i t. ps_pc s' i = W_run k t)
       else (\<exists>!i. ps_pc s' i = W_run k (ps_started s' ! k))) \<and>
    length (tp_taskQue s') \<le> queue_limit (tp_taskQueMaxThreshHold s') \<and>
    tp_taskSize s' = int (length (tp_taskQue s')) \<and>
    (tp_taskQue s' \<noteq> [] \<longrightarrow> (\<forall>i. ps_pc s' i \<noteq> W_wait))"
proof -
  have "pool_inv s0" using start_inv [OF assms(1-3), of g] assms(4) by auto
  then have inv: "pool_inv s'" by (rule pool_inv_reach [OF assms(5)])
  then have I: "tasks_inv s'" and S: "sync_inv s'" by (simp_all add: pool_inv_def)
  have run: "k < length (ps_started s') \<and> k \<notin> set (ps_finished s') \<and> ps_started s' ! k = t"
    if "ps_pc s' i = W_run k t" for i k t using I that unfolding tasks_inv_def by blast
  have "if k \<in> set (ps_finished s') then \<not> (\<exists>i t. ps_pc s' i = W_run k t)
       else (\<exists>!i. ps_pc s' i = W_run k (ps_started s' ! k))" if k: "k < length (ps_started s')" for k
  proof (cases "k \<in> set (ps_finished s')")
    case True
    then show ?thesis using run by auto
  next
    case False
    with I k obtain i t where i: "ps_pc s' i = W_run k t" unfolding tasks_inv_def by blast
    moreover have "j = i" if "ps_pc s' j = W_run k u" for j u using I i that unfolding tasks_inv_def by blast
    ultimately have "\<exists>!i. ps_pc s' i = W_run k (ps_started s' ! k)" using run [OF i] by auto
    then show ?thesis using False by simp
  qed
  then show ?thesis using I S unfolding tasks_inv_def sync_inv_def by blast
qed

theorem tasks_run_once_in_order_witness:
  "\<exists>s0 s1. start (\<lambda>i. 100) 1 (ThreadPool numCreated0 :: nat pool_state) = Inr s0 \<and> tp_step s0 s1 \<and>
     ps_started s1 @ tp_taskQue s1 = [7] \<and> tp_taskSize s1 = int (length (tp_taskQue s1))"
proof -
  have n: "(0 :: int) \<le> 1" "(1 :: int) < 2 ^ 31" by simp_all
  obtain s0 where s0: "start (\<lambda>i. 100) 1 (ThreadPool numCreated0 :: nat pool_state) = Inr s0"
    and f: "tp_poolMode s0 = tp_poolMode (ThreadPool numCreated0 :: nat pool_state)" "ps_dtor s0 = D_none"
      "ps_lock s0 = None" "tp_taskQue s0 = []" "ps_accepted s0 = []" "tp_numCreated s0 = 1 - 1"
      "tp_taskQueMaxThreshHold s0 = tp_taskQueMaxThreshHold (ThreadPool numCreated0 :: nat pool_state)"
    by (rule start_inv [OF unstarted_ThreadPool n, of "\<lambda>i. 100"])
  have "submitTask 0 7 s0 = Inr (Some (enqueued 7 s0))"
    using f by (simp add: submitTask_def submit_grow_def enqueued_def ThreadPool_def TASK_MAX_THRESHHOLD_def queue_limit_def)
  then have st: "tp_step s0 (enqueued 7 s0)" using f by (intro tp_step.submit [where g = 0 and t = 7]) auto
  then have "tp_reach s0 (enqueued 7 s0)" by (rule r_into_rtranclp)
  from tasks_run_once_in_order [OF unstarted_ThreadPool n s0 this] s0 st f show ?thesis
    by (intro exI [of _ s0] exI [of _ "enqueued 7 s0"]) simp
qed

text \<open>C38: The destructor of a fixed pool that has threads ends and drains the queue: from the moment it
  waits, some step is always possible, every step makes \<open>shutdown_measure\<close> smaller, and when it is done
  no thread is left and every accepted task has been finished, exactly once.\<close>

theorem fixed_pool_drains:
  assumes "unstarted s" and "0 < n" and "n < 2 ^ 31" and "tp_poolMode s = MODE_FIXED"
    and "start g n s = Inr s0" and "tp_reach s0 s'"
  shows "(ps_dtor s' = D_wait \<or> ps_dtor s' = D_check \<longrightarrow>
      (\<exists>t. tp_step s' t) \<and> (\<forall>t. tp_step s' t \<longrightarrow> shutdown_measure t < shutdown_measure s')) \<and>
    (ps_dtor s' = D_done \<longrightarrow> dom (tp_threads s') = {} \<and> tp_taskQue s' = [] \<and>
      distinct (ps_finished s') \<and> set (ps_finished s') = {..<length (ps_accepted s')})"
proof -
  have n: "0 \<le> n" using assms(2) by simp
  obtain s1 where s1: "start g n s = Inr s1" "pool_inv s1" "0 < n \<longrightarrow> drain_inv s1" "tp_poolMode s1 = tp_poolMode s"
    by (rule start_inv [OF assms(1) n assms(3), of g])
  then have s0: "pool_inv s0" "drain_inv s0" "tp_poolMode s0 = MODE_FIXED" using assms(2,4,5) by auto
  have inv: "pool_inv s'" by (rule pool_inv_reach [OF assms(6) s0(1)])
  have dr: "drain_inv s'" "tp_poolMode s' = MODE_FIXED" using drain_inv_reach [OF assms(6) s0] by auto
  have "dom (tp_threads s') = {} \<and> tp_taskQue s' = [] \<and> distinct (ps_finished s') \<and>
      set (ps_finished s') = {..<length (ps_accepted s')}" if "ps_dtor s' = D_done"
  proof -
    have none: "dom (tp_threads s') = {}" using inv that by (simp add: pool_inv_def threads_inv_def)
    then have q: "tp_taskQue s' = []" using dr(1) by (simp add: drain_inv_def)
    have "\<not> alive (ps_pc s' i)" for i using inv none by (auto simp: pool_inv_def threads_inv_def)
    then have "ps_pc s' i \<noteq> W_run k t" for i k t by (metis alive_simps(5))
    then have "distinct (ps_finished s') \<and> set (ps_finished s') = {..<length (ps_accepted s')}"
      using inv q by (auto simp: pool_inv_def tasks_inv_def)
    with none q show ?thesis by blast
  qed
  then show ?thesis using shutdown_progress [OF inv dr] shutdown_decreases [OF inv] by blast
qed

theorem fixed_pool_drains_witness:
  "\<exists>s0 s1. start (\<lambda>i. 100) 1 (ThreadPool numCreated0 :: nat pool_state) = Inr s0 \<and> tp_reach s0 s1 \<and>
     ps_dtor s1 = D_wait \<and> (\<exists>t. tp_step s1 t \<and> shutdown_measure t < shutdown_measure s1)"
proof -
  have n: "(0 :: int) < 1" "(0 :: int) \<le> 1" "(1 :: int) < 2 ^ 31" by simp_all
  have m: "tp_poolMode (ThreadPool numCreated0 :: nat pool_state) = MODE_FIXED" by (simp add: ThreadPool_def)
  obtain s0 where s0: "start (\<lambda>i. 100) 1 (ThreadPool numCreated0 :: nat pool_state) = Inr s0"
    and f: "0 < (1 :: int) \<longrightarrow> drain_inv s0" "ps_dtor s0 = D_none" "ps_lock s0 = None"
    by (rule start_inv [OF unstarted_ThreadPool n(2,3), of "\<lambda>i. 100"])
  have dom: "dom (tp_threads s0) \<noteq> {}" using f by (auto simp: drain_inv_def)
  let ?s1 = "dtor_test (notEmpty_notify_all (dtor_flag s0))"
  have "tp_step s0 (dtor_flag s0)" using f(2) by (rule tp_step.dtor_begins)
  moreover have "tp_step (dtor_flag s0) ?s1" using f(3) by (intro tp_step.dtor_notifies) (simp_all add: dtor_flag_def)
  ultimately have r: "tp_reach s0 ?s1" by (meson converse_rtranclp_into_rtranclp rtranclp.rtrancl_refl)
  have d: "ps_dtor ?s1 = D_wait" using dom by (simp add: dtor_test_def dtor_flag_def)
  from fixed_pool_drains [OF unstarted_ThreadPool n(1,3) m s0 r] d s0 r show ?thesis by blast
qed

text \<open>C39: A cached pool can block its destructor forever: a thread whose timed wait ran out before the
  destructor's notification leaves through the branch that reclaims idle threads, which does not
  notify \<open>exitCond_\<close>. After two tasks on a pool of one thread there is a reachable state in which no
  thread is left, the destructor waits, and no step is possible.\<close>

theorem reclaim_deadlocks_destructor:
  fixes a b :: 't
  shows "\<exists>s0 s. start g 1 (setMode MODE_CACHED (ThreadPool numCreated0)) = Inr s0 \<and> tp_reach s0 s \<and>
    ps_accepted s = [a, b] \<and> ps_dtor s = D_wait \<and> dom (tp_threads s) = {} \<and> (\<nexists>t. tp_step s t)"
proof -
  let ?u = "setMode MODE_CACHED (ThreadPool numCreated0) :: 't pool_state"
  have u: "unstarted ?u" by (intro unstarted_setters unstarted_ThreadPool)
  obtain s0 where s0: "start g 1 ?u = Inr s0" by (rule start_inv [OF u, of 1 g]) auto
  obtain s1 where s1: "tp_reach s0 s1" "snap [a, b] s1 W_loop W_loop D_none [a, b]"
    using snap_grown [OF s0] by blast
  obtain s2 k where s2: "tp_reach s1 s2" "snap [a, b] s2 (W_run k a) W_timeout D_none []"
    using run_to_timeout [OF s1(2)] by blast
  obtain s where s: "tp_reach s2 s" "ps_pc s 0 = W_done" "ps_pc s 1 = W_done"
    "\<forall>i. i \<noteq> 0 \<longrightarrow> i \<noteq> 1 \<longrightarrow> ps_pc s i = W_none" "ps_dtor s = D_wait" "dom (tp_threads s) = {}" "ps_accepted s = [a, b]"
    using run_to_deadlock [OF s2(2)] by blast
  have na: "\<not> alive (ps_pc s i)" for i using s(2-4) by (metis alive_simps(6,7))
  have pc: "ps_pc s i \<noteq> W_loop" "ps_pc s i \<noteq> W_checked" "ps_pc s i \<noteq> W_wait" "ps_pc s i \<noteq> W_timeout"
    "ps_pc s i \<noteq> W_run k t" for i k t
    using na [of i] by (auto simp: alive_def)
  have "\<not> tp_step s t" for t
  proof
    assume "tp_step s t"
    then show False by (cases rule: tp_step.cases) (simp_all add: pc s(5))
  qed
  moreover have "tp_reach s0 s" using s1(1) s2(1) s(1) by (meson rtranclp_trans)
  ultimately show ?thesis using s0 s by blast
qed

end
