(* ===== verification/Base_Tasks.thy ===== *)
theory Base_Tasks
  imports Base_ThreadPool
begin

text \<open>
  The tasks a pool runs and the \<open>std::future\<close> that hands their value back, on the program
  \<open>test/threadpool/main.cpp\<close>. A packaged task is the call it is bound to, so the tasks of this program are
  outcomes of type \<open>int res\<close>; a future is the number of its task in the order of submission, or ready at once
  when the queue refused the task. The pauses of the tasks have no effect on their values.
\<close>

section \<open>The tasks\<close>

text \<open>Addition of \<open>int\<close>, undefined when it overflows.\<close>

definition int_add :: "int \<Rightarrow> int \<Rightarrow> int res" where
  "int_add a b = (if - (2 ^ 31) \<le> a + b \<and> a + b < 2 ^ 31 then Inr (a + b) else Inl Undefined_Behaviour)"

definition sum1 :: "int \<Rightarrow> int \<Rightarrow> int res" where
  "sum1 a b = int_add a b"

definition sum2 :: "int \<Rightarrow> int \<Rightarrow> int \<Rightarrow> int res" where
  "sum2 a b c = res_bind (int_add a b) (\<lambda>ab. int_add ab c)"

definition testFunc :: "int \<Rightarrow> int \<Rightarrow> int res" where
  "testFunc a b = int_add a b"

text \<open>The order of the additions of \<open>sum2\<close> matters: they overflow on the way although the sum is an \<open>int\<close>.\<close>

lemma sum2_overflows_on_the_way:
  "sum2 a b c = Inr (a + b + c) \<longleftrightarrow>
     - (2 ^ 31) \<le> a + b \<and> a + b < 2 ^ 31 \<and> - (2 ^ 31) \<le> a + b + c \<and> a + b + c < 2 ^ 31"
  by (auto simp: sum2_def int_add_def)

record my_task =
  mt_begin :: int
  mt_end :: int

text \<open>The loop of \<open>MyTask::run\<close> counts in \<open>unsigned long long\<close>; a bound that is the largest such number is never
  passed. Not returning is \<open>None\<close>; \<open>ty\<close> is the type the \<open>Any\<close> remembers.\<close>

partial_function (option) run_loop :: "64 word \<Rightarrow> 64 word \<Rightarrow> 64 word \<Rightarrow> 64 word option" where
  "run_loop i e acc = (if i \<le> e then run_loop (i + 1) e (acc + i) else Some acc)"

definition MyTask_run :: "nat \<Rightarrow> my_task \<Rightarrow> 64 word any option" where
  "MyTask_run ty t = map_option (Any ty) (run_loop (word_of_int (mt_begin t)) (word_of_int (mt_end t)) 0)"

lemma unat_max: "unat (- 1 :: 64 word) = 2 ^ 64 - 1"
  by (simp add: unsigned_minus_1_eq_mask mask_eq_exp_minus_1)

lemma run_loop_sum:
  assumes "e \<noteq> - 1"
  shows "run_loop i e s = Some (s + (\<Sum>k \<in> {unat i..unat e}. of_nat k))"
proof (induction "Suc (unat e) - unat i" arbitrary: i s)
  case 0
  then have "\<not> i \<le> e" by (simp add: word_le_nat_alt)
  then show ?case using 0 by (subst run_loop.simps) simp
next
  case (Suc n)
  then have le: "unat i \<le> unat e" by simp
  have "unat e < unat (- 1 :: 64 word)"
    using assms by (metis word_less_nat_alt word_order.not_eq_extremum)
  then have nx: "unat (i + 1) = Suc (unat i)" using le by (simp add: unat_word_ariths unat_max)
  have "run_loop (i + 1) e (s + i) = Some (s + i + (\<Sum>k \<in> {Suc (unat i)..unat e}. of_nat k))"
    using Suc.hyps(1) [of "i + 1" "s + i"] Suc.hyps(2) nx by simp
  moreover have "(\<Sum>k \<in> {unat i..unat e}. of_nat k) = i + (\<Sum>k \<in> {Suc (unat i)..unat e}. of_nat k :: 64 word)"
    using le by (simp add: sum.atLeast_Suc_atMost)
  ultimately show ?case using le by (subst run_loop.simps) (simp add: word_le_nat_alt add.assoc)
qed

lemma run_loop_endless: "run_loop i (- 1) s = None"
proof -
  have "e \<noteq> - 1" if "run_loop i e s = Some r" for i e s r
    by (rule run_loop.raw_induct [OF _ that]) (auto split: if_splits)
  then show ?thesis by (metis not_None_eq)
qed

text \<open>With bounds that are not negative the task returns their sum; with a negative lower bound it returns 0
  without adding anything, and with the upper bound \<open>-1\<close> it never returns.\<close>

lemma MyTask_run_sum:
  assumes "0 \<le> mt_begin t" and "mt_begin t < 2 ^ 31" and "0 \<le> mt_end t" and "mt_end t < 2 ^ 31"
  shows "MyTask_run ty t = Some (Any ty (\<Sum>k \<in> {nat (mt_begin t)..nat (mt_end t)}. of_nat k))"
proof -
  have u: "unat (word_of_int x :: 64 word) = nat x" if "0 \<le> x" "x < 2 ^ 31" for x
    using that by (simp add: unat_eq_nat_uint uint_word_of_int)
  have "word_of_int (mt_end t) \<noteq> (- 1 :: 64 word)" using u [OF assms(3,4)] assms(4) by (auto simp: unat_max)
  from run_loop_sum [OF this] u assms show ?thesis by (simp add: MyTask_run_def)
qed

lemma MyTask_run_negative_begin:
  assumes "- (2 ^ 31) \<le> mt_begin t" and "mt_begin t < 0" and "0 \<le> mt_end t" and "mt_end t < 2 ^ 31"
  shows "MyTask_run ty t = Some (Any ty 0)"
proof -
  have "uint (word_of_int (mt_begin t) :: 64 word) = mt_begin t + 2 ^ 64"
    using assms(1,2) mod_pos_pos_trivial [of "mt_begin t + 2 ^ 64" "2 ^ 64"] by (simp add: uint_word_of_int)
  moreover have "uint (word_of_int (mt_end t) :: 64 word) = mt_end t"
    using assms(3,4) by (simp add: uint_word_of_int)
  ultimately have "\<not> (word_of_int (mt_begin t) :: 64 word) \<le> word_of_int (mt_end t)"
    using assms by (simp add: word_le_def)
  then show ?thesis unfolding MyTask_run_def by (subst run_loop.simps) simp
qed

lemma MyTask_run_endless: "mt_end t = - 1 \<Longrightarrow> MyTask_run ty t = None"
  using run_loop_endless by (simp add: MyTask_run_def)

section \<open>Futures\<close>

datatype 'r future = Ready 'r | Of_task nat

text \<open>The future that \<open>submitTask\<close> answers: of a refused task it is ready and holds the default value.\<close>

definition submit_future :: "int \<Rightarrow> int res \<Rightarrow> int res pool_state \<Rightarrow> (int res future \<times> int res pool_state) res" where
  "submit_future gettid t s =
     res_bind (submitTask gettid t s) (\<lambda>r.
       Inr (case r of None \<Rightarrow> (Ready (Inr 0), s) | Some s' \<Rightarrow> (Of_task (length (ps_accepted s)), s')))"

text \<open>\<open>get()\<close> blocks (\<open>None\<close>) until the task has run.\<close>

definition future_get :: "int res future \<Rightarrow> int res pool_state \<Rightarrow> int res option" where
  "future_get f s =
     (case f of Ready v \<Rightarrow> Some v
      | Of_task k \<Rightarrow> if k \<in> set (ps_finished s) then Some (ps_accepted s ! k) else None)"

section \<open>The program\<close>

text \<open>The steps of the other threads: the workers, and the destructor once it has begun.\<close>

definition pool_step :: "int res pool_state \<Rightarrow> int res pool_state \<Rightarrow> bool" where
  "pool_step s s' \<longleftrightarrow> tp_step s s' \<and> ps_accepted s' = ps_accepted s \<and> (ps_dtor s = D_none \<longrightarrow> ps_dtor s' = D_none)"

text \<open>Where \<open>main\<close> is: before the first submission, in \<open>r1.get()\<close>, before the second submission, at the end of
  the scope, in the destructor of the pool, or done. The list is what \<open>main\<close> itself has printed of its
  futures.\<close>

datatype main_pc = M_first | M_get "int res future" | M_second | M_leave | M_dtor | M_done

inductive main_step ::
    "main_pc \<times> int list \<times> int res pool_state \<Rightarrow> main_pc \<times> int list \<times> int res pool_state \<Rightarrow> bool" where
  first: "ps_lock s = None \<Longrightarrow> submit_future g (sum1 1 3) s = Inr (f, s') \<Longrightarrow>
    main_step (M_first, out, s) (M_get f, out, s')"
| prints: "future_get f s = Some (Inr v) \<Longrightarrow> main_step (M_get f, out, s) (M_second, out @ [v], s)"
| second: "ps_lock s = None \<Longrightarrow> submit_future g (testFunc 1 2) s = Inr (f, s') \<Longrightarrow>
    main_step (M_second, out, s) (M_leave, out, s')"
| leaves: "main_step (M_leave, out, s) (M_dtor, out, dtor_flag s)"
| ends: "ps_dtor s = D_done \<Longrightarrow> main_step (M_dtor, out, s) (M_done, out, s)"
| others: "pool_step s s' \<Longrightarrow> main_step (pc, out, s) (pc, out, s')"

abbreviation main_reach where
  "main_reach \<equiv> main_step\<^sup>*\<^sup>*"

text \<open>A pool of fixed size makes no threads, and its limits stay.\<close>

lemma fixed_step:
  assumes "tp_step s s'" and "tp_poolMode s = MODE_FIXED"
  shows "tp_numCreated s' = tp_numCreated s" "tp_taskQueMaxThreshHold s' = tp_taskQueMaxThreshHold s"
    "tp_poolMode s' = MODE_FIXED"
proof -
  have "tp_numCreated s' = tp_numCreated s \<and> tp_taskQueMaxThreshHold s' = tp_taskQueMaxThreshHold s \<and> tp_poolMode s' = MODE_FIXED"
    using assms(1)
  proof (cases rule: tp_step.cases)
    case (submit g t)
    then show ?thesis using assms(2)
      by (auto simp: submitTask_def submit_grow_def notEmpty_notify_all_def split: if_splits)
  qed (use assms(2) in \<open>auto simp: take_task_def worker_exit_def worker_reclaim_def finish_task_def dtor_flag_def dtor_test_def
      exitCond_notify_all_def Let_def\<close>)
  then show "tp_numCreated s' = tp_numCreated s" "tp_taskQueMaxThreshHold s' = tp_taskQueMaxThreshHold s"
    "tp_poolMode s' = MODE_FIXED" by auto
qed

definition at_work :: "int res pool_state \<Rightarrow> bool" where
  "at_work s \<longleftrightarrow> pool_inv s \<and> drain_inv s \<and> tp_poolMode s = MODE_FIXED \<and> tp_numCreated s < 2 ^ 31 - 1 \<and>
     tp_taskQueMaxThreshHold s = TASK_MAX_THRESHHOLD"

lemma at_work_step: "at_work s \<Longrightarrow> tp_step s s' \<Longrightarrow> at_work s'"
  using pool_inv_reach [OF r_into_rtranclp] drain_inv_reach [OF r_into_rtranclp] fixed_step [of s s']
  by (auto simp: at_work_def)

text \<open>The queue of this program is never full, so both tasks are accepted.\<close>

lemma submit_accepted:
  assumes "at_work s" and "ps_dtor s = D_none" and "ps_lock s = None" and "length (ps_accepted s) < 2"
  shows "\<exists>s'. submitTask g t s = Inr (Some s')"
    "submitTask g t s = Inr (Some s') \<Longrightarrow> tp_step s s' \<and> ps_accepted s' = ps_accepted s @ [t] \<and> ps_dtor s' = D_none"
proof -
  have "ps_started s @ tp_taskQue s = ps_accepted s" using assms(1) by (simp add: at_work_def pool_inv_def tasks_inv_def)
  then have "length (tp_taskQue s) < 2" using assms(4) by (metis le_add2 le_less_trans length_append)
  then have "length (tp_taskQue s) < queue_limit (tp_taskQueMaxThreshHold s)"
    using assms(1) by (simp add: at_work_def queue_limit_def TASK_MAX_THRESHHOLD_def)
  then have e: "submitTask g t s = Inr (Some (notEmpty_notify_all
      (s\<lparr>tp_taskQue := tp_taskQue s @ [t], tp_taskSize := tp_taskSize s + 1, ps_accepted := ps_accepted s @ [t]\<rparr>)))"
    using assms(1) by (simp add: submitTask_def submit_grow_def at_work_def)
  then show "\<exists>s'. submitTask g t s = Inr (Some s')" by blast
  have n: "tp_numCreated s < 2 ^ 31 - 1" using assms(1) by (simp add: at_work_def)
  show "tp_step s s' \<and> ps_accepted s' = ps_accepted s @ [t] \<and> ps_dtor s' = D_none" if "submitTask g t s = Inr (Some s')"
    using tp_step.submit [OF assms(2,3) n that] that e assms(2) by auto
qed

text \<open>While a task is not finished some worker can go on, and has less to do after that.\<close>

definition work_left :: "'t pool_state \<Rightarrow> nat" where
  "work_left s = 2 * length (ps_accepted s) - length (ps_started s) - length (ps_finished s)"

lemma at_work_bounds:
  assumes "at_work s"
  shows "length (ps_started s) \<le> length (ps_accepted s)" "length (ps_finished s) \<le> length (ps_accepted s)"
proof -
  have I: "tasks_inv s" using assms by (simp add: at_work_def pool_inv_def)
  then show st: "length (ps_started s) \<le> length (ps_accepted s)" by (metis length_append le_add1 tasks_inv_def)
  have "distinct (ps_finished s)" "set (ps_finished s) \<subseteq> {..<length (ps_started s)}" using I by (simp_all add: tasks_inv_def)
  then have "length (ps_finished s) \<le> length (ps_started s)"
    by (metis card_lessThan card_mono distinct_card finite_lessThan)
  then show "length (ps_finished s) \<le> length (ps_accepted s)" using st by simp
qed

lemma workers_progress:
  assumes "at_work s" and "ps_dtor s = D_none" and "k < length (ps_accepted s)" and "k \<notin> set (ps_finished s)"
  shows "\<exists>s'. pool_step s s' \<and> work_left s' < work_left s"
proof -
  have I: "tasks_inv s" "sync_inv s" "threads_inv s" "drain_inv s" "tp_poolMode s = MODE_FIXED"
    using assms(1) by (simp_all add: at_work_def pool_inv_def)
  have fin: ?thesis if "ps_pc s i = W_run j t" for i j t
  proof -
    have "at_work (finish_task i j s)" using at_work_step [OF assms(1) tp_step.finish [OF that]] .
    then have "length (ps_finished s) < length (ps_accepted s)" using at_work_bounds(2) by (fastforce simp: finish_task_def)
    then show ?thesis using tp_step.finish [OF that] assms(2) at_work_bounds(1) [OF assms(1)]
      by (intro exI [of _ "finish_task i j s"]) (auto simp: pool_step_def work_left_def finish_task_def)
  qed
  show ?thesis
  proof (cases "tp_taskQue s")
    case Nil
    then have "k < length (ps_started s)" using I(1) assms(3) by (simp add: tasks_inv_def)
    then obtain i t where "ps_pc s i = W_run k t" using I(1) assms(4) unfolding tasks_inv_def by blast
    then show ?thesis by (rule fin)
  next
    case (Cons t q)
    then have awake: "ps_pc s i \<noteq> W_wait \<and> ps_pc s i \<noteq> W_checked \<and> ps_pc s i \<noteq> W_timeout" for i
      using I(2,5) by (auto simp: sync_inv_def)
    then have lock: "ps_lock s = None" using I(2) by (metis not_None_eq sync_inv_def)
    have "dom (tp_threads s) \<noteq> {}" using I(4) Cons by (auto simp: drain_inv_def)
    then obtain i where "tp_threads s i \<noteq> None" by blast
    then have "alive (ps_pc s i)" using I(3) by (simp add: threads_inv_def)
    then consider "ps_pc s i = W_loop" | j u where "ps_pc s i = W_run j u"
      using awake [of i] by (cases "ps_pc s i") auto
    then show ?thesis
    proof cases
      case 1
      have "length (ps_started s) < length (ps_accepted s)" using I(1) Cons by (auto simp: tasks_inv_def dest: arg_cong [where f = length])
      then show ?thesis using tp_step.get [OF 1 lock Cons] assms(2) at_work_bounds(2) [OF assms(1)]
        by (intro exI [of _ "take_task i t q s"]) (auto simp: pool_step_def work_left_def take_task_def Let_def)
    qed (rule fin)
  qed
qed

lemma lock_released:
  assumes "at_work s" and "ps_lock s = Some i"
  shows "\<exists>s'. pool_step s s' \<and> ps_dtor s' = ps_dtor s \<and> ps_lock s' = None"
proof -
  have "ps_pc s i = W_checked" using assms by (simp add: at_work_def pool_inv_def sync_inv_def)
  from tp_step.sleep [OF this] show ?thesis by (intro exI [of _ "s\<lparr>ps_pc := (ps_pc s)(i := W_wait), ps_lock := None\<rparr>"]) (simp add: pool_step_def)
qed

fun main_inv :: "main_pc \<times> int list \<times> int res pool_state \<Rightarrow> bool" where
  "main_inv (pc, out, s) \<longleftrightarrow> at_work s \<and>
     (case pc of
        M_first \<Rightarrow> out = [] \<and> ps_accepted s = [] \<and> ps_dtor s = D_none
      | M_get f \<Rightarrow> out = [] \<and> f = Of_task 0 \<and> ps_accepted s = [Inr 4] \<and> ps_dtor s = D_none
      | M_second \<Rightarrow> out = [4] \<and> ps_accepted s = [Inr 4] \<and> ps_dtor s = D_none
      | M_leave \<Rightarrow> out = [4] \<and> ps_accepted s = [Inr 4, Inr 3] \<and> ps_dtor s = D_none
      | M_dtor \<Rightarrow> out = [4] \<and> ps_accepted s = [Inr 4, Inr 3] \<and> ps_dtor s \<noteq> D_none
      | M_done \<Rightarrow> out = [4] \<and> ps_accepted s = [Inr 4, Inr 3] \<and> ps_dtor s = D_done)"

lemma task_values: "sum1 1 3 = Inr 4" "testFunc 1 2 = Inr 3"
  by (simp_all add: sum1_def testFunc_def int_add_def)

lemma dtor_stays: "tp_step s s' \<Longrightarrow> ps_dtor s \<noteq> D_none \<Longrightarrow> ps_dtor s' \<noteq> D_none"
  by (auto elim!: tp_stepE simp: step_defs split: if_splits)

lemma dtor_done_stays: "tp_step s s' \<Longrightarrow> ps_dtor s = D_done \<Longrightarrow> ps_dtor s' = D_done"
  by (auto elim!: tp_stepE simp: step_defs split: if_splits)

lemma submit_future_accepted:
  assumes "at_work s" and "ps_dtor s = D_none" and "ps_lock s = None" and "length (ps_accepted s) < 2"
    and "submit_future g t s = Inr (f, s')"
  shows "f = Of_task (length (ps_accepted s))" "at_work s'" "ps_accepted s' = ps_accepted s @ [t]" "ps_dtor s' = D_none"
proof -
  obtain s1 where s1: "submitTask g t s = Inr (Some s1)" using submit_accepted(1) [OF assms(1-4)] by blast
  then have "f = Of_task (length (ps_accepted s))" "s' = s1" using assms(5) by (simp_all add: submit_future_def)
  then show "f = Of_task (length (ps_accepted s))" "at_work s'" "ps_accepted s' = ps_accepted s @ [t]" "ps_dtor s' = D_none"
    using submit_accepted(2) [OF assms(1-4) s1] at_work_step [OF assms(1)] by auto
qed

lemma main_inv_step:
  assumes "main_step x y" and "main_inv x"
  shows "main_inv y"
  using assms
proof (cases rule: main_step.cases)
  case (first s g f s' out)
  then show ?thesis using submit_future_accepted [OF _ _ first(3) _ first(4)] assms(2) by (auto simp: task_values)
next
  case (second s g f s' out)
  then show ?thesis using submit_future_accepted [OF _ _ second(3) _ second(4)] assms(2) by (auto simp: task_values)
next
  case (leaves out s)
  then show ?thesis using assms(2) at_work_step [OF _ tp_step.dtor_begins [of s]] by (auto simp: dtor_flag_def)
next
  case (others s s' pc out)
  then show ?thesis using assms(2) at_work_step [of s s'] dtor_stays [of s s'] dtor_done_stays [of s s']
    by (auto simp: pool_step_def split: main_pc.splits)
qed (use assms(2) in \<open>auto simp: future_get_def split: if_splits\<close>)

text \<open>The destructor, once begun, can end.\<close>

lemma dtor_accepted: "tp_step s s' \<Longrightarrow> ps_dtor s \<noteq> D_none \<Longrightarrow> ps_accepted s' = ps_accepted s"
  by (auto elim!: tp_stepE simp: step_defs)

lemma dtor_ends: "at_work s \<Longrightarrow> ps_dtor s \<in> {D_wait, D_check, D_done} \<Longrightarrow> \<exists>s'. pool_step\<^sup>*\<^sup>* s s' \<and> ps_dtor s' = D_done"
proof (induction "shutdown_measure s" arbitrary: s rule: less_induct)
  case less
  show ?case
  proof (cases "ps_dtor s = D_done")
    case True
    then show ?thesis by blast
  next
    case False
    then have d: "ps_dtor s = D_wait \<or> ps_dtor s = D_check" using less.prems(2) by auto
    have w: "pool_inv s" "drain_inv s" "tp_poolMode s = MODE_FIXED" using less.prems(1) by (simp_all add: at_work_def)
    obtain t where t: "tp_step s t" using shutdown_progress [OF w d] by blast
    have "ps_dtor t \<in> {D_wait, D_check, D_done}" using t d by (auto elim!: tp_stepE simp: step_defs split: if_splits)
    with less.hyps [OF shutdown_decreases [OF w(1) d t] at_work_step [OF less.prems(1) t]]
    obtain s' where "pool_step\<^sup>*\<^sup>* t s'" "ps_dtor s' = D_done" by blast
    moreover have "pool_step s t" using t d dtor_accepted [OF t] by (auto simp: pool_step_def)
    ultimately show ?thesis by (meson converse_rtranclp_into_rtranclp)
  qed
qed

text \<open>The workers can finish every task.\<close>

lemma tasks_finish:
  "at_work s \<Longrightarrow> ps_dtor s = D_none \<Longrightarrow> k < length (ps_accepted s) \<Longrightarrow>
    \<exists>s'. pool_step\<^sup>*\<^sup>* s s' \<and> k \<in> set (ps_finished s')"
proof (induction "work_left s" arbitrary: s rule: less_induct)
  case less
  show ?case
  proof (cases "k \<in> set (ps_finished s)")
    case True
    then show ?thesis by blast
  next
    case False
    obtain t where t: "pool_step s t" "work_left t < work_left s" using workers_progress [OF less.prems False] by blast
    have "at_work t" "ps_dtor t = D_none" "k < length (ps_accepted t)"
      using t(1) less.prems at_work_step by (auto simp: pool_step_def)
    with less.hyps [OF t(2)] t(1) show ?thesis by (meson converse_rtranclp_into_rtranclp)
  qed
qed

lemma others_reach: "pool_step\<^sup>*\<^sup>* s s' \<Longrightarrow> main_reach (pc, out, s) (pc, out, s')"
  by (induction rule: rtranclp_induct) (auto intro: main_step.others rtranclp.rtrancl_into_rtrancl)

lemma main_inv_reach: "main_reach x y \<Longrightarrow> main_inv x \<Longrightarrow> main_inv y"
  by (induction rule: rtranclp_induct) (auto intro: main_inv_step)

lemma unlocked_reach:
  assumes "at_work s"
  obtains s' where "pool_step\<^sup>*\<^sup>* s s'" and "ps_lock s' = None"
  using lock_released [OF assms] by (cases "ps_lock s") blast+

text \<open>From each place \<open>main\<close> can get to the next.\<close>

lemma from_dtor: "main_inv (M_dtor, out, s) \<Longrightarrow> \<exists>out' s'. main_reach (M_dtor, out, s) (M_done, out', s')"
proof -
  assume inv: "main_inv (M_dtor, out, s)"
  obtain s1 where s1: "pool_step\<^sup>*\<^sup>* s s1" "ps_lock s1 = None" by (rule unlocked_reach [of s]) (use inv in auto)
  have i1: "main_inv (M_dtor, out, s1)" by (rule main_inv_reach [OF others_reach [OF s1(1)] inv])
  have "\<exists>s2. pool_step\<^sup>*\<^sup>* s1 s2 \<and> ps_dtor s2 \<in> {D_wait, D_check, D_done}"
  proof (cases "ps_dtor s1 = D_flagged")
    case True
    then have "pool_step s1 (dtor_test (notEmpty_notify_all s1))"
      using tp_step.dtor_notifies [OF True s1(2)] by (simp add: pool_step_def dtor_test_def)
    then show ?thesis by (intro exI [of _ "dtor_test (notEmpty_notify_all s1)"]) (simp add: dtor_test_def r_into_rtranclp)
  next
    case False
    then show ?thesis using i1 by (intro exI [of _ s1]) (cases "ps_dtor s1"; simp)
  qed
  then obtain s2 where s2: "pool_step\<^sup>*\<^sup>* s1 s2" "ps_dtor s2 \<in> {D_wait, D_check, D_done}" by blast
  have "at_work s2" using main_inv_reach [OF others_reach [OF s2(1)] i1] by simp
  then obtain s3 where s3: "pool_step\<^sup>*\<^sup>* s2 s3" "ps_dtor s3 = D_done" using dtor_ends [OF _ s2(2)] by blast
  have "pool_step\<^sup>*\<^sup>* s s3" using s1(1) s2(1) s3(1) by (meson rtranclp_trans)
  from others_reach [OF this, of M_dtor out] main_step.ends [OF s3(2), of out] show ?thesis
    by (meson rtranclp.rtrancl_into_rtrancl)
qed

lemma from_leave: "main_inv (M_leave, out, s) \<Longrightarrow> \<exists>out' s'. main_reach (M_leave, out, s) (M_done, out', s')"
  using from_dtor main_inv_step main_step.leaves by (meson converse_rtranclp_into_rtranclp)

lemma from_second: "main_inv (M_second, out, s) \<Longrightarrow> \<exists>out' s'. main_reach (M_second, out, s) (M_done, out', s')"
proof -
  assume inv: "main_inv (M_second, out, s)"
  obtain s1 where s1: "pool_step\<^sup>*\<^sup>* s s1" "ps_lock s1 = None" by (rule unlocked_reach [of s]) (use inv in auto)
  have i1: "main_inv (M_second, out, s1)" by (rule main_inv_reach [OF others_reach [OF s1(1)] inv])
  then obtain f s2 where "submit_future 0 (testFunc 1 2) s1 = Inr (f, s2)"
    using submit_accepted(1) [of s1 0 "testFunc 1 2"] s1(2) by (auto simp: submit_future_def)
  then have st: "main_step (M_second, out, s1) (M_leave, out, s2)" by (rule main_step.second [OF s1(2)])
  then obtain out' s' where "main_reach (M_leave, out, s2) (M_done, out', s')" using from_leave main_inv_step i1 by blast
  then show ?thesis using others_reach [OF s1(1)] st by (meson converse_rtranclp_into_rtranclp rtranclp_trans)
qed

lemma from_get: "main_inv (M_get f, out, s) \<Longrightarrow> \<exists>out' s'. main_reach (M_get f, out, s) (M_done, out', s')"
proof -
  assume inv: "main_inv (M_get f, out, s)"
  obtain s1 where s1: "pool_step\<^sup>*\<^sup>* s s1" "0 \<in> set (ps_finished s1)" using tasks_finish [of s 0] inv by auto
  have i1: "main_inv (M_get f, out, s1)" by (rule main_inv_reach [OF others_reach [OF s1(1)] inv])
  then have "future_get f s1 = Some (Inr 4)" using s1(2) by (simp add: future_get_def)
  then have st: "main_step (M_get f, out, s1) (M_second, out @ [4], s1)" by (rule main_step.prints)
  then obtain out' s' where "main_reach (M_second, out @ [4], s1) (M_done, out', s')" using from_second main_inv_step i1 by blast
  then show ?thesis using others_reach [OF s1(1)] st by (meson converse_rtranclp_into_rtranclp rtranclp_trans)
qed

lemma from_first: "main_inv (M_first, out, s) \<Longrightarrow> \<exists>out' s'. main_reach (M_first, out, s) (M_done, out', s')"
proof -
  assume inv: "main_inv (M_first, out, s)"
  obtain s1 where s1: "pool_step\<^sup>*\<^sup>* s s1" "ps_lock s1 = None" by (rule unlocked_reach [of s]) (use inv in auto)
  have i1: "main_inv (M_first, out, s1)" by (rule main_inv_reach [OF others_reach [OF s1(1)] inv])
  then obtain f s2 where "submit_future 0 (sum1 1 3) s1 = Inr (f, s2)"
    using submit_accepted(1) [of s1 0 "sum1 1 3"] s1(2) by (auto simp: submit_future_def)
  then have st: "main_step (M_first, out, s1) (M_get f, out, s2)" by (rule main_step.first [OF s1(2)])
  then obtain out' s' where "main_reach (M_get f, out, s2) (M_done, out', s')" using from_get main_inv_step i1 by blast
  then show ?thesis using others_reach [OF s1(1)] st by (meson converse_rtranclp_into_rtranclp rtranclp_trans)
qed

lemma main_can_end: "main_inv (pc, out, s) \<Longrightarrow> \<exists>out' s'. main_reach (pc, out, s) (M_done, out', s')"
  using from_first from_get from_second from_leave from_dtor by (cases pc) blast+

lemma main_starts:
  assumes "0 < n" and "n < 2 ^ 31"
  obtains s0 where "start g n (ThreadPool numCreated0) = Inr s0" and "main_inv (M_first, [], s0)"
proof -
  have n: "0 \<le> n" using assms(1) by simp
  have m: "tp_poolMode (ThreadPool numCreated0) = MODE_FIXED" "tp_taskQueMaxThreshHold (ThreadPool numCreated0) = TASK_MAX_THRESHHOLD"
    by (simp_all add: ThreadPool_def)
  obtain s' :: "int res pool_state" where s': "start g n (ThreadPool numCreated0) = Inr s'" "pool_inv s'" "0 < n \<longrightarrow> drain_inv s'"
    "tp_poolMode s' = MODE_FIXED" "ps_dtor s' = D_none" "ps_accepted s' = []" "tp_numCreated s' = n - 1"
    "tp_taskQueMaxThreshHold s' = TASK_MAX_THRESHHOLD"
    by (rule start_inv [OF unstarted_ThreadPool n assms(2), of g]) (simp only: m)
  then have "main_inv (M_first, [], s')" using assms by (simp add: at_work_def)
  with s'(1) show ?thesis by (rule that)
qed

text \<open>Where the system does not tell the number of its processors the pool starts without threads, and \<open>main\<close>
  waits for its first task forever.\<close>

lemma no_threads_no_result:
  assumes "start g 0 (ThreadPool numCreated0) = Inr s0" and "submitTask g' t s0 = Inr (Some s1)"
  shows "\<not> main_step (M_get (Of_task 0), out, s1) y"
proof -
  have s0: "ps_pc s0 = (\<lambda>_. W_none)" "ps_finished s0 = []" "ps_dtor s0 = D_none" "ps_accepted s0 = []" "tp_poolMode s0 = MODE_FIXED"
    using assms(1) by (auto simp: start_def ThreadPool_def)
  have s1: "ps_pc s1 = (\<lambda>_. W_none)" "ps_finished s1 = []" "ps_dtor s1 = D_none" "ps_accepted s1 = [t]" "tp_poolMode s1 = MODE_FIXED"
    using assms(2) s0 by (auto simp: submitTask_def submit_grow_def notEmpty_notify_all_def split: if_splits)
  have "\<not> pool_step s1 s2" for s2
  proof
    assume "pool_step s1 s2"
    then have st: "tp_step s1 s2" "ps_accepted s2 = [t]" "ps_dtor s2 = D_none" using s1 by (auto simp: pool_step_def)
    show False
      using st(1)
    proof (cases rule: tp_step.cases)
      case (submit g u)
      then show False using st(2) s1(4,5) by (auto simp: submitTask_def submit_grow_def split: if_splits)
    qed (use s1 st in \<open>auto simp: dtor_flag_def\<close>)
  qed
  then show ?thesis using s1(2) by (auto simp: future_get_def elim: main_step.cases)
qed

section \<open>Properties\<close>

text \<open>C40: In every interleaving of its threads the test program of the pool prints the value of its first task, 4,
  and from every state it can reach it can still end; when it has ended, both tasks have run and no thread is
  left.\<close>

theorem threadpool_program_ends:
  assumes "0 < n" and "n < 2 ^ 31" and "start g n (ThreadPool numCreated0) = Inr s0"
    and "main_reach (M_first, [], s0) (pc, out, s)"
  shows "(\<exists>out' s'. main_reach (pc, out, s) (M_done, out', s')) \<and>
    (pc = M_done \<longrightarrow> out = [4] \<and> set (ps_finished s) = {0, 1} \<and> dom (tp_threads s) = {})"
proof -
  have "main_inv (M_first, [], s0)" by (rule main_starts [OF assms(1,2), of g]) (use assms(3) in simp)
  then have inv: "main_inv (pc, out, s)" by (rule main_inv_reach [OF assms(4)])
  have "out = [4] \<and> set (ps_finished s) = {0, 1} \<and> dom (tp_threads s) = {}" if "pc = M_done"
  proof -
    have d: "out = [4]" "ps_accepted s = [Inr 4, Inr 3]" "ps_dtor s = D_done" "at_work s" using inv that by auto
    then have I: "tasks_inv s" "threads_inv s" "drain_inv s" by (simp_all add: at_work_def pool_inv_def)
    have none: "dom (tp_threads s) = {}" using I(2) d(3) by (simp add: threads_inv_def)
    then have "tp_taskQue s = []" using I(3) by (simp add: drain_inv_def)
    then have st: "length (ps_started s) = 2" using I(1) d(2) by (simp add: tasks_inv_def)
    have "\<not> alive (ps_pc s i)" for i using I(2) none by (auto simp: threads_inv_def)
    then have "ps_pc s i \<noteq> W_run k t" for i k t by (metis alive_simps(5))
    then have "set (ps_finished s) = {..<2}" using I(1) st by (auto simp: tasks_inv_def)
    moreover have "{..<2 :: nat} = {0, 1}" by auto
    ultimately show ?thesis using none d(1) by simp
  qed
  then show ?thesis using main_can_end [OF inv] by blast
qed

theorem threadpool_program_ends_witness:
  "\<exists>s0. start (\<lambda>i. 100) 2 (ThreadPool numCreated0) = Inr s0 \<and>
     (\<exists>out s. main_reach (M_first, [], s0) (M_done, out, s) \<and> out = [4])"
proof -
  have n: "(0 :: int) < 2" "(2 :: int) < 2 ^ 31" by simp_all
  obtain s0 :: "int res pool_state" where s0: "start (\<lambda>i. 100) 2 (ThreadPool numCreated0) = Inr s0" by (rule main_starts [OF n, of "\<lambda>i. 100"])
  note E = threadpool_program_ends [OF n s0]
  obtain out s where r: "main_reach (M_first, [], s0) (M_done, out, s)" using E [OF rtranclp.rtrancl_refl] by auto
  have "out = [4]" using E [OF r] by simp
  then show ?thesis using s0 r by (intro exI [of _ s0] conjI exI [of _ out] exI [of _ s]) simp_all
qed

end
