(* ===== verification/Base_Log.thy ===== *)
theory Base_Log
  imports Talk_Prelude
begin

text \<open>
  The clock and the log: \<open>Timestamp.h/.cc\<close>, \<open>Logger.h/.cc\<close> and the two clock functions of \<open>util.cc\<close>. The
  broken-down time that \<open>localtime\<close> answers depends on the time zone and is an argument, as is what
  \<open>time\<close> and \<open>gettimeofday\<close> answer. The text a \<open>LOG_\<close> macro formats is its argument \<open>msg\<close>; the cut to
  its buffer is modelled. The macros set the level of the one logger and then print, without a lock, so
  the interleavings of several threads are a step relation.
\<close>

section \<open>The clock\<close>

record tm =
  tm_sec :: int
  tm_min :: int
  tm_hour :: int
  tm_mday :: int
  tm_mon :: int
  tm_year :: int

record timestamp =
  microSecondsSinceEpoch :: int

definition Timestamp0 :: timestamp where
  "Timestamp0 = \<lparr>microSecondsSinceEpoch = 0\<rparr>"

definition Timestamp :: "int \<Rightarrow> timestamp" where
  "Timestamp t = \<lparr>microSecondsSinceEpoch = t\<rparr>"

text \<open>\<open>now\<close> stores the seconds that \<open>time\<close> answers.\<close>

definition now :: "int \<Rightarrow> timestamp" where
  "now time_NULL = Timestamp time_NULL"

text \<open>The conversions \<open>%4d\<close> (padded with blanks) and \<open>%02d\<close> (padded with zeros after the sign).\<close>

definition fmt_4d :: "int \<Rightarrow> string" where
  "fmt_4d i = (let s = show_int i in replicate (4 - length s) (CHR '' '') @ s)"

definition fmt_02d :: "int \<Rightarrow> string" where
  "fmt_02d i =
     (if i < 0 then let s = show_nat (nat (- i)) in CHR ''-'' # replicate (1 - length s) (CHR ''0'') @ s
      else let s = show_nat (nat i) in replicate (2 - length s) (CHR ''0'') @ s)"

text \<open>\<open>toString\<close>: a null pointer from \<open>localtime\<close> and a sum beyond \<open>int\<close> are undefined.\<close>

definition toString :: "(int \<Rightarrow> tm option) \<Rightarrow> timestamp \<Rightarrow> string res" where
  "toString localtime t =
     (case localtime (microSecondsSinceEpoch t) of
        None \<Rightarrow> Inl Undefined_Behaviour
      | Some x \<Rightarrow>
          if tm_year x + 1900 \<ge> 2 ^ 31 \<or> tm_mon x + 1 \<ge> 2 ^ 31 then Inl Undefined_Behaviour
          else Inr (snprintf 128
            (fmt_4d (tm_year x + 1900) @ ''/'' @ fmt_02d (tm_mon x + 1) @ ''/'' @ fmt_02d (tm_mday x) @ '' '' @
             fmt_02d (tm_hour x) @ '':'' @ fmt_02d (tm_min x) @ '':'' @ fmt_02d (tm_sec x))))"

text \<open>\<open>get_tick_count\<close> and the argument \<open>util_sleep\<close> gives to \<open>usleep\<close>.\<close>

definition get_tick_count :: "int \<Rightarrow> nat \<Rightarrow> 64 word res" where
  "get_tick_count tv_sec tv_usec =
     (let t = tv_sec * 1000 + int (tv_usec div 1000) in
      if tv_sec * 1000 < - (2 ^ 63) \<or> tv_sec * 1000 \<ge> 2 ^ 63 \<or> t \<ge> 2 ^ 63 then Inl Undefined_Behaviour else Inr (word_of_int t))"

definition util_sleep :: "32 word \<Rightarrow> 32 word" where
  "util_sleep millisecond = millisecond * 1000"

section \<open>The log\<close>

datatype LogLevel = INFO | ERROR | FATAL | DEBUG

definition level_int :: "LogLevel \<Rightarrow> int" where
  "level_int l = (case l of INFO \<Rightarrow> 0 | ERROR \<Rightarrow> 1 | FATAL \<Rightarrow> 2 | DEBUG \<Rightarrow> 3)"

text \<open>The one logger of \<open>instance()\<close>, a static object, hence with level 0 at first; \<open>lg_out\<close> is what has been
  inserted into \<open>std::cout\<close>.\<close>

record logger =
  logLevel :: int
  lg_out :: string

definition logger0 :: logger where
  "logger0 = \<lparr>logLevel = 0, lg_out = []\<rparr>"

definition setLogLevel :: "int \<Rightarrow> logger \<Rightarrow> logger" where
  "setLogLevel level lg = lg\<lparr>logLevel := level\<rparr>"

definition level_label :: "int \<Rightarrow> string" where
  "level_label n =
     (if n = 0 then ''[INFO]'' else if n = 1 then ''[ERROR]'' else if n = 2 then ''[FATAL]''
      else if n = 3 then ''[DEBUG]'' else [])"

definition insert_out :: "string \<Rightarrow> logger \<Rightarrow> logger" where
  "insert_out s lg = lg\<lparr>lg_out := lg_out lg @ s\<rparr>"

text \<open>\<open>log\<close>: the label of the level, then the insertions of the second line.\<close>

definition log_rest :: "string \<Rightarrow> string \<Rightarrow> string list" where
  "log_rest stamp msg = [stamp, '' : '', msg, [CHR 0x0A]]"

definition log_msg :: "(int \<Rightarrow> tm option) \<Rightarrow> int \<Rightarrow> string \<Rightarrow> logger \<Rightarrow> logger res" where
  "log_msg localtime t msg lg =
     (let lg1 = insert_out (level_label (logLevel lg)) lg in
      res_bind (toString localtime (now t)) (\<lambda>stamp. Inr (fold insert_out (log_rest stamp msg) lg1)))"

text \<open>The macros: \<open>buf\<close> has 1024 bytes; \<open>LOG_FATAL\<close> exits afterwards (the answer \<open>True\<close>); \<open>LOG_DEBUG\<close> is empty
  without \<open>MUDEBUG\<close>.\<close>

definition LOG :: "bool \<Rightarrow> (int \<Rightarrow> tm option) \<Rightarrow> int \<Rightarrow> LogLevel \<Rightarrow> string \<Rightarrow> logger \<Rightarrow> (bool \<times> logger) res" where
  "LOG MUDEBUG localtime t l msg lg =
     (if l = DEBUG \<and> \<not> MUDEBUG then Inr (False, lg)
      else
        let lg1 = setLogLevel (level_int l) lg;
            buf = snprintf 1024 msg in
        res_bind (log_msg localtime t (c_str buf) lg1) (\<lambda>lg2. Inr (l = FATAL, lg2)))"

text \<open>The programs \<open>test/log/test_log.cpp\<close> and \<open>test/test_redis/main.cpp\<close>, which ends the same way whether it
  connected or not; \<open>redisConnect\<close> is a function of hiredis (\<open>None\<close> is the null pointer). Answered are the exit
  status and what is printed on the two streams.\<close>

definition test_log_main :: "(int \<Rightarrow> tm option) \<Rightarrow> int \<Rightarrow> logger \<Rightarrow> (int \<times> logger) res" where
  "test_log_main localtime t lg =
     res_bind (LOG False localtime t INFO ''test_log'' lg) (\<lambda>(ex, lg'). Inr (if ex then -1 else 0, lg'))"

definition test_redis_main :: "(string \<Rightarrow> int \<Rightarrow> 'c option) \<Rightarrow> int \<times> string list \<times> string list" where
  "test_redis_main redisConnect =
     (let context = redisConnect ''192.168.56.101'' 6379;
          cerr = (if context = None then [''connect redis failed''] else []) in
      (0, [''Test_Redis'', ''Connect success'', ''Test_Redis endl''], cerr))"

text \<open>A thread inside a macro: about to set the level, about to print the label, or with insertions left.\<close>

datatype log_pc = L_set LogLevel string | L_label string | L_insert "string list"

inductive log_step :: "string \<Rightarrow> (nat \<Rightarrow> log_pc) \<times> logger \<Rightarrow> (nat \<Rightarrow> log_pc) \<times> logger \<Rightarrow> bool" for stamp where
  set_level: "pc i = L_set l msg \<Longrightarrow> log_step stamp (pc, lg) (pc(i := L_label msg), setLogLevel (level_int l) lg)"
| label: "pc i = L_label msg \<Longrightarrow>
    log_step stamp (pc, lg) (pc(i := L_insert (log_rest stamp msg)), insert_out (level_label (logLevel lg)) lg)"
| insertion: "pc i = L_insert (x # xs) \<Longrightarrow> log_step stamp (pc, lg) (pc(i := L_insert xs), insert_out x lg)"

abbreviation log_reach :: "string \<Rightarrow> (nat \<Rightarrow> log_pc) \<times> logger \<Rightarrow> (nat \<Rightarrow> log_pc) \<times> logger \<Rightarrow> bool" where
  "log_reach stamp \<equiv> (log_step stamp)\<^sup>*\<^sup>*"

section \<open>Facts\<close>

lemma insert_out_fold: "fold insert_out xs lg = lg\<lparr>lg_out := lg_out lg @ concat xs\<rparr>"
  by (induction xs arbitrary: lg) (simp_all add: insert_out_def)

lemma level_label_cases: "level_label (level_int l) = (case l of INFO \<Rightarrow> ''[INFO]'' | ERROR \<Rightarrow> ''[ERROR]'' | FATAL \<Rightarrow> ''[FATAL]'' | DEBUG \<Rightarrow> ''[DEBUG]'')"
  by (cases l) (simp_all add: level_label_def level_int_def)

text \<open>What \<open>localtime\<close> answers for a date with a year of four digits.\<close>

definition tm_ok :: "tm \<Rightarrow> bool" where
  "tm_ok x \<longleftrightarrow> 0 \<le> tm_sec x \<and> tm_sec x \<le> 60 \<and> 0 \<le> tm_min x \<and> tm_min x \<le> 59 \<and> 0 \<le> tm_hour x \<and> tm_hour x \<le> 23 \<and>
     1 \<le> tm_mday x \<and> tm_mday x \<le> 31 \<and> 0 \<le> tm_mon x \<and> tm_mon x \<le> 11 \<and> -1900 \<le> tm_year x \<and> tm_year x < 8100"

lemma fmt_02d_two: "0 \<le> i \<Longrightarrow> i < 100 \<Longrightarrow> length (fmt_02d i) = 2"
  using length_show_nat_le [of "nat i" 2] by (simp add: fmt_02d_def Let_def)

lemma fmt_4d_four: "0 \<le> i \<Longrightarrow> i < 10000 \<Longrightarrow> length (fmt_4d i) = 4"
  using length_show_nat_le [of "nat i" 4] by (simp add: fmt_4d_def Let_def show_int_nonneg)

lemma toString_fits:
  assumes "localtime (microSecondsSinceEpoch t) = Some x" and "tm_ok x"
  shows "\<exists>s. toString localtime t = Inr s \<and> length s = 19"
proof -
  have "length (fmt_4d (tm_year x + 1900)) = 4" "length (fmt_02d (tm_mon x + 1)) = 2" "length (fmt_02d (tm_mday x)) = 2"
    "length (fmt_02d (tm_hour x)) = 2" "length (fmt_02d (tm_min x)) = 2" "length (fmt_02d (tm_sec x)) = 2"
    using assms(2) by (auto simp: tm_ok_def intro: fmt_02d_two fmt_4d_four)
  then show ?thesis using assms by (simp add: toString_def tm_ok_def snprintf_def)
qed

text \<open>A macro that runs without interference appends one line with its own level.\<close>

lemma LOG_prints_line:
  assumes "localtime t = Some x" and "tm_ok x" and "l \<noteq> DEBUG \<or> MUDEBUG" and "CHR 0x00 \<notin> set msg"
  shows "\<exists>stamp lg'. length stamp = 19 \<and> LOG MUDEBUG localtime t l msg lg = Inr (l = FATAL, lg') \<and>
    lg_out lg' = lg_out lg @ level_label (level_int l) @ stamp @ '' : '' @ take 1023 msg @ [CHR 0x0A]"
proof -
  obtain s where s: "toString localtime (now t) = Inr s" "length s = 19"
    using toString_fits [of localtime "now t" x] assms(1,2) by (auto simp: now_def Timestamp_def)
  have "c_str (snprintf 1024 msg) = take 1023 msg"
    using assms(4) by (auto simp: c_str_def snprintf_def takeWhile_eq_all_conv dest: in_set_takeD)
  then show ?thesis using assms(3) s
    by (auto simp: LOG_def Let_def log_msg_def setLogLevel_def insert_out_fold log_rest_def insert_out_def intro!: exI [of _ s])
qed

lemma test_log_prints:
  assumes "localtime t = Some x" and "tm_ok x"
  shows "\<exists>stamp lg'. length stamp = 19 \<and> test_log_main localtime t logger0 = Inr (0, lg') \<and>
    lg_out lg' = ''[INFO]'' @ stamp @ '' : test_log'' @ [CHR 0x0A]"
proof -
  obtain stamp lg' where "length stamp = 19" "LOG False localtime t INFO ''test_log'' logger0 = Inr (INFO = FATAL, lg')"
    "lg_out lg' = lg_out logger0 @ level_label (level_int INFO) @ stamp @ '' : '' @ take 1023 ''test_log'' @ [CHR 0x0A]"
    using LOG_prints_line [of localtime t x INFO False "''test_log''" logger0] assms by auto
  then show ?thesis by (simp add: test_log_main_def level_label_cases logger0_def)
qed

lemma test_redis_claims_success:
  assumes "redisConnect ''192.168.56.101'' 6379 = None"
  shows "''Connect success'' \<in> set (fst (snd (test_redis_main redisConnect)))"
  by (simp add: test_redis_main_def Let_def)

text \<open>With two threads the label can be that of the other message: an error reported as information.\<close>

lemma log_level_race:
  "\<exists>pc lg. log_reach stamp ((\<lambda>i. if i = 0 then L_set ERROR m else L_set INFO n), logger0) (pc, lg) \<and>
     lg_out lg = ''[INFO]'' @ stamp @ '' : '' @ m @ [CHR 0x0A] \<and> pc 0 = L_insert []"
proof -
  let ?p0 = "\<lambda>i :: nat. if i = 0 then L_set ERROR m else L_set INFO n"
  let ?p1 = "?p0(0 := L_label m)" and ?l1 = "setLogLevel 1 logger0"
  let ?p2 = "?p1(1 := L_label n)" and ?l2 = "setLogLevel 0 ?l1"
  have 1: "log_step stamp (?p0, logger0) (?p1, ?l1)"
    using log_step.set_level [of ?p0 0 ERROR m stamp logger0] by (simp add: level_int_def)
  have 2: "log_step stamp (?p1, ?l1) (?p2, ?l2)"
    using log_step.set_level [of ?p1 1 INFO n stamp ?l1] by (simp add: level_int_def)
  have 3: "log_step stamp (?p2, ?l2) (?p2(0 := L_insert (log_rest stamp m)), insert_out (level_label (logLevel ?l2)) ?l2)"
    by (rule log_step.label) simp
  have ins: "log_reach stamp (p(i := L_insert xs), lg) (p(i := L_insert []), fold insert_out xs lg)" for p i xs lg
  proof (induction xs arbitrary: lg)
    case (Cons x xs)
    have "log_step stamp (p(i := L_insert (x # xs)), lg) (p(i := L_insert xs), insert_out x lg)"
      using log_step.insertion [of "p(i := L_insert (x # xs))" i x xs stamp lg] by simp
    then show ?case using Cons by (metis (no_types, lifting) converse_rtranclp_into_rtranclp fold_simps(2))
  qed simp
  have "log_reach stamp (?p0, logger0)
      (?p2(0 := L_insert []), fold insert_out (log_rest stamp m) (insert_out (level_label (logLevel ?l2)) ?l2))"
    by (rule converse_rtranclp_into_rtranclp [OF 1 converse_rtranclp_into_rtranclp [OF 2 converse_rtranclp_into_rtranclp [OF 3 ins]]])
  moreover have "lg_out (fold insert_out (log_rest stamp m) (insert_out (level_label (logLevel ?l2)) ?l2)) =
      ''[INFO]'' @ stamp @ '' : '' @ m @ [CHR 0x0A]"
    by (simp add: insert_out_fold log_rest_def insert_out_def setLogLevel_def level_label_def logger0_def)
  moreover have "(?p2(0 := L_insert [])) 0 = L_insert []" by simp
  ultimately show ?thesis by blast
qed

text \<open>\<open>util_sleep\<close> sleeps for the given time up to 4294967 milliseconds and wraps around above.\<close>

lemma util_sleep_exact:
  assumes "unat ms \<le> 4294967"
  shows "unat (util_sleep ms) = unat ms * 1000"
  using assms by (simp add: util_sleep_def unat_word_ariths)

lemma util_sleep_wraps: "util_sleep 4294968 = 704"
  by (simp add: util_sleep_def)

lemma get_tick_count_exact:
  assumes "0 \<le> sec" and "sec < 2 ^ 53" and "usec < 1000000"
  shows "\<exists>t. get_tick_count sec usec = Inr t \<and> uint t = sec * 1000 + int (usec div 1000)"
proof -
  have "sec * 1000 + int (usec div 1000) < 2 ^ 63" "0 \<le> sec * 1000 + int (usec div 1000)" using assms by auto
  moreover from this have "uint (word_of_int (sec * 1000 + int (usec div 1000)) :: 64 word) = sec * 1000 + int (usec div 1000)"
    by (intro word_of_int_inverse [OF refl]) simp_all
  ultimately show ?thesis using assms(1) by (simp add: get_tick_count_def Let_def del: of_int_add of_int_mult of_int_of_nat_eq)
qed

end
