(* ===== verification/Base_Config.thy ===== *)
theory Base_Config
  imports Talk_Prelude "HOL-Library.Char_ord" "HOL-Library.List_Lexorder"
begin

text \<open>
  \<open>common/base/CConfigFileReader.h\<close> and \<open>CConfigFileReader.cc\<close>: the key-value configuration file.
  The map of the reader is an association list in the key order of \<open>std::map\<close>, because the file is
  written in that order. A C string is a text without NUL; reading a line stops at the first NUL as
  \<open>strlen\<close> does. \<open>m_load_ok\<close> is \<open>None\<close> until \<open>_LoadFile\<close> assigns it: the constructor does not, and
  reading it then is undefined behaviour. The file system is the text of the file (\<open>None\<close> when it
  cannot be opened) and, for writing, whether it can be opened and which writes succeed.
\<close>

section \<open>The model\<close>

record config =
  m_load_ok :: "bool option"
  m_config_map :: "(string \<times> string) list"
  m_config_file :: string

text \<open>\<open>std::map::insert\<close> keeps an element that is already there; an assignment through the iterator
  replaces its value.\<close>

fun map_insert :: "string \<Rightarrow> string \<Rightarrow> (string \<times> string) list \<Rightarrow> (string \<times> string) list" where
  "map_insert k v [] = [(k, v)]"
| "map_insert k v ((k', v') # m) =
     (if k = k' then (k', v') # m
      else if k < k' then (k, v) # (k', v') # m
      else (k', v') # map_insert k v m)"

definition map_assign :: "string \<Rightarrow> string \<Rightarrow> (string \<times> string) list \<Rightarrow> (string \<times> string) list" where
  "map_assign k v m = map (\<lambda>(k', v'). if k' = k then (k', v) else (k', v')) m"

definition blank :: "char \<Rightarrow> bool" where
  "blank c \<longleftrightarrow> c = CHR '' '' \<or> c = CHR 0x09"

text \<open>\<open>_TrimSpace\<close>: \<open>i\<close> is \<open>start_pos\<close>, \<open>j\<close> the position after \<open>end_pos\<close>.\<close>

definition TrimSpace :: "string \<Rightarrow> string option" where
  "TrimSpace name =
     (let i = length (takeWhile blank name) in
      if drop i name = [] then None
      else
        let j = length name - length (takeWhile blank (rev name)) in
        if j \<le> i then None else Some (take (j - i) (drop i name)))"

definition ParseLine :: "string \<Rightarrow> (string \<times> string) list \<Rightarrow> (string \<times> string) list" where
  "ParseLine line m =
     (case dropWhile (\<lambda>c. c \<noteq> CHR ''='') line of
        [] \<Rightarrow> m
      | _ # rest \<Rightarrow>
          (case (TrimSpace (takeWhile (\<lambda>c. c \<noteq> CHR ''='') line), TrimSpace rest) of
             (Some key, Some value) \<Rightarrow> map_insert key value m
           | _ \<Rightarrow> m))"

definition newline :: char where
  "newline = CHR 0x0A"

text \<open>\<open>fgets(buf, n + 1)\<close> on the rest of the file: at most \<open>n\<close> characters, up to and including the
  first newline.\<close>

fun fgets_n :: "nat \<Rightarrow> string \<Rightarrow> string \<times> string" where
  "fgets_n n [] = ([], [])"
| "fgets_n 0 (c # cs) = ([], c # cs)"
| "fgets_n (Suc n) (c # cs) =
     (if c = newline then ([c], cs) else (case fgets_n n cs of (l, r) \<Rightarrow> (c # l, r)))"

lemma fgets_n_append: "fgets_n n cs = (l, r) \<Longrightarrow> cs = l @ r"
  by (induction n cs arbitrary: l r rule: fgets_n.induct) (auto split: if_splits prod.splits)

lemma fgets_n_progress: "fgets_n (Suc n) (c # cs) = (l, r) \<Longrightarrow> length r < Suc (length cs)"
  by (auto split: if_splits prod.splits dest: fgets_n_append)

lemma fgets_255_progress:
  assumes "(l, r) = fgets_n 255 (c # cs)"
  shows "length r < Suc (length cs)"
proof -
  have "fgets_n (Suc 254) (c # cs) = (l, r)" using assms by simp
  then show ?thesis by (rule fgets_n_progress)
qed

text \<open>What the loop of \<open>_LoadFile\<close> does with one buffer: cut at NUL, drop the newline, drop the
  comment. A line that starts with NUL makes \<open>buf[len-1]\<close> an access before the array.\<close>

definition clean_line :: "string \<Rightarrow> string res" where
  "clean_line buf =
     (let s = takeWhile (\<lambda>c. c \<noteq> CHR 0x00) buf in
      if s = [] then Inl Undefined_Behaviour
      else
        let s1 = (if last s = newline then butlast s else s)
        in Inr (takeWhile (\<lambda>c. c \<noteq> CHR ''#'') s1))"

function load_lines :: "string \<Rightarrow> (string \<times> string) list \<Rightarrow> (string \<times> string) list res" where
  "load_lines [] m = Inr m"
| "load_lines (c # cs) m =
     (case fgets_n 255 (c # cs) of (buf, rest) \<Rightarrow>
        res_bind (clean_line buf) (\<lambda>line.
          load_lines rest (if line = [] then m else ParseLine line m)))"
  by pat_completeness auto
termination
  by (relation "measure (\<lambda>(cs, m). length cs)") (auto dest: fgets_255_progress)

definition LoadFile :: "string option \<Rightarrow> string \<Rightarrow> config \<Rightarrow> config res" where
  "LoadFile content filename cfg =
     (let cfg1 = cfg\<lparr>m_config_file := filename\<rparr> in
      case content of
        None \<Rightarrow> Inr cfg1
      | Some body \<Rightarrow>
          res_bind (load_lines body (m_config_map cfg1)) (\<lambda>m.
            Inr (cfg1\<lparr>m_config_map := m, m_load_ok := Some True\<rparr>)))"

definition CConfigFileReader :: "string option \<Rightarrow> string \<Rightarrow> config res" where
  "CConfigFileReader content filename =
     LoadFile content filename \<lparr>m_load_ok = None, m_config_map = [], m_config_file = []\<rparr>"

text \<open>\<open>GetConfigName\<close> returns a null pointer (\<open>None\<close>) for an unknown name.\<close>

definition GetConfigName :: "config \<Rightarrow> string \<Rightarrow> string option res" where
  "GetConfigName cfg name =
     (case m_load_ok cfg of
        None \<Rightarrow> Inl Undefined_Behaviour
      | Some ok \<Rightarrow> if \<not> ok then Inr None else Inr (map_of (m_config_map cfg) name))"

text \<open>One pair as \<open>snprintf\<close> leaves it in \<open>szPaire\<close>, which holds 127 characters.\<close>

definition szPaire :: "string \<times> string \<Rightarrow> string" where
  "szPaire kv = take 127 (fst kv @ CHR ''='' # snd kv @ [newline])"

text \<open>\<open>_WriteFIle\<close>: the return value and the text of the file afterwards. \<open>can_open\<close> says whether
  \<open>fopen\<close> succeeds, \<open>fwrite_ok i\<close> whether the \<open>i\<close>-th write does.\<close>

fun write_pairs :: "(nat \<Rightarrow> bool) \<Rightarrow> nat \<Rightarrow> (string \<times> string) list \<Rightarrow> string \<Rightarrow> int \<times> string" where
  "write_pairs fwrite_ok i [] out = (0, out)"
| "write_pairs fwrite_ok i (kv # m) out =
     (if \<not> fwrite_ok i then (-1, out)
      else write_pairs fwrite_ok (Suc i) m (out @ szPaire kv))"

definition WriteFIle :: "bool \<Rightarrow> (nat \<Rightarrow> bool) \<Rightarrow> config \<Rightarrow> string \<Rightarrow> int \<times> string" where
  "WriteFIle can_open fwrite_ok cfg old =
     (if \<not> can_open then (-1, old) else write_pairs fwrite_ok 0 (m_config_map cfg) [])"

definition SetConfigValue ::
    "bool \<Rightarrow> (nat \<Rightarrow> bool) \<Rightarrow> config \<Rightarrow> string \<Rightarrow> string \<Rightarrow> string \<Rightarrow> (int \<times> config \<times> string) res" where
  "SetConfigValue can_open fwrite_ok cfg name value old =
     (case m_load_ok cfg of
        None \<Rightarrow> Inl Undefined_Behaviour
      | Some ok \<Rightarrow>
          if \<not> ok then Inr (-1, cfg, old)
          else
            let m = m_config_map cfg;
                m' = (if map_of m name \<noteq> None then map_assign name value m else map_insert name value m);
                cfg' = cfg\<lparr>m_config_map := m'\<rparr>
            in case WriteFIle can_open fwrite_ok cfg' old of (r, out) \<Rightarrow> Inr (r, cfg', out))"

section \<open>The map\<close>

text \<open>The keys are strictly increasing.\<close>

definition map_wf :: "(string \<times> string) list \<Rightarrow> bool" where
  "map_wf m \<longleftrightarrow> sorted_wrt (<) (map fst m)"

lemma map_insert_keys: "set (map fst (map_insert k v m)) = insert k (set (map fst m))"
  by (induction k v m rule: map_insert.induct) auto

lemma map_insert_wf: "map_wf m \<Longrightarrow> map_wf (map_insert k v m)"
proof (induction m)
  case Nil
  then show ?case by (simp add: map_wf_def)
next
  case (Cons a m)
  obtain k' v' where a: "a = (k', v')" by fastforce
  have m: "map_wf m" and lt: "\<forall>x \<in> set (map fst m). k' < x"
    using Cons.prems by (auto simp: map_wf_def a)
  consider "k = k'" | "k < k'" | "k' < k" by fastforce
  then show ?case
  proof cases
    case 1
    with Cons.prems a show ?thesis by simp
  next
    case 2
    with Cons.prems a lt show ?thesis by (auto simp: map_wf_def intro: order.strict_trans)
  next
    case 3
    then have "\<forall>x \<in> set (map fst (map_insert k v m)). k' < x"
      using lt unfolding map_insert_keys by auto
    with 3 Cons.IH [OF m] a show ?thesis by (auto simp: map_wf_def)
  qed
qed

lemma map_of_insert [cfg_simps]:
  assumes "map_wf m"
  shows "map_of (map_insert k v m) k' =
    (if k' = k then Some (case map_of m k of Some w \<Rightarrow> w | None \<Rightarrow> v) else map_of m k')"
  using assms
proof (induction m)
  case Nil
  then show ?case by simp
next
  case (Cons a m)
  obtain ka va where a: "a = (ka, va)" by fastforce
  have m: "map_wf m" and lt: "\<forall>x \<in> set (map fst m). ka < x"
    using Cons.prems by (auto simp: map_wf_def a)
  have "k \<notin> fst ` set m" if "k < ka" using lt that by auto
  then have "map_of m k = None" if "k < ka" using that by (simp add: map_of_eq_None_iff)
  then show ?case using Cons.IH [OF m] by (auto simp: a)
qed

lemma map_assign_keys [simp]: "map fst (map_assign k v m) = map fst m"
  by (simp add: map_assign_def case_prod_unfold comp_def if_distrib)

lemma map_assign_wf: "map_wf m \<Longrightarrow> map_wf (map_assign k v m)"
  by (simp add: map_wf_def)

lemma map_of_assign [cfg_simps]:
  "map_of (map_assign k v m) k' = (if k' = k \<and> map_of m k \<noteq> None then Some v else map_of m k')"
  by (induction m) (auto simp: map_assign_def)

section \<open>Lines\<close>

lemma TrimSpace_id:
  assumes "s \<noteq> []" and "\<not> blank (hd s)" and "\<not> blank (last s)"
  shows "TrimSpace s = Some s"
proof -
  have 1: "takeWhile blank s = []" using assms by (cases s) auto
  have 2: "takeWhile blank (rev s) = []" using assms by (cases s rule: rev_cases) auto
  have "length s - length (takeWhile blank (rev s)) = length s" by (simp only: 2) simp
  with 1 assms(1) show ?thesis by (simp add: TrimSpace_def Let_def del: takeWhile_eq_Nil_iff)
qed

text \<open>Trimming removes exactly the blanks at both ends.\<close>

lemma TrimSpace_pad:
  assumes "s \<noteq> []" and "\<not> blank (hd s)" and "\<not> blank (last s)" and "\<forall>c \<in> set a. blank c" and "\<forall>c \<in> set b. blank c"
  shows "TrimSpace (a @ s @ b) = Some s"
proof -
  have "takeWhile blank (s @ b) = []" using assms(1,2) by (cases s) auto
  then have 1: "takeWhile blank (a @ s @ b) = a" using assms(4) by (simp add: takeWhile_append)
  have "takeWhile blank (rev s @ rev a) = []" using assms(1,3) by (cases s rule: rev_cases) auto
  then have 2: "takeWhile blank (rev (a @ s @ b)) = rev b" using assms(5) by (simp add: takeWhile_append)
  show ?thesis using 2 assms(1) by (simp add: TrimSpace_def 1 Let_def)
qed

text \<open>The pair a line defines, if any.\<close>

definition line_entry :: "string \<Rightarrow> (string \<times> string) option" where
  "line_entry line =
     (case dropWhile (\<lambda>c. c \<noteq> CHR ''='') line of
        [] \<Rightarrow> None
      | _ # rest \<Rightarrow>
          (case (TrimSpace (takeWhile (\<lambda>c. c \<noteq> CHR ''='') line), TrimSpace rest) of
             (Some key, Some value) \<Rightarrow> Some (key, value)
           | _ \<Rightarrow> None))"

lemma ParseLine_entry: "ParseLine line m = (case line_entry line of None \<Rightarrow> m | Some (k, v) \<Rightarrow> map_insert k v m)"
  unfolding ParseLine_def line_entry_def
  by (cases "dropWhile (\<lambda>c. c \<noteq> CHR ''='') line") (auto split: option.splits simp del: dropWhile_eq_Nil_conv)

text \<open>The buffers \<open>fgets\<close> cuts a file into.\<close>

function fgets_bufs :: "string \<Rightarrow> string list" where
  "fgets_bufs [] = []"
| "fgets_bufs (c # cs) = (case fgets_n 255 (c # cs) of (buf, rest) \<Rightarrow> buf # fgets_bufs rest)"
  by pat_completeness auto
termination
  by (relation "measure length") (auto dest: fgets_255_progress)

text \<open>The pairs of a file, in the order of its lines.\<close>

fun file_entries :: "string list \<Rightarrow> (string \<times> string) list res" where
  "file_entries [] = Inr []"
| "file_entries (b # bs) =
     res_bind (clean_line b) (\<lambda>line. res_bind (file_entries bs) (\<lambda>es.
       Inr (case line_entry line of None \<Rightarrow> es | Some e \<Rightarrow> e # es)))"

lemma line_entry_Nil [simp]: "line_entry [] = None"
  by (simp add: line_entry_def)

lemma load_lines_entries:
  "load_lines body m =
   res_bind (file_entries (fgets_bufs body)) (\<lambda>es. Inr (fold (\<lambda>(k, v). map_insert k v) es m))"
proof (induction body m rule: load_lines.induct)
  case (1 m)
  then show ?case by simp
next
  case (2 c cs m)
  obtain buf rest where f: "fgets_n 255 (c # cs) = (buf, rest)" by fastforce
  show ?case
  proof (cases "clean_line buf")
    case (Inl e)
    then show ?thesis by (simp add: f del: fgets_n.simps)
  next
    case (Inr line)
    have step: "(if line = [] then m else ParseLine line m) =
        (case line_entry line of None \<Rightarrow> m | Some (k, v) \<Rightarrow> map_insert k v m)"
      by (simp add: ParseLine_entry)
    show ?thesis
      using "2.IH" [OF f [symmetric], of line] f Inr unfolding step
      by (auto simp: res_bind_assoc ParseLine_entry simp del: fgets_n.simps split: option.splits
          intro: res_bind_cong)
  qed
qed

lemma fold_map_insert:
  assumes "map_wf m"
  shows "map_wf (fold (\<lambda>(k, v). map_insert k v) es m)"
    "map_of (fold (\<lambda>(k, v). map_insert k v) es m) k =
      (case map_of m k of Some w \<Rightarrow> Some w | None \<Rightarrow> map_of es k)"
  using assms
proof (induction es arbitrary: m)
  case Nil
  { case 1 then show ?case by simp }
  { case 2 then show ?case by (simp split: option.splits) }
next
  case (Cons e es)
  obtain ke ve where e: "e = (ke, ve)" by fastforce
  { case 1 then show ?case using Cons.IH(1) map_insert_wf by (simp add: e) }
  { case 2
    then show ?case
      using Cons.IH(2) [OF map_insert_wf [OF 2, of ke ve]] map_of_insert [OF 2]
      by (auto simp: e split: option.splits) }
qed

section \<open>Writing and reading back\<close>

text \<open>What a pair must satisfy to survive the file format: no special characters, no blanks at the
  ends, not empty, and no longer than \<open>szPaire\<close>.\<close>

definition plain :: "string \<Rightarrow> bool" where
  "plain s \<longleftrightarrow> s \<noteq> [] \<and> \<not> blank (hd s) \<and> \<not> blank (last s) \<and>
     CHR 0x00 \<notin> set s \<and> newline \<notin> set s \<and> CHR ''#'' \<notin> set s"

definition pair_ok :: "string \<times> string \<Rightarrow> bool" where
  "pair_ok kv \<longleftrightarrow> plain (fst kv) \<and> plain (snd kv) \<and> CHR ''='' \<notin> set (fst kv) \<and>
     length (fst kv) + length (snd kv) + 2 \<le> 127"

definition pair_line :: "string \<times> string \<Rightarrow> string" where
  "pair_line kv = fst kv @ CHR ''='' # snd kv"

lemma szPaire_ok: "pair_ok kv \<Longrightarrow> szPaire kv = pair_line kv @ [newline]"
  by (auto simp: pair_ok_def szPaire_def pair_line_def)

lemma fgets_n_line:
  assumes "newline \<notin> set l" and "length l < n"
  shows "fgets_n n (l @ newline # r) = (l @ [newline], r)"
  using assms
proof (induction l arbitrary: n)
  case Nil
  then show ?case by (cases n) auto
next
  case (Cons c l)
  then show ?case by (cases n) auto
qed

lemma pair_line_chars:
  assumes "pair_ok kv"
  shows "newline \<notin> set (pair_line kv)" "CHR 0x00 \<notin> set (pair_line kv)" "CHR ''#'' \<notin> set (pair_line kv)"
    "pair_line kv \<noteq> []" "length (pair_line kv) < 255"
  using assms by (auto simp: pair_ok_def plain_def pair_line_def newline_def)

lemma clean_line_pair:
  assumes "pair_ok kv"
  shows "clean_line (pair_line kv @ [newline]) = Inr (pair_line kv)"
proof -
  note c = pair_line_chars [OF assms]
  have "CHR 0x00 \<notin> set (pair_line kv @ [newline])" using c(2) by (simp add: newline_def)
  then have 1: "takeWhile (\<lambda>c. c \<noteq> CHR 0x00) (pair_line kv @ [newline]) = pair_line kv @ [newline]"
    by (rule takeWhile_no_sep)
  have 2: "takeWhile (\<lambda>c. c \<noteq> CHR ''#'') (pair_line kv) = pair_line kv" using c(3) by (rule takeWhile_no_sep)
  show ?thesis by (simp only: clean_line_def Let_def 1) (simp add: 2)
qed

lemma line_entry_pair:
  assumes "pair_ok kv"
  shows "line_entry (pair_line kv) = Some kv"
proof -
  have "CHR ''='' \<notin> set (fst kv)" using assms by (simp add: pair_ok_def)
  then have "dropWhile (\<lambda>c. c \<noteq> CHR ''='') (pair_line kv) = CHR ''='' # snd kv"
    "takeWhile (\<lambda>c. c \<noteq> CHR ''='') (pair_line kv) = fst kv"
    by (simp_all only: pair_line_def dropWhile_sep takeWhile_sep not_False_eq_True)
  then show ?thesis
    using assms TrimSpace_id by (simp add: line_entry_def pair_ok_def plain_def)
qed

text \<open>A file of such pairs is read line by line.\<close>

lemma file_entries_written:
  assumes "\<forall>kv \<in> set m. pair_ok kv"
  shows "file_entries (fgets_bufs (concat (map (\<lambda>kv. pair_line kv @ [newline]) m))) = Inr m"
  using assms
proof (induction m)
  case Nil
  then show ?case by simp
next
  case (Cons kv m)
  let ?rest = "concat (map (\<lambda>kv. pair_line kv @ [newline]) m)"
  have ok: "pair_ok kv" using Cons.prems by simp
  note c = pair_line_chars [OF ok]
  have f: "fgets_n 255 (pair_line kv @ newline # ?rest) = (pair_line kv @ [newline], ?rest)"
    by (rule fgets_n_line [OF c(1,5)])
  obtain x xs where "pair_line kv = x # xs" using c(4) by (cases "pair_line kv") auto
  then have "fgets_bufs (pair_line kv @ newline # ?rest) = (pair_line kv @ [newline]) # fgets_bufs ?rest"
    using f by (simp del: fgets_n.simps)
  then show ?case
    using Cons clean_line_pair [OF ok] line_entry_pair [OF ok] by simp
qed

lemma write_pairs_all:
  "\<forall>i. fwrite_ok i \<Longrightarrow> write_pairs fwrite_ok n m out = (0, out @ concat (map szPaire m))"
  by (induction m arbitrary: n out) auto

lemma write_pairs_zero:
  "fst (write_pairs fwrite_ok n m out) = 0 \<longleftrightarrow> (\<forall>i < length m. fwrite_ok (n + i))"
proof (induction m arbitrary: n out)
  case Nil
  then show ?case by simp
next
  case (Cons kv m)
  have "(\<forall>i < length (kv # m). fwrite_ok (n + i)) \<longleftrightarrow> fwrite_ok n \<and> (\<forall>i < length m. fwrite_ok (Suc n + i))"
    by (auto simp: less_Suc_eq_0_disj)
  with Cons show ?case by simp
qed

lemma map_insert_last:
  assumes "\<forall>x \<in> set (map fst m). x < k"
  shows "map_insert k v m = m @ [(k, v)]"
  using assms by (induction m) (auto simp: order.asym)

text \<open>Inserting pairs in the order of their keys rebuilds the map.\<close>

lemma fold_insert_sorted:
  assumes "map_wf (acc @ m)"
  shows "fold (\<lambda>(k, v). map_insert k v) m acc = acc @ m"
  using assms
proof (induction m arbitrary: acc)
  case Nil
  then show ?case by simp
next
  case (Cons kv m)
  obtain k v where kv: "kv = (k, v)" by fastforce
  have "\<forall>x \<in> set (map fst acc). x < k"
    using Cons.prems by (auto simp: map_wf_def kv sorted_wrt_append)
  then have "map_insert k v acc = acc @ [kv]" by (simp add: map_insert_last kv)
  with Cons.IH [of "acc @ [kv]"] Cons.prems show ?case by (simp add: kv)
qed

lemma fgets_bufs_nonempty:
  "CHR 0x00 \<notin> set body \<Longrightarrow> b \<in> set (fgets_bufs body) \<Longrightarrow> b \<noteq> [] \<and> CHR 0x00 \<notin> set b"
proof (induction body rule: fgets_bufs.induct)
  case 1
  then show ?case by simp
next
  case (2 c cs)
  obtain buf rest where f: "fgets_n 255 (c # cs) = (buf, rest)" by fastforce
  have app: "c # cs = buf @ rest" by (rule fgets_n_append [OF f])
  have "length rest < Suc (length cs)" by (rule fgets_255_progress [OF f [symmetric]])
  with app have ne: "buf \<noteq> []" by auto
  have nul: "CHR 0x00 \<notin> set buf" "CHR 0x00 \<notin> set rest"
    using "2.prems"(1) unfolding app by auto
  have "b = buf \<or> b \<in> set (fgets_bufs rest)" using "2.prems"(2) f by (simp del: fgets_n.simps)
  then show ?case using ne nul "2.IH" [OF f [symmetric]] by auto
qed

lemma file_entries_total:
  assumes "CHR 0x00 \<notin> set body"
  shows "\<exists>es. file_entries (fgets_bufs body) = Inr es"
proof -
  have "\<exists>es. file_entries bs = Inr es" if "\<forall>b \<in> set bs. b \<noteq> [] \<and> CHR 0x00 \<notin> set b" for bs
    using that
  proof (induction bs)
    case Nil
    then show ?case by simp
  next
    case (Cons b bs)
    have "CHR 0x00 \<notin> set b" "b \<noteq> []" using Cons.prems by auto
    then have "\<exists>l. clean_line b = Inr l" by (auto simp: clean_line_def Let_def)
    with Cons show ?case by auto
  qed
  then show ?thesis using fgets_bufs_nonempty [OF assms] by blast
qed

section \<open>Properties\<close>

text \<open>C23: The written file loads back: when every write succeeds and every pair fits the file format
  (plain key and value, no longer than the 127 characters of \<open>szPaire\<close>), \<open>_WriteFIle\<close> returns 0 and a
  new reader on the file it wrote has exactly the same map.\<close>

theorem config_roundtrip:
  assumes "map_wf (m_config_map cfg)" and "\<forall>kv \<in> set (m_config_map cfg). pair_ok kv"
    and "\<forall>i. fwrite_ok i"
  shows "\<exists>out. WriteFIle True fwrite_ok cfg old = (0, out) \<and>
    CConfigFileReader (Some out) name =
      Inr \<lparr>m_load_ok = Some True, m_config_map = m_config_map cfg, m_config_file = name\<rparr>"
proof -
  let ?m = "m_config_map cfg" and ?out = "concat (map (\<lambda>kv. pair_line kv @ [newline]) (m_config_map cfg))"
  have "map szPaire ?m = map (\<lambda>kv. pair_line kv @ [newline]) ?m" using assms(2) by (auto simp: szPaire_ok)
  then have "WriteFIle True fwrite_ok cfg old = (0, ?out)"
    using write_pairs_all [OF assms(3)] by (simp add: WriteFIle_def del: map_eq_conv)
  moreover have "load_lines ?out [] = Inr ?m"
    using file_entries_written [OF assms(2)] fold_insert_sorted [of "[]" ?m] assms(1)
    by (simp add: load_lines_entries)
  ultimately show ?thesis
    by (simp add: CConfigFileReader_def LoadFile_def)
qed

theorem config_roundtrip_witness:
  "\<exists>out. WriteFIle True (\<lambda>_. True) \<lparr>m_load_ok = Some True,
        m_config_map = [(''ListenPort'', ''10600''), (''aesKey'', ''1=2'')], m_config_file = ''f''\<rparr> [] = (0, out) \<and>
     CConfigFileReader (Some out) ''f'' = Inr \<lparr>m_load_ok = Some True,
        m_config_map = [(''ListenPort'', ''10600''), (''aesKey'', ''1=2'')], m_config_file = ''f''\<rparr>"
proof -
  let ?cfg = "\<lparr>m_load_ok = Some True,
      m_config_map = [(''ListenPort'', ''10600''), (''aesKey'', ''1=2'')], m_config_file = ''f''\<rparr>"
  have 1: "map_wf (m_config_map ?cfg)" by (simp add: map_wf_def less_char_def)
  have 2: "\<forall>kv \<in> set (m_config_map ?cfg). pair_ok kv"
    by (simp add: pair_ok_def plain_def blank_def newline_def)
  have 3: "\<forall>i :: nat. (\<lambda>_. True) i" by simp
  show ?thesis using config_roundtrip [OF 1 2 3, of "[]" "''f''"] by simp
qed

text \<open>C24: Loading a file without NUL bytes always succeeds; the reader then answers every name with the
  value of the first line that defines it (comments cut, blanks trimmed at both ends), and with a
  null pointer when no line does.\<close>

theorem first_binding_wins:
  assumes "CHR 0x00 \<notin> set body"
  shows "\<exists>es cfg. file_entries (fgets_bufs body) = Inr es \<and>
    CConfigFileReader (Some body) name = Inr cfg \<and> map_wf (m_config_map cfg) \<and>
    (\<forall>key. GetConfigName cfg key = Inr (map_of es key))"
proof -
  obtain es where "file_entries (fgets_bufs body) = Inr es" using file_entries_total [OF assms] by blast
  then show ?thesis
    using fold_map_insert [of "[]" es]
    by (simp add: CConfigFileReader_def LoadFile_def load_lines_entries GetConfigName_def map_wf_def)
qed

theorem first_binding_wins_witness:
  "\<exists>cfg. CConfigFileReader (Some (''ThreadNum=48'' @ [CHR 0x09, CHR 0x09] @ ''# cores'' @ [newline] @ ''ThreadNum = 2'' @ [newline])) ''f'' = Inr cfg \<and>
     GetConfigName cfg ''ThreadNum'' = Inr (Some ''48'') \<and> GetConfigName cfg ''aesKey'' = Inr None"
proof -
  let ?body = "''ThreadNum=48'' @ [CHR 0x09, CHR 0x09] @ ''# cores'' @ [newline] @ ''ThreadNum = 2'' @ [newline]"
  have "fgets_n 255 ?body = (''ThreadNum=48'' @ [CHR 0x09, CHR 0x09] @ ''# cores'' @ [newline], ''ThreadNum = 2'' @ [newline])"
    using fgets_n_line [of "''ThreadNum=48'' @ [CHR 0x09, CHR 0x09] @ ''# cores''" 255 "''ThreadNum = 2'' @ [newline]"]
    by (simp add: newline_def)
  moreover have "fgets_n 255 (''ThreadNum = 2'' @ [newline]) = (''ThreadNum = 2'' @ [newline], [])"
    using fgets_n_line [of "''ThreadNum = 2''" 255 "[]"] by (simp add: newline_def)
  ultimately have b: "fgets_bufs ?body =
      [''ThreadNum=48'' @ [CHR 0x09, CHR 0x09] @ ''# cores'' @ [newline], ''ThreadNum = 2'' @ [newline]]"
    by (simp del: fgets_n.simps)
  have e: "file_entries (fgets_bufs ?body) = Inr [(''ThreadNum'', ''48''), (''ThreadNum'', ''2'')]"
    unfolding b by (simp add: clean_line_def newline_def line_entry_def TrimSpace_def blank_def)
  have "CHR 0x00 \<notin> set ?body" by (simp add: newline_def)
  from first_binding_wins [OF this, of "''f''"] e show ?thesis by auto
qed

text \<open>Setting a value and reading it: after \<open>SetConfigValue\<close> on a loaded reader the name has the new
  value and every other name its old one, whether or not the file could be written; the keys stay in
  order, and the call reports failure exactly when the file cannot be opened or a write fails.\<close>

lemma set_then_get:
  assumes "m_load_ok cfg = Some True" and "map_wf (m_config_map cfg)"
  shows "\<exists>r cfg' out. SetConfigValue can_open fwrite_ok cfg name value old = Inr (r, cfg', out) \<and>
    map_wf (m_config_map cfg') \<and>
    GetConfigName cfg' name = Inr (Some value) \<and>
    (\<forall>key. key \<noteq> name \<longrightarrow> GetConfigName cfg' key = GetConfigName cfg key) \<and>
    (r = 0 \<longleftrightarrow> can_open \<and> (\<forall>i < length (m_config_map cfg'). fwrite_ok i))"
proof -
  let ?m = "m_config_map cfg"
  define m' where "m' = (if map_of ?m name \<noteq> None then map_assign name value ?m else map_insert name value ?m)"
  obtain r out where w: "WriteFIle can_open fwrite_ok (cfg\<lparr>m_config_map := m'\<rparr>) old = (r, out)" by fastforce
  have "SetConfigValue can_open fwrite_ok cfg name value old = Inr (r, cfg\<lparr>m_config_map := m'\<rparr>, out)"
    using assms(1) w by (simp add: SetConfigValue_def m'_def Let_def)
  moreover have "map_wf m'" using assms(2) map_assign_wf map_insert_wf by (simp add: m'_def)
  moreover have "map_of m' key = (if key = name then Some value else map_of ?m key)" for key
    using assms(2) by (auto simp: m'_def cfg_simps)
  moreover have "r = 0 \<longleftrightarrow> can_open \<and> (\<forall>i < length m'. fwrite_ok i)"
    using w write_pairs_zero [of fwrite_ok 0 m' "[]"] by (auto simp: WriteFIle_def split: if_splits)
  ultimately show ?thesis
    using assms(1) by (simp add: GetConfigName_def)
qed

end
