(* ===== verification/Base_Explode.thy ===== *)
theory Base_Explode
  imports Talk_Prelude
begin

text \<open>
  \<open>CStrExplode\<close> of \<open>common/base/util.h\<close> and \<open>util.cc\<close>: cutting a C string at a separator. The array
  \<open>m_item_list\<close> is allocated without initialisation: an element that was never assigned is \<open>None\<close>,
  and using it (\<open>GetItem\<close> by a caller, the destructor) is undefined behaviour, as is an index outside
  the array.
\<close>

section \<open>The model\<close>

record explode =
  m_item_cnt :: nat
  m_item_list :: "string option list"

text \<open>The first loop; the counter is a \<open>uint32_t\<close>.\<close>

fun count_seps :: "char \<Rightarrow> string \<Rightarrow> nat \<Rightarrow> nat" where
  "count_seps sep [] n = n"
| "count_seps sep (c # cs) n = count_seps sep cs (if c = sep then (n + 1) mod 2 ^ 32 else n)"

definition set_item :: "nat \<Rightarrow> string \<Rightarrow> string option list \<Rightarrow> string option list res" where
  "set_item idx s arr = (if idx < length arr then Inr (arr[idx := Some s]) else Inl Undefined_Behaviour)"

text \<open>The second loop: \<open>cur\<close> are the characters from \<open>start\<close> up to \<open>pos\<close>. A separator at \<open>start\<close> itself
  does not end an item but becomes part of it.\<close>

fun explode_loop :: "char \<Rightarrow> string \<Rightarrow> string \<Rightarrow> nat \<Rightarrow> string option list \<Rightarrow> string option list res" where
  "explode_loop sep cur [] idx arr = (if cur \<noteq> [] then set_item idx cur arr else Inr arr)"
| "explode_loop sep cur (c # cs) idx arr =
     (if cur \<noteq> [] \<and> c = sep then res_bind (set_item idx cur arr) (explode_loop sep [] cs (Suc idx))
      else explode_loop sep (cur @ [c]) cs idx arr)"

definition CStrExplode :: "string \<Rightarrow> char \<Rightarrow> explode res" where
  "CStrExplode str seperator =
     (let cnt = count_seps seperator str 1 in
      res_bind (explode_loop seperator [] str 0 (replicate cnt None)) (\<lambda>arr.
        Inr \<lparr>m_item_cnt = cnt, m_item_list = arr\<rparr>))"

definition GetItemCnt :: "explode \<Rightarrow> nat" where
  "GetItemCnt e = m_item_cnt e"

definition GetItem :: "explode \<Rightarrow> nat \<Rightarrow> string res" where
  "GetItem e idx =
     (if idx < length (m_item_list e)
      then (case m_item_list e ! idx of None \<Rightarrow> Inl Undefined_Behaviour | Some s \<Rightarrow> Inr s)
      else Inl Undefined_Behaviour)"

text \<open>The destructor deletes every element of the array.\<close>

definition CStrExplode_dtor :: "explode \<Rightarrow> unit res" where
  "CStrExplode_dtor e =
     fold_res (\<lambda>i _. res_bind (GetItem e i) (\<lambda>_. Inr ())) [0..<m_item_cnt e] ()"

section \<open>Fields\<close>

text \<open>The fields of a text in the usual sense: one more than it has separators.\<close>

fun split_fields :: "char \<Rightarrow> string \<Rightarrow> string list" where
  "split_fields sep [] = [[]]"
| "split_fields sep (c # cs) =
     (if c = sep then [] # split_fields sep cs
      else (case split_fields sep cs of [] \<Rightarrow> [[c]] | f # fs \<Rightarrow> (c # f) # fs))"

text \<open>The items the second loop assigns.\<close>

fun items :: "char \<Rightarrow> string \<Rightarrow> string \<Rightarrow> string list" where
  "items sep cur [] = (if cur \<noteq> [] then [cur] else [])"
| "items sep cur (c # cs) =
     (if cur \<noteq> [] \<and> c = sep then cur # items sep [] cs else items sep (cur @ [c]) cs)"

lemma fields_not_Nil [simp]: "split_fields sep cs \<noteq> []"
  by (cases cs) (auto split: list.splits)

lemma length_fields: "length (split_fields sep cs) = Suc (length (filter ((=) sep) cs))"
  by (induction cs) (auto split: list.splits)

lemma count_seps_eq:
  assumes "n + length (filter ((=) sep) cs) < 2 ^ 32"
  shows "count_seps sep cs n = n + length (filter ((=) sep) cs)"
  using assms by (induction cs arbitrary: n) auto

lemma length_items: "length (items sep cur cs) \<le> Suc (length (filter ((=) sep) cs))"
  by (induction sep cur cs rule: items.induct) auto

lemma items_fields:
  "if (cur \<noteq> [] \<or> hd (split_fields sep cs) \<noteq> []) \<and> [] \<notin> set (tl (split_fields sep cs))
   then items sep cur cs = (cur @ hd (split_fields sep cs)) # tl (split_fields sep cs)
   else length (items sep cur cs) < Suc (length (filter ((=) sep) cs))"
proof (induction sep cur cs rule: items.induct)
  case (1 sep cur)
  then show ?case by simp
next
  case (2 sep cur c cs)
  obtain f fs where f: "split_fields sep cs = f # fs" by (cases "split_fields sep cs") auto
  show ?case
  proof (cases "c = sep")
    case False
    then show ?thesis using "2.IH"(2) f by auto
  next
    case sep: True
    show ?thesis
    proof (cases "cur = []")
      case False
      then show ?thesis using "2.IH"(1) sep f by auto
    next
      case True
      then show ?thesis using sep length_items [of sep "[sep]" cs] by (simp add: f)
    qed
  qed
qed

lemma explode_loop_items:
  assumes "length (items sep cur cs) + length done_items \<le> n"
    and "arr = map Some done_items @ replicate (n - length done_items) None"
  shows "explode_loop sep cur cs (length done_items) arr =
    Inr (map Some (done_items @ items sep cur cs) @
         replicate (n - length done_items - length (items sep cur cs)) None)"
  using assms
proof (induction sep cur cs arbitrary: done_items arr rule: items.induct)
  case (1 sep cur)
  show ?case
  proof (cases "cur = []")
    case True
    with 1 show ?thesis by simp
  next
    case False
    with 1 have "n - length done_items = Suc (n - length done_items - 1)" by simp
    with 1 False show ?thesis
      by (simp add: set_item_def list_update_append)
  qed
next
  case (2 sep cur c cs)
  show ?case
  proof (cases "cur \<noteq> [] \<and> c = sep")
    case False
    have i: "items sep cur (c # cs) = items sep (cur @ [c]) cs" using False by auto
    have "explode_loop sep cur (c # cs) (length done_items) arr =
        explode_loop sep (cur @ [c]) cs (length done_items) arr" using False by auto
    then show ?thesis using "2.IH"(2) [OF False, of done_items arr] "2.prems" unfolding i by simp
  next
    case True
    have len: "n - length done_items = Suc (n - Suc (length done_items))"
      using "2.prems" True by simp
    have arr: "arr[length done_items := Some cur] =
        map Some (done_items @ [cur]) @ replicate (n - length (done_items @ [cur])) None"
      unfolding "2.prems"(2) len by (simp add: list_update_append)
    have "length done_items < length arr" using "2.prems" True by simp
    then have "explode_loop sep cur (c # cs) (length done_items) arr =
        explode_loop sep [] cs (length (done_items @ [cur])) (arr[length done_items := Some cur])"
      using True by (simp add: set_item_def)
    also have "\<dots> = Inr (map Some ((done_items @ [cur]) @ items sep [] cs) @
        replicate (n - length (done_items @ [cur]) - length (items sep [] cs)) None)"
      using "2.prems"(1) True by (intro "2.IH"(1) [OF True _ arr]) simp
    finally show ?thesis using True by simp
  qed
qed

lemma CStrExplode_items:
  assumes "length str < 2 ^ 32 - 1"
  shows "CStrExplode str sep = Inr \<lparr>m_item_cnt = length (split_fields sep str),
    m_item_list = map Some (items sep [] str) @ replicate (length (split_fields sep str) - length (items sep [] str)) None\<rparr>"
proof -
  have "length (filter ((=) sep) str) \<le> length str" by (rule length_filter_le)
  with assms have "1 + length (filter ((=) sep) str) < 2 ^ 32" by linarith
  then have cnt: "count_seps sep str 1 = length (split_fields sep str)"
    using count_seps_eq [of 1 sep str] by (simp add: length_fields)
  have "length (items sep [] str) \<le> length (split_fields sep str)" using length_items by (simp add: length_fields)
  then have "explode_loop sep [] str (length ([] :: string list)) (replicate (length (split_fields sep str)) None) =
      Inr (map Some ([] @ items sep [] str) @
        replicate (length (split_fields sep str) - length ([] :: string list) - length (items sep [] str)) None)"
    by (intro explode_loop_items) simp_all
  then show ?thesis unfolding CStrExplode_def Let_def cnt by simp
qed

lemma fold_res_all_ok: "\<forall>i \<in> set xs. f i = Inr () \<Longrightarrow> fold_res (\<lambda>i _. f i) xs () = Inr ()"
  by (induction xs) auto

lemma fold_res_one_bad:
  assumes "\<forall>i \<in> set xs. f i = Inr () \<or> f i = Inl e" and "i \<in> set xs" and "f i = Inl e"
  shows "fold_res (\<lambda>i _. f i) xs () = Inl e"
  using assms by (induction xs) auto

section \<open>Properties\<close>

text \<open>C27: Cutting a text at a separator never writes outside the array. When no field is empty the items
  are exactly the fields and the destructor is safe; when a field is empty (two adjacent separators,
  one at either end, or an empty text) fewer items are assigned than the array has, and the
  destructor deletes an uninitialised pointer.\<close>

theorem explode_gives_fields:
  assumes "length str < 2 ^ 32 - 1"
  shows "\<exists>e. CStrExplode str sep = Inr e \<and> GetItemCnt e = length (split_fields sep str) \<and>
    (if [] \<notin> set (split_fields sep str)
     then (\<forall>i < GetItemCnt e. GetItem e i = Inr (split_fields sep str ! i)) \<and> CStrExplode_dtor e = Inr ()
     else CStrExplode_dtor e = Inl Undefined_Behaviour)"
proof -
  let ?f = "split_fields sep str" and ?i = "items sep [] str"
  define e where "e = \<lparr>m_item_cnt = length ?f, m_item_list = map Some ?i @ replicate (length ?f - length ?i) None\<rparr>"
  obtain g gs where g: "?f = g # gs" by (cases ?f) auto
  have le: "length ?i \<le> length ?f" using length_items [of sep "[]" str] by (simp add: length_fields)
  have item: "GetItem e j = (if j < length ?i then Inr (?i ! j) else Inl Undefined_Behaviour)" for j
    using le by (auto simp: GetItem_def e_def nth_append)
  let ?del = "\<lambda>i. res_bind (GetItem e i) (\<lambda>_. Inr ())"
  have "if [] \<notin> set ?f then (\<forall>i < GetItemCnt e. GetItem e i = Inr (?f ! i)) \<and> CStrExplode_dtor e = Inr ()
     else CStrExplode_dtor e = Inl Undefined_Behaviour"
  proof (cases "[] \<notin> set ?f")
    case True
    then have "?i = ?f" using items_fields [of "[]" sep str] by (auto simp: g)
    then have "\<forall>i < GetItemCnt e. GetItem e i = Inr (?f ! i)" using item by (simp add: GetItemCnt_def e_def)
    moreover from this have "CStrExplode_dtor e = Inr ()"
      unfolding CStrExplode_dtor_def by (intro fold_res_all_ok) (auto simp: GetItemCnt_def)
    ultimately show ?thesis using True by simp
  next
    case False
    then have "length ?i < length ?f"
      using items_fields [of "[]" sep str] unfolding length_fields by (auto simp: g split: if_splits)
    then have "length ?i \<in> set [0..<m_item_cnt e]" "?del (length ?i) = Inl Undefined_Behaviour"
      using item by (auto simp: e_def)
    then have "CStrExplode_dtor e = Inl Undefined_Behaviour"
      unfolding CStrExplode_dtor_def using item by (intro fold_res_one_bad) auto
    with False show ?thesis by simp
  qed
  moreover have "CStrExplode str sep = Inr e" using CStrExplode_items [OF assms] by (simp add: e_def)
  ultimately show ?thesis by (auto simp: GetItemCnt_def e_def)
qed

theorem explode_gives_fields_witness:
  "\<exists>e. CStrExplode ''unread,group_set'' (CHR '','') = Inr e \<and> GetItemCnt e = 2 \<and>
     GetItem e 0 = Inr ''unread'' \<and> GetItem e 1 = Inr ''group_set'' \<and> CStrExplode_dtor e = Inr ()"
proof -
  have len: "length ''unread,group_set'' < 2 ^ 32 - 1" by simp
  have f: "split_fields (CHR '','') ''unread,group_set'' = [''unread'', ''group_set'']" by simp
  show ?thesis using explode_gives_fields [OF len, of "CHR '',''", unfolded f] by fastforce
qed

end
