(* ===== verification/Conn_Pool.thy ===== *)
theory Conn_Pool
  imports Talk_Prelude
begin

text \<open>
  The contract that the MySQL pool (\<open>CDBPool\<close>) and the Redis pool (\<open>CachePool\<close>) share: a free list, a
  count of the connections that exist, and two operations that run under the pool's mutex. \<open>get\<close>
  answers \<open>None\<close> when the caller has to wait on the condition variable (it changes nothing before it
  waits, so a caller that is woken up simply calls again), \<open>Some None\<close> for a null pointer and
  \<open>Some (Some c)\<close> for a connection. Connections are numbered in the order they are allocated;
  \<open>nxt\<close> is the next number of the world \<open>'w\<close>. A session interleaves the calls of any number of users;
  the third component of its state are the connections lent out, and a user returns only what it
  holds.
\<close>

datatype pool_op = Op_get | Op_rel nat

definition pool_step ::
    "('p \<Rightarrow> 'w \<Rightarrow> nat option option \<times> 'p \<times> 'w) \<Rightarrow> (nat \<Rightarrow> 'p \<Rightarrow> 'p) \<Rightarrow> pool_op \<Rightarrow>
     'p \<times> 'w \<times> nat list \<Rightarrow> 'p \<times> 'w \<times> nat list" where
  "pool_step get rel op st =
     (case st of (p, w, lent) \<Rightarrow>
        case op of
          Op_get \<Rightarrow> (case get p w of (r, p', w') \<Rightarrow>
             (case r of Some (Some c) \<Rightarrow> (p', w', c # lent) | _ \<Rightarrow> (p', w', lent)))
        | Op_rel c \<Rightarrow> if c \<in> set lent then (rel c p, w, remove1 c lent) else (p, w, lent))"

definition pool_inv ::
    "('p \<Rightarrow> nat list) \<Rightarrow> ('p \<Rightarrow> int) \<Rightarrow> ('w \<Rightarrow> nat) \<Rightarrow> 'p \<times> 'w \<times> nat list \<Rightarrow> bool" where
  "pool_inv free cur nxt st \<longleftrightarrow>
     (case st of (p, w, lent) \<Rightarrow>
        distinct (free p @ lent) \<and> cur p = int (length (free p) + length lent) \<and>
        (\<forall>c \<in> set (free p @ lent). c < nxt w))"

locale conn_pool =
  fixes free :: "'p \<Rightarrow> nat list" and cur :: "'p \<Rightarrow> int" and maxc :: "'p \<Rightarrow> int" and nxt :: "'w \<Rightarrow> nat"
    and get :: "'a \<Rightarrow> 'p \<Rightarrow> 'w \<Rightarrow> nat option option \<times> 'p \<times> 'w" and rel :: "nat \<Rightarrow> 'p \<Rightarrow> 'p"
  assumes get_free: "free p = c # cs \<Longrightarrow> \<exists>p'. get a p w = (Some (Some c), p', w) \<and>
      free p' = cs \<and> cur p' = cur p \<and> maxc p' = maxc p"
    and get_wait: "free p = [] \<Longrightarrow> maxc p \<le> cur p \<Longrightarrow> get a p w = (None, p, w)"
    and get_new: "free p = [] \<Longrightarrow> cur p < maxc p \<Longrightarrow>
      (\<exists>w'. get a p w = (Some None, p, w') \<and> nxt w \<le> nxt w') \<or>
      (\<exists>p' w'. get a p w = (Some (Some (nxt w)), p', w') \<and> free p' = [] \<and> cur p' = cur p + 1 \<and>
         maxc p' = maxc p \<and> nxt w' = Suc (nxt w))"
    and rel_free: "free (rel c p) = (if c \<in> set (free p) then free p else free p @ [c])"
    and rel_cur: "cur (rel c p) = cur p" "maxc (rel c p) = maxc p"
begin

lemma step_get_inv:
  assumes "pool_inv free cur nxt (p, w, lent)"
  shows "pool_inv free cur nxt (pool_step (get a) rel Op_get (p, w, lent))"
proof (cases "free p")
  case (Cons c cs)
  then show ?thesis using get_free [OF Cons, of a w] assms by (auto simp: pool_step_def pool_inv_def)
next
  case Nil
  show ?thesis
  proof (cases "maxc p \<le> cur p")
    case True
    then show ?thesis using get_wait [OF Nil True, of a w] assms by (simp add: pool_step_def)
  next
    case False
    then consider w' where "get a p w = (Some None, p, w')" "nxt w \<le> nxt w'"
      | p' w' where "get a p w = (Some (Some (nxt w)), p', w')" "free p' = []" "cur p' = cur p + 1"
          "nxt w' = Suc (nxt w)"
      using get_new [OF Nil, of a w] by fastforce
    then show ?thesis
    proof cases
      case 1
      have "\<forall>c \<in> set (free p @ lent). c < nxt w'"
        using assms 1(2) by (auto simp: pool_inv_def intro: less_le_trans)
      then show ?thesis using assms 1(1) by (simp add: pool_step_def pool_inv_def)
    next
      case 2
      then show ?thesis using assms Nil by (fastforce simp: pool_step_def pool_inv_def)
    qed
  qed
qed

lemma step_rel_inv:
  assumes "pool_inv free cur nxt (p, w, lent)"
  shows "pool_inv free cur nxt (pool_step (get a) rel (Op_rel c) (p, w, lent))"
proof (cases "c \<in> set lent")
  case True
  then have f: "free (rel c p) = free p @ [c]" using assms by (auto simp: pool_inv_def rel_free)
  have "length (remove1 c lent) = length lent - 1" using True by (simp add: length_remove1)
  then have "int (length lent) = 1 + int (length (remove1 c lent))"
    using length_pos_if_in_set [OF True] by linarith
  then show ?thesis
    using assms True f by (auto simp: pool_step_def pool_inv_def rel_cur dest: set_remove1_subset [THEN subsetD])
next
  case False
  with assms show ?thesis by (simp add: pool_step_def)
qed

lemma step_inv:
  "pool_inv free cur nxt st \<Longrightarrow> pool_inv free cur nxt (pool_step (get a) rel op st)"
  by (cases st; cases op) (auto simp: step_get_inv step_rel_inv)

lemma step_bound:
  assumes "cur (fst st) \<le> max m (maxc (fst st))"
  shows "cur (fst (pool_step (get a) rel op st)) \<le> max m (maxc (fst (pool_step (get a) rel op st))) \<and>
    maxc (fst (pool_step (get a) rel op st)) = maxc (fst st)"
proof (cases op)
  case (Op_rel c)
  then show ?thesis using assms by (cases st) (simp add: pool_step_def rel_cur)
next
  case Op_get
  obtain p w lent where st: "st = (p, w, lent)" by (cases st) auto
  consider (free) c cs where "free p = c # cs" | (wait) "free p = []" "maxc p \<le> cur p"
    | (new) "free p = []" "cur p < maxc p" by (cases "free p") fastforce+
  then show ?thesis
  proof cases
    case free
    then show ?thesis using get_free [OF free, of a w] assms by (auto simp: Op_get st pool_step_def)
  next
    case wait
    then show ?thesis using get_wait [OF wait, of a w] assms by (simp add: Op_get st pool_step_def)
  next
    case new
    then show ?thesis using get_new [OF new, of a w] assms by (auto simp: Op_get st pool_step_def)
  qed
qed

text \<open>Sessions.\<close>

lemma run_inv:
  assumes "pool_inv free cur nxt st" and "cur (fst st) \<le> max m (maxc (fst st))"
    and "st' = fold (pool_step (get a) rel) ops st"
  shows "pool_inv free cur nxt st' \<and> cur (fst st') \<le> max m (maxc (fst st')) \<and> maxc (fst st') = maxc (fst st)"
  using assms
proof (induction ops arbitrary: st)
  case Nil
  then show ?case by simp
next
  case (Cons op ops)
  let ?s = "pool_step (get a) rel op st"
  have "pool_inv free cur nxt ?s" by (rule step_inv [OF Cons.prems(1)])
  moreover have "cur (fst ?s) \<le> max m (maxc (fst ?s))" "maxc (fst ?s) = maxc (fst st)"
    using step_bound [OF Cons.prems(2), of a op] by auto
  ultimately show ?case using Cons.IH [of ?s] Cons.prems(3) by auto
qed

text \<open>A session never lends one connection twice, keeps the number of connections within its bound,
  and makes a user wait only while every connection is lent.\<close>

lemma session_safe:
  assumes "pool_inv free cur nxt st" and "cur (fst st) \<le> max m (maxc (fst st))"
    and "fold (pool_step (get a) rel) ops st = (p, w, lent)"
  shows "distinct lent \<and> set lent \<inter> set (free p) = {} \<and>
    int (length lent) \<le> max m (maxc (fst st)) \<and>
    (fst (get a p w) = None \<longrightarrow> int (length lent) = cur p \<and> maxc p \<le> cur p)"
proof -
  have r: "pool_inv free cur nxt (p, w, lent)" "cur p \<le> max m (maxc (fst st))" "maxc p = maxc (fst st)"
    using run_inv [OF assms(1,2) assms(3) [symmetric]] by auto
  have "free p = [] \<and> maxc p \<le> cur p" if n: "fst (get a p w) = None"
  proof (cases "free p")
    case (Cons c cs)
    then show ?thesis using get_free [OF Cons, of a w] n by auto
  next
    case Nil
    then show ?thesis using get_new [OF Nil, of a w] n by fastforce
  qed
  with r show ?thesis by (auto simp: pool_inv_def)
qed

text \<open>A returned connection is there for the next user: after a release nobody has to wait.\<close>

lemma release_serves_waiter:
  "\<exists>d p'. get a (rel c p) w = (Some (Some d), p', w) \<and> d \<in> insert c (set (free p))"
proof -
  obtain d ds where d: "free (rel c p) = d # ds" by (cases "free (rel c p)") (auto simp: rel_free split: if_splits)
  then have "d \<in> insert c (set (free p))" by (cases "free p") (auto simp: rel_free split: if_splits)
  with get_free [OF d, of a w] show ?thesis by blast
qed

end

end
