(* ===== verification/Db_Pool.thy ===== *)
theory Db_Pool
  imports Conn_Pool Base_Config Base_Explode
begin

text \<open>
  \<open>db_proxy_server/DBPool.h\<close> and \<open>DBPool.cc\<close>: result sets, prepared statements, connections, the
  connection pool and the manager with its pools. The MySQL client library is the record \<open>mysql_api\<close>
  of its calls, an argument \<open>my\<close> of every operation; \<open>'k\<close> is the state of the server and the client
  library. Objects made by \<open>new CDBConn\<close> live in the heap of \<open>db_world\<close> and are named by the number of
  their allocation. Logging is left out, except that \<open>LOG_FATAL\<close> ends the process.
\<close>

section \<open>The client library\<close>

text \<open>A stored result: the names of its columns and the rows not fetched yet, whose cells may be null.
  \<open>my_escape\<close> yields \<open>None\<close> when the call fails, and then writes nothing.\<close>

record mysql_res =
  res_fields :: "string list"
  res_rows :: "string option list list"

record 'k mysql_api =
  my_init :: "'k \<Rightarrow> nat option \<times> 'k"
  my_options :: "nat \<Rightarrow> string \<Rightarrow> 'k \<Rightarrow> 'k"
  my_real_connect :: "nat \<Rightarrow> string \<Rightarrow> string \<Rightarrow> string \<Rightarrow> string \<Rightarrow> 16 word \<Rightarrow> 'k \<Rightarrow> bool \<times> 'k"
  my_ping :: "nat \<Rightarrow> 'k \<Rightarrow> 'k"
  my_real_query :: "nat \<Rightarrow> string \<Rightarrow> 'k \<Rightarrow> bool \<times> 'k"
  my_store_result :: "nat \<Rightarrow> 'k \<Rightarrow> mysql_res option \<times> 'k"
  my_fetch_row :: "mysql_res \<Rightarrow> string option list option \<times> mysql_res"
  my_affected_rows :: "nat \<Rightarrow> 'k \<Rightarrow> int"
  my_escape :: "nat \<Rightarrow> string \<Rightarrow> string option"
  my_insert_id :: "nat \<Rightarrow> 'k \<Rightarrow> nat"
  st_init :: "nat \<Rightarrow> 'k \<Rightarrow> nat option \<times> 'k"
  st_prepare :: "nat \<Rightarrow> string \<Rightarrow> 'k \<Rightarrow> bool \<times> 'k"
  st_param_count :: "nat \<Rightarrow> 'k \<Rightarrow> nat"
  st_bind_param :: "nat \<Rightarrow> (string option) list \<Rightarrow> 'k \<Rightarrow> bool \<times> 'k"
  st_execute :: "nat \<Rightarrow> 'k \<Rightarrow> bool \<times> 'k"
  st_affected_rows :: "nat \<Rightarrow> 'k \<Rightarrow> nat"
  st_insert_id :: "nat \<Rightarrow> 'k \<Rightarrow> nat"
  st_close :: "nat \<Rightarrow> 'k \<Rightarrow> 'k"

text \<open>What the client library documents: \<open>mysql_fetch_row\<close> returns the next row of a stored result, or a null
  pointer when there is none left; escaping turns a character into at most two.\<close>

definition fetch_ok :: "'k mysql_api \<Rightarrow> bool" where
  "fetch_ok my \<longleftrightarrow> (\<forall>res. my_fetch_row my res =
     (case res_rows res of [] \<Rightarrow> (None, res) | r # rows \<Rightarrow> (Some r, res\<lparr>res_rows := rows\<rparr>)))"

definition escape_ok :: "'k mysql_api \<Rightarrow> bool" where
  "escape_ok my \<longleftrightarrow> (\<forall>h s t. my_escape my h s = Some t \<longrightarrow> length t \<le> 2 * length s)"

section \<open>Result sets\<close>

text \<open>\<open>m_row\<close> is indeterminate (\<open>None\<close>) before the first \<open>Next\<close>, and a null pointer (\<open>Some None\<close>)
  after the last row.\<close>

record result_set =
  m_res :: mysql_res
  m_row :: "string option list option option"
  m_key_map :: "string \<Rightarrow> nat option"

fun key_map :: "string list \<Rightarrow> nat \<Rightarrow> (string \<Rightarrow> nat option) \<Rightarrow> string \<Rightarrow> nat option" where
  "key_map [] i m = m"
| "key_map (f # fs) i m = key_map fs (Suc i) (if m f = None then m(f \<mapsto> i) else m)"

definition CResultSet :: "mysql_res \<Rightarrow> result_set" where
  "CResultSet res = \<lparr>m_res = res, m_row = None, m_key_map = key_map (res_fields res) 0 Map.empty\<rparr>"

definition Next :: "'k mysql_api \<Rightarrow> result_set \<Rightarrow> bool \<times> result_set" where
  "Next my rs =
     (case my_fetch_row my (m_res rs) of (row, res') \<Rightarrow>
        let rs' = rs\<lparr>m_res := res', m_row := Some row\<rparr> in
        if row \<noteq> None then (True, rs') else (False, rs'))"

definition GetIndex :: "result_set \<Rightarrow> string \<Rightarrow> int" where
  "GetIndex rs key = (case m_key_map rs key of None \<Rightarrow> -1 | Some i \<Rightarrow> int i)"

text \<open>\<open>m_row[idx]\<close>.\<close>

definition cell :: "result_set \<Rightarrow> nat \<Rightarrow> string option res" where
  "cell rs idx =
     (case m_row rs of
        Some (Some row) \<Rightarrow> if idx < length row then Inr (row ! idx) else Inl Undefined_Behaviour
      | _ \<Rightarrow> Inl Undefined_Behaviour)"

definition GetInt :: "result_set \<Rightarrow> string \<Rightarrow> int res" where
  "GetInt rs key =
     (let idx = GetIndex rs key in
      if idx = -1 then Inr 0
      else res_bind (cell rs (nat idx)) (\<lambda>c.
        case c of None \<Rightarrow> Inl Undefined_Behaviour | Some s \<Rightarrow> Inr (atoi s)))"

definition GetString :: "result_set \<Rightarrow> string \<Rightarrow> string option res" where
  "GetString rs key =
     (let idx = GetIndex rs key in
      if idx = -1 then Inr None else cell rs (nat idx))"

section \<open>Prepared statements\<close>

text \<open>A bound parameter: the text its buffer holds when the statement is executed (\<open>None\<close> while the
  zeroed \<open>MYSQL_BIND\<close> has no buffer). An integer is bound as its decimal value.\<close>

record prepare_statement =
  m_stmt :: "nat option"
  m_param_bind :: "string option list option"
  m_param_cnt :: nat

definition CPrepareStatement :: prepare_statement where
  "CPrepareStatement = \<lparr>m_stmt = None, m_param_bind = None, m_param_cnt = 0\<rparr>"

definition stmt_Init ::
    "'k mysql_api \<Rightarrow> nat \<Rightarrow> string \<Rightarrow> prepare_statement \<Rightarrow> 'k \<Rightarrow> bool \<times> prepare_statement \<times> 'k" where
  "stmt_Init my mysql sql ps k =
     (case st_init my mysql (my_ping my mysql k) of
        (None, k1) \<Rightarrow> (False, ps\<lparr>m_stmt := None\<rparr>, k1)
      | (Some st, k1) \<Rightarrow>
          (case st_prepare my st sql k1 of (err, k2) \<Rightarrow>
             if err then (False, ps\<lparr>m_stmt := Some st\<rparr>, k2)
             else
               let cnt = st_param_count my st k2;
                   ps1 = ps\<lparr>m_stmt := Some st, m_param_cnt := cnt\<rparr>
               in (True, (if 0 < cnt then ps1\<lparr>m_param_bind := Some (replicate cnt None)\<rparr> else ps1), k2)))"

definition SetParam :: "nat \<Rightarrow> string \<Rightarrow> prepare_statement \<Rightarrow> prepare_statement res" where
  "SetParam index value ps =
     (if m_param_cnt ps \<le> index then Inr ps
      else
        (case m_param_bind ps of
           None \<Rightarrow> Inl Undefined_Behaviour
         | Some bs \<Rightarrow>
             if index < length bs then Inr (ps\<lparr>m_param_bind := Some (bs[index := Some value])\<rparr>)
             else Inl Undefined_Behaviour))"

definition SetParam_int :: "nat \<Rightarrow> int \<Rightarrow> prepare_statement \<Rightarrow> prepare_statement res" where
  "SetParam_int index value ps = SetParam index (show_int value) ps"

text \<open>An unsigned value is bound with the same type and without \<open>is_unsigned\<close>: the library reads it as signed.\<close>

definition SetParam_uint :: "nat \<Rightarrow> 32 word \<Rightarrow> prepare_statement \<Rightarrow> prepare_statement res" where
  "SetParam_uint index value ps = SetParam_int index (sint value) ps"

definition stmt_ExecuteUpdate :: "'k mysql_api \<Rightarrow> prepare_statement \<Rightarrow> 'k \<Rightarrow> bool \<times> 'k" where
  "stmt_ExecuteUpdate my ps k =
     (case m_stmt ps of
        None \<Rightarrow> (False, k)
      | Some st \<Rightarrow>
          (case st_bind_param my st (case m_param_bind ps of None \<Rightarrow> [] | Some bs \<Rightarrow> bs) k of (err1, k1) \<Rightarrow>
             if err1 then (False, k1)
             else (case st_execute my st k1 of (err2, k2) \<Rightarrow>
               if err2 then (False, k2)
               else if st_affected_rows my st k2 = 0 then (False, k2) else (True, k2))))"

definition stmt_GetInsertId :: "'k mysql_api \<Rightarrow> prepare_statement \<Rightarrow> 'k \<Rightarrow> 32 word res" where
  "stmt_GetInsertId my ps k =
     (case m_stmt ps of None \<Rightarrow> Inl Undefined_Behaviour | Some st \<Rightarrow> Inr (of_nat (st_insert_id my st k)))"

definition CPrepareStatement_dtor :: "'k mysql_api \<Rightarrow> prepare_statement \<Rightarrow> 'k \<Rightarrow> prepare_statement \<times> 'k" where
  "CPrepareStatement_dtor my ps k =
     (ps\<lparr>m_stmt := None, m_param_bind := None\<rparr>, case m_stmt ps of None \<Rightarrow> k | Some st \<Rightarrow> st_close my st k)"

text \<open>Whatever \<open>Init\<close> answers, a handle it was given is closed by the destructor.\<close>

lemma stmt_handle_closed:
  assumes "stmt_Init my mysql sql CPrepareStatement k = (ok, ps, k')"
  shows "snd (CPrepareStatement_dtor my ps k') =
    (case fst (st_init my mysql (my_ping my mysql k)) of None \<Rightarrow> k' | Some st \<Rightarrow> st_close my st k')"
  using assms by (auto simp: stmt_Init_def CPrepareStatement_def CPrepareStatement_dtor_def Let_def split: prod.splits option.splits if_splits)

lemma SetParam_uint_small:
  assumes "unat x < 2 ^ 31"
  shows "SetParam_uint i x ps = SetParam i (show_nat (unat x)) ps"
proof -
  have "int (unat x) < int (2 ^ 31)" using assms by (simp only: of_nat_less_iff)
  then have "uint x < 2 ^ 31" by simp
  moreover have "- (2 ^ 31) \<le> uint x" by (rule order_trans [OF _ uint_ge_0]) simp
  ultimately have "sint x = uint x" unfolding sint_uint by (simp add: signed_take_bit_int_eq_self [where n = 31])
  then show ?thesis by (simp add: SetParam_uint_def SetParam_int_def show_int_nonneg)
qed

lemma SetParam_uint_large: "SetParam_uint i (- 1) ps = SetParam_int i (- 1) ps"
  by (simp add: SetParam_uint_def)

section \<open>Connections\<close>

text \<open>The part of a pool that never changes.\<close>

record db_conf =
  m_pool_name :: string
  m_db_server_ip :: string
  m_db_server_port :: "16 word"
  m_username :: string
  m_password :: string
  m_db_name :: string

record db_conn =
  m_pDBPool :: string
  m_mysql :: "nat option"
  m_escape_string :: "string option"

definition MAX_ESCAPE_STRING_LEN :: nat where
  "MAX_ESCAPE_STRING_LEN = 10240"

definition CDBConn :: "db_conf \<Rightarrow> db_conn" where
  "CDBConn pool = \<lparr>m_pDBPool = m_pool_name pool, m_mysql = None, m_escape_string = None\<rparr>"

definition conn_Init :: "'k mysql_api \<Rightarrow> db_conf \<Rightarrow> db_conn \<Rightarrow> 'k \<Rightarrow> int \<times> db_conn \<times> 'k" where
  "conn_Init my pool c k =
     (case my_init my k of
        (None, k1) \<Rightarrow> (1, c\<lparr>m_mysql := None\<rparr>, k1)
      | (Some h, k1) \<Rightarrow>
          let k2 = my_options my h ''MYSQL_OPT_RECONNECT'' k1;
              k3 = my_options my h ''MYSQL_SET_CHARSET_NAME=utf8mb4'' k2
          in (case my_real_connect my h (m_db_server_ip pool) (m_username pool) (m_password pool)
                     (m_db_name pool) (m_db_server_port pool) k3 of (ok, k4) \<Rightarrow>
                (if ok then 0 else 2, c\<lparr>m_mysql := Some h\<rparr>, k4)))"

definition conn_GetPoolName :: "db_conn \<Rightarrow> string" where
  "conn_GetPoolName c = m_pDBPool c"

text \<open>A null handle given to the library is undefined behaviour.\<close>

definition ExecuteQuery :: "'k mysql_api \<Rightarrow> string \<Rightarrow> db_conn \<Rightarrow> 'k \<Rightarrow> (result_set option \<times> 'k) res" where
  "ExecuteQuery my sql_query c k =
     (case m_mysql c of
        None \<Rightarrow> Inl Undefined_Behaviour
      | Some h \<Rightarrow>
          (case my_real_query my h sql_query (my_ping my h k) of (err, k1) \<Rightarrow>
             if err then Inr (None, k1)
             else (case my_store_result my h k1 of
                 (None, k2) \<Rightarrow> Inr (None, k2)
               | (Some res, k2) \<Rightarrow> Inr (Some (CResultSet res), k2))))"

definition ExecuteUpdate :: "'k mysql_api \<Rightarrow> string \<Rightarrow> db_conn \<Rightarrow> 'k \<Rightarrow> (bool \<times> 'k) res" where
  "ExecuteUpdate my sql_query c k =
     (case m_mysql c of
        None \<Rightarrow> Inl Undefined_Behaviour
      | Some h \<Rightarrow>
          (case my_real_query my h sql_query (my_ping my h k) of (err, k1) \<Rightarrow>
             if err then Inr (False, k1)
             else if 0 < my_affected_rows my h k1 then Inr (True, k1) else Inr (False, k1)))"

text \<open>\<open>EscapeString\<close> writes into an array of \<open>MAX_ESCAPE_STRING_LEN + 1\<close> bytes, terminator included, and
  returns that array (\<open>None\<close>: its bytes are still indeterminate). \<open>content\<close> is the memory at the pointer; the
  result of the library call is not looked at, so after a failing one the array is what it was.\<close>

definition EscapeString ::
    "'k mysql_api \<Rightarrow> string \<Rightarrow> 32 word \<Rightarrow> db_conn \<Rightarrow> (string option \<times> db_conn) res" where
  "EscapeString my content content_len c =
     (if MAX_ESCAPE_STRING_LEN div 2 < unat content_len then Inr (Some [], c\<lparr>m_escape_string := Some []\<rparr>)
      else
        (case m_mysql c of
           None \<Rightarrow> Inl Undefined_Behaviour
         | Some h \<Rightarrow>
             if length content < unat content_len then Inl Undefined_Behaviour
             else
               (case my_escape my h (take (unat content_len) content) of
                  None \<Rightarrow> Inr (m_escape_string c, c)
                | Some s \<Rightarrow>
                    if length s + 1 \<le> MAX_ESCAPE_STRING_LEN + 1 then Inr (Some s, c\<lparr>m_escape_string := Some s\<rparr>)
                    else Inl Undefined_Behaviour)))"

definition GetInsertId :: "'k mysql_api \<Rightarrow> db_conn \<Rightarrow> 'k \<Rightarrow> 32 word res" where
  "GetInsertId my c k =
     (case m_mysql c of None \<Rightarrow> Inl Undefined_Behaviour | Some h \<Rightarrow> Inr (of_nat (my_insert_id my h k)))"

section \<open>The pool\<close>

record db_pool = db_conf +
  m_db_cur_conn_cnt :: int
  m_db_max_conn_cnt :: int
  m_free_list :: "nat list"

record 'k db_world =
  dw_kern :: 'k
  dw_next :: nat
  dw_heap :: "nat \<Rightarrow> db_conn option"

definition MIN_DB_CONN_CNT :: int where
  "MIN_DB_CONN_CNT = 2"

definition conf_of :: "db_pool \<Rightarrow> db_conf" where
  "conf_of p = db_conf.truncate p"

definition CDBPool :: "string \<Rightarrow> string \<Rightarrow> 16 word \<Rightarrow> string \<Rightarrow> string \<Rightarrow> string \<Rightarrow> int \<Rightarrow> db_pool" where
  "CDBPool pool_name db_server_ip db_server_port username password db_name max_conn_cnt =
     \<lparr>m_pool_name = pool_name, m_db_server_ip = db_server_ip, m_db_server_port = db_server_port,
      m_username = username, m_password = password, m_db_name = db_name,
      m_db_cur_conn_cnt = MIN_DB_CONN_CNT, m_db_max_conn_cnt = max_conn_cnt, m_free_list = []\<rparr>"

text \<open>\<open>new CDBConn(this)\<close> followed by \<open>Init()\<close>, and \<open>delete\<close> when that fails.\<close>

definition new_conn :: "'k mysql_api \<Rightarrow> db_pool \<Rightarrow> 'k db_world \<Rightarrow> int \<times> nat \<times> 'k db_world" where
  "new_conn my p w =
     (case conn_Init my (conf_of p) (CDBConn (conf_of p)) (dw_kern w) of (ret, c, k) \<Rightarrow>
        (ret, dw_next w,
         w\<lparr>dw_kern := k, dw_next := Suc (dw_next w),
           dw_heap := (if ret \<noteq> 0 then dw_heap w else (dw_heap w)(dw_next w \<mapsto> c))\<rparr>))"

fun pool_Init_loop :: "'k mysql_api \<Rightarrow> nat \<Rightarrow> db_pool \<Rightarrow> 'k db_world \<Rightarrow> int \<times> db_pool \<times> 'k db_world" where
  "pool_Init_loop my 0 p w = (0, p, w)"
| "pool_Init_loop my (Suc n) p w =
     (case new_conn my p w of (ret, c, w1) \<Rightarrow>
        if ret \<noteq> 0 then (ret, p, w1)
        else pool_Init_loop my n (p\<lparr>m_free_list := m_free_list p @ [c]\<rparr>) w1)"

definition pool_Init :: "'k mysql_api \<Rightarrow> db_pool \<Rightarrow> 'k db_world \<Rightarrow> int \<times> db_pool \<times> 'k db_world" where
  "pool_Init my p w = pool_Init_loop my (nat (m_db_cur_conn_cnt p)) p w"

text \<open>\<open>GetDBConn\<close>, holding the mutex: \<open>None\<close> is \<open>cond_.wait\<close>, \<open>Some None\<close> a null pointer. A new
  connection is appended to the free list and the loop ends, so the front of that list is returned.\<close>

definition GetDBConn :: "'k mysql_api \<Rightarrow> db_pool \<Rightarrow> 'k db_world \<Rightarrow> nat option option \<times> db_pool \<times> 'k db_world" where
  "GetDBConn my p w =
     (case m_free_list p of
        c # cs \<Rightarrow> (Some (Some c), p\<lparr>m_free_list := cs\<rparr>, w)
      | [] \<Rightarrow>
          if m_db_max_conn_cnt p \<le> m_db_cur_conn_cnt p then (None, p, w)
          else
            (case new_conn my p w of (ret, c, w1) \<Rightarrow>
               if ret \<noteq> 0 then (Some None, p, w1)
               else
                 let p1 = p\<lparr>m_free_list := m_free_list p @ [c], m_db_cur_conn_cnt := m_db_cur_conn_cnt p + 1\<rparr>
                 in (Some (Some (hd (m_free_list p1))), p1\<lparr>m_free_list := tl (m_free_list p1)\<rparr>, w1)))"

definition RelDBConn :: "nat \<Rightarrow> db_pool \<Rightarrow> db_pool" where
  "RelDBConn pConn p =
     (if pConn \<in> set (m_free_list p) then p else p\<lparr>m_free_list := m_free_list p @ [pConn]\<rparr>)"

definition CDBPool_dtor :: "db_pool \<Rightarrow> 'k db_world \<Rightarrow> db_pool \<times> 'k db_world" where
  "CDBPool_dtor p w =
     (p\<lparr>m_free_list := []\<rparr>,
      w\<lparr>dw_heap := (\<lambda>c. if c \<in> set (m_free_list p) then None else dw_heap w c)\<rparr>)"

section \<open>The manager\<close>

record db_manager =
  m_dbpool_map :: "string \<Rightarrow> db_pool option"

text \<open>\<open>snprintf(buf, 64, "%s_suffix", name)\<close>.\<close>

definition conf_key :: "string \<Rightarrow> string \<Rightarrow> string" where
  "conf_key name suffix = take 63 (name @ suffix)"

text \<open>One instance of the loop of \<open>Init\<close>: both failures are fatal.\<close>

definition manager_Init_one ::
    "'k mysql_api \<Rightarrow> config \<Rightarrow> string \<Rightarrow> db_manager \<times> 'k db_world \<Rightarrow> (db_manager \<times> 'k db_world) res" where
  "manager_Init_one my cfg pool_name mw =
     (case mw of (m, w) \<Rightarrow>
      res_bind (GetConfigName cfg (conf_key pool_name ''_host'')) (\<lambda>db_host.
      res_bind (GetConfigName cfg (conf_key pool_name ''_port'')) (\<lambda>str_db_port.
      res_bind (GetConfigName cfg (conf_key pool_name ''_dbname'')) (\<lambda>db_dbname.
      res_bind (GetConfigName cfg (conf_key pool_name ''_username'')) (\<lambda>db_username.
      res_bind (GetConfigName cfg (conf_key pool_name ''_password'')) (\<lambda>db_password.
      res_bind (GetConfigName cfg (conf_key pool_name ''_maxconncnt'')) (\<lambda>str_maxconncnt.
        case (db_host, str_db_port, db_dbname, db_username, db_password, str_maxconncnt) of
          (Some host, Some port, Some dbname, Some user, Some pass, Some maxcnt) \<Rightarrow>
            (case pool_Init my (CDBPool pool_name host (word_of_int (atoi port)) user pass dbname (atoi maxcnt)) w of
               (ret, p, w1) \<Rightarrow>
                 if ret \<noteq> 0 then Inl Fatal_Exit
                 else Inr (m\<lparr>m_dbpool_map := (if m_dbpool_map m pool_name = None
                             then (m_dbpool_map m)(pool_name \<mapsto> p) else m_dbpool_map m)\<rparr>, w1))
        | _ \<Rightarrow> Inl Fatal_Exit)))))))"

definition manager_Init ::
    "'k mysql_api \<Rightarrow> string option \<Rightarrow> db_manager \<Rightarrow> 'k db_world \<Rightarrow> (int \<times> db_manager \<times> 'k db_world) res" where
  "manager_Init my conf_text m w =
     res_bind (CConfigFileReader conf_text ''dbproxyserver.conf'') (\<lambda>cfg.
     res_bind (GetConfigName cfg ''DBInstances'') (\<lambda>db_instances.
       case db_instances of
         None \<Rightarrow> Inr (1, m, w)
       | Some inst \<Rightarrow>
           res_bind (CStrExplode inst (CHR '','')) (\<lambda>names.
           res_bind (fold_res (\<lambda>i mw. res_bind (GetItem names i) (\<lambda>pool_name. manager_Init_one my cfg pool_name mw))
              [0..<GetItemCnt names] (m, w)) (\<lambda>(m', w').
           res_bind (CStrExplode_dtor names) (\<lambda>_. Inr (0, m', w'))))))"

text \<open>\<open>getInstance\<close> with the singleton pointer \<open>s_db_manager\<close>.\<close>

definition getInstance ::
    "'k mysql_api \<Rightarrow> string option \<Rightarrow> db_manager option \<Rightarrow> 'k db_world \<Rightarrow> (db_manager option \<times> 'k db_world) res" where
  "getInstance my conf_text s_db_manager w =
     (case s_db_manager of
        Some m \<Rightarrow> Inr (Some m, w)
      | None \<Rightarrow>
          res_bind (manager_Init my conf_text \<lparr>m_dbpool_map = Map.empty\<rparr> w) (\<lambda>(ret, m, w1).
            if ret \<noteq> 0 then Inr (None, w1) else Inr (Some m, w1)))"

definition manager_GetDBConn ::
    "'k mysql_api \<Rightarrow> string \<Rightarrow> db_manager \<Rightarrow> 'k db_world \<Rightarrow> nat option option \<times> db_manager \<times> 'k db_world" where
  "manager_GetDBConn my dbpool_name m w =
     (case m_dbpool_map m dbpool_name of
        None \<Rightarrow> (Some None, m, w)
      | Some p \<Rightarrow>
          (case GetDBConn my p w of (r, p', w') \<Rightarrow>
             (r, m\<lparr>m_dbpool_map := (m_dbpool_map m)(dbpool_name \<mapsto> p')\<rparr>, w')))"

definition manager_RelDBConn :: "nat option \<Rightarrow> db_manager \<Rightarrow> 'k db_world \<Rightarrow> db_manager res" where
  "manager_RelDBConn pConn m w =
     (case pConn of
        None \<Rightarrow> Inr m
      | Some c \<Rightarrow>
          (case dw_heap w c of
             None \<Rightarrow> Inl Undefined_Behaviour
           | Some conn \<Rightarrow>
               (case m_dbpool_map m (conn_GetPoolName conn) of
                  None \<Rightarrow> Inr m
                | Some p \<Rightarrow>
                    Inr (m\<lparr>m_dbpool_map := (m_dbpool_map m)(conn_GetPoolName conn \<mapsto> RelDBConn c p)\<rparr>))))"

section \<open>The pool keeps its contract\<close>

lemma new_conn_next: "new_conn my p w = (ret, c, w1) \<Longrightarrow> c = dw_next w \<and> dw_next w1 = Suc (dw_next w)"
  by (auto simp: new_conn_def split: prod.splits)

interpretation dbp: conn_pool m_free_list m_db_cur_conn_cnt m_db_max_conn_cnt dw_next GetDBConn RelDBConn
proof (unfold_locales, goal_cases)
  case (1 p c cs a w)
  then show ?case by (simp add: GetDBConn_def)
next
  case (2 p a w)
  then show ?case by (simp add: GetDBConn_def)
next
  case (3 p a w)
  obtain ret c w1 where n: "new_conn a p w = (ret, c, w1)" by (metis prod_cases3)
  with new_conn_next [OF n] 3 show ?case by (cases "ret = 0") (auto simp: GetDBConn_def)
qed (auto simp: RelDBConn_def)

lemma pool_Init_loop_ok:
  assumes "pool_Init_loop my n p w = (0, p', w')"
  shows "m_free_list p' = m_free_list p @ [dw_next w..<dw_next w + n] \<and> dw_next w' = dw_next w + n \<and>
    m_db_cur_conn_cnt p' = m_db_cur_conn_cnt p \<and> m_db_max_conn_cnt p' = m_db_max_conn_cnt p"
  using assms
proof (induction n arbitrary: p w)
  case 0
  then show ?case by simp
next
  case (Suc n)
  obtain ret c w1 where n: "new_conn my p w = (ret, c, w1)" by (metis prod_cases3)
  with Suc.prems have r: "ret = 0" and rest: "pool_Init_loop my n (p\<lparr>m_free_list := m_free_list p @ [c]\<rparr>) w1 = (0, p', w')"
    by (auto split: if_splits)
  have c: "c = dw_next w" "dw_next w1 = Suc (dw_next w)" using new_conn_next [OF n] by auto
  have "[dw_next w..<dw_next w + Suc n] = dw_next w # [Suc (dw_next w)..<Suc (dw_next w) + n]"
    by (simp add: upt_conv_Cons)
  with Suc.IH [OF rest] c show ?case by simp
qed

text \<open>A pool whose \<open>Init\<close> succeeded starts with its minimum of free connections.\<close>

lemma pool_Init_inv:
  assumes "pool_Init my (CDBPool nm ip port user pass db maxcnt) w = (0, p, w')"
  shows "pool_inv m_free_list m_db_cur_conn_cnt dw_next (p, w', [])"
    "m_db_cur_conn_cnt p = 2" "m_db_max_conn_cnt p = maxcnt" "length (m_free_list p) = 2"
proof -
  have "pool_Init_loop my 2 (CDBPool nm ip port user pass db maxcnt) w = (0, p, w')"
    using assms by (simp add: pool_Init_def CDBPool_def MIN_DB_CONN_CNT_def)
  from pool_Init_loop_ok [OF this]
  show "pool_inv m_free_list m_db_cur_conn_cnt dw_next (p, w', [])" "m_db_cur_conn_cnt p = 2"
    "m_db_max_conn_cnt p = maxcnt" "length (m_free_list p) = 2"
    by (auto simp: pool_inv_def CDBPool_def MIN_DB_CONN_CNT_def)
qed

section \<open>Columns\<close>

text \<open>The map of a result set sends a name to its first column.\<close>

lemma key_map_first:
  "key_map fs i m k = (case m k of Some j \<Rightarrow> Some j | None \<Rightarrow>
     if k \<in> set fs then Some (i + length (takeWhile (\<lambda>f. f \<noteq> k) fs)) else None)"
  by (induction fs arbitrary: i m) (auto split: option.splits)

lemma GetIndex_first:
  "GetIndex (CResultSet res) k =
   (if k \<in> set (res_fields res) then int (length (takeWhile (\<lambda>f. f \<noteq> k) (res_fields res))) else -1)"
  by (simp add: GetIndex_def CResultSet_def key_map_first)

lemma Next_keys [simp]: "m_key_map (snd (Next my rs)) = m_key_map rs"
  by (simp add: Next_def Let_def split: prod.splits)

lemma Next_rows:
  assumes "fetch_ok my"
  shows "Next my rs = (case res_rows (m_res rs) of
      [] \<Rightarrow> (False, rs\<lparr>m_row := Some None\<rparr>)
    | r # rows \<Rightarrow> (True, rs\<lparr>m_res := (m_res rs)\<lparr>res_rows := rows\<rparr>, m_row := Some (Some r)\<rparr>))"
  using assms by (simp add: fetch_ok_def Next_def Let_def split: list.splits)

lemma takeWhile_less: "k \<in> set fs \<Longrightarrow> length (takeWhile (\<lambda>f. f \<noteq> k) fs) < length fs"
  by (induction fs) auto

text \<open>The rows a loop \<open>while (Next())\<close> sees.\<close>

fun fetch_all :: "'k mysql_api \<Rightarrow> nat \<Rightarrow> result_set \<Rightarrow> string option list list" where
  "fetch_all my 0 rs = []"
| "fetch_all my (Suc n) rs =
     (case Next my rs of (found, rs') \<Rightarrow>
        if found then (case m_row rs' of Some (Some r) \<Rightarrow> r # fetch_all my n rs' | _ \<Rightarrow> []) else [])"

lemma fetch_all_rows: "fetch_ok my \<Longrightarrow> length (res_rows (m_res rs)) < n \<Longrightarrow> fetch_all my n rs = res_rows (m_res rs)"
proof (induction n arbitrary: rs)
  case 0
  then show ?case by simp
next
  case (Suc n)
  then show ?case by (cases "res_rows (m_res rs)") (auto simp: Next_rows)
qed

section \<open>Properties\<close>

text \<open>A server that accepts every connection and answers every query with the rows \<open>k\<close> holds.\<close>

definition sim_mysql :: "mysql_res mysql_api" where
  "sim_mysql = \<lparr>my_init = (\<lambda>k. (Some 1, k)), my_options = (\<lambda>_ _ k. k), my_real_connect = (\<lambda>_ _ _ _ _ _ k. (True, k)),
     my_ping = (\<lambda>_ k. k), my_real_query = (\<lambda>_ _ k. (False, k)), my_store_result = (\<lambda>_ k. (Some k, k)),
     my_fetch_row = (\<lambda>res. case res_rows res of [] \<Rightarrow> (None, res) | r # rows \<Rightarrow> (Some r, res\<lparr>res_rows := rows\<rparr>)),
     my_affected_rows = (\<lambda>_ _. 1), my_escape = (\<lambda>_ s. Some (concat (map (\<lambda>c. if c = CHR 0x27 then [CHR 0x5C, c] else [c]) s))),
     my_insert_id = (\<lambda>_ _. 7), st_init = (\<lambda>_ k. (Some 1, k)), st_prepare = (\<lambda>_ _ k. (False, k)),
     st_param_count = (\<lambda>_ _. 2), st_bind_param = (\<lambda>_ _ k. (False, k)), st_execute = (\<lambda>_ k. (False, k)),
     st_affected_rows = (\<lambda>_ _. 1), st_insert_id = (\<lambda>_ _. 7), st_close = (\<lambda>_ k. k)\<rparr>"

lemma sim_fetch_ok: "fetch_ok sim_mysql"
  by (simp add: fetch_ok_def sim_mysql_def)

lemma sim_escape_ok: "escape_ok sim_mysql"
proof -
  have "length (concat (map (\<lambda>c. if c = CHR 0x27 then [CHR 0x5C, c] else [c]) s)) \<le> 2 * length s" for s :: string
    by (induction s) auto
  then show ?thesis by (auto simp: escape_ok_def sim_mysql_def)
qed

definition sim_world :: "mysql_res db_world" where
  "sim_world = \<lparr>dw_kern = \<lparr>res_fields = [], res_rows = []\<rparr>, dw_next = 0, dw_heap = Map.empty\<rparr>"

definition sim_pool :: "int \<Rightarrow> db_pool" where
  "sim_pool n = CDBPool ''teamtalk_slave'' ''127.0.0.1'' 3306 ''root'' ''root'' ''teamtalk'' n"

text \<open>C20: The MySQL pool, after a successful \<open>Init\<close> and in any interleaving of users that take and
  return connections: no connection is lent to two users or is both lent and free; never more than
  the configured maximum (but at least two) are lent; a user waits only while every connection is
  lent and the maximum is reached; and after a return the next call gets a connection without
  waiting.\<close>

theorem db_pool_lends_each_once:
  assumes "pool_Init my (CDBPool nm ip port user pass db maxcnt) w0 = (0, p0, w1)"
    and "fold (pool_step (GetDBConn my) RelDBConn) ops (p0, w1, []) = (p, w, lent)"
  shows "distinct lent \<and> set lent \<inter> set (m_free_list p) = {} \<and> int (length lent) \<le> max 2 maxcnt \<and>
    (fst (GetDBConn my p w) = None \<longrightarrow> int (length lent) = m_db_cur_conn_cnt p \<and> maxcnt \<le> m_db_cur_conn_cnt p) \<and>
    (\<forall>c. \<exists>d p'. GetDBConn my (RelDBConn c p) w = (Some (Some d), p', w) \<and> d \<in> insert c (set (m_free_list p)))"
proof -
  note init = pool_Init_inv [OF assms(1)]
  have b: "m_db_cur_conn_cnt (fst (p0, w1, [] :: nat list)) \<le> max 2 (m_db_max_conn_cnt (fst (p0, w1, [] :: nat list)))"
    using init(2) by simp
  have "m_db_max_conn_cnt p = maxcnt"
    using dbp.run_inv [OF init(1) b assms(2) [symmetric]] init(3) by simp
  then show ?thesis
    using dbp.session_safe [OF init(1) b assms(2)] dbp.release_serves_waiter [of my] init(3) by auto
qed

theorem db_pool_lends_each_once_witness:
  "\<exists>p0 w1 p w. pool_Init sim_mysql (sim_pool 2) sim_world = (0, p0, w1) \<and>
     fold (pool_step (GetDBConn sim_mysql) RelDBConn) [Op_get, Op_get, Op_get] (p0, w1, []) = (p, w, [1, 0]) \<and>
     fst (GetDBConn sim_mysql p w) = None \<and> distinct [1 :: nat, 0] \<and> int (length [1 :: nat, 0]) = m_db_cur_conn_cnt p"
proof -
  obtain p0 w1 where i: "pool_Init sim_mysql (sim_pool 2) sim_world = (0, p0, w1)" and f: "m_free_list p0 = [0, 1]"
    "m_db_cur_conn_cnt p0 = 2" "m_db_max_conn_cnt p0 = 2"
    by (simp add: pool_Init_def sim_pool_def CDBPool_def MIN_DB_CONN_CNT_def numeral_2_eq_2 new_conn_def conn_Init_def
        sim_mysql_def sim_world_def)
  obtain p w where r: "fold (pool_step (GetDBConn sim_mysql) RelDBConn) [Op_get, Op_get, Op_get] (p0, w1, []) = (p, w, [1, 0])"
    and n: "fst (GetDBConn sim_mysql p w) = None"
    using f by (simp add: pool_step_def GetDBConn_def)
  show ?thesis
    using i r n db_pool_lends_each_once [OF i [unfolded sim_pool_def] r] by auto
qed

text \<open>C25: A result set yields the rows of the query in order and no others; on a row, a column is read
  by the first field of that name, an unknown name reads as a null pointer (as 0 for integers), and
  reading before the first \<open>Next\<close> is undefined.\<close>

theorem result_set_reads_rows:
  assumes "fetch_ok my" and "\<forall>r \<in> set (res_rows res). length r = length (res_fields res)"
  shows "fetch_all my (Suc (length (res_rows res))) (CResultSet res) = res_rows res \<and>
    (\<forall>k. k \<in> set (res_fields res) \<longrightarrow> GetString (CResultSet res) k = Inl Undefined_Behaviour) \<and>
    (case res_rows res of
       [] \<Rightarrow> fst (Next my (CResultSet res)) = False
     | r # rows \<Rightarrow> fst (Next my (CResultSet res)) \<and>
         (\<forall>k. GetString (snd (Next my (CResultSet res))) k =
            Inr (if k \<in> set (res_fields res) then r ! length (takeWhile (\<lambda>f. f \<noteq> k) (res_fields res)) else None)) \<and>
         (\<forall>k. k \<notin> set (res_fields res) \<longrightarrow> GetInt (snd (Next my (CResultSet res))) k = Inr 0))"
proof -
  have rs: "m_res (CResultSet res) = res" "m_row (CResultSet res) = None" by (simp_all add: CResultSet_def)
  have rows: "fetch_all my (Suc (length (res_rows res))) (CResultSet res) = res_rows res"
    using fetch_all_rows [OF assms(1), of "CResultSet res" "Suc (length (res_rows res))"] rs by (simp del: fetch_all.simps)
  have uninit: "GetString (CResultSet res) k = Inl Undefined_Behaviour" if "k \<in> set (res_fields res)" for k
    using that rs by (simp add: GetString_def GetIndex_first cell_def)
  have idx: "GetIndex (snd (Next my (CResultSet res))) k = GetIndex (CResultSet res) k" for k
    by (simp add: GetIndex_def)
  show ?thesis
  proof (cases "res_rows res")
    case Nil
    then show ?thesis using rows uninit rs by (auto simp: Next_rows [OF assms(1)])
  next
    case (Cons r rest)
    then have len: "length r = length (res_fields res)" using assms(2) by simp
    have row: "m_row (snd (Next my (CResultSet res))) = Some (Some r)" "fst (Next my (CResultSet res))"
      using Cons rs by (simp_all add: Next_rows [OF assms(1)])
    have "GetString (snd (Next my (CResultSet res))) k =
        Inr (if k \<in> set (res_fields res) then r ! length (takeWhile (\<lambda>f. f \<noteq> k) (res_fields res)) else None)" for k
      using len takeWhile_less [of k "res_fields res"]
      by (simp add: GetString_def idx GetIndex_first cell_def row)
    then show ?thesis using rows uninit row(2) Cons by (auto simp: GetInt_def idx GetIndex_first)
  qed
qed

theorem result_set_reads_rows_witness:
  "fetch_all sim_mysql 2 (CResultSet \<lparr>res_fields = [''id'', ''nick''], res_rows = [[Some ''7'', None]]\<rparr>) = [[Some ''7'', None]] \<and>
   GetString (snd (Next sim_mysql (CResultSet \<lparr>res_fields = [''id'', ''nick''], res_rows = [[Some ''7'', None]]\<rparr>))) ''id'' = Inr (Some ''7'')"
proof -
  let ?res = "\<lparr>res_fields = [''id'', ''nick''], res_rows = [[Some ''7'', None]]\<rparr>"
  have h: "\<forall>r \<in> set (res_rows ?res). length r = length (res_fields ?res)" by simp
  show ?thesis using result_set_reads_rows [OF sim_fetch_ok h] by (simp add: numeral_2_eq_2)
qed

text \<open>C26: Escaping never overruns the 10241 bytes of \<open>m_escape_string\<close>, whatever the input: a content of
  at most 5120 bytes is escaped completely (unless the library refuses, which leaves the array as it was), a
  longer one yields the empty string. (The client library documents that a character becomes at most two.)\<close>

theorem EscapeString_fits:
  assumes "escape_ok my" and "m_mysql c = Some h" and "unat content_len \<le> length content"
    and "\<forall>t. m_escape_string c = Some t \<longrightarrow> length t \<le> MAX_ESCAPE_STRING_LEN"
  shows "\<exists>s c'. EscapeString my content content_len c = Inr (s, c') \<and> m_escape_string c' = s \<and> m_mysql c' = m_mysql c \<and>
    (\<forall>t. s = Some t \<longrightarrow> length t < MAX_ESCAPE_STRING_LEN + 1) \<and>
    s = (if 5120 < unat content_len then Some []
         else case my_escape my h (take (unat content_len) content) of None \<Rightarrow> m_escape_string c | Some t \<Rightarrow> Some t)"
proof (cases "5120 < unat content_len")
  case True
  then show ?thesis by (simp add: EscapeString_def MAX_ESCAPE_STRING_LEN_def)
next
  case False
  have "length t \<le> MAX_ESCAPE_STRING_LEN" if "my_escape my h (take (unat content_len) content) = Some t" for t
  proof -
    have "length t \<le> 2 * length (take (unat content_len) content)" using assms(1) that unfolding escape_ok_def by blast
    then show ?thesis using False assms(3) by (simp add: MAX_ESCAPE_STRING_LEN_def)
  qed
  then show ?thesis using False assms(2-4)
    by (auto simp: EscapeString_def MAX_ESCAPE_STRING_LEN_def split: option.splits)
qed

theorem EscapeString_fits_witness:
  "\<exists>c'. EscapeString sim_mysql [CHR ''O'', CHR 0x27, CHR ''x''] 3 \<lparr>m_pDBPool = ''p'', m_mysql = Some 1, m_escape_string = None\<rparr> =
     Inr (Some [CHR ''O'', CHR 0x5C, CHR 0x27, CHR ''x''], c')"
proof -
  let ?c = "\<lparr>m_pDBPool = ''p'', m_mysql = Some 1, m_escape_string = None\<rparr>" and ?s = "[CHR ''O'', CHR 0x27, CHR ''x'']"
  have 1: "m_mysql ?c = Some 1" by simp
  have 2: "unat (3 :: 32 word) \<le> length ?s" by simp
  have 3: "\<forall>t. m_escape_string ?c = Some t \<longrightarrow> length t \<le> MAX_ESCAPE_STRING_LEN" by simp
  show ?thesis using EscapeString_fits [OF sim_escape_ok 1 2 3] by (auto simp: sim_mysql_def)
qed

end
