(* ===== verification/Db_Cache.thy ===== *)
theory Db_Cache
  imports Conn_Pool Base_Config Base_Explode
begin

text \<open>
  \<open>db_proxy_server/CachePool.h\<close> and \<open>CachePool.cc\<close>: Redis connections with every command they offer,
  the connection pool and the manager. The hiredis library and the server behind it are the record
  \<open>redis_api\<close>, an argument \<open>rd\<close>; \<open>'k\<close> is their state. A command is given as its argument list, which
  is what \<open>redisCommand\<close> makes of a format whose words are separated by blanks and whose \<open>%s\<close>, \<open>%d\<close>
  and \<open>%ld\<close> conversions each fill one word; a C++ string passed by \<open>c_str()\<close> ends at its first NUL.
\<close>

section \<open>The client library\<close>

datatype redisReply =
    Reply_String string | Reply_Array "redisReply list" | Reply_Integer int
  | Reply_Nil | Reply_Status string | Reply_Error string

record 'k redis_api =
  rd_time :: "'k \<Rightarrow> nat"
  rd_connect :: "string \<Rightarrow> int \<Rightarrow> 'k \<Rightarrow> (nat \<times> bool) option \<times> 'k"
  rd_command :: "nat \<Rightarrow> string list \<Rightarrow> 'k \<Rightarrow> redisReply option \<times> 'k"
  rd_free :: "nat \<Rightarrow> 'k \<Rightarrow> 'k"

text \<open>\<open>reply->str\<close> with its length, and \<open>reply->integer\<close>: the members a reply does not have are zero.\<close>

definition reply_str :: "redisReply \<Rightarrow> string" where
  "reply_str r = (case r of Reply_String s \<Rightarrow> s | Reply_Status s \<Rightarrow> s | Reply_Error s \<Rightarrow> s | _ \<Rightarrow> [])"

definition reply_integer :: "redisReply \<Rightarrow> int" where
  "reply_integer r = (case r of Reply_Integer i \<Rightarrow> i | _ \<Rightarrow> 0)"

definition cstr :: "string \<Rightarrow> string" where
  "cstr s = takeWhile (\<lambda>c. c \<noteq> CHR 0x00) s"

section \<open>Connections\<close>

text \<open>The context pointer: null, valid, or freed without being cleared.\<close>

datatype context_ptr = Null_Context | Context nat | Freed_Context nat

record cache_conf =
  cm_pool_name :: string
  cm_server_ip :: string
  cm_server_port :: int
  cm_db_num :: int

record cache_conn =
  m_pCachePool :: string
  m_pContext :: context_ptr
  m_last_connect_time :: "64 word"

definition CacheConn :: "cache_conf \<Rightarrow> cache_conn" where
  "CacheConn pool = \<lparr>m_pCachePool = cm_pool_name pool, m_pContext = Null_Context, m_last_connect_time = 0\<rparr>"

text \<open>The destructor frees a context that is not null; freeing it twice is undefined.\<close>

definition CacheConn_dtor :: "'k redis_api \<Rightarrow> cache_conn \<Rightarrow> 'k \<Rightarrow> (cache_conn \<times> 'k) res" where
  "CacheConn_dtor rd c k =
     (case m_pContext c of
        Null_Context \<Rightarrow> Inr (c, k)
      | Context x \<Rightarrow> Inr (c\<lparr>m_pContext := Null_Context\<rparr>, rd_free rd x k)
      | Freed_Context x \<Rightarrow> Inl Undefined_Behaviour)"

text \<open>\<open>Init\<close>: 0 when there is a context or one was made and its database selected, 1 when connecting
  failed or the last attempt is less than four seconds ago, 2 when the database was not selected;
  then the context stays.\<close>

definition cache_Init :: "'k redis_api \<Rightarrow> cache_conf \<Rightarrow> cache_conn \<Rightarrow> 'k \<Rightarrow> int \<times> cache_conn \<times> 'k" where
  "cache_Init rd pool c k =
     (if m_pContext c \<noteq> Null_Context then (0, c, k)
      else
        let cur_time = (of_nat (rd_time rd k) :: 64 word) in
        if cur_time < m_last_connect_time c + 4 then (1, c, k)
        else
          let c1 = c\<lparr>m_last_connect_time := cur_time\<rparr> in
          (case rd_connect rd (cm_server_ip pool) (cm_server_port pool) k of
             (None, k1) \<Rightarrow> (1, c1\<lparr>m_pContext := Null_Context\<rparr>, k1)
           | (Some (x, err), k1) \<Rightarrow>
               if err then (1, c1\<lparr>m_pContext := Null_Context\<rparr>, rd_free rd x k1)
               else
                 let c2 = c1\<lparr>m_pContext := Context x\<rparr> in
                 (case rd_command rd x [''SELECT'', show_int (cm_db_num pool)] k1 of (reply, k2) \<Rightarrow>
                    (case reply of
                       Some (Reply_Status s) \<Rightarrow> if take 2 s = ''OK'' then (0, c2, k2) else (2, c2, k2)
                     | _ \<Rightarrow> (2, c2, k2)))))"

definition cache_GetPoolName :: "cache_conn \<Rightarrow> string" where
  "cache_GetPoolName c = m_pCachePool c"

text \<open>
  The shape of every command but \<open>mget\<close> and \<open>isExists\<close>, which are written out below: \<open>Init\<close>, then the command on the context, then \<open>f\<close> on the reply; without
  a reply the context is freed and set to null and the default is returned. A context that was freed
  is used after free.
\<close>

definition command ::
    "'k redis_api \<Rightarrow> cache_conf \<Rightarrow> 'r \<Rightarrow> string list \<Rightarrow> (redisReply \<Rightarrow> 'r res) \<Rightarrow> cache_conn \<Rightarrow> 'k \<Rightarrow>
     ('r \<times> cache_conn \<times> 'k) res" where
  "command rd pool dflt args f c k =
     (case cache_Init rd pool c k of (ret, c1, k1) \<Rightarrow>
        if ret \<noteq> 0 then Inr (dflt, c1, k1)
        else
          (case m_pContext c1 of
             Context x \<Rightarrow>
               (case rd_command rd x args k1 of
                  (None, k2) \<Rightarrow> Inr (dflt, c1\<lparr>m_pContext := Null_Context\<rparr>, rd_free rd x k2)
                | (Some reply, k2) \<Rightarrow> res_bind (f reply) (\<lambda>r. Inr (r, c1, k2)))
           | _ \<Rightarrow> Inl Undefined_Behaviour))"

type_synonym ('k, 'r) cache_op = "cache_conn \<Rightarrow> 'k \<Rightarrow> ('r \<times> cache_conn \<times> 'k) res"

definition get :: "'k redis_api \<Rightarrow> cache_conf \<Rightarrow> string \<Rightarrow> ('k, string) cache_op" where
  "get rd pool key =
     command rd pool [] [''GET'', cstr key]
       (\<lambda>r. Inr (case r of Reply_String s \<Rightarrow> s | _ \<Rightarrow> []))"

definition setex :: "'k redis_api \<Rightarrow> cache_conf \<Rightarrow> string \<Rightarrow> int \<Rightarrow> string \<Rightarrow> ('k, string) cache_op" where
  "setex rd pool key timeout value =
     command rd pool [] [''SETEX'', cstr key, show_int timeout, cstr value] (\<lambda>r. Inr (reply_str r))"

definition set_key :: "'k redis_api \<Rightarrow> cache_conf \<Rightarrow> string \<Rightarrow> string \<Rightarrow> ('k, string) cache_op" where
  "set_key rd pool key value =
     command rd pool [] [''SET'', cstr key, cstr value] (\<lambda>r. Inr (reply_str r))"

text \<open>\<open>mget\<close> joins the keys with blanks and passes the text as the format itself: a blank in a key
  starts a new argument, and a conversion without its argument is undefined.\<close>

fun join_keys :: "string list \<Rightarrow> string" where
  "join_keys [] = []"
| "join_keys [k] = k"
| "join_keys (k # ks) = k @ CHR '' '' # join_keys ks"

fun format_text :: "string \<Rightarrow> string option" where
  "format_text [] = Some []"
| "format_text [c] = (if c = CHR 0x25 then None else Some [c])"
| "format_text (c # d # cs) =
     (if c = CHR 0x25 then (if d = CHR 0x25 then map_option (Cons c) (format_text cs) else None)
      else map_option (Cons c) (format_text (d # cs)))"

definition format_words :: "string \<Rightarrow> string list" where
  "format_words s = filter (\<lambda>w. w \<noteq> []) (split_fields (CHR '' '') s)"

fun mget_fill :: "string list \<Rightarrow> redisReply list \<Rightarrow> nat \<Rightarrow> (string \<Rightarrow> string option) \<Rightarrow> (string \<Rightarrow> string option) res" where
  "mget_fill keys [] i m = Inr m"
| "mget_fill keys (r # rs) i m =
     (case r of
        Reply_String s \<Rightarrow>
          if i < length keys then mget_fill keys rs (Suc i) (m(keys ! i \<mapsto> cstr s)) else Inl Undefined_Behaviour
      | _ \<Rightarrow> mget_fill keys rs (Suc i) m)"

definition mget ::
    "'k redis_api \<Rightarrow> cache_conf \<Rightarrow> string list \<Rightarrow> (string \<Rightarrow> string option) \<Rightarrow>
     ('k, bool \<times> (string \<Rightarrow> string option)) cache_op" where
  "mget rd pool keys ret_value c k =
     (case cache_Init rd pool c k of (ret, c1, k1) \<Rightarrow>
        if ret \<noteq> 0 then Inr ((False, ret_value), c1, k1)
        else if keys = [] then Inr ((False, ret_value), c1, k1)
        else if join_keys keys = [] then Inr ((False, ret_value), c1, k1)
        else
          (case (m_pContext c1, format_text (cstr (''MGET '' @ join_keys keys))) of
             (Context x, Some fmt) \<Rightarrow>
               (case rd_command rd x (format_words fmt) k1 of
                  (None, k2) \<Rightarrow> Inr ((False, ret_value), c1\<lparr>m_pContext := Null_Context\<rparr>, rd_free rd x k2)
                | (Some (Reply_Array rs), k2) \<Rightarrow>
                    res_bind (mget_fill keys rs 0 ret_value) (\<lambda>m. Inr ((True, m), c1, k2))
                | (Some _, k2) \<Rightarrow> Inr ((True, ret_value), c1, k2))
           | _ \<Rightarrow> Inl Undefined_Behaviour))"

text \<open>\<open>isExists\<close> frees the context when there is no reply but does not set it to null.\<close>

definition isExists :: "'k redis_api \<Rightarrow> cache_conf \<Rightarrow> string \<Rightarrow> ('k, bool) cache_op" where
  "isExists rd pool key c k =
     (case cache_Init rd pool c k of (ret, c1, k1) \<Rightarrow>
        if ret \<noteq> 0 then Inr (False, c1, k1)
        else
          (case m_pContext c1 of
             Context x \<Rightarrow>
               (case rd_command rd x [''EXISTS'', cstr key] k1 of
                  (None, k2) \<Rightarrow> Inr (False, c1\<lparr>m_pContext := Freed_Context x\<rparr>, rd_free rd x k2)
                | (Some reply, k2) \<Rightarrow> Inr (reply_integer reply \<noteq> 0, c1, k2))
           | _ \<Rightarrow> Inl Undefined_Behaviour))"

definition hdel :: "'k redis_api \<Rightarrow> cache_conf \<Rightarrow> string \<Rightarrow> string \<Rightarrow> ('k, int) cache_op" where
  "hdel rd pool key field =
     command rd pool 0 [''HDEL'', cstr key, cstr field] (\<lambda>r. Inr (reply_integer r))"

definition hget :: "'k redis_api \<Rightarrow> cache_conf \<Rightarrow> string \<Rightarrow> string \<Rightarrow> ('k, string) cache_op" where
  "hget rd pool key field =
     command rd pool [] [''HGET'', cstr key, cstr field]
       (\<lambda>r. Inr (case r of Reply_String s \<Rightarrow> s | _ \<Rightarrow> []))"

fun hgetAll_fill :: "redisReply list \<Rightarrow> (string \<Rightarrow> string option) \<Rightarrow> string \<Rightarrow> string option" where
  "hgetAll_fill (f # v # rs) m =
     hgetAll_fill rs (if m (reply_str f) = None then m(reply_str f \<mapsto> reply_str v) else m)"
| "hgetAll_fill rs m = m"

definition hgetAll ::
    "'k redis_api \<Rightarrow> cache_conf \<Rightarrow> string \<Rightarrow> (string \<Rightarrow> string option) \<Rightarrow>
     ('k, bool \<times> (string \<Rightarrow> string option)) cache_op" where
  "hgetAll rd pool key ret_value =
     command rd pool (False, ret_value) [''HGETALL'', cstr key]
       (\<lambda>r. Inr (True, case r of
          Reply_Array rs \<Rightarrow> if even (length rs) then hgetAll_fill rs ret_value else ret_value
        | _ \<Rightarrow> ret_value))"

definition hset :: "'k redis_api \<Rightarrow> cache_conf \<Rightarrow> string \<Rightarrow> string \<Rightarrow> string \<Rightarrow> ('k, int) cache_op" where
  "hset rd pool key field value =
     command rd pool (-1) [''HSET'', cstr key, cstr field, cstr value] (\<lambda>r. Inr (reply_integer r))"

definition hincrBy :: "'k redis_api \<Rightarrow> cache_conf \<Rightarrow> string \<Rightarrow> string \<Rightarrow> int \<Rightarrow> ('k, int) cache_op" where
  "hincrBy rd pool key field value =
     command rd pool (-1) [''HINCRBY'', cstr key, cstr field, show_int value] (\<lambda>r. Inr (reply_integer r))"

definition incrBy :: "'k redis_api \<Rightarrow> cache_conf \<Rightarrow> string \<Rightarrow> int \<Rightarrow> ('k, int) cache_op" where
  "incrBy rd pool key value =
     command rd pool (-1) [''INCRBY'', cstr key, show_int value] (\<lambda>r. Inr (reply_integer r))"

text \<open>\<open>hash\<close> is the map in the order of its keys.\<close>

definition hmset :: "'k redis_api \<Rightarrow> cache_conf \<Rightarrow> string \<Rightarrow> (string \<times> string) list \<Rightarrow> ('k, string) cache_op" where
  "hmset rd pool key hash =
     command rd pool [] ([''HMSET'', cstr key] @ concat (map (\<lambda>(f, v). [cstr f, cstr v]) hash))
       (\<lambda>r. Inr (reply_str r))"

definition hmget ::
    "'k redis_api \<Rightarrow> cache_conf \<Rightarrow> string \<Rightarrow> string list \<Rightarrow> string list \<Rightarrow> ('k, bool \<times> string list) cache_op" where
  "hmget rd pool key flds ret_value =
     command rd pool (False, ret_value) ([''HMGET'', cstr key] @ map cstr flds)
       (\<lambda>r. Inr (True, case r of Reply_Array rs \<Rightarrow> ret_value @ map reply_str rs | _ \<Rightarrow> ret_value))"

definition incr :: "'k redis_api \<Rightarrow> cache_conf \<Rightarrow> string \<Rightarrow> ('k, int) cache_op" where
  "incr rd pool key = command rd pool (-1) [''INCR'', cstr key] (\<lambda>r. Inr (reply_integer r))"

definition decr :: "'k redis_api \<Rightarrow> cache_conf \<Rightarrow> string \<Rightarrow> ('k, int) cache_op" where
  "decr rd pool key = command rd pool (-1) [''DECR'', cstr key] (\<lambda>r. Inr (reply_integer r))"

definition lpush :: "'k redis_api \<Rightarrow> cache_conf \<Rightarrow> string \<Rightarrow> string \<Rightarrow> ('k, int) cache_op" where
  "lpush rd pool key value =
     command rd pool (-1) [''LPUSH'', cstr key, cstr value] (\<lambda>r. Inr (reply_integer r))"

definition rpush :: "'k redis_api \<Rightarrow> cache_conf \<Rightarrow> string \<Rightarrow> string \<Rightarrow> ('k, int) cache_op" where
  "rpush rd pool key value =
     command rd pool (-1) [''RPUSH'', cstr key, cstr value] (\<lambda>r. Inr (reply_integer r))"

definition llen :: "'k redis_api \<Rightarrow> cache_conf \<Rightarrow> string \<Rightarrow> ('k, int) cache_op" where
  "llen rd pool key = command rd pool (-1) [''LLEN'', cstr key] (\<lambda>r. Inr (reply_integer r))"

text \<open>\<open>lrange\<close> passes its \<open>long\<close> arguments to \<open>%d\<close>: only their low 32 bits are read.\<close>

definition lrange ::
    "'k redis_api \<Rightarrow> cache_conf \<Rightarrow> string \<Rightarrow> int \<Rightarrow> int \<Rightarrow> string list \<Rightarrow> ('k, bool \<times> string list) cache_op" where
  "lrange rd pool key start stop ret_value =
     command rd pool (False, ret_value) [''LRANGE'', cstr key, show_int (to_int32 start), show_int (to_int32 stop)]
       (\<lambda>r. Inr (True, case r of Reply_Array rs \<Rightarrow> ret_value @ map reply_str rs | _ \<Rightarrow> ret_value))"

section \<open>The pool and the manager\<close>

record cache_pool = cache_conf +
  m_cur_conn_cnt :: int
  m_max_conn_cnt :: int
  cm_free_list :: "nat list"

record 'k cache_world =
  cw_kern :: 'k
  cw_next :: nat
  cw_heap :: "nat \<Rightarrow> cache_conn option"

definition MIN_CACHE_CONN_CNT :: int where
  "MIN_CACHE_CONN_CNT = 2"

definition cache_conf_of :: "cache_pool \<Rightarrow> cache_conf" where
  "cache_conf_of p = cache_conf.truncate p"

definition CachePool :: "string \<Rightarrow> string \<Rightarrow> int \<Rightarrow> int \<Rightarrow> int \<Rightarrow> cache_pool" where
  "CachePool pool_name server_ip server_port db_num max_conn_cnt =
     \<lparr>cm_pool_name = pool_name, cm_server_ip = server_ip, cm_server_port = server_port, cm_db_num = db_num,
      m_cur_conn_cnt = MIN_CACHE_CONN_CNT, m_max_conn_cnt = max_conn_cnt, cm_free_list = []\<rparr>"

text \<open>\<open>new CacheConn(this)\<close> followed by \<open>Init()\<close>; when that fails the object is deleted, which frees a
  context that is left.\<close>

definition new_cache_conn :: "'k redis_api \<Rightarrow> cache_pool \<Rightarrow> 'k cache_world \<Rightarrow> int \<times> nat \<times> 'k cache_world" where
  "new_cache_conn rd p w =
     (case cache_Init rd (cache_conf_of p) (CacheConn (cache_conf_of p)) (cw_kern w) of (ret, c, k) \<Rightarrow>
        (ret, cw_next w,
         w\<lparr>cw_kern := (if ret = 0 then k else case m_pContext c of Context x \<Rightarrow> rd_free rd x k | _ \<Rightarrow> k),
           cw_next := Suc (cw_next w),
           cw_heap := (if ret \<noteq> 0 then cw_heap w else (cw_heap w)(cw_next w \<mapsto> c))\<rparr>))"

fun cache_pool_loop :: "'k redis_api \<Rightarrow> nat \<Rightarrow> cache_pool \<Rightarrow> 'k cache_world \<Rightarrow> int \<times> cache_pool \<times> 'k cache_world" where
  "cache_pool_loop rd 0 p w = (0, p, w)"
| "cache_pool_loop rd (Suc n) p w =
     (case new_cache_conn rd p w of (ret, c, w1) \<Rightarrow>
        if ret \<noteq> 0 then (1, p, w1)
        else cache_pool_loop rd n (p\<lparr>cm_free_list := cm_free_list p @ [c]\<rparr>) w1)"

definition cache_pool_Init :: "'k redis_api \<Rightarrow> cache_pool \<Rightarrow> 'k cache_world \<Rightarrow> int \<times> cache_pool \<times> 'k cache_world" where
  "cache_pool_Init rd p w = cache_pool_loop rd (nat (m_cur_conn_cnt p)) p w"

definition GetCacheConn ::
    "'k redis_api \<Rightarrow> cache_pool \<Rightarrow> 'k cache_world \<Rightarrow> nat option option \<times> cache_pool \<times> 'k cache_world" where
  "GetCacheConn rd p w =
     (case cm_free_list p of
        c # cs \<Rightarrow> (Some (Some c), p\<lparr>cm_free_list := cs\<rparr>, w)
      | [] \<Rightarrow>
          if m_max_conn_cnt p \<le> m_cur_conn_cnt p then (None, p, w)
          else
            (case new_cache_conn rd p w of (ret, c, w1) \<Rightarrow>
               if ret \<noteq> 0 then (Some None, p, w1)
               else
                 let p1 = p\<lparr>cm_free_list := cm_free_list p @ [c], m_cur_conn_cnt := m_cur_conn_cnt p + 1\<rparr>
                 in (Some (Some (hd (cm_free_list p1))), p1\<lparr>cm_free_list := tl (cm_free_list p1)\<rparr>, w1)))"

definition RelCacheConn :: "nat \<Rightarrow> cache_pool \<Rightarrow> cache_pool" where
  "RelCacheConn pCacheConn p =
     (if pCacheConn \<in> set (cm_free_list p) then p else p\<lparr>cm_free_list := cm_free_list p @ [pCacheConn]\<rparr>)"

text \<open>The destructor deletes the free connections, which frees their contexts.\<close>

definition CachePool_dtor :: "'k redis_api \<Rightarrow> cache_pool \<Rightarrow> 'k cache_world \<Rightarrow> (cache_pool \<times> 'k cache_world) res" where
  "CachePool_dtor rd p w =
     res_bind (fold_res (\<lambda>i v.
        case cw_heap v i of
          None \<Rightarrow> Inl Undefined_Behaviour
        | Some c \<Rightarrow> res_bind (CacheConn_dtor rd c (cw_kern v)) (\<lambda>(c', k).
            Inr (v\<lparr>cw_kern := k, cw_heap := (cw_heap v)(i := None)\<rparr>))) (cm_free_list p) w) (\<lambda>w1.
       Inr (p\<lparr>cm_free_list := [], m_cur_conn_cnt := 0\<rparr>, w1))"

record cache_manager =
  m_cache_pool_map :: "string \<Rightarrow> cache_pool option"

definition cache_key :: "string \<Rightarrow> string \<Rightarrow> string" where
  "cache_key name suffix = take 63 (name @ suffix)"

text \<open>One instance of the loop of \<open>Init\<close>: \<open>Inl ret\<close> ends the loop with that return value.\<close>

definition cache_manager_one ::
    "'k redis_api \<Rightarrow> config \<Rightarrow> string \<Rightarrow> cache_manager \<times> 'k cache_world \<Rightarrow>
     ((int + unit) \<times> cache_manager \<times> 'k cache_world) res" where
  "cache_manager_one rd cfg pool_name mw =
     (case mw of (m, w) \<Rightarrow>
      res_bind (GetConfigName cfg (cache_key pool_name ''_host'')) (\<lambda>cache_host.
      res_bind (GetConfigName cfg (cache_key pool_name ''_port'')) (\<lambda>str_cache_port.
      res_bind (GetConfigName cfg (cache_key pool_name ''_db'')) (\<lambda>str_cache_db.
      res_bind (GetConfigName cfg (cache_key pool_name ''_maxconncnt'')) (\<lambda>str_max_conn_cnt.
        case (cache_host, str_cache_port, str_cache_db, str_max_conn_cnt) of
          (Some host, Some port, Some db, Some maxcnt) \<Rightarrow>
            (case cache_pool_Init rd (CachePool pool_name host (atoi port) (atoi db) (atoi maxcnt)) w of (ret, p, w1) \<Rightarrow>
               if ret \<noteq> 0 then Inr (Inl 3, m, w1)
               else Inr (Inr (), m\<lparr>m_cache_pool_map := (if m_cache_pool_map m pool_name = None
                       then (m_cache_pool_map m)(pool_name \<mapsto> p) else m_cache_pool_map m)\<rparr>, w1))
        | _ \<Rightarrow> Inr (Inl 2, m, w))))))"

fun cache_manager_loop ::
    "'k redis_api \<Rightarrow> config \<Rightarrow> explode \<Rightarrow> nat list \<Rightarrow> cache_manager \<times> 'k cache_world \<Rightarrow>
     (int \<times> cache_manager \<times> 'k cache_world) res" where
  "cache_manager_loop rd cfg names [] mw = Inr (0, mw)"
| "cache_manager_loop rd cfg names (i # is) mw =
     res_bind (GetItem names i) (\<lambda>pool_name.
     res_bind (cache_manager_one rd cfg pool_name mw) (\<lambda>(r, mw').
       case r of Inl ret \<Rightarrow> Inr (ret, mw') | Inr _ \<Rightarrow> cache_manager_loop rd cfg names is mw'))"

definition cache_manager_Init ::
    "'k redis_api \<Rightarrow> string option \<Rightarrow> cache_manager \<Rightarrow> 'k cache_world \<Rightarrow> (int \<times> cache_manager \<times> 'k cache_world) res" where
  "cache_manager_Init rd conf_text m w =
     res_bind (CConfigFileReader conf_text ''dbproxyserver.conf'') (\<lambda>cfg.
     res_bind (GetConfigName cfg ''CacheInstances'') (\<lambda>cache_instances.
       case cache_instances of
         None \<Rightarrow> Inr (1, m, w)
       | Some inst \<Rightarrow>
           res_bind (CStrExplode inst (CHR '','')) (\<lambda>names.
           res_bind (cache_manager_loop rd cfg names [0..<GetItemCnt names] (m, w)) (\<lambda>r.
           res_bind (CStrExplode_dtor names) (\<lambda>_. Inr r)))))"

definition cache_getInstance ::
    "'k redis_api \<Rightarrow> string option \<Rightarrow> cache_manager option \<Rightarrow> 'k cache_world \<Rightarrow>
     (cache_manager option \<times> 'k cache_world) res" where
  "cache_getInstance rd conf_text s_cache_manager w =
     (case s_cache_manager of
        Some m \<Rightarrow> Inr (Some m, w)
      | None \<Rightarrow>
          res_bind (cache_manager_Init rd conf_text \<lparr>m_cache_pool_map = Map.empty\<rparr> w) (\<lambda>(ret, m, w1).
            if ret \<noteq> 0 then Inr (None, w1) else Inr (Some m, w1)))"

definition manager_GetCacheConn ::
    "'k redis_api \<Rightarrow> string \<Rightarrow> cache_manager \<Rightarrow> 'k cache_world \<Rightarrow> nat option option \<times> cache_manager \<times> 'k cache_world" where
  "manager_GetCacheConn rd pool_name m w =
     (case m_cache_pool_map m pool_name of
        None \<Rightarrow> (Some None, m, w)
      | Some p \<Rightarrow>
          (case GetCacheConn rd p w of (r, p', w') \<Rightarrow>
             (r, m\<lparr>m_cache_pool_map := (m_cache_pool_map m)(pool_name \<mapsto> p')\<rparr>, w')))"

definition manager_RelCacheConn :: "nat option \<Rightarrow> cache_manager \<Rightarrow> 'k cache_world \<Rightarrow> cache_manager res" where
  "manager_RelCacheConn pCacheConn m w =
     (case pCacheConn of
        None \<Rightarrow> Inr m
      | Some c \<Rightarrow>
          (case cw_heap w c of
             None \<Rightarrow> Inl Undefined_Behaviour
           | Some conn \<Rightarrow>
               (case m_cache_pool_map m (cache_GetPoolName conn) of
                  None \<Rightarrow> Inr m
                | Some p \<Rightarrow>
                    Inr (m\<lparr>m_cache_pool_map := (m_cache_pool_map m)(cache_GetPoolName conn \<mapsto> RelCacheConn c p)\<rparr>))))"

section \<open>The pool keeps its contract\<close>

lemma new_cache_conn_next: "new_cache_conn rd p w = (ret, c, w1) \<Longrightarrow> c = cw_next w \<and> cw_next w1 = Suc (cw_next w)"
  by (auto simp: new_cache_conn_def split: prod.splits)

interpretation cap: conn_pool cm_free_list m_cur_conn_cnt m_max_conn_cnt cw_next GetCacheConn RelCacheConn
proof (unfold_locales, goal_cases)
  case (1 p c cs a w)
  then show ?case by (simp add: GetCacheConn_def)
next
  case (2 p a w)
  then show ?case by (simp add: GetCacheConn_def)
next
  case (3 p a w)
  obtain ret c w1 where n: "new_cache_conn a p w = (ret, c, w1)" by (metis prod_cases3)
  with new_cache_conn_next [OF n] 3 show ?case by (cases "ret = 0") (auto simp: GetCacheConn_def)
qed (auto simp: RelCacheConn_def)

lemma cache_pool_loop_ok:
  assumes "cache_pool_loop rd n p w = (0, p', w')"
  shows "cm_free_list p' = cm_free_list p @ [cw_next w..<cw_next w + n] \<and> cw_next w' = cw_next w + n \<and>
    m_cur_conn_cnt p' = m_cur_conn_cnt p \<and> m_max_conn_cnt p' = m_max_conn_cnt p"
  using assms
proof (induction n arbitrary: p w)
  case 0
  then show ?case by simp
next
  case (Suc n)
  obtain ret c w1 where n: "new_cache_conn rd p w = (ret, c, w1)" by (metis prod_cases3)
  with Suc.prems have "ret = 0" and rest: "cache_pool_loop rd n (p\<lparr>cm_free_list := cm_free_list p @ [c]\<rparr>) w1 = (0, p', w')"
    by (auto split: if_splits)
  have c: "c = cw_next w" "cw_next w1 = Suc (cw_next w)" using new_cache_conn_next [OF n] by auto
  have "[cw_next w..<cw_next w + Suc n] = cw_next w # [Suc (cw_next w)..<Suc (cw_next w) + n]"
    by (simp add: upt_conv_Cons)
  with Suc.IH [OF rest] c show ?case by simp
qed

lemma cache_pool_Init_inv:
  assumes "cache_pool_Init rd (CachePool nm ip port db maxcnt) w = (0, p, w')"
  shows "pool_inv cm_free_list m_cur_conn_cnt cw_next (p, w', [])"
    "m_cur_conn_cnt p = 2" "m_max_conn_cnt p = maxcnt"
proof -
  have "cache_pool_loop rd 2 (CachePool nm ip port db maxcnt) w = (0, p, w')"
    using assms by (simp add: cache_pool_Init_def CachePool_def MIN_CACHE_CONN_CNT_def)
  from cache_pool_loop_ok [OF this]
  show "pool_inv cm_free_list m_cur_conn_cnt cw_next (p, w', [])" "m_cur_conn_cnt p = 2"
    "m_max_conn_cnt p = maxcnt"
    by (auto simp: pool_inv_def CachePool_def MIN_CACHE_CONN_CNT_def)
qed

section \<open>Commands on a connection\<close>

text \<open>The context is null or valid.\<close>

definition context_ok :: "cache_conn \<Rightarrow> bool" where
  "context_ok c \<longleftrightarrow> (\<forall>x. m_pContext c \<noteq> Freed_Context x)"

lemma cache_Init_context:
  assumes "context_ok c" and "cache_Init rd pool c k = (ret, c1, k1)"
  shows "context_ok c1" and "ret = 0 \<Longrightarrow> \<exists>x. m_pContext c1 = Context x"
  using assms
  by (auto simp: cache_Init_def context_ok_def Let_def split: if_splits prod.splits option.splits redisReply.splits;
      cases "m_pContext c"; auto)+

lemma cache_Init_connected [simp]: "m_pContext c = Context x \<Longrightarrow> cache_Init rd pool c k = (0, c, k)"
  by (simp add: cache_Init_def)

lemma command_connected:
  assumes "m_pContext c = Context x" and "rd_command rd x args k = (Some reply, k')" and "f reply = Inr r"
  shows "command rd pool dflt args f c k = Inr (r, c, k')"
  using assms by (simp add: command_def)

text \<open>What a Redis server documents of \<open>SET\<close> and \<open>GET\<close>: \<open>store\<close> is its key space.\<close>

definition redis_strings :: "'k redis_api \<Rightarrow> ('k \<Rightarrow> string \<Rightarrow> string option) \<Rightarrow> bool" where
  "redis_strings rd store \<longleftrightarrow>
     (\<forall>x key v k. \<exists>k'. rd_command rd x [''SET'', key, v] k = (Some (Reply_Status ''OK''), k') \<and>
        store k' = (store k)(key \<mapsto> v)) \<and>
     (\<forall>x key k. \<exists>k'. rd_command rd x [''GET'', key] k =
        (Some (case store k key of None \<Rightarrow> Reply_Nil | Some v \<Rightarrow> Reply_String v), k') \<and> store k' = store k)"

text \<open>A server on one string per key; \<open>(down, keys)\<close>, where a server that is down does not answer.\<close>

definition sim_redis :: "(bool \<times> (string \<Rightarrow> string option)) redis_api" where
  "sim_redis = \<lparr>rd_time = (\<lambda>_. 100), rd_connect = (\<lambda>_ _ k. (Some (1, False), k)),
     rd_command = (\<lambda>x args k.
       if fst k then (None, k)
       else case args of
         [cmd, key] \<Rightarrow> if cmd = ''GET'' then
             (Some (case snd k key of None \<Rightarrow> Reply_Nil | Some v \<Rightarrow> Reply_String v), k)
           else (Some (Reply_Status ''OK''), k)
       | [cmd, key, v] \<Rightarrow> if cmd = ''SET'' then (Some (Reply_Status ''OK''), (fst k, (snd k)(key \<mapsto> v)))
           else (Some Reply_Nil, k)
       | _ \<Rightarrow> (Some Reply_Nil, k)),
     rd_free = (\<lambda>_ k. k)\<rparr>"

definition sim_strings :: "(string \<Rightarrow> string option) redis_api" where
  "sim_strings = \<lparr>rd_time = (\<lambda>_. 100), rd_connect = (\<lambda>_ _ k. (Some (1, False), k)),
     rd_command = (\<lambda>x args k. case args of
         [cmd, key] \<Rightarrow> if cmd = ''GET'' then
             (Some (case k key of None \<Rightarrow> Reply_Nil | Some v \<Rightarrow> Reply_String v), k)
           else (Some (Reply_Status ''OK''), k)
       | [cmd, key, v] \<Rightarrow> if cmd = ''SET'' then (Some (Reply_Status ''OK''), k(key \<mapsto> v)) else (Some Reply_Nil, k)
       | _ \<Rightarrow> (Some Reply_Nil, k)),
     rd_free = (\<lambda>_ k. k)\<rparr>"

definition sim_cache_conf :: cache_conf where
  "sim_cache_conf = \<lparr>cm_pool_name = ''unread'', cm_server_ip = ''127.0.0.1'', cm_server_port = 6379, cm_db_num = 1\<rparr>"

definition sim_cache_conn :: cache_conn where
  "sim_cache_conn = \<lparr>m_pCachePool = ''unread'', m_pContext = Context 1, m_last_connect_time = 0\<rparr>"

lemma sim_cache_Init:
  "cache_Init sim_strings pool (CacheConn pool) k =
   (0, (CacheConn pool)\<lparr>m_pContext := Context 1, m_last_connect_time := 100\<rparr>, k)"
  by (simp add: cache_Init_def CacheConn_def sim_strings_def)

lemma command_total:
  assumes "context_ok c" and "\<forall>reply. \<exists>r. f reply = Inr r"
  shows "\<exists>r c' k'. command rd pool dflt args f c k = Inr (r, c', k') \<and> context_ok c' \<and>
    (m_pContext c' = Null_Context \<longrightarrow> r = dflt)"
proof -
  obtain ret c1 k1 where i: "cache_Init rd pool c k = (ret, c1, k1)" by (metis prod_cases3)
  note ctx = cache_Init_context [OF assms(1) i]
  show ?thesis
  proof (cases "ret = 0")
    case False
    then show ?thesis using i ctx(1) by (auto simp: command_def)
  next
    case True
    then obtain x where x: "m_pContext c1 = Context x" using ctx(2) by blast
    obtain reply k2 where r: "rd_command rd x args k1 = (reply, k2)" by fastforce
    show ?thesis
    proof (cases reply)
      case None
      then show ?thesis using i True x r by (simp add: command_def context_ok_def)
    next
      case (Some rep)
      obtain v where "f rep = Inr v" using assms(2) by blast
      then show ?thesis using i True x r Some ctx(1) by (auto simp: command_def)
    qed
  qed
qed

section \<open>Properties\<close>

text \<open>The Redis pool, after a successful \<open>Init\<close> and in any interleaving of users that take and
  return connections: no connection is lent to two users or is both lent and free; never more than
  the configured maximum (but at least two) are lent; a user waits only while every connection is
  lent and the maximum is reached; and after a return the next call gets a connection without
  waiting.\<close>

lemma cache_pool_lends_each_once:
  assumes "cache_pool_Init rd (CachePool nm ip port db maxcnt) w0 = (0, p0, w1)"
    and "fold (pool_step (GetCacheConn rd) RelCacheConn) ops (p0, w1, []) = (p, w, lent)"
  shows "distinct lent \<and> set lent \<inter> set (cm_free_list p) = {} \<and> int (length lent) \<le> max 2 maxcnt \<and>
    (fst (GetCacheConn rd p w) = None \<longrightarrow> int (length lent) = m_cur_conn_cnt p \<and> maxcnt \<le> m_cur_conn_cnt p) \<and>
    (\<forall>c. \<exists>d p'. GetCacheConn rd (RelCacheConn c p) w = (Some (Some d), p', w) \<and> d \<in> insert c (set (cm_free_list p)))"
proof -
  note init = cache_pool_Init_inv [OF assms(1)]
  have b: "m_cur_conn_cnt (fst (p0, w1, [] :: nat list)) \<le> max 2 (m_max_conn_cnt (fst (p0, w1, [] :: nat list)))"
    using init(2) by simp
  have "m_max_conn_cnt p = maxcnt"
    using cap.run_inv [OF init(1) b assms(2) [symmetric]] init(3) by simp
  then show ?thesis
    using cap.session_safe [OF init(1) b assms(2)] cap.release_serves_waiter [of rd] init(3) by auto
qed

text \<open>C21: What an outage does to a command of the common shape (all but \<open>EXISTS\<close>, which C28 is about, and \<open>MGET\<close>).
  On a connection whose context is null or valid it never faults and leaves the context so, with the default
  as its answer whenever the context is null afterwards. When no reply comes, the context is freed and
  cleared and the default returned. After that, a command within four seconds of the last
  attempt to connect returns the default without trying; a later one connects, selects the database
  and, when both succeed, runs on the new context and answers what the reply says.\<close>

theorem command_survives_outage:
  assumes "context_ok c" and "\<forall>reply. \<exists>r. f reply = Inr r"
  shows "(\<exists>r c' k'. command rd pool dflt args f c k = Inr (r, c', k') \<and> context_ok c' \<and>
      (m_pContext c' = Null_Context \<longrightarrow> r = dflt)) \<and>
    (\<forall>x k1. m_pContext c = Context x \<longrightarrow> rd_command rd x args k = (None, k1) \<longrightarrow>
      command rd pool dflt args f c k = Inr (dflt, c\<lparr>m_pContext := Null_Context\<rparr>, rd_free rd x k1)) \<and>
    (m_pContext c = Null_Context \<longrightarrow> of_nat (rd_time rd k) < m_last_connect_time c + 4 \<longrightarrow>
      command rd pool dflt args f c k = Inr (dflt, c, k)) \<and>
    (\<forall>x k1 s k2 reply k3 r. m_pContext c = Null_Context \<longrightarrow> \<not> of_nat (rd_time rd k) < m_last_connect_time c + 4 \<longrightarrow>
      rd_connect rd (cm_server_ip pool) (cm_server_port pool) k = (Some (x, False), k1) \<longrightarrow>
      rd_command rd x [''SELECT'', show_int (cm_db_num pool)] k1 = (Some (Reply_Status s), k2) \<longrightarrow> take 2 s = ''OK'' \<longrightarrow>
      rd_command rd x args k2 = (Some reply, k3) \<longrightarrow> f reply = Inr r \<longrightarrow>
      command rd pool dflt args f c k =
        Inr (r, c\<lparr>m_pContext := Context x, m_last_connect_time := of_nat (rd_time rd k)\<rparr>, k3))"
proof (intro conjI)
  show "\<exists>r c' k'. command rd pool dflt args f c k = Inr (r, c', k') \<and> context_ok c' \<and>
      (m_pContext c' = Null_Context \<longrightarrow> r = dflt)"
    by (rule command_total [OF assms])
qed (auto simp: command_def cache_Init_def Let_def)

theorem command_survives_outage_witness:
  "\<exists>c1 k1 c2 k2. get sim_redis sim_cache_conf ''a'' sim_cache_conn (True, [''a'' \<mapsto> ''b'']) = Inr ([], c1, k1) \<and>
     m_pContext c1 = Null_Context \<and> get sim_redis sim_cache_conf ''a'' c1 (False, [''a'' \<mapsto> ''b'']) = Inr (''b'', c2, k2)"
proof -
  let ?f = "\<lambda>r. Inr (case r of Reply_String s \<Rightarrow> s | _ \<Rightarrow> []) :: string res" and ?c1 = "sim_cache_conn\<lparr>m_pContext := Null_Context\<rparr>"
  have f: "\<forall>reply. \<exists>r. ?f reply = Inr r" by simp
  have ok: "context_ok sim_cache_conn" "context_ok ?c1" by (simp_all add: context_ok_def sim_cache_conn_def)
  have 1: "m_pContext sim_cache_conn = Context 1"
    "rd_command sim_redis 1 [''GET'', cstr ''a''] (True, [''a'' \<mapsto> ''b'']) = (None, (True, [''a'' \<mapsto> ''b'']))"
    by (simp_all add: sim_cache_conn_def sim_redis_def)
  have "get sim_redis sim_cache_conf ''a'' sim_cache_conn (True, [''a'' \<mapsto> ''b'']) = Inr ([], ?c1, rd_free sim_redis 1 (True, [''a'' \<mapsto> ''b'']))"
    unfolding get_def by (rule command_survives_outage [OF ok(1) f, THEN conjunct2, THEN conjunct1, rule_format, OF 1])
  moreover have 2: "m_pContext ?c1 = Null_Context" "\<not> of_nat (rd_time sim_redis (False, [''a'' \<mapsto> ''b''])) < m_last_connect_time ?c1 + 4"
    "rd_connect sim_redis (cm_server_ip sim_cache_conf) (cm_server_port sim_cache_conf) (False, [''a'' \<mapsto> ''b'']) = (Some (1, False), (False, [''a'' \<mapsto> ''b'']))"
    "rd_command sim_redis 1 [''SELECT'', show_int (cm_db_num sim_cache_conf)] (False, [''a'' \<mapsto> ''b'']) =
      (Some (Reply_Status ''OK''), (False, [''a'' \<mapsto> ''b'']))" "take 2 ''OK'' = ''OK''"
    "rd_command sim_redis 1 [''GET'', cstr ''a''] (False, [''a'' \<mapsto> ''b'']) = (Some (Reply_String ''b''), (False, [''a'' \<mapsto> ''b'']))"
    "?f (Reply_String ''b'') = Inr ''b''"
    by (simp_all add: sim_cache_conn_def sim_redis_def sim_cache_conf_def cstr_def)
  have "\<exists>c2 k2. get sim_redis sim_cache_conf ''a'' ?c1 (False, [''a'' \<mapsto> ''b'']) = Inr (''b'', c2, k2)"
    unfolding get_def
    by (rule exI, rule exI, rule command_survives_outage [OF ok(2) f, THEN conjunct2, THEN conjunct2, THEN conjunct2, rule_format, OF 2])
  ultimately show ?thesis using 2(1) by blast
qed

text \<open>What was set is read: on a connected connection, against a server that implements \<open>SET\<close> and
  \<open>GET\<close>, reading a key after setting it returns the value (both cut at a NUL byte), other keys are
  not affected, and a key that was never set reads as the empty string.\<close>

lemma cache_set_get:
  assumes "redis_strings rd store" and "m_pContext c = Context x"
  shows "\<exists>k1. set_key rd pool key value c k = Inr (''OK'', c, k1) \<and>
    (\<exists>k2. get rd pool key c k1 = Inr (cstr value, c, k2)) \<and>
    (\<forall>key'. cstr key' \<noteq> cstr key \<longrightarrow>
       (\<exists>k2. get rd pool key' c k1 = Inr (case store k (cstr key') of None \<Rightarrow> [] | Some v \<Rightarrow> v, c, k2)))"
proof -
  obtain k1 where s: "rd_command rd x [''SET'', cstr key, cstr value] k = (Some (Reply_Status ''OK''), k1)"
    and k1: "store k1 = (store k)(cstr key \<mapsto> cstr value)"
    using assms(1) unfolding redis_strings_def by blast
  have "set_key rd pool key value c k = Inr (''OK'', c, k1)"
    unfolding set_key_def by (rule command_connected [OF assms(2) s]) (simp add: reply_str_def)
  moreover have got: "\<exists>k2. get rd pool key' c k1 = Inr (case store k1 (cstr key') of None \<Rightarrow> [] | Some v \<Rightarrow> v, c, k2)" for key'
  proof -
    obtain k2 where g: "rd_command rd x [''GET'', cstr key'] k1 =
        (Some (case store k1 (cstr key') of None \<Rightarrow> Reply_Nil | Some v \<Rightarrow> Reply_String v), k2)"
      using assms(1) unfolding redis_strings_def by blast
    have "get rd pool key' c k1 = Inr (case store k1 (cstr key') of None \<Rightarrow> [] | Some v \<Rightarrow> v, c, k2)"
      unfolding get_def by (rule command_connected [OF assms(2) g]) (simp split: option.splits)
    then show ?thesis by blast
  qed
  moreover have "\<exists>k2. get rd pool key' c k1 = Inr (case store k (cstr key') of None \<Rightarrow> [] | Some v \<Rightarrow> v, c, k2)"
    if "cstr key' \<noteq> cstr key" for key'
    using got [of key'] that k1 by simp
  ultimately show ?thesis using got [of key] k1 by (intro exI [of _ k1]) simp
qed

text \<open>C28: \<open>isExists\<close> does not survive an outage: when no reply comes it answers false but leaves the
  freed context in place, so every later command on the connection, and its destructor, uses freed
  memory.\<close>

theorem isExists_leaves_freed_context:
  assumes "m_pContext c = Context x" and "rd_command rd x [''EXISTS'', cstr key] k = (None, k1)"
  shows "\<exists>c' k'. isExists rd pool key c k = Inr (False, c', k') \<and>
    get rd pool key' c' k' = Inl Undefined_Behaviour \<and> isExists rd pool key' c' k' = Inl Undefined_Behaviour \<and>
    CacheConn_dtor rd c' k' = Inl Undefined_Behaviour"
proof -
  let ?c = "c\<lparr>m_pContext := Freed_Context x\<rparr>"
  have "isExists rd pool key c k = Inr (False, ?c, rd_free rd x k1)"
    using assms by (simp add: isExists_def)
  moreover have "cache_Init rd pool ?c k' = (0, ?c, k')" for k' by (simp add: cache_Init_def)
  ultimately show ?thesis
    by (simp add: get_def command_def isExists_def CacheConn_dtor_def)
qed

theorem isExists_leaves_freed_context_witness:
  "\<exists>c' k'. isExists sim_redis sim_cache_conf ''a'' sim_cache_conn (True, Map.empty) = Inr (False, c', k') \<and>
     get sim_redis sim_cache_conf ''a'' c' k' = Inl Undefined_Behaviour"
proof -
  have 1: "m_pContext sim_cache_conn = Context 1" by (simp add: sim_cache_conn_def)
  have 2: "rd_command sim_redis 1 [''EXISTS'', cstr ''a''] (True, Map.empty) = (None, (True, Map.empty))"
    by (simp add: sim_redis_def)
  show ?thesis using isExists_leaves_freed_context [OF 1 2, of sim_cache_conf "''a''"] by blast
qed

text \<open>A database that cannot be selected is reported once; the context stays, so the next command runs
  on it and the server answers it from database 0.\<close>

lemma select_failure_is_forgotten:
  assumes "cache_Init rd pool c k = (2, c1, k1)"
  shows "cache_Init rd pool c1 k2 = (0, c1, k2)"
  using assms
  by (auto simp: cache_Init_def Let_def split: if_splits prod.splits option.splits redisReply.splits)

end
