(* ===== verification/Db_Login.thy ===== *)
theory Db_Login
  imports Db_Pool
begin

text \<open>
  \<open>db_proxy_server/business/InterLogin.cc\<close> (\<open>CInterLoginStrategy::doLogin\<close>): the login check against the
  \<open>IMUser\<close> table. \<open>user_info\<close> holds the members of the message \<open>IM::BaseDefine::UserInfo\<close> the code sets
  (\<open>None\<close>: not set). The local integers are uninitialised until a row is read, so using them then is
  undefined behaviour; so is assigning a null \<open>char*\<close> to a string and calling a member of a null
  manager. The outer \<open>None\<close> of the result means that the call does not return: it waits for a free connection,
  or the client library never comes to the end of a result.
\<close>

section \<open>The model\<close>

record user_info =
  ui_user_id :: "32 word option"
  ui_user_gender :: "32 word option"
  ui_user_nick_name :: "string option"
  ui_avatar_url :: "string option"
  ui_department_id :: "32 word option"
  ui_email :: "string option"
  ui_user_real_name :: "string option"
  ui_user_tel :: "string option"
  ui_user_domain :: "string option"
  ui_status :: "32 word option"
  ui_sign_info :: "string option"

text \<open>The locals that outlive the loop.\<close>

record login_vars =
  nId :: "32 word option"
  nGender :: "32 word option"
  nDeptId :: "32 word option"
  nStatus :: "32 word option"
  strResult :: string
  strSalt :: string
  strNick :: string
  strAvatar :: string
  strEmail :: string
  strRealName :: string
  strTel :: string
  strDomain :: string
  strSignInfo :: string

definition login_vars0 :: login_vars where
  "login_vars0 = \<lparr>nId = None, nGender = None, nDeptId = None, nStatus = None, strResult = [], strSalt = [],
     strNick = [], strAvatar = [], strEmail = [], strRealName = [], strTel = [], strDomain = [], strSignInfo = []\<rparr>"

definition get_str :: "result_set \<Rightarrow> string \<Rightarrow> string res" where
  "get_str rs key =
     res_bind (GetString rs key) (\<lambda>s. case s of None \<Rightarrow> Inl Undefined_Behaviour | Some t \<Rightarrow> Inr t)"

definition get_u32 :: "result_set \<Rightarrow> string \<Rightarrow> 32 word res" where
  "get_u32 rs key = res_bind (GetInt rs key) (\<lambda>i. Inr (word_of_int i))"

text \<open>The body of the loop, in the order of the source.\<close>

definition read_row :: "result_set \<Rightarrow> login_vars res" where
  "read_row rs =
     res_bind (get_u32 rs ''id'') (\<lambda>i.
     res_bind (get_str rs ''password'') (\<lambda>pw.
     res_bind (get_str rs ''salt'') (\<lambda>salt.
     res_bind (get_str rs ''nick'') (\<lambda>nick.
     res_bind (get_u32 rs ''sex'') (\<lambda>sex.
     res_bind (get_str rs ''name'') (\<lambda>realname.
     res_bind (get_str rs ''domain'') (\<lambda>domain.
     res_bind (get_str rs ''phone'') (\<lambda>phone.
     res_bind (get_str rs ''email'') (\<lambda>email.
     res_bind (get_str rs ''avatar'') (\<lambda>avatar.
     res_bind (get_u32 rs ''departId'') (\<lambda>dept.
     res_bind (get_u32 rs ''status'') (\<lambda>stat.
     res_bind (get_str rs ''sign_info'') (\<lambda>sign.
       Inr \<lparr>nId = Some i, nGender = Some sex, nDeptId = Some dept, nStatus = Some stat, strResult = pw,
            strSalt = salt, strNick = nick, strAvatar = avatar, strEmail = email, strRealName = realname,
            strTel = phone, strDomain = domain, strSignInfo = sign\<rparr>)))))))))))))"

partial_function (option) read_rows :: "'k mysql_api \<Rightarrow> result_set \<Rightarrow> login_vars \<Rightarrow> login_vars res option" where
  "read_rows my rs v =
     (case Next my rs of (found, rs') \<Rightarrow>
        if found then (case read_row rs' of Inl e \<Rightarrow> Some (Inl e) | Inr v' \<Rightarrow> read_rows my rs' v')
        else Some (Inr v))"

definition set_user :: "login_vars \<Rightarrow> user_info \<Rightarrow> user_info res" where
  "set_user v u =
     (case (nId v, nGender v, nDeptId v, nStatus v) of
        (Some i, Some g, Some d, Some s) \<Rightarrow>
          Inr (u\<lparr>ui_user_id := Some i, ui_user_nick_name := Some (strNick v), ui_user_gender := Some g,
                 ui_user_real_name := Some (strRealName v), ui_user_domain := Some (strDomain v),
                 ui_user_tel := Some (strTel v), ui_email := Some (strEmail v), ui_avatar_url := Some (strAvatar v),
                 ui_department_id := Some d, ui_status := Some s, ui_sign_info := Some (strSignInfo v)\<rparr>)
      | _ \<Rightarrow> Inl Undefined_Behaviour)"

definition login_sql :: "string \<Rightarrow> string" where
  "login_sql strName = ''select * from IMUser where name='' @ [CHR 0x27] @ strName @ [CHR 0x27] @ '' and status=0''"

text \<open>What happens with a connection: the query, the rows, the comparison.\<close>

definition login_query ::
    "'k mysql_api \<Rightarrow> string \<Rightarrow> string \<Rightarrow> user_info \<Rightarrow> db_conn \<Rightarrow> 'k \<Rightarrow> (bool \<times> user_info \<times> 'k) res option" where
  "login_query my strName strPass user conn k =
     (case ExecuteQuery my (takeWhile (\<lambda>c. c \<noteq> CHR 0x00) (login_sql strName)) conn k of
        Inl e \<Rightarrow> Some (Inl e)
      | Inr (None, k1) \<Rightarrow> Some (Inr (False, user, k1))
      | Inr (Some rs, k1) \<Rightarrow>
          map_option (\<lambda>r. res_bind r (\<lambda>v.
             if strPass @ strSalt v = strResult v
             then res_bind (set_user v user) (\<lambda>u. Inr (True, u, k1))
             else Inr (False, user, k1))) (read_rows my rs login_vars0))"

definition doLogin ::
    "'k mysql_api \<Rightarrow> string option \<Rightarrow> string \<Rightarrow> string \<Rightarrow> user_info \<Rightarrow> db_manager option \<Rightarrow> 'k db_world \<Rightarrow>
     (bool \<times> user_info \<times> db_manager option \<times> 'k db_world) option res" where
  "doLogin my conf_text strName strPass user s_db_manager w =
     res_bind (getInstance my conf_text s_db_manager w) (\<lambda>(inst, w0).
       case inst of
         None \<Rightarrow> Inl Undefined_Behaviour
       | Some m \<Rightarrow>
           (case manager_GetDBConn my ''teamtalk_slave'' m w0 of
              (None, m1, w1) \<Rightarrow> Inr None
            | (Some None, m1, w1) \<Rightarrow> Inr (Some (False, user, Some m1, w1))
            | (Some (Some c), m1, w1) \<Rightarrow>
                (case dw_heap w1 c of
                   None \<Rightarrow> Inl Undefined_Behaviour
                 | Some conn \<Rightarrow>
                     (case login_query my strName strPass user conn (dw_kern w1) of
                        None \<Rightarrow> Inr None
                      | Some q \<Rightarrow> res_bind q (\<lambda>(bRet, u, k).
                          let w2 = w1\<lparr>dw_kern := k\<rparr> in
                          res_bind (manager_RelDBConn (Some c) m1 w2) (\<lambda>m2. Inr (Some (bRet, u, Some m2, w2))))))))"

section \<open>Reading the row\<close>

definition login_strings :: "string list" where
  "login_strings = [''password'', ''salt'', ''nick'', ''name'', ''domain'', ''phone'', ''email'', ''avatar'', ''sign_info'']"

definition login_ints :: "string list" where
  "login_ints = [''id'', ''sex'', ''departId'', ''status'']"

text \<open>The cell of a row under a column name.\<close>

definition col :: "mysql_res \<Rightarrow> string option list \<Rightarrow> string \<Rightarrow> string" where
  "col res r k = the (r ! length (takeWhile (\<lambda>f. f \<noteq> k) (res_fields res)))"

text \<open>A row of the table: every column the code reads is there and is not null.\<close>

definition full_row :: "mysql_res \<Rightarrow> string option list \<Rightarrow> bool" where
  "full_row res r \<longleftrightarrow> length r = length (res_fields res) \<and>
     (\<forall>k \<in> set (login_strings @ login_ints). k \<in> set (res_fields res) \<and>
        r ! length (takeWhile (\<lambda>f. f \<noteq> k) (res_fields res)) \<noteq> None)"

definition row_vars :: "mysql_res \<Rightarrow> string option list \<Rightarrow> login_vars" where
  "row_vars res r = \<lparr>nId = Some (word_of_int (atoi (col res r ''id''))), nGender = Some (word_of_int (atoi (col res r ''sex''))),
     nDeptId = Some (word_of_int (atoi (col res r ''departId''))), nStatus = Some (word_of_int (atoi (col res r ''status''))),
     strResult = col res r ''password'', strSalt = col res r ''salt'', strNick = col res r ''nick'',
     strAvatar = col res r ''avatar'', strEmail = col res r ''email'', strRealName = col res r ''name'',
     strTel = col res r ''phone'', strDomain = col res r ''domain'', strSignInfo = col res r ''sign_info''\<rparr>"

lemma cell_of_row:
  assumes "full_row res r" and "m_row rs = Some (Some r)" and "m_key_map rs = m_key_map (CResultSet res)"
    and "k \<in> set (login_strings @ login_ints)"
  shows "get_str rs k = Inr (col res r k)" "get_u32 rs k = Inr (word_of_int (atoi (col res r k)))"
proof -
  let ?i = "length (takeWhile (\<lambda>f. f \<noteq> k) (res_fields res))"
  have k: "k \<in> set (res_fields res)" "r ! ?i \<noteq> None" "length r = length (res_fields res)"
    using assms(1,4) by (auto simp: full_row_def)
  have "GetIndex rs k = int ?i"
    using GetIndex_first [of res k] k(1) assms(3) by (simp add: GetIndex_def)
  moreover have "cell rs ?i = Inr (Some (col res r k))"
    using k takeWhile_less [OF k(1)] assms(2) by (auto simp: cell_def col_def)
  ultimately show "get_str rs k = Inr (col res r k)" "get_u32 rs k = Inr (word_of_int (atoi (col res r k)))"
    by (simp_all add: get_str_def GetString_def get_u32_def GetInt_def)
qed

lemma read_row_full:
  assumes "full_row res r" and "m_row rs = Some (Some r)" and "m_key_map rs = m_key_map (CResultSet res)"
  shows "read_row rs = Inr (row_vars res r)"
  unfolding read_row_def row_vars_def
  by (simp add: cell_of_row [OF assms] login_strings_def login_ints_def)

text \<open>After the loop the variables are those of the last row.\<close>

lemma read_rows_last:
  assumes "fetch_ok my" and "\<forall>r \<in> set (res_rows (m_res rs)). full_row res r" and "m_key_map rs = m_key_map (CResultSet res)"
  shows "read_rows my rs v = Some (Inr (if res_rows (m_res rs) = [] then v else row_vars res (last (res_rows (m_res rs)))))"
  using assms(2,3)
proof (induction "res_rows (m_res rs)" arbitrary: rs v)
  case Nil
  from Nil(1) [symmetric] show ?case by (subst read_rows.simps) (simp add: Next_rows [OF assms(1)])
next
  case (Cons r rows)
  obtain rs' where n: "Next my rs = (True, rs')" and rs': "res_rows (m_res rs') = rows" "m_row rs' = Some (Some r)"
      "m_key_map rs' = m_key_map rs"
    using Cons(2) [symmetric] by (simp add: Next_rows [OF assms(1)])
  have full: "\<forall>x \<in> set (r # rows). full_row res x" using Cons.prems(1) unfolding Cons(2) [symmetric] .
  then have row: "read_row rs' = Inr (row_vars res r)"
    by (intro read_row_full) (use Cons.prems(2) rs' in auto)
  have "read_rows my rs v = read_rows my rs' (row_vars res r)"
    using n row by (subst read_rows.simps) simp
  also have "\<dots> = Some (Inr (if rows = [] then row_vars res r else row_vars res (last rows)))"
    using Cons(1) [OF rs'(1) [symmetric], of "row_vars res r"] full Cons.prems(2) rs' by simp
  finally show ?case unfolding Cons(2) [symmetric] by simp
qed

section \<open>The whole call\<close>

text \<open>The slave pool has a free connection \<open>c\<close>, whose query returns \<open>res\<close>.\<close>

definition slave_answers ::
    "'k mysql_api \<Rightarrow> string \<Rightarrow> db_manager \<Rightarrow> 'k db_world \<Rightarrow> db_pool \<Rightarrow> nat \<Rightarrow> nat list \<Rightarrow> mysql_res \<Rightarrow> 'k \<Rightarrow> bool" where
  "slave_answers my strName m w p c cs res k2 \<longleftrightarrow>
     m_dbpool_map m ''teamtalk_slave'' = Some p \<and> m_free_list p = c # cs \<and> c \<notin> set cs \<and>
     (\<exists>conn h k1. dw_heap w c = Some conn \<and> m_pDBPool conn = ''teamtalk_slave'' \<and> m_mysql conn = Some h \<and>
        my_real_query my h (takeWhile (\<lambda>ch. ch \<noteq> CHR 0x00) (login_sql strName)) (my_ping my h (dw_kern w)) = (False, k1) \<and>
        my_store_result my h k1 = (Some res, k2)) \<and>
     (\<forall>r \<in> set (res_rows res). full_row res r)"

text \<open>The manager afterwards: the connection is back, at the end of the free list.\<close>

definition conn_returned :: "db_manager \<Rightarrow> db_pool \<Rightarrow> nat \<Rightarrow> nat list \<Rightarrow> db_manager" where
  "conn_returned m p c cs = m\<lparr>m_dbpool_map := (m_dbpool_map m)(''teamtalk_slave'' \<mapsto> p\<lparr>m_free_list := cs @ [c]\<rparr>)\<rparr>"

lemma login_query_answers:
  assumes "slave_answers my strName m w p c cs res k2" and "dw_heap w c = Some conn" and "fetch_ok my"
  shows "login_query my strName strPass user conn (dw_kern w) = Some
    (let v = (if res_rows res = [] then login_vars0 else row_vars res (last (res_rows res))) in
     if strPass @ strSalt v = strResult v then res_bind (set_user v user) (\<lambda>u. Inr (True, u, k2))
     else Inr (False, user, k2))"
proof -
  obtain h k1 where q: "m_mysql conn = Some h" "my_store_result my h k1 = (Some res, k2)"
    "my_real_query my h (takeWhile (\<lambda>ch. ch \<noteq> CHR 0x00) (login_sql strName)) (my_ping my h (dw_kern w)) = (False, k1)"
    and rows: "\<forall>r \<in> set (res_rows res). full_row res r"
    using assms by (auto simp: slave_answers_def)
  have "read_rows my (CResultSet res) login_vars0 =
      Some (Inr (if res_rows res = [] then login_vars0 else row_vars res (last (res_rows res))))"
    using read_rows_last [OF assms(3), of "CResultSet res" res login_vars0] rows by (simp add: CResultSet_def)
  then show ?thesis
    using q by (simp add: login_query_def ExecuteQuery_def Let_def)
qed

lemma doLogin_answers:
  assumes a: "slave_answers my strName m w p c cs res k2" and f: "fetch_ok my"
  shows "doLogin my conf_text strName strPass user (Some m) w =
    (let v = (if res_rows res = [] then login_vars0 else row_vars res (last (res_rows res))) in
     if strPass @ strSalt v = strResult v
     then res_bind (set_user v user) (\<lambda>u. Inr (Some (True, u, Some (conn_returned m p c cs), w\<lparr>dw_kern := k2\<rparr>)))
     else Inr (Some (False, user, Some (conn_returned m p c cs), w\<lparr>dw_kern := k2\<rparr>)))"
proof -
  obtain conn where conn: "dw_heap w c = Some conn" "m_pDBPool conn = ''teamtalk_slave''"
    using a by (auto simp: slave_answers_def)
  have p: "m_dbpool_map m ''teamtalk_slave'' = Some p" "m_free_list p = c # cs" "c \<notin> set cs"
    using a by (auto simp: slave_answers_def)
  have g: "manager_GetDBConn my ''teamtalk_slave'' m w =
      (Some (Some c), m\<lparr>m_dbpool_map := (m_dbpool_map m)(''teamtalk_slave'' \<mapsto> p\<lparr>m_free_list := cs\<rparr>)\<rparr>, w)"
    using p by (simp add: manager_GetDBConn_def GetDBConn_def)
  have r: "manager_RelDBConn (Some c) (m\<lparr>m_dbpool_map := (m_dbpool_map m)(''teamtalk_slave'' \<mapsto> p\<lparr>m_free_list := cs\<rparr>)\<rparr>)
      (w\<lparr>dw_kern := k\<rparr>) = Inr (conn_returned m p c cs)" for k
    using conn p by (simp add: manager_RelDBConn_def conn_GetPoolName_def RelDBConn_def conn_returned_def)
  show ?thesis
    using conn(1) login_query_answers [OF a conn(1) f]
    by (simp add: doLogin_def getInstance_def g r Let_def res_bind_assoc split: if_splits)
qed

section \<open>Properties\<close>

definition sim_user_row :: mysql_res where
  "sim_user_row = \<lparr>res_fields = login_ints @ login_strings,
     res_rows = [[Some ''7'', Some ''1'', Some ''3'', Some ''0'', Some ''pwsalt'', Some ''salt'', Some ''n'', Some ''r'',
       Some ''d'', Some ''t'', Some ''e'', Some ''a'', Some ''s'']]\<rparr>"

definition sim_slave_pool :: db_pool where
  "sim_slave_pool = (sim_pool 16)\<lparr>m_free_list := [0, 1]\<rparr>"

definition sim_manager :: db_manager where
  "sim_manager = \<lparr>m_dbpool_map = [''teamtalk_slave'' \<mapsto> sim_slave_pool]\<rparr>"

definition sim_login_world :: "mysql_res \<Rightarrow> mysql_res db_world" where
  "sim_login_world res = \<lparr>dw_kern = res, dw_next = 2,
     dw_heap = [0 \<mapsto> \<lparr>m_pDBPool = ''teamtalk_slave'', m_mysql = Some 1, m_escape_string = None\<rparr>]\<rparr>"

definition no_user :: user_info where
  "no_user = \<lparr>ui_user_id = None, ui_user_gender = None, ui_user_nick_name = None, ui_avatar_url = None,
     ui_department_id = None, ui_email = None, ui_user_real_name = None, ui_user_tel = None, ui_user_domain = None,
     ui_status = None, ui_sign_info = None\<rparr>"

text \<open>C22: When the query finds the user, the login succeeds exactly if the given password followed by the
  stored salt is the stored password; the message then carries, in all its eleven members, the columns of the
  (last) row, and it is left alone when the login fails. In both cases the connection is back in the pool it
  came from.\<close>

theorem login_checks_password:
  assumes "fetch_ok my" and "slave_answers my strName m w p c cs res k2" and "res_rows res = rows @ [r]"
  shows "doLogin my conf_text strName strPass user (Some m) w =
    Inr (Some (strPass @ col res r ''salt'' = col res r ''password'',
      (if strPass @ col res r ''salt'' = col res r ''password''
       then \<lparr>ui_user_id = Some (word_of_int (atoi (col res r ''id''))),
         ui_user_gender = Some (word_of_int (atoi (col res r ''sex''))),
         ui_user_nick_name = Some (col res r ''nick''), ui_avatar_url = Some (col res r ''avatar''),
         ui_department_id = Some (word_of_int (atoi (col res r ''departId''))), ui_email = Some (col res r ''email''),
         ui_user_real_name = Some (col res r ''name''), ui_user_tel = Some (col res r ''phone''),
         ui_user_domain = Some (col res r ''domain''), ui_status = Some (word_of_int (atoi (col res r ''status''))),
         ui_sign_info = Some (col res r ''sign_info'')\<rparr>
       else user),
      Some (conn_returned m p c cs), w\<lparr>dw_kern := k2\<rparr>))"
  using doLogin_answers [OF assms(2,1), of conf_text strPass user] assms(3)
  by (simp add: row_vars_def set_user_def Let_def)

theorem login_checks_password_witness:
  "\<exists>u w'. doLogin sim_mysql None ''joe'' ''pw'' no_user (Some sim_manager) (sim_login_world sim_user_row) =
      Inr (Some (True, u, Some (conn_returned sim_manager sim_slave_pool 0 [1]), w')) \<and> ui_user_nick_name u = Some ''n''"
proof -
  let ?r = "[Some ''7'', Some ''1'', Some ''3'', Some ''0'', Some ''pwsalt'', Some ''salt'', Some ''n'', Some ''r'',
       Some ''d'', Some ''t'', Some ''e'', Some ''a'', Some ''s'']"
  have c: "col sim_user_row ?r ''salt'' = ''salt''" "col sim_user_row ?r ''password'' = ''pwsalt''"
    "col sim_user_row ?r ''nick'' = ''n''"
    by (simp_all add: col_def sim_user_row_def login_ints_def login_strings_def)
  have a: "slave_answers sim_mysql ''joe'' sim_manager (sim_login_world sim_user_row) sim_slave_pool 0 [1] sim_user_row sim_user_row"
    by (simp add: slave_answers_def sim_manager_def sim_slave_pool_def sim_pool_def CDBPool_def sim_login_world_def sim_mysql_def
        full_row_def sim_user_row_def login_ints_def login_strings_def)
  have r: "res_rows sim_user_row = [] @ [?r]" by (simp add: sim_user_row_def)
  show ?thesis
    using login_checks_password [OF sim_fetch_ok a r, of None "''pw''" no_user] unfolding c by auto
qed

text \<open>C29: When the query finds no user, a non-empty password is refused and the connection returned; but
  an empty password, followed by the empty salt, equals the empty stored password, so the comparison holds
  and the uninitialised user number is read: the behaviour of the call is undefined.\<close>

theorem login_without_user:
  assumes "fetch_ok my" and "slave_answers my strName m w p c cs res k2" and "res_rows res = []"
  shows "doLogin my conf_text strName strPass user (Some m) w =
    (if strPass = [] then Inl Undefined_Behaviour
     else Inr (Some (False, user, Some (conn_returned m p c cs), w\<lparr>dw_kern := k2\<rparr>)))"
  using doLogin_answers [OF assms(2,1), of conf_text strPass user] assms(3)
  by (simp add: login_vars0_def set_user_def Let_def)

theorem login_without_user_witness:
  "doLogin sim_mysql None ''joe'' [] no_user (Some sim_manager) (sim_login_world \<lparr>res_fields = [], res_rows = []\<rparr>) =
     Inl Undefined_Behaviour"
proof -
  let ?res = "\<lparr>res_fields = [], res_rows = []\<rparr>"
  have a: "slave_answers sim_mysql ''joe'' sim_manager (sim_login_world ?res) sim_slave_pool 0 [1] ?res ?res"
    by (simp add: slave_answers_def sim_manager_def sim_slave_pool_def sim_pool_def CDBPool_def sim_login_world_def sim_mysql_def)
  have e: "res_rows ?res = []" by simp
  show ?thesis using login_without_user [OF sim_fetch_ok a e, of None "[]" no_user] by simp
qed

end
