(* ===== verification/Db_Main.thy ===== *)
theory Db_Main
  imports Net_Echo Db_Pool Db_Cache
begin

text \<open>
  \<open>db_proxy_server/db_proxy_server.cc\<close>: the \<open>main\<close> of the database proxy, which puts the parts together.
  It brings up the database and cache managers, reads its own configuration, builds the loop and the
  server, starts it and runs the loop. Printing and logging are left out. What the environment
  provides (the system calls, the addresses of the objects, the placement of loop threads) is the record
  \<open>machine\<close>; the text of \<open>dbproxyserver.conf\<close> is the argument \<open>conf\<close>.
\<close>

section \<open>The model\<close>

record 'k machine =
  mc_os :: "'k os"
  mc_inet_addr :: "string \<Rightarrow> in_addr"
  mc_envs :: "string \<Rightarrow> 'k server \<Rightarrow> 'k et_env"
  mc_use_poll :: bool
  mc_tid :: int
  mc_wptr :: nat
  mc_loop :: nat
  mc_aptr :: nat
  mc_obj0 :: tcp_connection
  mc_kern :: 'k

text \<open>The settings of \<open>main\<close>: an exit code, or the address to listen on. \<open>ThreadNum\<close> is converted and not
  used.\<close>

definition main_config :: "string option \<Rightarrow> (int + string \<times> 16 word) res" where
  "main_config conf =
     res_bind (CConfigFileReader conf ''dbproxyserver.conf'') (\<lambda>cfg.
     res_bind (GetConfigName cfg ''ListenIP'') (\<lambda>listen_ip.
     res_bind (GetConfigName cfg ''ListenPort'') (\<lambda>str_listen_port.
     res_bind (GetConfigName cfg ''ThreadNum'') (\<lambda>str_thread_num.
     res_bind (GetConfigName cfg ''MsfsSite'') (\<lambda>str_file_site.
     res_bind (GetConfigName cfg ''aesKey'') (\<lambda>str_aes_key.
       case (listen_ip, str_listen_port, str_thread_num, str_file_site, str_aes_key) of
         (Some ip, Some port, Some threads, Some site, Some key) \<Rightarrow>
           if length key \<noteq> 32 then Inr (Inl (-2)) else Inr (Inr (ip, word_of_int (atoi port)))
       | _ \<Rightarrow> Inr (Inl (-1))))))))"

datatype 'k booted = Exit int | Serving "'k server"

definition dbproxy_boot ::
    "'k machine \<Rightarrow> 'd mysql_api \<Rightarrow> 'd db_world \<Rightarrow> 'c redis_api \<Rightarrow> 'c cache_world \<Rightarrow> string option \<Rightarrow> string list \<Rightarrow>
     'k booted res" where
  "dbproxy_boot mc my dw rd cw conf argv =
     (if length argv = 2 \<and> argv ! 1 = ''-v'' then Inr (Exit 0)
      else
        res_bind (getInstance my conf None dw) (\<lambda>(pDBManager, dw1).
          if pDBManager = None then Inr (Exit (-1))
          else
            res_bind (cache_getInstance rd conf None cw) (\<lambda>(pCacheManager, cw1).
              if pCacheManager = None then Inr (Exit (-1))
              else
                res_bind (main_config conf) (\<lambda>c.
                  case c of
                    Inl code \<Rightarrow> Inr (Exit code)
                  | Inr (ip, port) \<Rightarrow>
                      res_bind (EventLoop (mc_os mc) (mc_use_poll mc) False (mc_tid mc) (mc_wptr mc) (mc_kern mc)) (\<lambda>r.
                      res_bind (CDBServer (mc_os mc) (mc_obj0 mc) (Some (mc_loop mc))
                          (InetAddress (mc_inet_addr mc) port ip) ''DBServer'' (mc_aptr mc) r) (\<lambda>s.
                      res_bind (CDBServer_start (mc_os mc) (mc_envs mc) (mc_tid mc) s) (\<lambda>s'. Inr (Serving s'))))))))"

text \<open>\<open>loop.loop()\<close>: \<open>None\<close> when it never returns.\<close>

definition dbproxy_main ::
    "'k machine \<Rightarrow> 'd mysql_api \<Rightarrow> 'd db_world \<Rightarrow> 'c redis_api \<Rightarrow> 'c cache_world \<Rightarrow> 'k server conn_callbacks \<Rightarrow>
     (nat \<Rightarrow> nat) \<Rightarrow> sockaddr_in \<Rightarrow> (nat \<Rightarrow> nat \<Rightarrow> bytes option) \<Rightarrow> (nat \<Rightarrow> 'k server \<Rightarrow> 'k server res) \<Rightarrow>
     string option \<Rightarrow> string list \<Rightarrow> int res option" where
  "dbproxy_main mc my dw rd cw app cptr peer0 mem user conf argv =
     (case dbproxy_boot mc my dw rd cw conf argv of
        Inl e \<Rightarrow> Some (Inl e)
      | Inr (Exit code) \<Rightarrow> Some (Inr code)
      | Inr (Serving s) \<Rightarrow>
          map_option (\<lambda>r. res_bind r (\<lambda>_. Inr 0))
            (loop (server_turn (mc_os mc) app (mc_tid mc) cptr peer0 mem user) s))"

section \<open>What a start comes to\<close>

text \<open>The settings are the first bindings of the file.\<close>

lemma reader_of_entries:
  assumes "file_entries (fgets_bufs body) = Inr es"
  obtains cfg where "CConfigFileReader (Some body) name = Inr cfg" and "\<And>key. GetConfigName cfg key = Inr (map_of es key)"
  using assms fold_map_insert(2) [of "[]" es] that
  by (simp add: CConfigFileReader_def LoadFile_def load_lines_entries GetConfigName_def map_wf_def)

lemma main_config_entries:
  assumes "file_entries (fgets_bufs body) = Inr es"
  shows "main_config (Some body) =
    (case (map_of es ''ListenIP'', map_of es ''ListenPort'', map_of es ''ThreadNum'', map_of es ''MsfsSite'', map_of es ''aesKey'') of
       (Some ip, Some port, Some threads, Some site, Some key) \<Rightarrow>
         if length key \<noteq> 32 then Inr (Inl (-2)) else Inr (Inr (ip, word_of_int (atoi port)))
     | _ \<Rightarrow> Inr (Inl (-1)))"
  unfolding main_config_def by (rule reader_of_entries [OF assms, of "''dbproxyserver.conf''"]) (simp split: option.splits)

lemma CDBServer_starts:
  assumes ok: "os_ok os v" and sk: "sock_ok os v" and ad: "addresses_ok os d" and sp: "envs_ok os room envs"
    and ev: "EventLoop os False False tid wptr k = Inr r" and mk: "CDBServer os obj0 (Some a) addr nm aptr r = Inr s"
    and rm: "room (\<lambda>b. loop_at b s) (rx_kern s)" and run: "CDBServer_start os envs tid s = Inr s'"
  shows "listening v s'" "toIpPort addr = Inr (sv_ipPort s')" "length (ep_loops (sv_pool s')) = 48" "serves_on v d addr s'"
proof -
  obtain s1 where s1: "TcpServer os obj0 (Some a) addr nm False aptr r = Inr s1" and s: "s = setThreadNum 48 s1"
    using mk by (auto simp: CDBServer_def elim!: res_bindE)
  note T = TcpServer_listening [OF ok sk ev s1]
  have l: "listening v s" "sv_cur s = sv_loop s" "lp_threadId (rx_loop s) = tid" "sv_started s = 0"
    "chan_index (ac_channel (sv_acceptor s)) = kNew"
    using T by (simp_all add: s setThreadNum_def)
  obtain w where "listening v s'" and ip: "sv_ipPort s' = sv_ipPort s"
    and w: "start_threads (startLoop envs) 0 (nat (ep_numThreads (sv_pool s))) ((sv_pool s)\<lparr>ep_started := True\<rparr>)
      (s\<lparr>sv_started := 1\<rparr>) = Inr (sv_pool s', w)"
    by (rule start_listening [OF ok sk sp l(1) rm l(2-5) run [unfolded CDBServer_start_def]]) blast
  then show "listening v s'" by blast
  have "bound_acceptor d addr (rx_kern s) (sv_acceptor s)" using TcpServer_bound [OF ad s1] by (simp add: s setThreadNum_def)
  then show "serves_on v d addr s'"
    by (rule start_serves [OF ok sk ad sp l(1) rm l(2-4) _ run [unfolded CDBServer_start_def]])
  show "toIpPort addr = Inr (sv_ipPort s')" using TcpServer_inv(4) [OF s1] ip by (simp add: s setThreadNum_def)
  have p: "ep_loops (sv_pool s) = []" "ep_numThreads (sv_pool s) = 48"
    using s1 by (auto simp: s setThreadNum_def pool_setThreadNum_def TcpServer_def EventLoopThreadPool_def elim!: res_bindE split: if_splits)
  from start_threads_pool(2) [OF w] p show "length (ep_loops (sv_pool s')) = 48" by simp
qed

text \<open>What the machine has to provide: the system calls as documented, loop threads that start, and room for
  their loops beside the first one.\<close>

definition machine_ok ::
    "'k view \<Rightarrow> 'k addresses \<Rightarrow> ((nat \<Rightarrow> event_loop option) \<Rightarrow> 'k \<Rightarrow> bool) \<Rightarrow> 'k machine \<Rightarrow> bool" where
  "machine_ok v d room mc \<longleftrightarrow> os_ok (mc_os mc) v \<and> sock_ok (mc_os mc) v \<and> addresses_ok (mc_os mc) d \<and> envs_ok (mc_os mc) room (mc_envs mc) \<and> \<not> mc_use_poll mc \<and>
     (\<forall>addr r s. EventLoop (mc_os mc) False False (mc_tid mc) (mc_wptr mc) (mc_kern mc) = Inr r \<longrightarrow>
        CDBServer (mc_os mc) (mc_obj0 mc) (Some (mc_loop mc)) addr ''DBServer'' (mc_aptr mc) r = Inr s \<longrightarrow>
        room (\<lambda>b. loop_at b s) (rx_kern s))"

definition sim_machine :: "kernel machine" where
  "sim_machine = \<lparr>mc_os = sim_os, mc_inet_addr = dotted_addr, mc_envs = sim_envs, mc_use_poll = False, mc_tid = 1, mc_wptr = 0,
     mc_loop = 50, mc_aptr = 9, mc_obj0 = sim_tcp kDisconnected, mc_kern = sim_kernel\<rparr>"

lemma sim_machine_ok: "machine_ok sim_view sim_addresses sim_room sim_machine"
proof -
  have "sim_room (\<lambda>b. loop_at b s) (rx_kern s)"
    if r: "EventLoop sim_os False False 1 0 sim_kernel = Inr r"
      and s: "CDBServer sim_os (sim_tcp kDisconnected) (Some 50) addr ''DBServer'' 9 r = Inr s" for addr r s
  proof -
    have n: "k_next sim_kernel = 3" by (simp add: sim_kernel_def kernel0_def)
    have e: "pl_epollfd (lp_poller (rx_loop r)) = 3" "k_next (rx_kern r) = 5"
      by (rule sim_EventLoop [of sim_kernel 1 0]; use r n in simp)+
    have "sv_cur s = 50" "sv_loops s = Map.empty" "rx_loop s = rx_loop r" "k_next (rx_kern s) = 6"
      using s e by (auto simp: CDBServer_def setThreadNum_def TcpServer_def Acceptor_def createNonblocking_def bindAddress_def
          setReusePort_def setReuseAddr_def sim_os_def elim!: res_bindE split: if_splits)
    then show ?thesis using e by (simp add: sim_room_def loop_at_def)
  qed
  then show ?thesis using sim_os_ok sim_sock_ok sim_addresses_ok sim_envs_ok by (simp add: machine_ok_def sim_machine_def)
qed

definition sim_conf :: string where
  "sim_conf = concat (map (\<lambda>l. l @ [newline])
     [''ListenIP=127.0.0.1'', ''ListenPort=80'', ''ThreadNum=2'', ''MsfsSite=x'', ''aesKey=12345678901234567890123456789012'',
      ''DBInstances=m'', ''m_host=h'', ''m_port=1'', ''m_dbname=d'', ''m_username=u'', ''m_password=p'', ''m_maxconncnt=1'',
      ''CacheInstances=c'', ''c_host=h'', ''c_port=1'', ''c_db=0'', ''c_maxconncnt=1''])"

definition sim_caches :: "(string \<Rightarrow> string option) cache_world" where
  "sim_caches = \<lparr>cw_kern = Map.empty, cw_next = 0, cw_heap = Map.empty\<rparr>"

definition sim_dbserver :: "kernel server res" where
  "sim_dbserver = res_bind (EventLoop sim_os False False 1 0 sim_kernel) (\<lambda>r. res_bind
     (CDBServer sim_os (sim_tcp kDisconnected) (Some 50) (InetAddress dotted_addr 80 ''127.0.0.1'') ''DBServer'' 9 r)
     (CDBServer_start sim_os sim_envs 1))"

lemma sim_config: "main_config (Some sim_conf) = Inr (Inr (''127.0.0.1'', 80))"
  by code_simp

text \<open>The simulated machine can start any number of loop threads.\<close>

lemma sim_EventLoop_keeps:
  assumes "0 \<le> k_next k" and "EventLoop sim_os False False tid wptr k = Inr r"
  shows "k_next (rx_kern r) = k_next k + 2" "ep \<noteq> k_next k \<Longrightarrow> k_interest (rx_kern r) ep fd = k_interest k ep fd"
  using assms
  by (auto simp: EventLoop_def newDefaultPoller_def EPollPoller_def createEventfd_def enableReading_def loop_updateChannel_def
      updateChannel_def Net_Poller.update_def Let_def sim_os_def sim_ctl_def Channel_def set_reading_def set_index_def index_consts set_interest_def)

lemma sim_threads_start:
  "0 \<le> ep \<Longrightarrow> ep < k_next (rx_kern s) \<Longrightarrow>
   \<exists>p' s'. start_threads (startLoop sim_envs) i n p s = Inr (p', s') \<and>
     k_interest (rx_kern s') ep fd = k_interest (rx_kern s) ep fd"
proof (induction n arbitrary: i p s)
  case (Suc n)
  let ?k = "rx_kern s" and ?nm = "thread_name (ep_name p) i"
  have n: "0 \<le> k_next ?k" using Suc.prems by simp
  obtain r where r: "EventLoop sim_os False False (k_next ?k) (nat (k_next ?k) + 100) ?k = Inr r"
    by (rule sim_EventLoop [OF n])
  let ?a = "nat (k_next ?k) + 100"
  let ?s = "s\<lparr>sv_loops := (sv_loops s)(?a \<mapsto> rx_loop r), rx_kern := rx_kern r\<rparr>"
  have s: "startLoop sim_envs ?nm s = Inr (?a, ?s)"
    using r by (simp add: startLoop_def make_loop_def sim_envs_def Let_def)
  note K = sim_EventLoop_keeps [OF n r]
  have "ep < k_next (rx_kern ?s)" using K(1) Suc.prems by simp
  note I = Suc.IH [OF Suc.prems(1) this, of "i + 1" "p\<lparr>ep_threads := ep_threads p @ [?nm], ep_loops := ep_loops p @ [?a]\<rparr>"]
  have "k_interest (rx_kern ?s) ep fd = k_interest ?k ep fd" using K(2) Suc.prems by simp
  then show ?case using I s by (auto simp: Let_def)
qed auto

lemma sim_text: "\<not> isl (toIpPort (InetAddress dotted_addr 80 ''127.0.0.1''))"
  by code_simp

lemma start_threads_frame:
  assumes "start_threads (startLoop envs) i n p s = Inr (p', s')"
  shows "\<exists>ls k. s' = s\<lparr>sv_loops := ls, rx_kern := k\<rparr> \<and> ep_numThreads p' = ep_numThreads p"
  using assms
proof (induction n arbitrary: i p s)
  case 0
  then show ?case by (auto intro!: exI [of _ "sv_loops s"] exI [of _ "rx_kern s"])
next
  case (Suc n)
  then show ?case by (force simp: Let_def startLoop_def elim!: res_bindE)
qed

lemma sim_dbserver_made: "\<not> isl sim_dbserver"
proof -
  let ?addr = "InetAddress dotted_addr 80 ''127.0.0.1''"
  obtain r where r: "EventLoop sim_os False False 1 0 sim_kernel = Inr r" and e: "pl_epollfd (lp_poller (rx_loop r)) = 3"
    "k_next (rx_kern r) = 5" "lp_threadId (rx_loop r) = 1" "k_interest (rx_kern r) 3 5 = None"
    by (simp add: EventLoop_def newDefaultPoller_def EPollPoller_def createEventfd_def enableReading_def loop_updateChannel_def
        updateChannel_def Net_Poller.update_def Let_def sim_os_def sim_ctl_def Channel_def set_reading_def set_index_def
        index_consts set_interest_def sim_kernel_def kernel0_def)
  obtain t where t: "toIpPort ?addr = Inr t" using sim_text by (cases "toIpPort ?addr") auto
  obtain s where s: "CDBServer sim_os (sim_tcp kDisconnected) (Some 50) ?addr ''DBServer'' 9 r = Inr s"
    and S: "sv_cur s = 50" "sv_loop s = 50" "rx_loop s = rx_loop r" "k_next (rx_kern s) = 6" "sv_started s = 0" "ep_numThreads (sv_pool s) = 48"
      "k_interest (rx_kern s) 3 5 = None" "ac_channel (sv_acceptor s) = (Channel 9 5)\<lparr>readCallback := Some Acceptor_handleRead\<rparr>"
    using e by (auto simp: CDBServer_def setThreadNum_def pool_setThreadNum_def EventLoopThreadPool_def TcpServer_def t Acceptor_def createNonblocking_def bindAddress_def
          setReusePort_def setReuseAddr_def sim_os_def)
  obtain p s' where p: "start_threads (startLoop sim_envs) 0 48 ((sv_pool s)\<lparr>ep_started := True\<rparr>) (s\<lparr>sv_started := 1\<rparr>) = Inr (p, s')"
    and i: "k_interest (rx_kern s') 3 5 = None"
    using sim_threads_start [of 3 "s\<lparr>sv_started := 1\<rparr>" 0 48 "(sv_pool s)\<lparr>ep_started := True\<rparr>" 5] S by auto
  obtain ls k where f: "s' = s\<lparr>sv_started := 1, sv_loops := ls, rx_kern := k\<rparr>" and n: "ep_numThreads p = 48"
    using start_threads_frame [OF p] S by auto
  have "\<exists>s2. acceptor_listen sim_os (s'\<lparr>sv_pool := p\<rparr>) = Inr s2"
    using i S(3,8) e(1)
    by (simp add: f acceptor_listen_def socket_listen_def on_accept_channel_def enableReading_def loop_updateChannel_def
        updateChannel_def Net_Poller.update_def Let_def sim_os_def sim_ctl_def Channel_def set_reading_def set_index_def index_consts)
  then have "\<exists>s2. CDBServer_start sim_os sim_envs 1 s = Inr s2"
    using p S e(3) n by (auto simp: CDBServer_start_def start_def pool_start_def f with_loop_def runInLoop_def isInLoopThread_def)
  then show ?thesis using r s by (auto simp: sim_dbserver_def)
qed

lemma sim_boot_serves: "\<exists>s. dbproxy_boot sim_machine sim_mysql sim_world sim_strings sim_caches (Some sim_conf) [] = Inr (Serving s)"
proof -
  have "\<not> isl (getInstance sim_mysql (Some sim_conf) None sim_world)"
    "map_option (\<lambda>_. ()) (fst (projr (getInstance sim_mysql (Some sim_conf) None sim_world))) = Some ()" by code_simp+
  then obtain m1 w1 where 1: "getInstance sim_mysql (Some sim_conf) None sim_world = Inr (Some m1, w1)"
    by (cases "getInstance sim_mysql (Some sim_conf) None sim_world") auto
  have "\<not> isl (cache_getInstance sim_strings (Some sim_conf) None sim_caches)"
    "map_option (\<lambda>_. ()) (fst (projr (cache_getInstance sim_strings (Some sim_conf) None sim_caches))) = Some ()" by code_simp+
  then obtain m2 w2 where 2: "cache_getInstance sim_strings (Some sim_conf) None sim_caches = Inr (Some m2, w2)"
    by (cases "cache_getInstance sim_strings (Some sim_conf) None sim_caches") auto
  obtain s where "sim_dbserver = Inr s" by (rule that [of "projr sim_dbserver"]) (simp add: sim_dbserver_made)
  then show ?thesis
    by (auto simp: dbproxy_boot_def 1 2 sim_config sim_dbserver_def sim_machine_def elim!: res_bindE)
qed

section \<open>Properties\<close>

text \<open>C18: A start of the database proxy that does not fault ends in one of three ways: exit code -1, exit
  code -2 for an AES key that is not 32 characters long, or a running server. A server runs only when
  the file names the database and cache instances and all five settings; the socket of its acceptor is
  bound to the configured address and port, listens and is watched by the base loop for the accept handler; it
  has 48 loop threads whatever \<open>ThreadNum\<close> says, no connection yet, and every loop has an epoll instance of its own that watches nothing but the loop's own channels.\<close>

theorem dbproxy_starts_as_configured:
  assumes "machine_ok v d room mc" and "file_entries (fgets_bufs body) = Inr es"
    and "\<not> (length argv = 2 \<and> argv ! 1 = ''-v'')" and "dbproxy_boot mc my dw rd cw (Some body) argv = Inr b"
  shows "case b of
      Exit code \<Rightarrow> code = -1 \<or> code = -2 \<and> (\<exists>key. map_of es ''aesKey'' = Some key \<and> length key \<noteq> 32)
    | Serving s \<Rightarrow>
        map_of es ''DBInstances'' \<noteq> None \<and> map_of es ''CacheInstances'' \<noteq> None \<and>
        map_of es ''ThreadNum'' \<noteq> None \<and> map_of es ''MsfsSite'' \<noteq> None \<and>
        (\<exists>key. map_of es ''aesKey'' = Some key \<and> length key = 32) \<and>
        (\<exists>ip port. map_of es ''ListenIP'' = Some ip \<and> map_of es ''ListenPort'' = Some port \<and>
           serves_on v d (InetAddress (mc_inet_addr mc) (word_of_int (atoi port)) ip) s \<and>
           toIpPort (InetAddress (mc_inet_addr mc) (word_of_int (atoi port)) ip) = Inr (sv_ipPort s)) \<and>
        length (ep_loops (sv_pool s)) = 48 \<and> listening v s"
proof (cases b)
  case (Exit code)
  have "code = -1 \<or> main_config (Some body) = Inr (Inl code)"
    using assms(3,4) unfolding Exit dbproxy_boot_def by (auto elim!: res_bindE split: if_splits sum.splits)
  then show ?thesis unfolding Exit main_config_entries [OF assms(2)] by (auto split: option.splits if_splits)
next
  case (Serving s)
  obtain ip port r s1 where c: "main_config (Some body) = Inr (Inr (ip, port))"
    and ev: "EventLoop (mc_os mc) False False (mc_tid mc) (mc_wptr mc) (mc_kern mc) = Inr r"
    and s1: "CDBServer (mc_os mc) (mc_obj0 mc) (Some (mc_loop mc)) (InetAddress (mc_inet_addr mc) port ip) ''DBServer'' (mc_aptr mc) r = Inr s1"
    and st: "CDBServer_start (mc_os mc) (mc_envs mc) (mc_tid mc) s1 = Inr s"
    using assms(1,3,4) unfolding Serving dbproxy_boot_def machine_ok_def by (auto elim!: res_bindE split: if_splits sum.splits)
  obtain m1 dw1 m2 cw1 where i: "getInstance my (Some body) None dw = Inr (Some m1, dw1)"
    "cache_getInstance rd (Some body) None cw = Inr (Some m2, cw1)"
    using assms(3,4) unfolding Serving dbproxy_boot_def by (auto elim!: res_bindE split: if_splits)
  obtain cfg where "CConfigFileReader (Some body) ''dbproxyserver.conf'' = Inr cfg" "\<forall>key. GetConfigName cfg key = Inr (map_of es key)"
    by (rule reader_of_entries [OF assms(2), of "''dbproxyserver.conf''"]) blast
  then have "map_of es ''DBInstances'' \<noteq> None" "map_of es ''CacheInstances'' \<noteq> None"
    using i by (cases "map_of es ''DBInstances''"; cases "map_of es ''CacheInstances''";
        simp add: getInstance_def cache_getInstance_def manager_Init_def cache_manager_Init_def)+
  moreover have "sock_ok (mc_os mc) v" "os_ok (mc_os mc) v" "addresses_ok (mc_os mc) d" "envs_ok (mc_os mc) room (mc_envs mc)" "room (\<lambda>b. loop_at b s1) (rx_kern s1)"
    using assms(1) ev s1 unfolding machine_ok_def by blast+
  note S = CDBServer_starts [OF this(2,1,3,4) ev s1 this(5) st]
  ultimately show ?thesis
    using c S unfolding Serving main_config_entries [OF assms(2)] by (auto split: option.splits if_splits)
qed

theorem dbproxy_starts_as_configured_witness:
  "\<exists>s. dbproxy_boot sim_machine sim_mysql sim_world sim_strings sim_caches (Some sim_conf) [] = Inr (Serving s) \<and>
     serves_on sim_view sim_addresses (InetAddress dotted_addr (word_of_int (atoi ''80'')) ''127.0.0.1'') s \<and>
     toIpPort (InetAddress dotted_addr (word_of_int (atoi ''80'')) ''127.0.0.1'') = Inr (sv_ipPort s) \<and>
     length (ep_loops (sv_pool s)) = 48 \<and> listening sim_view s"
proof -
  obtain s where s: "dbproxy_boot sim_machine sim_mysql sim_world sim_strings sim_caches (Some sim_conf) [] = Inr (Serving s)"
    using sim_boot_serves by blast
  have "\<not> isl (file_entries (fgets_bufs sim_conf))" by code_simp
  then obtain es where es: "file_entries (fgets_bufs sim_conf) = Inr es" by (cases "file_entries (fgets_bufs sim_conf)") auto
  have "map_of (projr (file_entries (fgets_bufs sim_conf))) ''ListenIP'' = Some ''127.0.0.1''"
    "map_of (projr (file_entries (fgets_bufs sim_conf))) ''ListenPort'' = Some ''80''" by code_simp+
  then have m: "map_of es ''ListenIP'' = Some ''127.0.0.1''" "map_of es ''ListenPort'' = Some ''80''"
    by (simp_all add: es)
  have i: "mc_inet_addr sim_machine = dotted_addr" by (simp add: sim_machine_def)
  have "\<not> (length [] = 2 \<and> [] ! 1 = ''-v'')" by simp
  from dbproxy_starts_as_configured [OF sim_machine_ok es this s] s m i show ?thesis by auto
qed

end
