(* ===== verification/Spec2Isabelle.thy ===== *)
theory Spec2Isabelle
  imports Net_Buffer Net_Channel Net_Address Net_Poller Net_EventLoop Net_Connection Net_LoopThread
    Net_Server Net_Lifetime Net_ServerLoop Net_Echo Net_Sound Net_Run Net_Stream Msg_Server Base_Thread Base_ThreadPool Base_Tasks Base_Log Base_Config Base_Explode
    Conn_Pool Db_Pool Db_Cache Db_Login Db_Main
begin

text \<open>
  A verification development for the talk system, a chat back end in C++: the reactor library under
  \<open>src/common/net\<close>, the base library under \<open>src/common/base\<close>, the database proxy under
  \<open>src/db_proxy_server\<close> and the echo server under \<open>src/test/echoserver\<close>.

  \<^bold>\<open>How the program works.\<close> A \<open>TcpServer\<close> owns a base loop with an \<open>Acceptor\<close> and a pool of further loop
  threads. A loop polls its \<open>EPollPoller\<close>, dispatches the active \<open>Channel\<close>s and then runs the closures
  other threads queued, which wake it through an eventfd. An accepted descriptor becomes a
  \<open>TcpConnection\<close> that lives on one loop, chosen in turn, with a \<open>Buffer\<close> for each direction; closing it
  takes a closure on the base loop (out of the connection map) and one on its own loop (out of the poller).
  The proxy reads a configuration file, opens pools of MySQL and Redis connections and starts such a
  server; a login check queries a slave database.

  \<^bold>\<open>How it is modelled.\<close> Objects are records, members are functions on them. A call answers a value or a
  \<open>fault\<close> (\<open>Talk_Prelude\<close>): fatal exit, length error, empty \<open>std::function\<close>, another
  uncaught exception, undefined behaviour. Numbers
  keep their width where the code can overflow. The system calls, libmysqlclient, hiredis and the
  application's callbacks are arguments; what is documented about them are the hypotheses \<open>os_ok\<close>,
  \<open>sock_ok\<close>, \<open>sockets_ok\<close>, \<open>addresses_ok\<close>, \<open>fetch_ok\<close>, \<open>escape_ok\<close>, \<open>inet_addr_ok\<close>, \<open>redis_strings\<close>, \<open>callbacks_ok\<close> and
  \<open>envs_ok\<close>, each satisfied by a small simulator (\<open>sim_os\<close>, \<open>sim_mysql\<close>, \<open>sim_redis\<close>, \<open>sim_envs\<close> and others) that the witnesses run. Threads are
  step relations. A loop that may run forever (\<open>loop_while\<close>, and \<open>read_rows\<close>, which fetches as long as the client
  library has rows) is a partial function whose missing value means that it does not return. \<open>fetch_all\<close>, which only
  statements use, has the number of rows plus one as fuel; no other definition needs a bound.

  \<^bold>\<open>Theories.\<close>
  \<^item> \<open>Talk_Prelude\<close>: faults, \<open>size_t\<close> arithmetic, vectors, decimal printing and reading, C texts.
  \<^item> \<open>Net_Buffer\<close> (\<open>Buffer.h/.cc\<close>): the byte buffer; its contract is the locale \<open>byte_queue\<close>, and every
    sequence of operations behaves as a queue of bytes and never overruns the vector.
  \<^item> \<open>Net_Channel\<close> (\<open>Channel.h/.cc\<close>): event masks, dispatch order, the weak tie to the owner.
  \<^item> \<open>Net_Address\<close> (\<open>InetAddress.cc\<close>): construction and printing, within the scratch buffer.
  \<^item> \<open>Net_Os\<close>: the system calls as an argument, with \<open>os_ok\<close> and \<open>sim_os\<close>.
  \<^item> \<open>Net_Poller\<close> (\<open>Poller.cc\<close>, \<open>EPollPoller.cc\<close>, \<open>DefaultPoller.cc\<close>): index, channel map and kernel interest
    list stay in step (locale \<open>registrar\<close>); \<open>poll\<close> answers registered channels only.
  \<^item> \<open>Net_EventLoop\<close> (\<open>EventLoop.cc\<close>): the closure queue under every interleaving, with the push and the wake-up of
    \<open>queueInLoop\<close> as separate steps: closures run once and in order, the loop never blocks on work without a
    wake-up that is readable or on its way, what the threads do of themselves ends with every closure run, and a loop that
    is asked to quit returns; and the locale \<open>loop_work\<close> for closures that keep an invariant.
  \<^item> \<open>Net_Connection\<close> (\<open>TcpConnection.cc\<close>, \<open>Socket.cc\<close>): one connection on its loop: the bytes sent arrive in
    order (a text the kernel answers with \<open>EPIPE\<close> or \<open>ECONNRESET\<close> is dropped), input is delivered, a closed connection is unregistered.
  \<^item> \<open>Net_LoopThread\<close> (\<open>EventLoopThread.cc\<close>, \<open>EventLoopThreadPool.cc\<close>): the hand-over of a loop between two
    threads, the destructor, the round robin.
  \<^item> \<open>Net_Server\<close> (\<open>Acceptor.cc\<close>, \<open>Socket.cc\<close>, \<open>TcpServer.cc\<close>, \<open>DBServer.cc\<close>, \<open>test/echoserver/main.cpp\<close>): the server
    with all its loops and connection objects; its connection map, new and removed connections, the two
    servers built on it.
  \<^item> \<open>Net_Lifetime\<close>: the protocol that makes it safe to free a connection, as an abstract state with an
    invariant and the transitions that keep it.
  \<^item> \<open>Net_ServerLoop\<close>: the turns of every loop of a server, all threads interleaved, shown to follow that
    protocol. The locale \<open>application\<close> is what callbacks have to keep.
  \<^item> \<open>Net_Echo\<close> (\<open>test/echoserver/main.cpp\<close>): the echo server interprets \<open>application\<close>; from its constructors
    on, no channel, closure or map entry dangles. A server that has started is bound to its address, listens and is
    watched by its base loop (\<open>serves_on\<close>).
  \<^item> \<open>Net_Sound\<close>: no member function of a connection is undefined behaviour or calls an empty function, and none
    takes the state of its connection back; the locale \<open>sound_application\<close> extends \<open>application\<close> by what this takes
    of the callbacks.
  \<^item> \<open>Net_Run\<close>: the same of every step of every loop thread of a running server.
  \<^item> \<open>Net_Stream\<close>: the bytes on all sockets of a running echo server; a connection never writes to the socket of
    another one, and what it writes is a prefix of what it read.
  \<^item> \<open>Msg_Server\<close> (\<open>msgserver.cpp\<close>, \<open>TcpSession.h\<close>): the callbacks of the message server, a second interpretation
    of \<open>application\<close> with \<open>json::parse\<close> as an argument; the weak pointer of a session.
  \<^item> \<open>Base_Thread\<close> (\<open>Thread.cc\<close>, \<open>CurrentThread.cc\<close>, \<open>Any.h\<close>, \<open>Semaphore.h\<close>, \<open>Task.cc\<close>) and \<open>Base_ThreadPool\<close>
    (\<open>ThreadPool.h/.cc\<close>): the hand-over of results; tasks run once and in order, the fixed pool drains, the
    cached pool can block its destructor. \<open>Base_Tasks\<close> (\<open>test/threadpool/main.cpp\<close>): tasks, futures and a whole
    program on a pool, which can always end.
  \<^item> \<open>Base_Log\<close> (\<open>Logger.h/.cc\<close>, \<open>Timestamp.cc\<close>, clock functions of \<open>util.cc\<close>): the form of a log line, the race
    on the level, the bounds of the clock arithmetic; the programs under \<open>test/log\<close> and \<open>test/test_redis\<close>.
  \<^item> \<open>Base_Config\<close> (\<open>CConfigFileReader.cc\<close>) and \<open>Base_Explode\<close> (\<open>util.cc\<close>): reading and writing the
    configuration, cutting a text at separators.
  \<^item> \<open>Conn_Pool\<close>: the contract of the two connection pools, the locale \<open>conn_pool\<close>; \<open>Db_Pool\<close> (\<open>DBPool.h/.cc\<close>)
    and \<open>Db_Cache\<close> (\<open>CachePool.h/.cc\<close>) interpret it and model result sets, statements, every cache command
    and the managers.
  \<^item> \<open>Db_Login\<close> (\<open>business/InterLogin.cc\<close>): the login check on a slave connection.
  \<^item> \<open>Db_Main\<close> (\<open>db_proxy_server.cc\<close>): \<open>main\<close> from its arguments to the loop, with every exit code; a start that
    succeeds gives the configured server in the initial state of \<open>Net_ServerLoop\<close>.

  \<^bold>\<open>Simplifications.\<close> Printing and log messages are left out of the components (the log itself is
  \<open>Base_Log\<close>), so is \<open>pollReturnTime_\<close>. On a server \<open>startLoop\<close> is one call that answers with the loop the new thread has
  made; \<open>Net_LoopThread\<close> has the hand-over in full and shows that this is the state in which the pointer is
  published. Code under one mutex is one step. A step of a loop thread in \<open>Net_ServerLoop\<close> is one poll, one event handler or one
  closure, and there a \<open>queueInLoop\<close> into another loop is part of that step: a poll may return at any moment in that relation,
  whatever the wake-up counter is, so none of its statements depends on when the wake-up is written; the
  statements that do are those of \<open>Net_EventLoop\<close>. A step that reclaims an idle thread of a cached \<open>ThreadPool\<close> may happen
  at any time-out, not only after 60 idle seconds: there is no clock, and more interleavings are covered than the code has.

  \<^bold>\<open>Not modelled.\<close> The constructor and \<open>main\<close> of \<open>msg_server\<close>, which do not compile and which no target builds;
  \<open>HandleMap\<close>, \<open>SyncCenter\<close>, \<open>Login\<close>, \<open>AudioModel\<close>, \<open>ImPduBase\<close> and the rest of \<open>TcpSession\<close> are declarations
  without code; \<open>include/json/json.h\<close> and \<open>thirdparty/protobuf-2.6.1\<close> are vendored, \<open>include/protocol\<close> and \<open>pb\<close>
  generated.

  \<^bold>\<open>What is left open.\<close> The destructor of a server is modelled (\<open>TcpServer_dtor\<close>) but is not a step of the interleaving
  of \<open>Net_ServerLoop\<close>, and nothing is said about fairness between the loop threads: that a running echo server
  does answer is shown for one connection and one event (\<open>echo_returns_input\<close>).
\<close>

end
